(* ===== verification/Gm_Prelude.thy ===== *)
theory Gm_Prelude
  imports Main "HOL-Library.Word"
begin

unbundle bit_operations_syntax

section \<open>Prelude: machine types, byte strings and shared lemmas\<close>

text \<open>
  The types and the generic lemmas that every component of the gmker development shares:
  the fixed-width integers of the C sources as words, byte buffers as lists of bytes,
  C strings, little-endian stores, and the overwrite operation that stands for a
  \<^verbatim>\<open>memcpy\<close> into a fixed array.
\<close>

type_synonym u8 = "8 word"
type_synonym u16 = "16 word"
type_synonym u32 = "32 word"
type_synonym u64 = "64 word"

type_synonym bytes = "u8 list"

text \<open>
  A C string is the list of its bytes without the terminating NUL. Reading the byte a
  pointer points at gives the head of the list, and NUL at its end.
\<close>

type_synonym cstr = "u8 list"

definition cur :: "cstr \<Rightarrow> u8" where
  "cur s = (case s of [] \<Rightarrow> 0 | c # _ \<Rightarrow> c)"

lemma cur_simps [simp]: "cur [] = 0" "cur (c # s) = c"
  by (simp_all add: cur_def)

definition cstr_ok :: "cstr \<Rightarrow> bool" where
  "cstr_ok s \<longleftrightarrow> 0 \<notin> set s"

lemma cstr_ok_simps [simp]:
  "cstr_ok []" "cstr_ok (c # s) \<longleftrightarrow> c \<noteq> 0 \<and> cstr_ok s" "cstr_ok (s @ t) \<longleftrightarrow> cstr_ok s \<and> cstr_ok t"
  by (auto simp: cstr_ok_def)

lemma cur_eq_0 [simp]: "cstr_ok s \<Longrightarrow> cur s = 0 \<longleftrightarrow> s = []"
  by (cases s) auto

text \<open>String literals of the sources, as bytes.\<close>

definition asc :: "string \<Rightarrow> bytes" where
  "asc s = map of_char s"

lemma asc_simps [simp]: "asc [] = []" "asc (c # s) = of_char c # asc s" "asc (s @ t) = asc s @ asc t"
  by (simp_all add: asc_def)

lemma length_asc [simp]: "length (asc s) = length s"
  by (simp add: asc_def)

lemma asc_example: "asc ''OK 0'' = [79, 75, 32, 48]"
  by simp

subsection \<open>Collections of facts\<close>

named_theorems clock_frame \<open>what an operation leaves of the tick counter and its environment\<close>
named_theorems dev_frame \<open>what an operation leaves of the network device\<close>
named_theorems net_frame \<open>what an operation leaves of the network layer\<close>
named_theorems app_frame \<open>what an operation leaves of the application table\<close>

subsection \<open>Words\<close>

lemma unat_ucast_up:
  "LENGTH('a::len) \<le> LENGTH('b::len) \<Longrightarrow> unat (ucast (w :: 'a word) :: 'b word) = unat w"
  by (simp add: unsigned_ucast_eq take_bit_nat_eq_self_iff)
    (meson unsigned_less less_le_trans power_increasing one_le_numeral)

lemma unat_widen [simp]:
  "unat (ucast (a :: u8) :: u16) = unat a" "unat (ucast (a :: u8) :: u32) = unat a"
  "unat (ucast (a :: u8) :: u64) = unat a" "unat (ucast (b :: u16) :: u32) = unat b"
  "unat (ucast (b :: u16) :: u64) = unat b" "unat (ucast (c :: u32) :: u64) = unat c"
  by (simp_all add: unat_ucast_up)

lemma unat_bounds:
  "unat (a :: u8) < 256" "unat (b :: u16) < 65536" "unat (c :: u32) < 4294967296"
  "unat (d :: u64) < 18446744073709551616"
  using unsigned_less [of a, where ?'a = nat] unsigned_less [of b, where ?'a = nat]
    unsigned_less [of c, where ?'a = nat] unsigned_less [of d, where ?'a = nat] by simp_all

subsection \<open>Fixed arrays\<close>

text \<open>\<open>overwrite xs i ys\<close>: the bytes \<open>ys\<close> copied into the array \<open>xs\<close> at index \<open>i\<close>.\<close>

definition overwrite :: "'a list \<Rightarrow> nat \<Rightarrow> 'a list \<Rightarrow> 'a list" where
  "overwrite xs i ys = take i xs @ ys @ drop (i + length ys) xs"

lemma length_overwrite [simp]: "i + length ys \<le> length xs \<Longrightarrow> length (overwrite xs i ys) = length xs"
  by (simp add: overwrite_def)

lemma overwrite_Nil [simp]: "overwrite xs i [] = xs"
  by (simp add: overwrite_def)

lemma nth_overwrite:
  assumes "i + length ys \<le> length xs" and "k < length xs"
  shows "overwrite xs i ys ! k = (if i \<le> k \<and> k < i + length ys then ys ! (k - i) else xs ! k)"
  using assms by (auto simp: overwrite_def nth_append min_def not_less)

lemma slice_overwrite [simp]:
  "i + length ys \<le> length xs \<Longrightarrow> take (length ys) (drop i (overwrite xs i ys)) = ys"
  by (simp add: overwrite_def)

subsection \<open>Machine stores\<close>

text \<open>The byte image of a value in the memory of the (little-endian) target.\<close>

definition le16 :: "u16 \<Rightarrow> bytes" where
  "le16 w = [ucast w, ucast (drop_bit 8 w)]"

definition le32 :: "u32 \<Rightarrow> bytes" where
  "le32 w = [ucast w, ucast (drop_bit 8 w), ucast (drop_bit 16 w), ucast (drop_bit 24 w)]"

definition rd16le :: "u8 \<Rightarrow> u8 \<Rightarrow> u16" where
  "rd16le a b = ucast a OR push_bit 8 (ucast b)"

definition rd32le :: "u8 \<Rightarrow> u8 \<Rightarrow> u8 \<Rightarrow> u8 \<Rightarrow> u32" where
  "rd32le a b c d = ucast a OR push_bit 8 (ucast b) OR push_bit 16 (ucast c) OR push_bit 24 (ucast d)"

lemma length_le [simp]: "length (le16 w) = 2" "length (le32 v) = 4"
  by (simp_all add: le16_def le32_def)

lemma rd16le_le16 [simp]: "rd16le (ucast w) (ucast (drop_bit 8 w)) = w"
  by (rule bit_word_eqI) (auto simp: rd16le_def bit_simps)

lemma rd32le_le32 [simp]:
  "rd32le (ucast w) (ucast (drop_bit 8 w)) (ucast (drop_bit 16 w)) (ucast (drop_bit 24 w)) = w"
proof (rule bit_word_eqI)
  fix n
  assume "n < LENGTH(32)"
  then consider "n < 8" | "8 \<le> n \<and> n < 16" | "16 \<le> n \<and> n < 24" | "24 \<le> n \<and> n < 32"
    by fastforce
  then show "bit (rd32le (ucast w) (ucast (drop_bit 8 w)) (ucast (drop_bit 16 w))
      (ucast (drop_bit 24 w))) n = bit w n"
    by cases (auto simp: rd32le_def bit_simps)
qed

subsection \<open>Operations that may end in a panic\<close>

text \<open>
  \<^verbatim>\<open>gm_panic\<close> prints its message and halts for good. An operation that can reach it has a result of
  this type.
\<close>

datatype 'a outcome = Ok 'a | Panic string

fun and_then :: "'a outcome \<Rightarrow> ('a \<Rightarrow> 'b outcome) \<Rightarrow> 'b outcome" where
  "and_then (Ok x) f = f x"
| "and_then (Panic e) f = Panic e"

lemma and_then_Ok: "and_then m f = Ok y \<longleftrightarrow> (\<exists>x. m = Ok x \<and> f x = Ok y)"
  by (cases m) auto

lemma and_then_assoc: "and_then (and_then m f) g = and_then m (\<lambda>x. and_then (f x) g)"
  by (cases m) auto

end
