(* ===== verification/Core_Runtime.thy ===== *)
theory Core_Runtime
  imports Gm_Prelude
begin

unbundle bit_operations_syntax

section \<open>Runtime support (\<^verbatim>\<open>core.c\<close>: memory, strings, numbers, console, clock)\<close>

text \<open>
  The freestanding runtime at the top of \<^verbatim>\<open>core.c\<close>. A pointer to a C string that the
  code tests against NULL is a \<^typ>\<open>cstr option\<close>. An output parameter that is only
  meaningful on success is part of an option result.
\<close>

subsection \<open>Memory blocks\<close>

text \<open>
  The copy, fill and compare loops run an index from 0 to \<open>len\<close>. The destination pointer
  is an array and an offset into it.
\<close>

function memcpy_loop :: "bytes \<Rightarrow> nat \<Rightarrow> bytes \<Rightarrow> nat \<Rightarrow> nat \<Rightarrow> bytes" where
  "memcpy_loop d off s len i =
     (if i < len then memcpy_loop (d[off + i := s ! i]) off s len (i + 1) else d)"
  by pat_completeness auto
termination
  by (relation "measure (\<lambda>(d, off, s, len, i). len - i)") auto

declare memcpy_loop.simps [simp del]

definition gm_memcpy :: "bytes \<Rightarrow> nat \<Rightarrow> bytes \<Rightarrow> nat \<Rightarrow> bytes" where
  "gm_memcpy d off s len = memcpy_loop d off s len 0"

function memset_loop :: "bytes \<Rightarrow> nat \<Rightarrow> u8 \<Rightarrow> nat \<Rightarrow> nat \<Rightarrow> bytes" where
  "memset_loop d off v len i =
     (if i < len then memset_loop (d[off + i := v]) off v len (i + 1) else d)"
  by pat_completeness auto
termination
  by (relation "measure (\<lambda>(d, off, v, len, i). len - i)") auto

declare memset_loop.simps [simp del]

definition gm_memset :: "bytes \<Rightarrow> nat \<Rightarrow> u8 \<Rightarrow> nat \<Rightarrow> bytes" where
  "gm_memset d off v len = memset_loop d off v len 0"

function memeq_loop :: "bytes \<Rightarrow> bytes \<Rightarrow> nat \<Rightarrow> nat \<Rightarrow> bool" where
  "memeq_loop a b len i =
     (if i < len then (if a ! i \<noteq> b ! i then False else memeq_loop a b len (i + 1)) else True)"
  by pat_completeness auto
termination
  by (relation "measure (\<lambda>(a, b, len, i). len - i)") auto

declare memeq_loop.simps [simp del]

definition gm_memeq :: "bytes \<Rightarrow> bytes \<Rightarrow> nat \<Rightarrow> bool" where
  "gm_memeq a b len = memeq_loop a b len 0"

lemma overwrite_step:
  assumes "i < length ys" and "off + length ys \<le> length d"
  shows "overwrite (d[off + i := ys ! i]) (off + Suc i) (drop (Suc i) ys) =
         overwrite d (off + i) (drop i ys)"
proof -
  have "drop i ys = ys ! i # drop (Suc i) ys" by (simp add: assms(1) Cons_nth_drop_Suc)
  moreover have "take (off + Suc i) (d[off + i := ys ! i]) = take (off + i) d @ [ys ! i]"
    using assms by (simp add: take_Suc_conv_app_nth)
  ultimately show ?thesis
    using assms by (simp add: overwrite_def)
qed

lemma memcpy_loop_overwrite:
  assumes "i \<le> len" and "len \<le> length s" and "off + len \<le> length d"
  shows "memcpy_loop d off s len i = overwrite d (off + i) (drop i (take len s))"
  using assms
proof (induction d off s len i rule: memcpy_loop.induct)
  case (1 d off s len i)
  show ?case
  proof (cases "i < len")
    case True
    have "overwrite (d[off + i := s ! i]) (off + Suc i) (drop (Suc i) (take len s)) =
        overwrite d (off + i) (drop i (take len s))"
      using overwrite_step [of i "take len s" off d] True 1(3,4) by simp
    with 1 True show ?thesis
      by (simp add: memcpy_loop.simps [of d off s len i])
  next
    case False
    with 1(2-) show ?thesis by (subst memcpy_loop.simps) simp
  qed
qed

lemma gm_memcpy_overwrite:
  "len \<le> length s \<Longrightarrow> off + len \<le> length d \<Longrightarrow> gm_memcpy d off s len = overwrite d off (take len s)"
  by (simp add: gm_memcpy_def memcpy_loop_overwrite)

lemma memset_loop_overwrite:
  assumes "i \<le> len" and "off + len \<le> length d"
  shows "memset_loop d off v len i = overwrite d (off + i) (replicate (len - i) v)"
  using assms
proof (induction d off v len i rule: memset_loop.induct)
  case (1 d off v len i)
  show ?case
  proof (cases "i < len")
    case True
    with 1 overwrite_step [of i "replicate len v" off d] show ?thesis
      by (simp add: memset_loop.simps [of d off v len i])
  next
    case False
    with 1(2-) show ?thesis by (subst memset_loop.simps) simp
  qed
qed

lemma gm_memset_overwrite:
  "off + len \<le> length d \<Longrightarrow> gm_memset d off v len = overwrite d off (replicate len v)"
  by (simp add: gm_memset_def memset_loop_overwrite)

lemma memeq_loop_iff: "memeq_loop a b len i \<longleftrightarrow> (\<forall>k. i \<le> k \<and> k < len \<longrightarrow> a ! k = b ! k)"
proof (induction a b len i rule: memeq_loop.induct)
  case (1 a b len i)
  have "(\<forall>k. i \<le> k \<and> k < len \<longrightarrow> a ! k = b ! k) \<longleftrightarrow>
      a ! i = b ! i \<and> (\<forall>k. i + 1 \<le> k \<and> k < len \<longrightarrow> a ! k = b ! k)" if "i < len"
    using that by (metis Suc_eq_plus1 Suc_leD Suc_leI le_neq_implies_less order_refl)
  with 1 show ?case
    by (subst memeq_loop.simps) auto
qed

lemma gm_memeq_iff: "gm_memeq a b len \<longleftrightarrow> (\<forall>k < len. a ! k = b ! k)"
  by (auto simp: gm_memeq_def memeq_loop_iff)

subsection \<open>C strings\<close>

fun strlen_loop :: "cstr \<Rightarrow> nat \<Rightarrow> nat" where
  "strlen_loop [] n = n"
| "strlen_loop (c # s) n = (if c = 0 then n else strlen_loop s (n + 1))"

definition gm_strlen :: "cstr option \<Rightarrow> nat" where
  "gm_strlen p = (case p of None \<Rightarrow> 0 | Some s \<Rightarrow> strlen_loop s 0)"

fun streq_loop :: "cstr \<Rightarrow> cstr \<Rightarrow> bool" where
  "streq_loop (a # s) (b # t) =
     (if a \<noteq> 0 \<and> b \<noteq> 0 then (if a \<noteq> b then False else streq_loop s t) else a = b)"
| "streq_loop s t = (cur s = cur t)"

definition gm_streq :: "cstr option \<Rightarrow> cstr option \<Rightarrow> bool" where
  "gm_streq a b = (case (a, b) of (Some s, Some t) \<Rightarrow> streq_loop s t | _ \<Rightarrow> False)"

fun starts_loop :: "cstr \<Rightarrow> cstr \<Rightarrow> bool" where
  "starts_loop s [] = True"
| "starts_loop s (p # ps) =
     (if p = 0 then True else if cur s \<noteq> p then False else starts_loop (tl s) ps)"

definition gm_starts :: "cstr option \<Rightarrow> cstr option \<Rightarrow> bool" where
  "gm_starts s prefix = (case (s, prefix) of (Some s, Some p) \<Rightarrow> starts_loop s p | _ \<Rightarrow> False)"

lemma strlen_loop_length: "cstr_ok s \<Longrightarrow> strlen_loop s n = n + length s"
  by (induction s arbitrary: n) auto

lemma gm_strlen_Some [simp]: "cstr_ok s \<Longrightarrow> gm_strlen (Some s) = length s"
  by (simp add: gm_strlen_def strlen_loop_length)

lemma gm_strlen_None [simp]: "gm_strlen None = 0"
  by (simp add: gm_strlen_def)

lemma streq_loop_iff: "cstr_ok s \<Longrightarrow> cstr_ok t \<Longrightarrow> streq_loop s t \<longleftrightarrow> s = t"
  by (induction s t rule: streq_loop.induct) auto

lemma gm_streq_iff [simp]: "cstr_ok s \<Longrightarrow> cstr_ok t \<Longrightarrow> gm_streq (Some s) (Some t) \<longleftrightarrow> s = t"
  by (simp add: gm_streq_def streq_loop_iff)

lemma starts_loop_iff: "cstr_ok p \<Longrightarrow> starts_loop s p \<longleftrightarrow> take (length p) s = p"
proof (induction s p rule: starts_loop.induct)
  case (2 s p ps)
  then show ?case by (cases s) auto
qed simp

lemma gm_starts_iff [simp]: "cstr_ok p \<Longrightarrow> gm_starts (Some s) (Some p) \<longleftrightarrow> take (length p) s = p"
  by (simp add: gm_starts_def starts_loop_iff)

end
