(* ===== verification/Core_Numbers.thy ===== *)
theory Core_Numbers
  imports Core_Runtime
begin

unbundle bit_operations_syntax

section \<open>Numbers, addresses and byte order (\<^verbatim>\<open>core.c\<close>)\<close>

text \<open>
  The decimal parser and printer, the dotted-quad parser and printer and the byte-order
  swaps of \<^verbatim>\<open>core.c\<close>, with the reference notions they are compared with: the value of a
  digit string (\<open>dec_val\<close>) and the decimal representation of a number (\<open>dec_bytes\<close>).
\<close>

subsection \<open>Reference notions\<close>

text \<open>\<open>is_digit c\<close> is the test \<^verbatim>\<open>c>='0' && c<='9'\<close> of the sources.\<close>

definition is_digit :: "u8 \<Rightarrow> bool" where
  "is_digit c \<longleftrightarrow> 48 \<le> c \<and> c \<le> 57"

definition dec_step :: "nat \<Rightarrow> u8 \<Rightarrow> nat" where
  "dec_step v c = v * 10 + unat (c - 48)"

definition dec_val :: "bytes \<Rightarrow> nat" where
  "dec_val ds = foldl dec_step 0 ds"

fun dec_bytes :: "nat \<Rightarrow> bytes" where
  "dec_bytes n = (if n < 10 then [48 + of_nat n] else dec_bytes (n div 10) @ [48 + of_nat (n mod 10)])"

declare dec_bytes.simps [simp del]

lemma is_digit_unat: "is_digit c \<longleftrightarrow> 48 \<le> unat c \<and> unat c \<le> 57"
  by (simp add: is_digit_def word_le_nat_alt)

lemma unat_digit: "is_digit c \<Longrightarrow> unat (c - 48) = unat c - 48"
  by (simp add: is_digit_def unat_sub)

lemma unat_digit_less: "is_digit c \<Longrightarrow> unat (c - 48) < 10"
  by (simp add: unat_digit is_digit_unat) arith

lemma digit_of_nat:
  assumes "d < 10"
  shows "is_digit (48 + of_nat d)" and "unat ((48 + of_nat d :: u8) - 48) = d"
proof -
  have "unat (48 + of_nat d :: u8) = 48 + d"
    using assms by (simp add: unat_word_ariths unat_of_nat)
  then show "is_digit (48 + of_nat d)" using assms by (simp add: is_digit_unat)
  show "unat ((48 + of_nat d :: u8) - 48) = d" using assms by (simp add: unat_of_nat)
qed

lemma digit_not_0: "is_digit c \<Longrightarrow> c \<noteq> 0"
  by (auto simp: is_digit_def)

lemma foldl_dec_step_ge: "v \<le> foldl dec_step v ds"
proof (induction ds arbitrary: v)
  case (Cons d ds)
  have "v \<le> dec_step v d" by (simp add: dec_step_def)
  also have "\<dots> \<le> foldl dec_step (dec_step v d) ds" by (rule Cons.IH)
  finally show ?case by simp
qed simp

lemma dec_val_snoc [simp]: "dec_val (ds @ [d]) = dec_val ds * 10 + unat (d - 48)"
  by (simp add: dec_val_def dec_step_def)

lemma dec_val_dec_bytes [simp]: "dec_val (dec_bytes n) = n"
proof (induction n rule: dec_bytes.induct)
  case (1 n)
  show ?case
  proof (cases "n < 10")
    case True
    then show ?thesis
      by (subst dec_bytes.simps) (simp add: dec_val_def dec_step_def unat_of_nat)
  next
    case False
    then have "dec_val (dec_bytes n) = dec_val (dec_bytes (n div 10)) * 10 + n mod 10"
      by (subst dec_bytes.simps) (simp add: unat_of_nat)
    with 1 False show ?thesis by simp
  qed
qed

lemma dec_bytes_digits: "c \<in> set (dec_bytes n) \<Longrightarrow> is_digit c"
proof (induction n rule: dec_bytes.induct)
  case (1 n)
  then show ?case
    by (subst (asm) (2) dec_bytes.simps) (auto simp: digit_of_nat split: if_splits)
qed

lemma dec_bytes_not_Nil [simp]: "dec_bytes n \<noteq> []"
  by (subst dec_bytes.simps) simp

lemma dec_bytes_cstr_ok [simp]: "cstr_ok (dec_bytes n)"
  using dec_bytes_digits digit_not_0 by (auto simp: cstr_ok_def)

lemma dec_bytes_inject [simp]: "dec_bytes m = dec_bytes n \<longleftrightarrow> m = n"
  by (metis dec_val_dec_bytes)

lemma length_dec_bytes: "n < 10 ^ Suc k \<Longrightarrow> length (dec_bytes n) \<le> Suc k"
proof (induction k arbitrary: n)
  case 0
  then show ?case by (subst dec_bytes.simps) simp
next
  case (Suc k)
  then have "n div 10 < 10 ^ Suc k" by (simp add: less_mult_imp_div_less mult.commute)
  from Suc.IH [OF this] show ?case by (subst dec_bytes.simps) simp
qed

lemma length_dec_bytes_u64: "length (dec_bytes (unat (w :: u64))) \<le> 20"
    using length_dec_bytes [of "unat w" 19] unat_bounds(4) [of w] by simp

lemma takeWhile_dec_bytes:
  "\<not> is_digit (cur r) \<Longrightarrow> takeWhile is_digit (dec_bytes n @ r) = dec_bytes n"
  "\<not> is_digit (cur r) \<Longrightarrow> dropWhile is_digit (dec_bytes n @ r) = r"
  using dec_bytes_digits [of _ n] by (cases r; auto simp: takeWhile_append dropWhile_append)+

subsection \<open>Decimal parsing with an overflow check\<close>

fun parse_u64_loop :: "cstr \<Rightarrow> u64 \<Rightarrow> nat \<Rightarrow> u64 \<times> bool" where
  "parse_u64_loop [] value digits = (value, digits \<noteq> 0)"
| "parse_u64_loop (c # s) value digits =
     (if is_digit c then
        let digit = ucast (c - 48) in
        if value > 1844674407370955161 \<or> (value = 1844674407370955161 \<and> digit > 5) then (0, False)
        else parse_u64_loop s (value * 10 + digit) (digits + 1)
      else (value, digits \<noteq> 0))"

definition gm_parse_u64 :: "cstr \<Rightarrow> u64 \<times> bool" where
  "gm_parse_u64 s = parse_u64_loop s 0 0"

text \<open>The overflow test of the parsers is exact: it refuses just the digits that do not fit.\<close>

lemma u64_overflow_test:
  fixes v d :: u64
  assumes "unat d < 10"
  shows "v > 1844674407370955161 \<or> (v = 1844674407370955161 \<and> d > 5) \<longleftrightarrow>
         \<not> unat v * 10 + unat d < 2 ^ 64"
  using assms by (simp add: word_less_nat_alt word_unat_eq_iff) arith

lemma u64_digit_step:
  assumes "v < 2 ^ 64" and "is_digit c" and "dec_step v c < 2 ^ 64"
  shows "(of_nat v :: u64) * 10 + ucast (c - 48) = of_nat (dec_step v c)"
  by (simp add: dec_step_def)

lemma parse_u64_loop_spec:
  assumes "v < 2 ^ 64"
  shows "parse_u64_loop s (of_nat v) k =
    (let w = foldl dec_step v (takeWhile is_digit s) in
     if w < 2 ^ 64 then (of_nat w, k + length (takeWhile is_digit s) \<noteq> 0) else (0, False))"
  using assms
proof (induction s arbitrary: v k)
  case Nil
  then show ?case by (simp add: Let_def)
next
  case (Cons c s)
  show ?case
  proof (cases "is_digit c")
    case True
    let ?w = "dec_step v c"
    have test: "(of_nat v > (1844674407370955161 :: u64) \<or>
        (of_nat v = (1844674407370955161 :: u64) \<and> ucast (c - 48) > (5 :: u64))) \<longleftrightarrow> \<not> ?w < 2 ^ 64"
      using u64_overflow_test [of "ucast (c - 48)" "of_nat v"] Cons.prems unat_digit_less [OF True]
      by (simp add: dec_step_def unat_of_nat)
    show ?thesis
    proof (cases "?w < 2 ^ 64")
      case True2: True
      have "parse_u64_loop (c # s) (of_nat v) k = parse_u64_loop s (of_nat ?w) (Suc k)"
        using True True2 test u64_digit_step [OF Cons.prems True True2]
        by (auto simp: Let_def)
      with Cons.IH [OF True2, of "Suc k"] True show ?thesis
        by (simp add: Let_def del: parse_u64_loop.simps)
    next
      case False
      have "parse_u64_loop (c # s) (of_nat v) k = (0, False)"
        using True False test by (auto simp: Let_def)
      moreover have "\<not> foldl dec_step ?w (takeWhile is_digit s) < 2 ^ 64"
        using False foldl_dec_step_ge [of ?w] by (meson order.strict_trans1)
      ultimately show ?thesis using True by (simp add: Let_def del: parse_u64_loop.simps)
    qed
  next
    case False
    with Cons.prems show ?thesis by (simp add: Let_def)
  qed
qed

lemma gm_parse_u64_spec:
  "gm_parse_u64 s = (let ds = takeWhile is_digit s in
     if dec_val ds < 2 ^ 64 then (of_nat (dec_val ds), ds \<noteq> []) else (0, False))"
  using parse_u64_loop_spec [of 0 s 0] by (simp add: gm_parse_u64_def dec_val_def Let_def)


subsection \<open>Decimal printing\<close>

text \<open>
  \<^verbatim>\<open>gm_print_u64\<close> collects digits, least significant first, in a 24-byte buffer and then
  emits the buffer backwards. The result is the list of bytes handed to \<^verbatim>\<open>gm_putc\<close>.
\<close>

function print_u64_loop :: "u64 \<Rightarrow> bytes \<Rightarrow> bytes" where
  "print_u64_loop v buf =
     (if v \<noteq> 0 \<and> length buf < 24 then print_u64_loop (v div 10) (buf @ [48 + ucast (v mod 10)]) else buf)"
  by pat_completeness auto
termination
  by (relation "measure (\<lambda>(v, buf). 24 - length buf)") auto

declare print_u64_loop.simps [simp del]

definition print_u64 :: "u64 \<Rightarrow> bytes" where
  "print_u64 v = (if v = 0 then [48] else rev (print_u64_loop v []))"

lemma ucast_mod10: "(ucast (v mod 10) :: u8) = of_nat (unat v mod 10)" for v :: u64
proof -
  have "unat (v mod 10) = unat v mod 10" by (simp add: unat_mod_distrib)
  then have "(of_nat (unat (v mod 10)) :: u8) = of_nat (unat v mod 10)" by simp
  then show ?thesis by simp
qed

lemma print_u64_loop_dec:
  assumes "unat v < 10 ^ Suc k" and "length buf + Suc k \<le> 24" and "v \<noteq> 0"
  shows "print_u64_loop v buf = buf @ rev (dec_bytes (unat v))"
  using assms
proof (induction k arbitrary: v buf)
  case 0
  have "v div 10 = 0" using 0 by (simp add: word_unat_eq_iff unat_div_distrib)
  moreover have "(ucast (v mod 10) :: u8) = of_nat (unat v)" using 0 by (simp add: ucast_mod10)
  ultimately show ?case
    using 0 by (simp add: print_u64_loop.simps [of v] print_u64_loop.simps [of 0] dec_bytes.simps)
next
  case (Suc k)
  have dv: "unat (v div 10) = unat v div 10" by (simp add: unat_div_distrib)
  show ?case
  proof (cases "unat v < 10")
    case True
    then have "unat v < 10 ^ Suc 0" by simp
    have "v div 10 = 0" using True by (simp add: word_unat_eq_iff dv)
    moreover have "(ucast (v mod 10) :: u8) = of_nat (unat v)" using True by (simp add: ucast_mod10)
    ultimately show ?thesis
      using Suc.prems True
      by (simp add: print_u64_loop.simps [of v] print_u64_loop.simps [of 0] dec_bytes.simps)
  next
    case False
    have "unat (v div 10) < 10 ^ Suc k" using Suc.prems(1) by (simp add: dv less_mult_imp_div_less mult.commute)
    moreover have "v div 10 \<noteq> 0" using False by (simp add: word_unat_eq_iff dv)
    ultimately have "print_u64_loop (v div 10) (buf @ [48 + of_nat (unat v mod 10)]) =
        (buf @ [48 + of_nat (unat v mod 10)]) @ rev (dec_bytes (unat v div 10))"
      using Suc.IH [of "v div 10" "buf @ [48 + of_nat (unat v mod 10)]"] Suc.prems(2) by (simp add: dv)
    then show ?thesis
      using Suc.prems False
      by (simp add: print_u64_loop.simps [of v] dec_bytes.simps [of "unat v"] ucast_mod10)
  qed
qed

lemma print_u64_dec: "print_u64 v = dec_bytes (unat v)"
proof (cases "v = 0")
  case True
  then show ?thesis by (simp add: print_u64_def dec_bytes.simps)
next
  case False
  have "print_u64_loop v [] = [] @ rev (dec_bytes (unat v))"
    using unat_bounds(4) [of v] False by (intro print_u64_loop_dec [of _ 19]) simp_all
  with False show ?thesis by (simp add: print_u64_def)
qed


subsection \<open>IPv4 addresses\<close>

text \<open>An IPv4 address is the four bytes of the \<^verbatim>\<open>uint8_t ip[4]\<close> arrays, in index order.\<close>

type_synonym ip4 = "u8 \<times> u8 \<times> u8 \<times> u8"

fun ip_bytes :: "ip4 \<Rightarrow> bytes" where
  "ip_bytes (a, b, c, d) = [a, b, c, d]"

fun ipv4_octet :: "cstr \<Rightarrow> u32 \<Rightarrow> nat \<Rightarrow> (u32 \<times> nat \<times> cstr) option" where
  "ipv4_octet [] v digits = Some (v, digits, [])"
| "ipv4_octet (c # s) v digits =
     (if is_digit c then
        let v' = v * 10 + ucast (c - 48); digits' = digits + 1 in
        if v' > 255 \<or> digits' > 3 then None else ipv4_octet s v' digits'
      else Some (v, digits, c # s))"

function parse_ipv4_loop :: "nat \<Rightarrow> cstr \<Rightarrow> bytes \<Rightarrow> (bytes \<times> cstr) option" where
  "parse_ipv4_loop i s ip =
     (if i < 4 then
        case ipv4_octet s 0 0 of
          None \<Rightarrow> None
        | Some (v, digits, s') \<Rightarrow>
            if digits = 0 then None
            else if i \<noteq> 3 then
              (if cur s' \<noteq> 46 then None else parse_ipv4_loop (i + 1) (tl s') (ip @ [ucast v]))
            else parse_ipv4_loop (i + 1) s' (ip @ [ucast v])
      else Some (ip, s))"
  by pat_completeness auto
termination
  by (relation "measure (\<lambda>(i, s, ip). 4 - i)") auto

declare parse_ipv4_loop.simps [simp del]

definition gm_parse_ipv4 :: "cstr option \<Rightarrow> (ip4 \<times> cstr) option" where
  "gm_parse_ipv4 p = (case p of None \<Rightarrow> None | Some s \<Rightarrow>
     (case parse_ipv4_loop 0 s [] of
        Some ([a, b, c, d], rest) \<Rightarrow> Some ((a, b, c, d), rest)
      | _ \<Rightarrow> None))"

fun print_ip :: "ip4 \<Rightarrow> bytes" where
  "print_ip (a, b, c, d) = print_u64 (ucast a) @ [46] @ print_u64 (ucast b) @ [46] @
     print_u64 (ucast c) @ [46] @ print_u64 (ucast d)"

fun gm_ip_eq :: "ip4 \<Rightarrow> ip4 \<Rightarrow> bool" where
  "gm_ip_eq (a0, a1, a2, a3) (b0, b1, b2, b3) = (a0 = b0 \<and> a1 = b1 \<and> a2 = b2 \<and> a3 = b3)"

fun gm_copy_ip :: "ip4 \<Rightarrow> ip4 \<Rightarrow> ip4" where
  "gm_copy_ip dst (s0, s1, s2, s3) = (s0, s1, s2, s3)"

lemma gm_ip_eq_iff [simp]: "gm_ip_eq a b \<longleftrightarrow> a = b"
  by (cases a; cases b) auto

lemma gm_copy_ip_simp [simp]: "gm_copy_ip d s = s"
  by (cases s) auto

lemma length_ip_bytes [simp]: "length (ip_bytes ip) = 4"
  by (cases ip) simp

lemma octet_digit_step:
  assumes "v \<le> 255"
  shows "(of_nat v :: u32) * 10 + ucast (c - 48) = of_nat (dec_step v c)"
    and "((of_nat v :: u32) * 10 + ucast (c - 48) > 255) \<longleftrightarrow> dec_step v c > 255"
proof -
  show eq: "(of_nat v :: u32) * 10 + ucast (c - 48) = of_nat (dec_step v c)"
    by (simp add: dec_step_def)
  have "dec_step v c < 2 ^ 32"
    using assms unat_bounds(1) [of "c - 48"] by (simp add: dec_step_def)
  then have "unat (of_nat (dec_step v c) :: u32) = dec_step v c"
    by (simp add: unat_of_nat)
  then show "((of_nat v :: u32) * 10 + ucast (c - 48) > 255) \<longleftrightarrow> dec_step v c > 255"
    unfolding eq by (simp add: word_less_nat_alt)
qed

lemma ipv4_octet_spec:
  assumes "v \<le> 255" and "k \<le> 3"
  shows "ipv4_octet s (of_nat v) k =
    (let ds = takeWhile is_digit s; w = foldl dec_step v ds in
     if w \<le> 255 \<and> k + length ds \<le> 3 then Some (of_nat w, k + length ds, dropWhile is_digit s) else None)"
  using assms
proof (induction s arbitrary: v k)
  case Nil
  then show ?case by (simp add: Let_def)
next
  case (Cons c s)
  show ?case
  proof (cases "is_digit c \<and> dec_step v c \<le> 255 \<and> k + 1 \<le> 3")
    case True
    then have "ipv4_octet (c # s) (of_nat v) k = ipv4_octet s (of_nat (dec_step v c)) (k + 1)"
      using octet_digit_step [OF Cons.prems(1), of c] by (auto simp: Let_def)
    with Cons.IH [of "dec_step v c" "k + 1"] True show ?thesis
      by (simp add: Let_def del: ipv4_octet.simps)
  next
    case F: False
    show ?thesis
    proof (cases "is_digit c")
      case True
      have "ipv4_octet (c # s) (of_nat v) k = None"
        using F True octet_digit_step [OF Cons.prems(1), of c] by (auto simp: Let_def)
      moreover have "\<not> (foldl dec_step (dec_step v c) (takeWhile is_digit s) \<le> 255 \<and>
          Suc (k + length (takeWhile is_digit s)) \<le> 3)"
        using F True foldl_dec_step_ge [of "dec_step v c" "takeWhile is_digit s"] by linarith
      ultimately show ?thesis using True by (auto simp: Let_def simp del: ipv4_octet.simps)
    next
      case False
      with Cons.prems show ?thesis by (simp add: Let_def)
    qed
  qed
qed

lemma length_dec_bytes_u8: "length (dec_bytes (unat (w :: u8))) \<le> 3"
  using length_dec_bytes [of "unat w" 2] unat_bounds(1) [of w] by simp

lemma ipv4_octet_print:
  assumes "\<not> is_digit (cur r)"
  shows "ipv4_octet (dec_bytes (unat (w :: u8)) @ r) 0 0 =
    Some (ucast w, length (dec_bytes (unat w)), r)"
  using ipv4_octet_spec [of 0 0 "dec_bytes (unat w) @ r"] assms length_dec_bytes_u8 [of w]
    unat_bounds(1) [of w] dec_val_dec_bytes [of "unat w"]
  by (simp add: takeWhile_dec_bytes Let_def dec_val_def)

lemma dot_not_digit [simp]: "\<not> is_digit 46" "\<not> is_digit 0"
  by (simp_all add: is_digit_def)

lemma gm_parse_ipv4_print:
  assumes "\<not> is_digit (cur r)"
  shows "gm_parse_ipv4 (Some (print_ip ip @ r)) = Some (ip, r)"
proof -
  obtain a b c d where ip: "ip = (a, b, c, d)" by (cases ip)
  have u: "(ucast (ucast w :: u32) :: u8) = w" for w :: u8
    by (rule bit_word_eqI) (auto simp: bit_simps)
  show ?thesis
    using assms
    by (simp add: ip gm_parse_ipv4_def print_u64_dec ipv4_octet_print u
        parse_ipv4_loop.simps [of 0] parse_ipv4_loop.simps [of "Suc 0"]
        parse_ipv4_loop.simps [of "Suc (Suc 0)"] parse_ipv4_loop.simps [of "Suc (Suc (Suc 0))"]
        parse_ipv4_loop.simps [of "Suc (Suc (Suc (Suc 0)))"])
qed


subsection \<open>Byte order\<close>

definition gm_swap16 :: "u16 \<Rightarrow> u16" where
  "gm_swap16 v = drop_bit 8 v OR push_bit 8 v"

definition gm_swap32 :: "u32 \<Rightarrow> u32" where
  "gm_swap32 v = push_bit 24 (v AND 0x000000ff) OR push_bit 8 (v AND 0x0000ff00) OR
     drop_bit 8 (v AND 0x00ff0000) OR drop_bit 24 (v AND 0xff000000)"

text \<open>Big-endian (network order) images and reads, the reference for the swaps.\<close>

definition be16 :: "u16 \<Rightarrow> bytes" where
  "be16 w = [ucast (drop_bit 8 w), ucast w]"

definition be32 :: "u32 \<Rightarrow> bytes" where
  "be32 w = [ucast (drop_bit 24 w), ucast (drop_bit 16 w), ucast (drop_bit 8 w), ucast w]"

definition rd16be :: "u8 \<Rightarrow> u8 \<Rightarrow> u16" where
  "rd16be a b = push_bit 8 (ucast a) OR ucast b"

definition rd32be :: "u8 \<Rightarrow> u8 \<Rightarrow> u8 \<Rightarrow> u8 \<Rightarrow> u32" where
  "rd32be a b c d = push_bit 24 (ucast a) OR push_bit 16 (ucast b) OR push_bit 8 (ucast c) OR ucast d"

lemma length_be [simp]: "length (be16 w) = 2" "length (be32 v) = 4"
  by (simp_all add: be16_def be32_def)

lemma byte_cases16:
  assumes "n < LENGTH(16)"
  obtains "n < 8" | "8 \<le> n \<and> n < 16"
  using assms by fastforce

lemma byte_cases32:
  assumes "n < LENGTH(32)"
  obtains "n < 8" | "8 \<le> n \<and> n < 16" | "16 \<le> n \<and> n < 24" | "24 \<le> n \<and> n < 32"
  using assms by fastforce

lemma gm_swap16_invol [simp]: "gm_swap16 (gm_swap16 v) = v"
  by (rule bit_word_eqI, erule byte_cases16) (auto simp: gm_swap16_def bit_simps)

lemma le16_swap [simp]: "le16 (gm_swap16 v) = be16 v"
proof -
  have "(ucast (gm_swap16 v) :: u8) = ucast (drop_bit 8 v)"
    by (rule bit_word_eqI) (auto simp: gm_swap16_def bit_simps)
  moreover have "(ucast (drop_bit 8 (gm_swap16 v)) :: u8) = ucast v"
    by (rule bit_word_eqI) (auto simp: gm_swap16_def bit_simps dest: bit_imp_le_length)
  ultimately show ?thesis by (simp add: le16_def be16_def)
qed

lemma swap_rd16le [simp]: "gm_swap16 (rd16le a b) = rd16be a b"
  by (rule bit_word_eqI, erule byte_cases16)
    (auto simp: gm_swap16_def rd16le_def rd16be_def bit_simps dest: bit_imp_le_length)

lemma rd16be_be16 [simp]: "rd16be (ucast (drop_bit 8 v)) (ucast v) = v"
  by (rule bit_word_eqI, erule byte_cases16) (auto simp: rd16be_def bit_simps)

lemma word_shift_masks:
  "(0x000000ff :: u32) = mask 8" "(0x0000ff00 :: u32) = push_bit 8 (mask 8)"
  "(0x00ff0000 :: u32) = push_bit 16 (mask 8)" "(0xff000000 :: u32) = push_bit 24 (mask 8)"
  by (simp_all add: mask_eq_exp_minus_1 push_bit_eq_mult)

lemma le32_swap [simp]: "le32 (gm_swap32 v) = be32 v"
proof -
  have 0: "(ucast (gm_swap32 v) :: u8) = ucast (drop_bit 24 v)"
    by (rule bit_word_eqI) (auto simp: gm_swap32_def word_shift_masks bit_simps)
  have 1: "(ucast (drop_bit 8 (gm_swap32 v)) :: u8) = ucast (drop_bit 16 v)"
    by (rule bit_word_eqI) (auto simp: gm_swap32_def word_shift_masks bit_simps)
  have 2: "(ucast (drop_bit 16 (gm_swap32 v)) :: u8) = ucast (drop_bit 8 v)"
    by (rule bit_word_eqI) (auto simp: gm_swap32_def word_shift_masks bit_simps)
  have 3: "(ucast (drop_bit 24 (gm_swap32 v)) :: u8) = ucast v"
    by (rule bit_word_eqI) (auto simp: gm_swap32_def word_shift_masks bit_simps)
  show ?thesis by (simp add: le32_def be32_def 0 1 2 3)
qed

lemma swap_rd32le [simp]: "gm_swap32 (rd32le a b c d) = rd32be a b c d"
  by (rule bit_word_eqI, erule byte_cases32)
    (auto simp: gm_swap32_def rd32le_def rd32be_def word_shift_masks bit_simps dest: bit_imp_le_length)

lemma rd32be_be32 [simp]:
  "rd32be (ucast (drop_bit 24 v)) (ucast (drop_bit 16 v)) (ucast (drop_bit 8 v)) (ucast v) = v"
  by (rule bit_word_eqI, erule byte_cases32) (auto simp: rd32be_def bit_simps)

subsection \<open>Hexadecimal printing\<close>

definition hex_digit :: "u64 \<Rightarrow> u8" where
  "hex_digit d = asc ''0123456789abcdef'' ! unat d"

fun print_hex_loop :: "u64 \<Rightarrow> nat \<Rightarrow> bytes" where
  "print_hex_loop v 0 = []"
| "print_hex_loop v (Suc k) = hex_digit (drop_bit (4 * k) v AND 0x0f) # print_hex_loop v k"

definition print_hex :: "u64 \<Rightarrow> bytes" where
  "print_hex v = asc ''0x'' @ print_hex_loop v 16"

lemma length_print_hex: "length (print_hex v) = 18"
proof -
  have "length (print_hex_loop v k) = k" for k by (induction k) auto
  then show ?thesis by (simp add: print_hex_def)
qed



subsection \<open>Properties\<close>

text \<open>C21: \<^verbatim>\<open>gm_parse_u64\<close> reads the longest digit prefix of its argument and returns its exact
  value when there is at least one digit and the value fits 64 bits; every number of 2^64 or more is
  refused, whatever its length, because the overflow test never lets a product wrap.\<close>

theorem parse_u64_exact:
  "gm_parse_u64 s =
     (if dec_val (takeWhile is_digit s) < 2 ^ 64
      then (of_nat (dec_val (takeWhile is_digit s)), takeWhile is_digit s \<noteq> []) else (0, False))"
  by (simp add: gm_parse_u64_spec Let_def)

text \<open>Printing an IPv4 address and parsing it back gives the address and leaves exactly the
  text that followed it, and printing a 64-bit number and parsing it back gives the number,
  provided no further digit follows.\<close>

theorem print_parse_round_trip:
  assumes "\<not> is_digit (cur r)"
  shows "gm_parse_ipv4 (Some (print_ip ip @ r)) = Some (ip, r) \<and> gm_parse_u64 (print_u64 v @ r) = (v, True)"
  using gm_parse_ipv4_print [OF assms] assms unat_bounds(4) [of v]
  by (simp add: gm_parse_u64_spec print_u64_dec takeWhile_dec_bytes Let_def)

theorem print_parse_round_trip_witness:
  "\<not> is_digit (cur [44]) \<and>
   gm_parse_ipv4 (Some (print_ip (10, 0, 2, 255) @ [44])) = Some ((10, 0, 2, 255), [44]) \<and>
   gm_parse_u64 (print_u64 18446744073709551615 @ [44]) = (18446744073709551615, True)"
  using print_parse_round_trip [of "[44]" "(10, 0, 2, 255)" 18446744073709551615]
  by (simp add: is_digit_def)

end
