(* ===== verification/Gm_Machine.thy ===== *)
theory Gm_Machine
  imports Core_Numbers
begin

section \<open>Clock and console (\<^verbatim>\<open>core.c\<close>)\<close>

text \<open>
  The machine state every kernel component extends: the tick counter and the console.

  Time is driven by an environment. Timer interrupts arrive at any moment, so the value
  of \<^verbatim>\<open>gm_tick_count\<close> can grow between any two reads. \<open>env_ticks\<close> lists how many ticks
  pass before each of the next reads of the counter; once the list is used up no further
  tick arrives between reads, except for the one that ends a \<^verbatim>\<open>hlt\<close>. Only the timer line
  is unmasked (\<^verbatim>\<open>gm_irq_init\<close> writes 0xfe and 0xff to the two masks), so \<^verbatim>\<open>hlt\<close> ends with
  a timer interrupt. A property proved for every \<open>env_ticks\<close> holds for every arrival of
  interrupts in a run of bounded length.

  The console is the byte stream of the debug port 0xe9, to which \<^verbatim>\<open>gm_putc\<close> writes every
  byte before it tries the serial line.
\<close>

record gm_machine =
  gm_tick_count :: u64
  env_ticks :: "u32 list"
  gm_console :: bytes

subsection \<open>The clock\<close>

definition clock_advance :: "'a gm_machine_scheme \<Rightarrow> 'a gm_machine_scheme" where
  "clock_advance s = (case env_ticks s of
     [] \<Rightarrow> s
   | d # ds \<Rightarrow> s\<lparr>gm_tick_count := gm_tick_count s + ucast d, env_ticks := ds\<rparr>)"

definition gm_ticks :: "'a gm_machine_scheme \<Rightarrow> u64 \<times> 'a gm_machine_scheme" where
  "gm_ticks s = (let s' = clock_advance s in (gm_tick_count s', s'))"

definition gm_timer_irq :: "'a gm_machine_scheme \<Rightarrow> 'a gm_machine_scheme" where
  "gm_timer_irq s = s\<lparr>gm_tick_count := gm_tick_count s + 1\<rparr>"

definition cpu_hlt :: "'a gm_machine_scheme \<Rightarrow> 'a gm_machine_scheme" where
  "cpu_hlt s = gm_timer_irq (clock_advance s)"

subsection \<open>The console\<close>

definition gm_putc :: "u8 \<Rightarrow> 'a gm_machine_scheme \<Rightarrow> 'a gm_machine_scheme" where
  "gm_putc c s = s\<lparr>gm_console := gm_console s @ [c]\<rparr>"

fun put_bytes :: "bytes \<Rightarrow> 'a gm_machine_scheme \<Rightarrow> 'a gm_machine_scheme" where
  "put_bytes [] s = s"
| "put_bytes (c # cs) s = put_bytes cs (gm_putc c s)"

fun write_loop :: "cstr \<Rightarrow> 'a gm_machine_scheme \<Rightarrow> 'a gm_machine_scheme" where
  "write_loop [] s = s"
| "write_loop (c # cs) s =
     (if c = 0 then s
      else write_loop cs (gm_putc c (if c = 10 then gm_putc 13 s else s)))"

definition gm_write :: "cstr option \<Rightarrow> 'a gm_machine_scheme \<Rightarrow> 'a gm_machine_scheme" where
  "gm_write p s = (case p of None \<Rightarrow> s | Some t \<Rightarrow> write_loop t s)"

definition gm_print_u64 :: "u64 \<Rightarrow> 'a gm_machine_scheme \<Rightarrow> 'a gm_machine_scheme" where
  "gm_print_u64 v s = put_bytes (print_u64 v) s"

definition gm_print_hex :: "u64 \<Rightarrow> 'a gm_machine_scheme \<Rightarrow> 'a gm_machine_scheme" where
  "gm_print_hex v s = put_bytes (print_hex v) s"

definition gm_print_ip :: "ip4 \<Rightarrow> 'a gm_machine_scheme \<Rightarrow> 'a gm_machine_scheme" where
  "gm_print_ip ip s = put_bytes (print_ip ip) s"

text \<open>A literal of the source written to the console.\<close>

abbreviation gm_say :: "string \<Rightarrow> 'a gm_machine_scheme \<Rightarrow> 'a gm_machine_scheme" where
  "gm_say t s \<equiv> gm_write (Some (asc t)) s"

lemma put_bytes_console:
  "put_bytes cs s = s\<lparr>gm_console := gm_console s @ cs\<rparr>"
  by (induction cs arbitrary: s) (simp_all add: gm_putc_def)

text \<open>What \<^verbatim>\<open>gm_write\<close> emits: the string up to NUL, every newline preceded by a return.\<close>

fun crlf :: "bytes \<Rightarrow> bytes" where
  "crlf [] = []"
| "crlf (c # cs) = (if c = 0 then [] else if c = 10 then 13 # 10 # crlf cs else c # crlf cs)"

lemma write_loop_console: "write_loop t s = s\<lparr>gm_console := gm_console s @ crlf t\<rparr>"
  by (induction t arbitrary: s) (simp_all add: gm_putc_def)

definition write_bytes :: "cstr option \<Rightarrow> bytes" where
  "write_bytes p = (case p of None \<Rightarrow> [] | Some t \<Rightarrow> crlf t)"

lemma write_bytes_simps [simp]: "write_bytes None = []" "write_bytes (Some t) = crlf t"
  by (simp_all add: write_bytes_def)

lemma gm_write_console: "gm_write p s = s\<lparr>gm_console := gm_console s @ write_bytes p\<rparr>"
  by (cases p) (simp_all add: gm_write_def write_loop_console)

lemmas console_simps = gm_putc_def put_bytes_console gm_write_console gm_print_u64_def
  gm_print_hex_def gm_print_ip_def

text \<open>Console output changes nothing but the console.\<close>

lemma console_frame [clock_frame, simp]:
  "gm_tick_count (gm_putc c s) = gm_tick_count s" "env_ticks (gm_putc c s) = env_ticks s"
  "gm_tick_count (put_bytes cs s) = gm_tick_count s" "env_ticks (put_bytes cs s) = env_ticks s"
  "gm_tick_count (gm_write p s) = gm_tick_count s" "env_ticks (gm_write p s) = env_ticks s"
  "gm_tick_count (gm_print_u64 v s) = gm_tick_count s" "env_ticks (gm_print_u64 v s) = env_ticks s"
  "gm_tick_count (gm_print_hex v s) = gm_tick_count s" "env_ticks (gm_print_hex v s) = env_ticks s"
  "gm_tick_count (gm_print_ip ip s) = gm_tick_count s" "env_ticks (gm_print_ip ip s) = env_ticks s"
  by (simp_all add: console_simps)

lemma console_more [simp]:
  "gm_machine.more (gm_putc c s) = gm_machine.more s"
  "gm_machine.more (put_bytes cs s) = gm_machine.more s"
  "gm_machine.more (gm_write p s) = gm_machine.more s"
  "gm_machine.more (gm_print_u64 v s) = gm_machine.more s"
  "gm_machine.more (gm_print_hex v s) = gm_machine.more s"
  "gm_machine.more (gm_print_ip ip s) = gm_machine.more s"
  by (simp_all add: console_simps)

lemma clock_more [simp]:
  "gm_machine.more (clock_advance s) = gm_machine.more s"
  "gm_machine.more (gm_timer_irq s) = gm_machine.more s"
  "gm_machine.more (cpu_hlt s) = gm_machine.more s"
  "gm_machine.more (snd (gm_ticks s)) = gm_machine.more s"
  by (auto simp: clock_advance_def gm_timer_irq_def cpu_hlt_def gm_ticks_def Let_def split: list.splits)

subsection \<open>Progress of the clock\<close>

text \<open>
  \<open>clock_keeps s t\<close>: a step from \<open>s\<close> to \<open>t\<close> takes ticks only from the environment.
  \<open>clock_moves s t\<close>: the step contains one \<^verbatim>\<open>hlt\<close>, so it moves the clock even when the
  environment brings nothing. Every waiting loop of the kernel is a sequence of such steps.
\<close>

definition clock_keeps :: "'a gm_machine_scheme \<Rightarrow> 'b gm_machine_scheme \<Rightarrow> bool" where
  "clock_keeps s t \<longleftrightarrow> length (env_ticks t) \<le> length (env_ticks s) \<and>
     (env_ticks s = [] \<longrightarrow> gm_tick_count t = gm_tick_count s)"

definition clock_moves :: "'a gm_machine_scheme \<Rightarrow> 'b gm_machine_scheme \<Rightarrow> bool" where
  "clock_moves s t \<longleftrightarrow> length (env_ticks t) \<le> length (env_ticks s) \<and>
     (env_ticks s = [] \<longrightarrow> gm_tick_count t = gm_tick_count s + 1)"

lemma clock_keeps_refl [simp]: "clock_keeps s s"
  by (simp add: clock_keeps_def)

lemma clock_keeps_trans: "clock_keeps s t \<Longrightarrow> clock_keeps t u \<Longrightarrow> clock_keeps s u"
  by (auto simp: clock_keeps_def)

lemma clock_keeps_moves: "clock_keeps s t \<Longrightarrow> clock_moves t u \<Longrightarrow> clock_moves s u"
  by (auto simp: clock_keeps_def clock_moves_def)

lemma clock_moves_keeps: "clock_moves s t \<Longrightarrow> clock_keeps t u \<Longrightarrow> clock_moves s u"
  by (auto simp: clock_keeps_def clock_moves_def)

lemma clock_keeps_same:
  "env_ticks t = env_ticks s \<Longrightarrow> gm_tick_count t = gm_tick_count s \<Longrightarrow> clock_keeps s t"
  by (simp add: clock_keeps_def)

lemma clock_keeps_advance: "clock_keeps s (clock_advance s)"
  by (auto simp: clock_keeps_def clock_advance_def split: list.splits)

lemma clock_keeps_ticks: "gm_ticks s = (now, t) \<Longrightarrow> clock_keeps s t"
  using clock_keeps_advance by (auto simp: gm_ticks_def Let_def)

lemma clock_moves_hlt: "clock_moves s (cpu_hlt s)"
  by (auto simp: clock_moves_def cpu_hlt_def gm_timer_irq_def clock_advance_def split: list.splits)

lemma gm_ticks_now: "gm_ticks s = (now, t) \<Longrightarrow> gm_tick_count t = now"
  by (auto simp: gm_ticks_def Let_def)

text \<open>
  The measure of a waiting loop \<^verbatim>\<open>while (gm_ticks()-start<timeout)\<close> whose body moves the
  clock: the environment's list shrinks, or the time left does.
\<close>

definition wait_measure :: "u64 \<Rightarrow> u64 \<Rightarrow> (('a gm_machine_scheme) \<times> ('a gm_machine_scheme)) set" where
  "wait_measure start timeout =
     measures [\<lambda>s. length (env_ticks s), \<lambda>s. unat (timeout - (gm_tick_count s - start))]"

lemma wf_wait_measure [simp]: "wf (wait_measure start timeout)"
  by (simp add: wait_measure_def)

lemma wait_step_decreases:
  assumes "gm_ticks s = (now, s')" and "now - start < timeout" and "clock_moves s' t"
  shows "(t, s) \<in> wait_measure start timeout"
proof (cases "env_ticks s")
  case Nil
  with assms(1) have s': "s' = s" "now = gm_tick_count s"
    by (auto simp: gm_ticks_def clock_advance_def Let_def)
  have t: "length (env_ticks t) = 0" "gm_tick_count t = gm_tick_count s + 1"
    using assms(3) Nil by (auto simp: clock_moves_def s')
  define e where "e = gm_tick_count s - start"
  have ne: "timeout - e \<noteq> 0" using assms(2) by (auto simp: s' e_def)
  have "timeout - (gm_tick_count t - start) = timeout - e - 1"
    by (simp add: t e_def)
  then have "unat (timeout - (gm_tick_count t - start)) < unat (timeout - e)"
    by (simp only: unat_minus_one [OF ne]) (use ne unat_gt_0 [of "timeout - e"] in linarith)
  with t Nil show ?thesis by (simp add: wait_measure_def e_def)
next
  case (Cons d ds)
  with assms(1) have "env_ticks s' = ds"
    by (auto simp: gm_ticks_def clock_advance_def Let_def)
  with assms(3) Cons show ?thesis by (simp add: wait_measure_def clock_moves_def)
qed

text \<open>The same with the loop's parameters as part of the argument.\<close>

definition wait_order :: "((u64 \<times> u64 \<times> 'a gm_machine_scheme) \<times> (u64 \<times> u64 \<times> 'a gm_machine_scheme)) set" where
  "wait_order = measures [\<lambda>(start, timeout, s). length (env_ticks s),
     \<lambda>(start, timeout, s). unat (timeout - (gm_tick_count s - start))]"

lemma wf_wait_order [simp]: "wf wait_order"
  by (simp add: wait_order_def)

lemma wait_order_step:
  assumes "gm_ticks s = (now, s')" and "now - start < timeout" and "clock_moves s' t"
  shows "((start, timeout, t), (start, timeout, s)) \<in> wait_order"
  using wait_step_decreases [OF assms] by (simp add: wait_order_def wait_measure_def)

end
