(* ===== verification/Virtio_Net.thy ===== *)
theory Virtio_Net
  imports Gm_Machine
begin

unbundle bit_operations_syntax

section \<open>VirtIO network queues (\<^verbatim>\<open>virtio.c\<close>: send, receive, reap)\<close>

text \<open>
  The data path of the VirtIO driver: two split virtqueues of eight descriptors. The
  device owns the used rings, its status register and the contents of the receive
  buffers (\<open>virtio_dev\<close>), and may rewrite all of them at any time. \<open>env_dev\<close> lists the
  contents the driver finds at its next volatile reads: every volatile read of the
  driver first takes the next entry (\<open>dev_sync\<close>). Nothing is assumed of these contents,
  so what is proved holds for every device, a misbehaving one included.
\<close>

record virtio_dev =
  dev_status :: u8
  tx_used_idx :: u16
  tx_used_id :: "nat \<Rightarrow> u32"
  rx_used_idx :: u16
  rx_used_id :: "nat \<Rightarrow> u32"
  rx_used_len :: "nat \<Rightarrow> u32"
  rx_data :: "nat \<Rightarrow> nat \<Rightarrow> u8"

record gm_virtio = gm_machine +
  vdev :: virtio_dev
  env_dev :: "virtio_dev list"
  gm_virtio_ready :: bool
  vtx_last_used :: u16
  vtx_avail_idx :: u16
  vtx_avail_ring :: "u16 list"
  vtx_desc_len :: "u32 list"
  gm_tx_buf :: "bytes list"
  gm_tx_free :: "bool list"
  gm_tx_next :: u16
  vrx_last_used :: u16
  vrx_avail_idx :: u16
  vrx_avail_ring :: "u16 list"
  vq_notified :: "u16 list"

definition dev_sync :: "'a gm_virtio_scheme \<Rightarrow> 'a gm_virtio_scheme" where
  "dev_sync s = (case env_dev s of [] \<Rightarrow> s | d # ds \<Rightarrow> s\<lparr>vdev := d, env_dev := ds\<rparr>)"

definition dev_fail :: "'a gm_virtio_scheme \<Rightarrow> 'a gm_virtio_scheme" where
  "dev_fail s = (let t = dev_sync s in
     t\<lparr>vdev := (vdev t)\<lparr>dev_status := dev_status (vdev t) OR 128\<rparr>, gm_virtio_ready := False\<rparr>)"

definition gm_virtio_alive :: "'a gm_virtio_scheme \<Rightarrow> bool \<times> 'a gm_virtio_scheme" where
  "gm_virtio_alive s =
     (if \<not> gm_virtio_ready s then (False, s)
      else let t = dev_sync s in
        if dev_status (vdev t) AND (64 OR 128) \<noteq> 0 then (False, t\<lparr>gm_virtio_ready := False\<rparr>)
        else (True, t))"

definition gm_virtq_notify :: "u16 \<Rightarrow> 'a gm_virtio_scheme \<Rightarrow> 'a gm_virtio_scheme" where
  "gm_virtq_notify index s = s\<lparr>vq_notified := vq_notified s @ [index]\<rparr>"

subsection \<open>Frame facts of the device access\<close>

lemma dev_sync_cases:
  obtains "env_dev s = []" "dev_sync s = s"
  | d ds where "env_dev s = d # ds" "dev_sync s = s\<lparr>vdev := d, env_dev := ds\<rparr>"
  by (cases "env_dev s") (auto simp: dev_sync_def)

lemma dev_sync_frame [simp]:
  "gm_tick_count (dev_sync s) = gm_tick_count s" "env_ticks (dev_sync s) = env_ticks s"
  "gm_console (dev_sync s) = gm_console s" "gm_virtio_ready (dev_sync s) = gm_virtio_ready s"
  "vtx_last_used (dev_sync s) = vtx_last_used s" "vtx_avail_idx (dev_sync s) = vtx_avail_idx s"
  "vtx_avail_ring (dev_sync s) = vtx_avail_ring s" "vtx_desc_len (dev_sync s) = vtx_desc_len s"
  "gm_tx_buf (dev_sync s) = gm_tx_buf s" "gm_tx_free (dev_sync s) = gm_tx_free s"
  "gm_tx_next (dev_sync s) = gm_tx_next s" "vrx_last_used (dev_sync s) = vrx_last_used s"
  "vrx_avail_idx (dev_sync s) = vrx_avail_idx s" "vrx_avail_ring (dev_sync s) = vrx_avail_ring s"
  "vq_notified (dev_sync s) = vq_notified s" "gm_virtio.more (dev_sync s) = gm_virtio.more s"
  by (cases rule: dev_sync_cases [of s]; simp)+

lemma dev_sync_Nil [simp]: "env_dev s = [] \<Longrightarrow> dev_sync s = s"
  by (simp add: dev_sync_def)

lemma env_dev_sync [simp]: "env_dev (dev_sync s) = tl (env_dev s)"
  by (simp add: dev_sync_def split: list.splits)

text \<open>
  \<open>dev_keeps s t\<close>: the step reads the device and leaves the receive queue's position
  alone. It is what the receive loop needs of everything it calls.
\<close>

definition dev_keeps :: "'a gm_virtio_scheme \<Rightarrow> 'a gm_virtio_scheme \<Rightarrow> bool" where
  "dev_keeps s t \<longleftrightarrow> length (env_dev t) \<le> length (env_dev s) \<and> vrx_last_used t = vrx_last_used s \<and>
     (length (env_dev t) = length (env_dev s) \<longrightarrow> rx_used_idx (vdev t) = rx_used_idx (vdev s))"

lemma dev_keeps_refl [simp]: "dev_keeps s s"
  by (simp add: dev_keeps_def)

lemma dev_keeps_trans: "dev_keeps s t \<Longrightarrow> dev_keeps t u \<Longrightarrow> dev_keeps s u"
  by (auto simp: dev_keeps_def)

lemma dev_keeps_same:
  "env_dev t = env_dev s \<Longrightarrow> vdev t = vdev s \<Longrightarrow> vrx_last_used t = vrx_last_used s \<Longrightarrow> dev_keeps s t"
  by (simp add: dev_keeps_def)

lemma dev_keeps_sync: "dev_keeps s (dev_sync s)"
  by (cases "env_dev s") (auto simp: dev_keeps_def)

text \<open>The position of the receive queue: what the device still has to say, then what it has said.\<close>

definition rx_order :: "('a gm_virtio_scheme \<times> 'a gm_virtio_scheme) set" where
  "rx_order = measures [\<lambda>s. length (env_dev s), \<lambda>s. unat (rx_used_idx (vdev s) - vrx_last_used s)]"

lemma wf_rx_order [simp]: "wf rx_order"
  by (simp add: rx_order_def)

lemma rx_order_keeps: "(s, u) \<in> rx_order \<Longrightarrow> dev_keeps s t \<Longrightarrow> (t, u) \<in> rx_order"
  by (auto simp: rx_order_def dev_keeps_def)

lemma rx_order_keeps': "(t, s) \<in> rx_order \<Longrightarrow> dev_keeps u s \<Longrightarrow> (t, u) \<in> rx_order"
  by (auto simp: rx_order_def dev_keeps_def)

lemma trans_rx_order: "(s, t) \<in> rx_order \<Longrightarrow> (t, u) \<in> rx_order \<Longrightarrow> (s, u) \<in> rx_order"
  by (auto simp: rx_order_def)

subsection \<open>Reaping transmitted buffers\<close>

text \<open>
  The loop of \<^verbatim>\<open>gm_virtio_reap_tx\<close>. The source reads \<^verbatim>\<open>used->idx\<close> before the loop and again at
  the end of every round, which is the same as reading it before every test.
\<close>

function reap_loop :: "'a gm_virtio_scheme \<Rightarrow> bool \<times> 'a gm_virtio_scheme" where
  "reap_loop s =
     (let s1 = dev_sync s in
      if vtx_last_used s1 = tx_used_idx (vdev s1) then (True, s1)
      else
        let s2 = dev_sync s1; id = tx_used_id (vdev s2) (unat (vtx_last_used s2 mod 8)) in
        if id \<ge> 8 \<or> gm_tx_free s2 ! unat id then (False, dev_fail s2)
        else reap_loop (s2\<lparr>gm_tx_free := (gm_tx_free s2)[unat id := True],
                           vtx_last_used := vtx_last_used s2 + 1\<rparr>))"
  by pat_completeness auto
termination
proof (relation "measures [\<lambda>s. length (env_dev s), \<lambda>s. unat (tx_used_idx (vdev s) - vtx_last_used s)]",
    goal_cases)
  case 1
  then show ?case by simp
next
  case (2 s s1 s2 id)
  show ?case
  proof (cases "env_dev s")
    case Nil
    then have "s2 = s" using 2 by simp
    with 2 Nil have "tx_used_idx (vdev s) - vtx_last_used s \<noteq> 0" by simp
    then have "unat (tx_used_idx (vdev s) - (vtx_last_used s + 1)) <
        unat (tx_used_idx (vdev s) - vtx_last_used s)"
      using unat_minus_one [of "tx_used_idx (vdev s) - vtx_last_used s"]
      by (simp add: diff_diff_eq [symmetric]) (simp add: unat_gt_0)
    with Nil \<open>s2 = s\<close> show ?thesis by simp
  next
    case (Cons d ds)
    then have "length (env_dev s2) < length (env_dev s)" using 2 by simp
    then show ?thesis by simp
  qed
qed

declare reap_loop.simps [simp del]

definition gm_virtio_reap_tx :: "'a gm_virtio_scheme \<Rightarrow> bool \<times> 'a gm_virtio_scheme" where
  "gm_virtio_reap_tx s =
     (let (alive, s1) = gm_virtio_alive s in if \<not> alive then (False, s1) else reap_loop s1)"


subsection \<open>Sending a frame\<close>

text \<open>
  The slot search of \<^verbatim>\<open>gm_virtio_net_send\<close>: at most eight slots from \<^verbatim>\<open>gm_tx_next\<close> on;
  \<open>None\<close> stands for \<^verbatim>\<open>i==GM_VIRTIO_QUEUE_SIZE\<close> after the loop.
\<close>

fun find_tx_slot :: "bool list \<Rightarrow> nat \<Rightarrow> u16 \<Rightarrow> u16 option" where
  "find_tx_slot free 0 slot = None"
| "find_tx_slot free (Suc n) slot =
     (if free ! unat slot then Some slot else find_tx_slot free n ((slot + 1) mod 8))"

text \<open>Filling a free slot and handing it to the device (the part after the search).\<close>

definition tx_submit :: "u16 \<Rightarrow> bytes \<Rightarrow> 'a gm_virtio_scheme \<Rightarrow> 'a gm_virtio_scheme" where
  "tx_submit slot frame s =
     (let i = unat slot;
          buf = overwrite (overwrite (gm_tx_buf s ! i) 0 (replicate 12 0)) 12 frame;
          avail = vtx_avail_idx s in
      gm_virtq_notify 1
        (s\<lparr>gm_tx_free := (gm_tx_free s)[i := False],
           gm_tx_buf := (gm_tx_buf s)[i := buf],
           vtx_desc_len := (vtx_desc_len s)[i := of_nat (length frame) + 12],
           vtx_avail_ring := (vtx_avail_ring s)[unat (avail mod 8) := slot],
           vtx_avail_idx := avail + 1,
           gm_tx_next := (slot + 1) mod 8\<rparr>))"

definition gm_virtio_net_send :: "bytes \<Rightarrow> 'a gm_virtio_scheme \<Rightarrow> bool \<times> 'a gm_virtio_scheme" where
  "gm_virtio_net_send frame s =
     (if length frame = 0 \<or> length frame > 1518 then (False, s)
      else
        let (ok, s1) = gm_virtio_reap_tx s in
        if \<not> ok then (False, s1)
        else case find_tx_slot (gm_tx_free s1) 8 (gm_tx_next s1) of
          None \<Rightarrow> (False, s1)
        | Some slot \<Rightarrow> (True, tx_submit slot frame s1))"

subsection \<open>Polling for a frame\<close>

text \<open>\<^verbatim>\<open>gm_virtio_net_poll\<close> returns -1, 0, or 1 with a frame.\<close>

datatype poll_result = Poll_Error | Poll_None | Poll_Frame bytes

definition rx_recycle :: "u32 \<Rightarrow> 'a gm_virtio_scheme \<Rightarrow> 'a gm_virtio_scheme" where
  "rx_recycle elem s = (let avail = vrx_avail_idx s in
     gm_virtq_notify 0 (s\<lparr>vrx_avail_ring := (vrx_avail_ring s)[unat (avail mod 8) := ucast elem],
                          vrx_avail_idx := avail + 1\<rparr>))"

text \<open>One entry of the used ring: its descriptor, its length, and the queue moved on.\<close>

definition rx_take :: "'a gm_virtio_scheme \<Rightarrow> u32 \<times> nat \<times> 'a gm_virtio_scheme" where
  "rx_take s =
     (let i = unat (vrx_last_used s mod 8);
          s2 = dev_sync s; d = rx_used_id (vdev s2) i;
          s3 = dev_sync s2; n = unat (rx_used_len (vdev s3) i) in
      (d, n, s3\<lparr>vrx_last_used := vrx_last_used s3 + 1\<rparr>))"

lemma rx_take_decreases:
  assumes "rx_take (dev_sync s) = (d, n, t)"
    and "vrx_last_used (dev_sync s) \<noteq> rx_used_idx (vdev (dev_sync s))"
  shows "(t, s) \<in> rx_order"
proof (cases "env_dev s")
  case Nil
  with assms(1) have t: "t = s\<lparr>vrx_last_used := vrx_last_used s + 1\<rparr>"
    by (auto simp: rx_take_def Let_def)
  have "rx_used_idx (vdev s) - vrx_last_used s \<noteq> 0" using assms(2) Nil by simp
  then have "unat (rx_used_idx (vdev s) - (vrx_last_used s + 1)) <
      unat (rx_used_idx (vdev s) - vrx_last_used s)"
    using unat_minus_one [of "rx_used_idx (vdev s) - vrx_last_used s"]
    by (simp add: diff_diff_eq [symmetric]) (simp add: unat_gt_0)
  with t show ?thesis by (simp add: rx_order_def)
next
  case (Cons e es)
  with assms(1) show ?thesis by (auto simp: rx_take_def rx_order_def Let_def)
qed

lemma rx_recycle_keeps: "dev_keeps s (rx_recycle d s)"
  by (simp add: rx_recycle_def gm_virtq_notify_def dev_keeps_def Let_def)

function rx_loop :: "nat \<Rightarrow> 'a gm_virtio_scheme \<Rightarrow> poll_result \<times> 'a gm_virtio_scheme" where
  "rx_loop cap s =
     (let s1 = dev_sync s in
      if vrx_last_used s1 = rx_used_idx (vdev s1) then (Poll_None, s1)
      else case rx_take s1 of (d, n, s4) \<Rightarrow>
        if d \<ge> 8 then (Poll_Error, dev_fail s4)
        else
          let valid = (12 \<le> n \<and> n \<le> 2048 \<and> n - 12 \<le> cap);
              frame = map (rx_data (vdev s4) (unat d)) [12..<n];
              s5 = rx_recycle d s4 in
          if \<not> valid then rx_loop cap s5 else (Poll_Frame frame, s5))"
  by pat_completeness auto
termination
  by (relation "inv_image rx_order snd")
    (auto intro!: rx_order_keeps [OF rx_take_decreases rx_recycle_keeps] dest: sym)

declare rx_loop.simps [simp del]

definition gm_virtio_net_poll :: "nat \<Rightarrow> 'a gm_virtio_scheme \<Rightarrow> poll_result \<times> 'a gm_virtio_scheme" where
  "gm_virtio_net_poll cap s =
     (let (ok, s1) = gm_virtio_reap_tx s in if \<not> ok then (Poll_Error, s1) else rx_loop cap s1)"

text \<open>
  The driver's side of the queues when \<^verbatim>\<open>gm_virtio_net_init\<close> returns 1: fresh zeroed pages for the buffers, every
  receive buffer offered to the device, every transmit slot free, both positions at zero as \<^verbatim>\<open>gm_virtq_init\<close> leaves them,
  the device in service and notified of the receive buffers. That the steps of the initialisation end in this state is
  \<open>virtio_queues_fill_init\<close> in \<open>Virtio_Init\<close>.
\<close>

definition virtio_queues_init :: "'a gm_virtio_scheme \<Rightarrow> 'a gm_virtio_scheme" where
  "virtio_queues_init s =
     gm_virtq_notify 0
       (s\<lparr>vrx_avail_ring := map of_nat [0..<8], gm_tx_buf := replicate 8 (replicate 2048 0),
          vtx_desc_len := replicate 8 0, gm_tx_free := replicate 8 True,
          vtx_avail_ring := replicate 8 0, vrx_last_used := 0, vtx_last_used := 0,
          vrx_avail_idx := 8, vtx_avail_idx := 0, gm_tx_next := 0, gm_virtio_ready := True\<rparr>)"


subsection \<open>What the driver leaves alone\<close>

text \<open>
  The driver writes its own queues only: the clock, the console and every layer above
  (\<open>gm_virtio.more\<close>) are untouched. \<open>outside\<close> collects these components.
\<close>

definition outside :: "'a gm_virtio_scheme \<Rightarrow> u64 \<times> u32 list \<times> bytes \<times> 'a" where
  "outside s = (gm_tick_count s, env_ticks s, gm_console s, gm_virtio.more s)"

lemma outside_sync [simp]: "outside (dev_sync s) = outside s"
  by (simp add: outside_def)

lemma outside_fail [simp]: "outside (dev_fail s) = outside s"
  by (simp add: outside_def dev_fail_def Let_def)

lemma dev_keeps_fail: "dev_keeps s (dev_fail s)"
  using dev_keeps_sync [of s] by (simp add: dev_keeps_def dev_fail_def Let_def)

lemma alive_frame: "gm_virtio_alive s = (r, t) \<Longrightarrow> outside t = outside s \<and> dev_keeps s t"
  using dev_keeps_sync [of s]
  by (auto simp: gm_virtio_alive_def Let_def dev_keeps_def outside_def split: if_splits)

text \<open>What every step of the reap loop keeps, the reap keeps.\<close>

lemma reap_loop_invariant:
  assumes "reap_loop s = (r, t)" "P s"
    and sync: "\<And>s. P s \<Longrightarrow> P (dev_sync s)" and fail: "\<And>s. P s \<Longrightarrow> P (dev_fail s)"
    and release: "\<And>s i. P s \<Longrightarrow> i < 8 \<Longrightarrow> \<not> gm_tx_free s ! i \<Longrightarrow>
      P (s\<lparr>gm_tx_free := (gm_tx_free s)[i := True], vtx_last_used := vtx_last_used s + 1\<rparr>)"
  shows "P t"
  using assms(1,2)
proof (induction s arbitrary: r t rule: reap_loop.induct)
  case (1 s)
  let ?s1 = "dev_sync s" let ?s2 = "dev_sync ?s1"
  let ?id = "tx_used_id (vdev ?s2) (unat (vtx_last_used ?s2 mod 8))"
  let ?s3 = "?s2\<lparr>gm_tx_free := (gm_tx_free ?s2)[unat ?id := True], vtx_last_used := vtx_last_used ?s2 + 1\<rparr>"
  have P2: "P ?s1" "P ?s2" using 1(3) sync by blast+
  consider (stop) "vtx_last_used ?s1 = tx_used_idx (vdev ?s1)"
    | (bad) "vtx_last_used ?s1 \<noteq> tx_used_idx (vdev ?s1)" "?id \<ge> 8 \<or> gm_tx_free ?s2 ! unat ?id"
    | (again) "vtx_last_used ?s1 \<noteq> tx_used_idx (vdev ?s1)" "\<not> (?id \<ge> 8 \<or> gm_tx_free ?s2 ! unat ?id)"
    by blast
  then show ?case
  proof cases
    case stop
    then have "t = ?s1" using 1(2) by (subst (asm) reap_loop.simps) (simp add: Let_def)
    then show ?thesis using P2 by simp
  next
    case bad
    then have "t = dev_fail ?s2" using 1(2) by (subst (asm) reap_loop.simps) (auto simp: Let_def)
    then show ?thesis using fail [OF P2(2)] by simp
  next
    case again
    then have "reap_loop ?s3 = (r, t)" using 1(2) by (subst (asm) reap_loop.simps) (simp add: Let_def)
    moreover have "P ?s3" using again by (intro release P2) (auto simp: word_le_nat_alt)
    ultimately show ?thesis using 1(1) [OF refl _ refl refl] again by blast
  qed
qed

lemma reap_tx_invariant:
  assumes "gm_virtio_reap_tx s = (r, t)" "P s"
    and "\<And>s. P s \<Longrightarrow> P (dev_sync s)" "\<And>s. P s \<Longrightarrow> P (dev_fail s)"
    and "\<And>s. P s \<Longrightarrow> P (s\<lparr>gm_virtio_ready := False\<rparr>)"
    and "\<And>s i. P s \<Longrightarrow> i < 8 \<Longrightarrow> \<not> gm_tx_free s ! i \<Longrightarrow>
      P (s\<lparr>gm_tx_free := (gm_tx_free s)[i := True], vtx_last_used := vtx_last_used s + 1\<rparr>)"
  shows "P t"
proof -
  obtain alive s1 where a: "gm_virtio_alive s = (alive, s1)" by fastforce
  then have "P s1" using assms(2,3,5) by (auto simp: gm_virtio_alive_def Let_def split: if_splits)
  moreover have "t = s1 \<or> reap_loop s1 = (r, t)"
    using assms(1) a by (auto simp: gm_virtio_reap_tx_def split: if_splits)
  ultimately show ?thesis using reap_loop_invariant [of s1 r t P] assms(3,4,6) by blast
qed

lemma reap_tx_frame:
  assumes "gm_virtio_reap_tx s = (r, t)"
  shows "outside t = outside s \<and> dev_keeps s t"
proof (rule reap_tx_invariant [OF assms], goal_cases)
  case (2 u)
  then show ?case using dev_keeps_trans [OF _ dev_keeps_sync, of s u] by simp
next
  case (3 u)
  then show ?case using dev_keeps_trans [OF _ dev_keeps_fail, of s u] by simp
next
  case (4 u)
  then show ?case by (simp add: outside_def dev_keeps_def)
next
  case (5 u i)
  then show ?case by (simp add: outside_def dev_keeps_def)
qed simp

lemma submit_frame: "outside (tx_submit slot frame s) = outside s \<and> dev_keeps s (tx_submit slot frame s)"
  by (simp add: tx_submit_def gm_virtq_notify_def outside_def dev_keeps_def Let_def)

text \<open>The three ways a send can end.\<close>

lemma send_cases:
  assumes "gm_virtio_net_send frame s = (r, t)"
  obtains (length) "length frame = 0 \<or> length frame > 1518" "\<not> r" "t = s"
  | (refused) "0 < length frame" "length frame \<le> 1518" "\<exists>ok. gm_virtio_reap_tx s = (ok, t) \<and>
      (ok \<longrightarrow> find_tx_slot (gm_tx_free t) 8 (gm_tx_next t) = None)" "\<not> r"
  | (sent) slot s1 where "0 < length frame" "length frame \<le> 1518" "gm_virtio_reap_tx s = (True, s1)"
      "find_tx_slot (gm_tx_free s1) 8 (gm_tx_next s1) = Some slot" "r" "t = tx_submit slot frame s1"
  using assms by (cases "gm_virtio_reap_tx s")
    (auto simp: gm_virtio_net_send_def split: if_splits option.splits)

lemma send_frame:
  assumes "gm_virtio_net_send frame s = (r, t)"
  shows "outside t = outside s \<and> dev_keeps s t"
  using assms
proof (cases rule: send_cases)
  case refused
  then show ?thesis using reap_tx_frame by blast
next
  case (sent slot s1)
  then show ?thesis using reap_tx_frame [of s True s1] submit_frame dev_keeps_trans by metis
qed simp_all

text \<open>The four ways a round of the receive loop can end.\<close>

lemma rx_loop_cases:
  assumes "rx_loop cap s = (r, t)"
  obtains (empty) "r = Poll_None" "t = dev_sync s"
  | (bad) d n s4 where "rx_take (dev_sync s) = (d, n, s4)" "(s4, s) \<in> rx_order" "d \<ge> 8"
      "r = Poll_Error" "t = dev_fail s4"
  | (frame) d n s4 where "rx_take (dev_sync s) = (d, n, s4)" "(s4, s) \<in> rx_order" "d < 8"
      "12 \<le> n" "n \<le> 2048" "n - 12 \<le> cap"
      "r = Poll_Frame (map (rx_data (vdev s4) (unat d)) [12..<n])" "t = rx_recycle d s4"
  | (skip) d n s4 where "rx_take (dev_sync s) = (d, n, s4)" "(s4, s) \<in> rx_order" "d < 8"
      "rx_loop cap (rx_recycle d s4) = (r, t)"
proof (cases "vrx_last_used (dev_sync s) = rx_used_idx (vdev (dev_sync s))")
  case True
  then show ?thesis using assms empty by (subst (asm) rx_loop.simps) (simp add: Let_def)
next
  case False
  obtain d n s4 where take: "rx_take (dev_sync s) = (d, n, s4)" by (rule prod_cases3)
  then have dec: "(s4, s) \<in> rx_order" using False by (rule rx_take_decreases)
  have eq: "rx_loop cap s =
      (if d \<ge> 8 then (Poll_Error, dev_fail s4)
       else if \<not> (12 \<le> n \<and> n \<le> 2048 \<and> n - 12 \<le> cap) then rx_loop cap (rx_recycle d s4)
       else (Poll_Frame (map (rx_data (vdev s4) (unat d)) [12..<n]), rx_recycle d s4))"
    using False take by (subst rx_loop.simps) (simp add: Let_def)
  show ?thesis
  proof (cases "d \<ge> 8")
    case True
    then show ?thesis using bad [OF take dec] assms eq by simp
  next
    case False
    then have d: "d < 8" by simp
    from False show ?thesis
      using frame [OF take dec d] skip [OF take dec d] assms eq
      by (cases "12 \<le> n \<and> n \<le> 2048 \<and> n - 12 \<le> cap") (simp_all del: not_le)
  qed
qed

lemma rx_take_outside: "rx_take s = (d, n, t) \<Longrightarrow> outside t = outside s"
  by (auto simp: rx_take_def outside_def Let_def)

lemma rx_recycle_outside: "outside (rx_recycle d s) = outside s"
  by (simp add: rx_recycle_def gm_virtq_notify_def outside_def Let_def)

lemma rx_loop_outside: "rx_loop cap s = (r, t) \<Longrightarrow> outside t = outside s"
proof (induction s rule: wf_induct_rule [OF wf_rx_order])
  case (1 s)
  from 1(2) show ?case
  proof (cases rule: rx_loop_cases)
    case (skip d n s4)
    have "(rx_recycle d s4, s) \<in> rx_order" using skip(2) rx_recycle_keeps by (rule rx_order_keeps)
    from 1(1) [OF this skip(4)] show ?thesis
      using rx_take_outside [OF skip(1)] by (simp add: rx_recycle_outside)
  qed (auto simp: rx_recycle_outside dest!: rx_take_outside)
qed

text \<open>A frame handed over moves the receive queue on, and it fits the caller's buffer.\<close>

lemma rx_loop_progress: "rx_loop cap s = (Poll_Frame f, t) \<Longrightarrow> (t, s) \<in> rx_order"
proof (induction s rule: wf_induct_rule [OF wf_rx_order])
  case (1 s)
  from 1(2) show ?case
  proof (cases rule: rx_loop_cases)
    case (frame d n s4)
    then show ?thesis using rx_order_keeps [OF frame(2) rx_recycle_keeps] by simp
  next
    case (skip d n s4)
    have r: "(rx_recycle d s4, s) \<in> rx_order" using skip(2) rx_recycle_keeps by (rule rx_order_keeps)
    from 1(1) [OF r skip(4)] r show ?thesis by (rule trans_rx_order)
  qed simp_all
qed

lemma rx_loop_length: "rx_loop cap s = (Poll_Frame f, t) \<Longrightarrow> length f \<le> cap \<and> length f \<le> 2036"
proof (induction s rule: wf_induct_rule [OF wf_rx_order])
  case (1 s)
  from 1(2) show ?case
  proof (cases rule: rx_loop_cases)
    case (skip d n s4)
    have r: "(rx_recycle d s4, s) \<in> rx_order" using skip(2) rx_recycle_keeps by (rule rx_order_keeps)
    from 1(1) [OF r skip(4)] show ?thesis .
  qed auto
qed

lemma net_poll_cases:
  assumes "gm_virtio_net_poll cap s = (r, t)"
  obtains (dead) "gm_virtio_reap_tx s = (False, t)" "r = Poll_Error"
  | (live) s1 where "gm_virtio_reap_tx s = (True, s1)" "rx_loop cap s1 = (r, t)"
  using assms by (cases "gm_virtio_reap_tx s") (auto simp: gm_virtio_net_poll_def split: if_splits)

lemma net_poll_outside:
  assumes "gm_virtio_net_poll cap s = (r, t)"
  shows "outside t = outside s"
  using assms
  by (cases rule: net_poll_cases) (auto dest!: reap_tx_frame rx_loop_outside)

lemma net_poll_progress:
  assumes "gm_virtio_net_poll cap s = (Poll_Frame f, t)"
  shows "(t, s) \<in> rx_order"
  using assms
proof (cases rule: net_poll_cases)
  case (live s1)
  then show ?thesis using rx_loop_progress reap_tx_frame rx_order_keeps' by blast
qed simp

lemma net_poll_length:
  assumes "gm_virtio_net_poll cap s = (Poll_Frame f, t)"
  shows "length f \<le> cap \<and> length f \<le> 2036"
  using assms by (cases rule: net_poll_cases) (auto dest: rx_loop_length)



subsection \<open>The queue invariant\<close>

text \<open>
  \<open>virtio_ok\<close>: the driver's tables have their sizes, every transmit slot the device holds
  is one of the \<open>avail - last_used\<close> entries in flight, and while the device is in service
  all eight receive buffers are offered to it.
\<close>

definition busy :: "bool list \<Rightarrow> nat" where
  "busy free = length (filter Not free)"

definition virtio_ok :: "'a gm_virtio_scheme \<Rightarrow> bool" where
  "virtio_ok s \<longleftrightarrow>
     length (gm_tx_free s) = 8 \<and> length (gm_tx_buf s) = 8 \<and> (\<forall>b \<in> set (gm_tx_buf s). length b = 2048) \<and>
     length (vtx_desc_len s) = 8 \<and> length (vtx_avail_ring s) = 8 \<and> length (vrx_avail_ring s) = 8 \<and>
     gm_tx_next s < 8 \<and> vtx_avail_idx s - vtx_last_used s = of_nat (busy (gm_tx_free s)) \<and>
     (gm_virtio_ready s \<longrightarrow> vrx_avail_idx s - vrx_last_used s = 8)"

lemma busy_le: "busy free \<le> length free"
  by (simp add: busy_def)

lemma busy_release: "i < length free \<Longrightarrow> \<not> free ! i \<Longrightarrow> busy free = Suc (busy (free[i := True]))"
  by (induction free arbitrary: i) (auto simp: busy_def less_Suc_eq_0_disj)

lemma busy_take: "i < length free \<Longrightarrow> free ! i \<Longrightarrow> busy (free[i := False]) = Suc (busy free)"
  by (induction free arbitrary: i) (auto simp: busy_def less_Suc_eq_0_disj)

lemma busy_free_slot:
  assumes "i < length free" "free ! i"
  shows "busy free < length free"
  using busy_take [OF assms] busy_le [of "free[i := False]"] by simp

lemma find_tx_slot_Some:
  "find_tx_slot free n slot = Some k \<Longrightarrow> slot < 8 \<Longrightarrow> k < 8 \<and> free ! unat k"
proof (induction free n slot rule: find_tx_slot.induct)
  case (2 free n slot)
  have "(slot + 1) mod 8 < 8" by (simp add: word_mod_less_divisor)
  then show ?case using 2 by (auto split: if_splits)
qed simp

text \<open>A search that gives up has seen all eight slots, whichever it started from.\<close>

lemma slot_cases:
  assumes "(slot :: u16) < 8"
  shows "slot \<in> {0, 1, 2, 3, 4, 5, 6, 7}"
proof -
  have "unat slot < 8" using assms by (simp add: word_less_nat_alt)
  then have "unat slot \<in> {0, 1, 2, 3, 4, 5, 6, 7}" by auto
  then have "of_nat (unat slot) \<in> (of_nat ` {0, 1, 2, 3, 4, 5, 6, 7} :: u16 set)" by (rule imageI)
  then show ?thesis by simp
qed

lemma find_tx_slot_None:
  assumes "find_tx_slot free 8 slot = None" "slot < 8" "i < 8"
  shows "\<not> free ! i"
proof -
  have eight: "8 = Suc (Suc (Suc (Suc (Suc (Suc (Suc (Suc 0)))))))" by simp
  have "\<not> (free ! 0 \<or> free ! 1 \<or> free ! 2 \<or> free ! 3 \<or> free ! 4 \<or> free ! 5 \<or> free ! 6 \<or> free ! 7)"
    using slot_cases [OF assms(2)] assms(1) [unfolded eight]
    by (elim insertE emptyE) (simp_all split: if_splits)
  moreover have "i \<in> {0, 1, 2, 3, 4, 5, 6, 7}" using assms(3) by auto
  ultimately show ?thesis by auto
qed

lemmas virtio_ok_simps = virtio_ok_def gm_virtq_notify_def Let_def

lemma virtio_ok_sync [simp]: "virtio_ok (dev_sync s) = virtio_ok s"
  by (simp add: virtio_ok_def)

lemma virtio_ok_fail: "virtio_ok s \<Longrightarrow> virtio_ok (dev_fail s)"
  by (simp add: virtio_ok_def dev_fail_def Let_def)

lemma virtio_ok_stop: "virtio_ok s \<Longrightarrow> virtio_ok (s\<lparr>gm_virtio_ready := False\<rparr>)"
  by (simp add: virtio_ok_def)

lemma virtio_ok_alive: "virtio_ok s \<Longrightarrow> gm_virtio_alive s = (r, t) \<Longrightarrow> virtio_ok t"
  by (auto simp: gm_virtio_alive_def Let_def virtio_ok_def split: if_splits)

lemma virtio_ok_release:
  assumes "virtio_ok s" "i < 8" "\<not> gm_tx_free s ! i"
  shows "virtio_ok (s\<lparr>gm_tx_free := (gm_tx_free s)[i := True], vtx_last_used := vtx_last_used s + 1\<rparr>)"
proof -
  have "busy (gm_tx_free s) = Suc (busy ((gm_tx_free s)[i := True]))"
    using assms by (intro busy_release) (auto simp: virtio_ok_def)
  then have "vtx_avail_idx s - (vtx_last_used s + 1) = of_nat (busy ((gm_tx_free s)[i := True]))"
    using assms(1) by (simp add: virtio_ok_def algebra_simps)
  then show ?thesis using assms by (simp add: virtio_ok_def)
qed

lemma virtio_ok_submit:
  assumes "virtio_ok s" "slot < 8" "gm_tx_free s ! unat slot" "length frame \<le> 1518"
  shows "virtio_ok (tx_submit slot frame s)"
proof -
  have i: "unat slot < 8" using assms(2) by (simp add: word_less_nat_alt)
  then have "busy ((gm_tx_free s)[unat slot := False]) = Suc (busy (gm_tx_free s))"
    using assms by (intro busy_take) (auto simp: virtio_ok_def)
  then have "vtx_avail_idx s + 1 - vtx_last_used s = of_nat (busy ((gm_tx_free s)[unat slot := False]))"
    using assms(1) by (simp add: virtio_ok_def algebra_simps)
  moreover have "(slot + 1) mod 8 < 8" by (simp add: word_mod_less_divisor)
  moreover have "length (gm_tx_buf s ! unat slot) = 2048" using assms(1) i by (simp add: virtio_ok_def)
  ultimately show ?thesis using assms i
    by (auto simp: virtio_ok_simps tx_submit_def dest!: set_update_subset_insert [THEN subsetD])
qed

lemma virtio_ok_reap: "virtio_ok s \<Longrightarrow> gm_virtio_reap_tx s = (r, t) \<Longrightarrow> virtio_ok t"
  by (erule reap_tx_invariant) (auto intro: virtio_ok_fail virtio_ok_release virtio_ok_stop)

text \<open>Reaping only returns slots: buffers, descriptors and the available ring stay.\<close>

lemma reap_tx_keeps:
  assumes "gm_virtio_reap_tx s = (r, t)"
  shows "gm_tx_buf t = gm_tx_buf s \<and> vtx_desc_len t = vtx_desc_len s \<and> vtx_avail_ring t = vtx_avail_ring s \<and>
    vtx_avail_idx t = vtx_avail_idx s \<and> vq_notified t = vq_notified s \<and> gm_tx_next t = gm_tx_next s \<and>
    vrx_avail_idx t = vrx_avail_idx s \<and> vrx_avail_ring t = vrx_avail_ring s"
  by (rule reap_tx_invariant [OF assms]) (auto simp: dev_fail_def Let_def)

lemma virtio_ok_send:
  assumes "virtio_ok s" "gm_virtio_net_send frame s = (r, t)"
  shows "virtio_ok t"
  using assms(2)
proof (cases rule: send_cases)
  case (sent slot s1)
  have ok: "virtio_ok s1" using assms(1) sent(3) by (rule virtio_ok_reap)
  then have "slot < 8 \<and> gm_tx_free s1 ! unat slot"
    using find_tx_slot_Some [OF sent(4)] by (simp add: virtio_ok_def)
  then show ?thesis using virtio_ok_submit [OF ok] sent by simp
qed (use assms(1) virtio_ok_reap in auto)

lemma rx_take_recycle_ok:
  assumes "virtio_ok s" "gm_virtio_ready s" "rx_take s = (d, n, t)" "d < 8"
  shows "virtio_ok (rx_recycle d t)" and "gm_virtio_ready (rx_recycle d t)"
  using assms by (auto simp: rx_take_def rx_recycle_def virtio_ok_simps)

lemma rx_take_fail_ok: "virtio_ok s \<Longrightarrow> rx_take s = (d, n, t) \<Longrightarrow> virtio_ok (dev_fail t)"
  by (auto simp: rx_take_def dev_fail_def virtio_ok_simps)

lemma virtio_ok_rx_loop:
  "rx_loop cap s = (r, t) \<Longrightarrow> virtio_ok s \<Longrightarrow> gm_virtio_ready s \<Longrightarrow> virtio_ok t"
proof (induction s rule: wf_induct_rule [OF wf_rx_order])
  case (1 s)
  from 1(2) show ?case
  proof (cases rule: rx_loop_cases)
    case (frame d n s4)
    then show ?thesis using rx_take_recycle_ok [of "dev_sync s"] 1 by simp
  next
    case (bad d n s4)
    then show ?thesis using rx_take_fail_ok [of "dev_sync s"] 1 by simp
  next
    case (skip d n s4)
    have r: "(rx_recycle d s4, s) \<in> rx_order" using skip(2) rx_recycle_keeps by (rule rx_order_keeps)
    have "virtio_ok (rx_recycle d s4)" "gm_virtio_ready (rx_recycle d s4)"
      using rx_take_recycle_ok [of "dev_sync s"] skip 1(3,4) by simp_all
    then show ?thesis using 1(1) [OF r skip(4)] by simp
  qed (use 1 in simp)
qed

lemma reap_loop_ready: "reap_loop s = (True, t) \<Longrightarrow> gm_virtio_ready t = gm_virtio_ready s"
proof (induction s rule: reap_loop.induct)
  case (1 s)
  then show ?case
    by (subst (asm) (2) reap_loop.simps) (auto simp: Let_def split: if_splits)
qed

lemma reap_tx_ready: "gm_virtio_reap_tx s = (True, t) \<Longrightarrow> gm_virtio_ready t"
  by (auto simp: gm_virtio_reap_tx_def gm_virtio_alive_def Let_def dest!: reap_loop_ready
      split: if_splits prod.splits)

lemma virtio_ok_poll:
  assumes "virtio_ok s" "gm_virtio_net_poll cap s = (r, t)"
  shows "virtio_ok t"
  using assms(2)
proof (cases rule: net_poll_cases)
  case dead
  then show ?thesis using assms(1) virtio_ok_reap by blast
next
  case (live s1)
  then show ?thesis using virtio_ok_rx_loop virtio_ok_reap [OF assms(1)] reap_tx_ready by blast
qed

lemma virtio_ok_init: "virtio_ok (virtio_queues_init s)"
  by (simp add: virtio_queues_init_def virtio_ok_simps busy_def)

text \<open>
  \<open>driver_ok\<close>: what the rest of the kernel relies on. Before the device is in service the queues do not exist and the free list
  is all zero, so nothing is asked of them; no operation touches them then.
\<close>

definition driver_ok :: "'a gm_virtio_scheme \<Rightarrow> bool" where
  "driver_ok s \<longleftrightarrow> (gm_virtio_ready s \<longrightarrow> virtio_ok s)"

lemma reap_off: "\<not> gm_virtio_ready s \<Longrightarrow> gm_virtio_reap_tx s = (False, s)"
  by (simp add: gm_virtio_reap_tx_def gm_virtio_alive_def)

lemma driver_ok_send: "driver_ok s \<Longrightarrow> gm_virtio_net_send frame s = (r, t) \<Longrightarrow> driver_ok t"
  by (cases "gm_virtio_ready s") (auto simp: driver_ok_def gm_virtio_net_send_def [of _ s] reap_off split: if_splits dest: virtio_ok_send)

lemma driver_ok_poll: "driver_ok s \<Longrightarrow> gm_virtio_net_poll cap s = (r, t) \<Longrightarrow> driver_ok t"
  by (cases "gm_virtio_ready s") (auto simp: driver_ok_def gm_virtio_net_poll_def [of _ s] reap_off dest: virtio_ok_poll)

lemma driver_ok_init: "driver_ok (virtio_queues_init s)"
  by (simp add: driver_ok_def virtio_ok_init)

text \<open>
  The driver against an arbitrary device: frames are sent and polled in any order, and at
  every moment the device may have planned anything (\<open>dev\<close>).
\<close>

inductive virtio_reach :: "gm_virtio \<Rightarrow> bool" where
  init: "virtio_reach (virtio_queues_init s)"
| send: "virtio_reach s \<Longrightarrow> gm_virtio_net_send frame s = (r, t) \<Longrightarrow> virtio_reach t"
| poll: "virtio_reach s \<Longrightarrow> gm_virtio_net_poll cap s = (p, t) \<Longrightarrow> virtio_reach t"
| dev: "virtio_reach s \<Longrightarrow> virtio_reach (s\<lparr>vdev := d, env_dev := ds\<rparr>)"

lemma virtio_reach_ok: "virtio_reach s \<Longrightarrow> virtio_ok s"
proof (induction rule: virtio_reach.induct)
  case (dev s d ds)
  then show ?case by (simp add: virtio_ok_def)
qed (auto intro: virtio_ok_init virtio_ok_send virtio_ok_poll)

lemma submit_slot:
  assumes "virtio_ok s" "slot < 8" "length frame \<le> 1518"
  shows "take (12 + length frame) (gm_tx_buf (tx_submit slot frame s) ! unat slot) = replicate 12 0 @ frame"
    and "vtx_desc_len (tx_submit slot frame s) ! unat slot = of_nat (12 + length frame)"
    and "vtx_avail_ring (tx_submit slot frame s) ! unat (vtx_avail_idx s mod 8) = slot"
    and "vtx_avail_idx (tx_submit slot frame s) = vtx_avail_idx s + 1"
    and "i \<noteq> unat slot \<Longrightarrow> gm_tx_buf (tx_submit slot frame s) ! i = gm_tx_buf s ! i"
proof -
  have i: "unat slot < 8" using assms(2) by (simp add: word_less_nat_alt)
  then have len: "length (gm_tx_buf s ! unat slot) = 2048" using assms(1) by (simp add: virtio_ok_def)
  have m: "unat (vtx_avail_idx s mod 8) < 8" by (simp add: unat_mod_distrib)
  note sub = tx_submit_def gm_virtq_notify_def Let_def
  show "take (12 + length frame) (gm_tx_buf (tx_submit slot frame s) ! unat slot) = replicate 12 0 @ frame"
    using i len assms by (simp add: sub virtio_ok_def overwrite_def)
  show "vtx_desc_len (tx_submit slot frame s) ! unat slot = of_nat (12 + length frame)"
    using i assms by (simp add: sub virtio_ok_def)
  show "vtx_avail_ring (tx_submit slot frame s) ! unat (vtx_avail_idx s mod 8) = slot"
    using m assms by (simp add: sub virtio_ok_def)
qed (simp_all add: tx_submit_def gm_virtq_notify_def Let_def)


subsection \<open>Properties\<close>

text \<open>C7: Whatever the device does, and in whatever order frames are sent and polled, the
  driver's queues stay consistent: the transmit slots in use are exactly the entries between
  \<^verbatim>\<open>last_used\<close> and \<^verbatim>\<open>avail->idx\<close> (so at most eight), the tables keep their sizes, and while the
  device is in service all eight receive buffers are offered to it.\<close>

theorem virtio_queues_safe:
  assumes "virtio_reach s"
  shows "virtio_ok s \<and> unat (vtx_avail_idx s - vtx_last_used s) = busy (gm_tx_free s) \<and>
    busy (gm_tx_free s) \<le> 8"
proof -
  have ok: "virtio_ok s" using assms by (rule virtio_reach_ok)
  then have "busy (gm_tx_free s) \<le> 8" using busy_le [of "gm_tx_free s"] by (simp add: virtio_ok_def)
  then show ?thesis using ok by (simp add: virtio_ok_def unat_of_nat)
qed

text \<open>C22: A frame accepted for sending is copied, behind a zero 12-byte VirtIO header, into a
  slot the device does not hold; its descriptor length and its entry in the available ring
  describe exactly these bytes, the entry overwrites none the device has yet to return, and no
  slot held by the device changes.\<close>

theorem virtio_send_places_frame:
  assumes "virtio_ok s" "gm_virtio_net_send frame s = (True, t)"
  shows "\<exists>slot s1. gm_virtio_reap_tx s = (True, s1) \<and> slot < 8 \<and> gm_tx_free s1 ! unat slot \<and>
    unat (vtx_avail_idx s1 - vtx_last_used s1) < 8 \<and>
    take (12 + length frame) (gm_tx_buf t ! unat slot) = replicate 12 0 @ frame \<and>
    vtx_desc_len t ! unat slot = of_nat (12 + length frame) \<and>
    vtx_avail_ring t ! unat (vtx_avail_idx s mod 8) = slot \<and> vtx_avail_idx t = vtx_avail_idx s + 1 \<and>
    (\<forall>i < 8. \<not> gm_tx_free s1 ! i \<longrightarrow> gm_tx_buf t ! i = gm_tx_buf s ! i)"
  using assms(2)
proof (cases rule: send_cases)
  case (sent slot s1)
  have ok: "virtio_ok s1" using assms(1) sent(3) by (rule virtio_ok_reap)
  then have slot: "slot < 8" "gm_tx_free s1 ! unat slot"
    using find_tx_slot_Some [OF sent(4)] by (simp_all add: virtio_ok_def)
  then have "unat slot < length (gm_tx_free s1)" using ok by (simp add: virtio_ok_def word_less_nat_alt)
  then have "busy (gm_tx_free s1) < 8"
    using busy_free_slot [OF _ slot(2)] ok by (simp add: virtio_ok_def)
  then have room: "unat (vtx_avail_idx s1 - vtx_last_used s1) < 8"
    using ok by (simp add: virtio_ok_def unat_of_nat)
  have others: "gm_tx_buf t ! i = gm_tx_buf s ! i" if "\<not> gm_tx_free s1 ! i" for i
    using submit_slot(5) [OF ok slot(1) sent(2), of i] reap_tx_keeps [OF sent(3)] slot(2) sent(6) that by auto
  show ?thesis
    using submit_slot(1-4) [OF ok slot(1) sent(2)] reap_tx_keeps [OF sent(3)] sent(3,6) slot room others
    by (intro exI [of _ slot] exI [of _ s1]) simp
qed simp_all

text \<open>A frame is refused only when its length is 0 or above 1518, when the device is out of
  service, or when all eight slots are held by the device.\<close>

theorem virtio_send_refused:
  assumes "virtio_ok s" "gm_virtio_net_send frame s = (False, t)"
  shows "length frame = 0 \<or> length frame > 1518 \<or> gm_virtio_reap_tx s = (False, t) \<or>
    gm_virtio_reap_tx s = (True, t) \<and> busy (gm_tx_free t) = 8"
  using assms(2)
proof (cases rule: send_cases)
  case refused
  then obtain ok where reap: "gm_virtio_reap_tx s = (ok, t)"
    and none: "ok \<longrightarrow> find_tx_slot (gm_tx_free t) 8 (gm_tx_next t) = None" by blast
  have "virtio_ok t" using assms(1) reap by (rule virtio_ok_reap)
  then have "\<forall>x \<in> set (gm_tx_free t). \<not> x" "length (gm_tx_free t) = 8" if ok
    using find_tx_slot_None [of "gm_tx_free t" "gm_tx_next t"] none that
    by (auto simp: virtio_ok_def in_set_conv_nth)
  then have "busy (gm_tx_free t) = 8" if ok using that by (simp add: busy_def)
  then show ?thesis using reap by (cases ok) auto
qed auto

text \<open>A polled frame never exceeds the caller's buffer nor the 2036 payload bytes of a
  receive buffer, and polling changes nothing outside the driver.\<close>

theorem virtio_poll_bounded:
  assumes "gm_virtio_net_poll cap s = (r, t)"
  shows "outside t = outside s \<and> (\<forall>f. r = Poll_Frame f \<longrightarrow> length f \<le> cap \<and> length f \<le> 2036)"
  using net_poll_outside [OF assms] net_poll_length assms by blast



subsection \<open>Witnesses\<close>

text \<open>A device at rest, and one that has put a 3-byte frame into receive buffer 5.\<close>

definition dev_idle :: virtio_dev where
  "dev_idle = \<lparr>dev_status = 15, tx_used_idx = 0, tx_used_id = (\<lambda>_. 0), rx_used_idx = 0,
     rx_used_id = (\<lambda>_. 0), rx_used_len = (\<lambda>_. 0), rx_data = (\<lambda>_ _. 0)\<rparr>"

definition dev_frame5 :: virtio_dev where
  "dev_frame5 = dev_idle\<lparr>rx_used_idx := 1, rx_used_id := (\<lambda>_. 5), rx_used_len := (\<lambda>_. 15),
     rx_data := (\<lambda>_ k. of_nat k)\<rparr>"

definition virtio_blank :: gm_virtio where
  "virtio_blank = \<lparr>gm_tick_count = 0, env_ticks = [], gm_console = [], vdev = dev_idle, env_dev = [],
     gm_virtio_ready = False, vtx_last_used = 0, vtx_avail_idx = 0, vtx_avail_ring = [],
     vtx_desc_len = [], gm_tx_buf = [], gm_tx_free = [], gm_tx_next = 0, vrx_last_used = 0,
     vrx_avail_idx = 0, vrx_avail_ring = [], vq_notified = []\<rparr>"

definition virtio_start :: gm_virtio where
  "virtio_start = virtio_queues_init virtio_blank"

lemma virtio_start_sel [simp]:
  "gm_virtio_ready virtio_start" "vdev virtio_start = dev_idle" "env_dev virtio_start = []"
  "vtx_last_used virtio_start = 0" "gm_tx_free virtio_start = replicate 8 True"
  "gm_tx_next virtio_start = 0" "vrx_last_used virtio_start = 0"
  by (simp_all add: virtio_start_def virtio_queues_init_def gm_virtq_notify_def virtio_blank_def)

lemma virtio_start_reap: "gm_virtio_reap_tx virtio_start = (True, virtio_start)"
  by (simp add: gm_virtio_reap_tx_def gm_virtio_alive_def reap_loop.simps dev_idle_def)

lemma virtio_start_send: "gm_virtio_net_send [1, 2] virtio_start = (True, tx_submit 0 [1, 2] virtio_start)"
  by (simp add: gm_virtio_net_send_def virtio_start_reap numeral_nat)

theorem virtio_queues_safe_witness:
  "virtio_ok (tx_submit 0 [1, 2] virtio_start) \<and>
   unat (vtx_avail_idx (tx_submit 0 [1, 2] virtio_start) - vtx_last_used (tx_submit 0 [1, 2] virtio_start)) =
     busy (gm_tx_free (tx_submit 0 [1, 2] virtio_start)) \<and>
   busy (gm_tx_free (tx_submit 0 [1, 2] virtio_start)) \<le> 8"
proof (rule virtio_queues_safe)
  have "virtio_reach virtio_start" unfolding virtio_start_def by (rule virtio_reach.init)
  then show "virtio_reach (tx_submit 0 [1, 2] virtio_start)" using virtio_start_send by (rule virtio_reach.send)
qed

theorem virtio_send_places_frame_witness:
  "\<exists>slot :: u16. take (12 + length [1, 2 :: u8]) (gm_tx_buf (tx_submit 0 [1, 2] virtio_start) ! unat slot) =
       replicate 12 0 @ [1, 2] \<and>
     vtx_avail_idx (tx_submit 0 [1, 2] virtio_start) = vtx_avail_idx virtio_start + 1"
proof -
  have "virtio_ok virtio_start" unfolding virtio_start_def by (rule virtio_ok_init)
  from virtio_send_places_frame [OF this virtio_start_send] show ?thesis
    by blast
qed

theorem virtio_send_refused_witness:
  "gm_virtio_net_send [] virtio_start = (False, virtio_start) \<and>
   (length ([] :: bytes) = 0 \<or> length ([] :: bytes) > 1518 \<or> gm_virtio_reap_tx virtio_start = (False, virtio_start) \<or>
    gm_virtio_reap_tx virtio_start = (True, virtio_start) \<and> busy (gm_tx_free virtio_start) = 8)"
proof -
  have send: "gm_virtio_net_send [] virtio_start = (False, virtio_start)" by (simp add: gm_virtio_net_send_def)
  have "virtio_ok virtio_start" unfolding virtio_start_def by (rule virtio_ok_init)
  from virtio_send_refused [OF this send] send show ?thesis by simp
qed

theorem virtio_poll_bounded_witness:
  "\<exists>t. gm_virtio_net_poll 1518 (virtio_start\<lparr>vdev := dev_frame5\<rparr>) = (Poll_Frame [12, 13, 14], t) \<and>
     outside t = outside (virtio_start\<lparr>vdev := dev_frame5\<rparr>)"
proof -
  let ?s = "virtio_start\<lparr>vdev := dev_frame5\<rparr>"
  have "gm_virtio_reap_tx ?s = (True, ?s)"
    by (simp add: gm_virtio_reap_tx_def gm_virtio_alive_def reap_loop.simps dev_frame5_def dev_idle_def)
  then have "\<exists>t. gm_virtio_net_poll 1518 ?s = (Poll_Frame [12, 13, 14], t)"
    by (simp add: gm_virtio_net_poll_def rx_loop.simps rx_take_def dev_frame5_def dev_idle_def Let_def upt_rec)
  then obtain t where t: "gm_virtio_net_poll 1518 ?s = (Poll_Frame [12, 13, 14], t)" by blast
  from virtio_poll_bounded [OF t] t show ?thesis by blast
qed

end
