(* ===== verification/Net_Checksum.thy ===== *)
theory Net_Checksum
  imports Core_Numbers
begin

unbundle bit_operations_syntax

section \<open>Internet checksums (\<^verbatim>\<open>net.c\<close>, \<^verbatim>\<open>tcpstore.c\<close>)\<close>

text \<open>
  The one's complement checksums of IPv4, ICMP, UDP and TCP. The data is the list of the
  \<^verbatim>\<open>len\<close> bytes summed. \<^verbatim>\<open>gm_checksum\<close>, \<^verbatim>\<open>gm_udp_checksum\<close> and the copy of \<^verbatim>\<open>gm_sum_add\<close> in
  \<^verbatim>\<open>tcpstore.c\<close> all run the same two loops, \<open>gm_sum_add\<close> over the data and the carry loop of
  \<open>gm_sum_finish\<close>. The reference notion is the sum of the big-endian 16-bit words of the data
  (\<open>word_sum\<close>) modulo \<open>65535\<close>.
\<close>

fun gm_sum_add :: "u32 \<Rightarrow> bytes \<Rightarrow> u32" where
  "gm_sum_add acc (a # b # rest) = gm_sum_add (acc + (push_bit 8 (ucast a) OR ucast b)) rest"
| "gm_sum_add acc [a] = acc + push_bit 8 (ucast a)"
| "gm_sum_add acc [] = acc"

lemma carry_decreases:
  assumes "drop_bit 16 acc \<noteq> (0 :: u32)"
  shows "unat ((acc AND 0xffff) + drop_bit 16 acc) < unat acc"
    and "unat ((acc AND 0xffff) + drop_bit 16 acc) = unat acc mod 65536 + unat acc div 65536"
proof -
  have "acc AND 0xffff = take_bit 16 acc"
    by (simp add: take_bit_eq_mask mask_eq_exp_minus_1)
  then have lo: "unat (acc AND 0xffff) = unat acc mod 65536"
    by (simp add: take_bit_eq_mod unat_mod_distrib)
  have hi: "unat (drop_bit 16 acc) = unat acc div 65536"
    by (simp add: drop_bit_eq_div unat_div_distrib)
  have "unat acc < 65536 * 65536" using unat_bounds(3) [of acc] by simp
  then have "unat acc div 65536 < 65536" by (simp add: less_mult_imp_div_less)
  then have s: "unat ((acc AND 0xffff) + drop_bit 16 acc) = unat acc mod 65536 + unat acc div 65536"
    by (simp add: unat_word_ariths lo hi)
  have "drop_bit 16 acc \<noteq> 0 \<Longrightarrow> unat acc div 65536 \<noteq> 0" using hi by (metis unat_eq_zero)
  then have "unat acc div 65536 > 0" using assms by simp
  moreover have "unat acc = 65536 * (unat acc div 65536) + unat acc mod 65536" by simp
  ultimately show "unat ((acc AND 0xffff) + drop_bit 16 acc) < unat acc" using s by linarith
  show "unat ((acc AND 0xffff) + drop_bit 16 acc) = unat acc mod 65536 + unat acc div 65536" by (rule s)
qed

function sum_fold :: "u32 \<Rightarrow> u32" where
  "sum_fold acc = (if drop_bit 16 acc \<noteq> 0 then sum_fold ((acc AND 0xffff) + drop_bit 16 acc) else acc)"
  by pat_completeness auto
termination
  by (relation "measure unat") (auto intro: carry_decreases(1))

declare sum_fold.simps [simp del]

definition gm_sum_finish :: "u32 \<Rightarrow> u16" where
  "gm_sum_finish acc = ucast (NOT (sum_fold acc))"

definition gm_checksum :: "bytes \<Rightarrow> u16" where
  "gm_checksum data = gm_sum_finish (gm_sum_add 0 data)"

definition gm_udp_checksum :: "ip4 \<Rightarrow> ip4 \<Rightarrow> bytes \<Rightarrow> u16" where
  "gm_udp_checksum src dst data =
     (let acc = gm_sum_add 0 (ip_bytes src);
          acc = gm_sum_add acc (ip_bytes dst);
          acc = acc + 17;
          acc = acc + of_nat (length data);
          acc = gm_sum_add acc data in
      gm_sum_finish acc)"

definition gm_tcp_checksum :: "ip4 \<Rightarrow> ip4 \<Rightarrow> bytes \<Rightarrow> u16" where
  "gm_tcp_checksum src dst data =
     (let len = of_nat (length data) :: u16;
          pseudo = [0, 6, ucast (drop_bit 8 len), ucast len];
          acc = gm_sum_add 0 (ip_bytes src);
          acc = gm_sum_add acc (ip_bytes dst);
          acc = gm_sum_add acc pseudo;
          acc = gm_sum_add acc data in
      gm_sum_finish acc)"


subsection \<open>The sum of 16-bit words\<close>

fun word_sum :: "bytes \<Rightarrow> nat" where
  "word_sum (a # b # rest) = 256 * unat a + unat b + word_sum rest"
| "word_sum [a] = 256 * unat a"
| "word_sum [] = 0"

lemma word_sum_append: "even (length xs) \<Longrightarrow> word_sum (xs @ ys) = word_sum xs + word_sum ys"
  by (induction xs rule: word_sum.induct) auto

lemma word_sum_bound: "word_sum xs \<le> 65535 * ((length xs + 1) div 2)"
proof (induction xs rule: word_sum.induct)
  case (1 a b rest)
  then show ?case using unat_bounds(1) [of a] unat_bounds(1) [of b] by simp
next
  case (2 a)
  then show ?case using unat_bounds(1) [of a] by simp
qed simp

lemma unat_pair: "unat (push_bit 8 (ucast (a :: u8)) OR ucast (b :: u8) :: u32) = 256 * unat a + unat b"
proof -
  have disj: "push_bit 8 (ucast a) AND ucast b = (0 :: u32)"
    by (rule bit_word_eqI) (auto simp: bit_simps dest: bit_imp_le_length)
  have "push_bit 8 (ucast a) OR ucast b = (push_bit 8 (ucast a) + ucast b :: u32)"
    using disj by (simp add: disjunctive_add_eq_or)
  also have "unat \<dots> = 256 * unat a + unat b"
    using unat_bounds(1) [of a] unat_bounds(1) [of b]
    by (simp add: unat_word_ariths push_bit_eq_mult unat_ucast_up)
  finally show ?thesis .
qed

lemma unat_sum_add:
  "unat acc + word_sum data < 2 ^ 32 \<Longrightarrow> unat (gm_sum_add acc data) = unat acc + word_sum data"
proof (induction acc data rule: gm_sum_add.induct)
  case (1 acc a b rest)
  then have "unat (acc + (push_bit 8 (ucast a) OR ucast b)) = unat acc + (256 * unat a + unat b)"
    by (subst unat_word_ariths) (simp add: unat_pair)
  with 1 show ?case by simp
next
  case (2 acc a)
  have "unat (push_bit 8 (ucast a) :: u32) = 256 * unat a" using unat_pair [of a 0] by simp
  with 2 show ?case by (simp add: unat_word_ariths)
qed simp

text \<open>What the carry loop computes: the representative of the sum in \<open>1..65535\<close>, or \<open>0\<close>.\<close>

definition fold16 :: "nat \<Rightarrow> nat" where
  "fold16 n = (if n = 0 then 0 else (n - 1) mod 65535 + 1)"

lemma fold16_le: "fold16 n \<le> 65535"
proof -
  have "(n - 1) mod 65535 < 65535" by simp
  then show ?thesis unfolding fold16_def by (simp only: split: if_split) linarith
qed

lemma fold16_carry: "fold16 (n mod 65536 + n div 65536) = fold16 n"
proof (cases "n = 0")
  case False
  let ?k = "n div 65536" and ?r = "n mod 65536"
  have n: "n = ?k * 65535 + (?r + ?k)" by (simp add: algebra_simps)
  have pos: "?r + ?k > 0" using False n by (metis add_is_0 mult_is_0 neq0_conv)
  then have "n - 1 = ?k * 65535 + (?r + ?k - 1)" using n by linarith
  then have "(n - 1) mod 65535 = (?r + ?k - 1) mod 65535" by (simp only: mod_mult_self3)
  then show ?thesis using pos False by (simp add: fold16_def)
qed (simp add: fold16_def)

lemma unat_sum_fold: "unat (sum_fold acc) = fold16 (unat acc)"
proof (induction acc rule: sum_fold.induct)
  case (1 acc)
  show ?case
  proof (cases "drop_bit 16 acc = 0")
    case True
    then have "unat acc div 65536 = 0" using unat_drop_bit_eq [of 16 acc] by (simp add: drop_bit_eq_div)
    then have "unat acc < 65536" by (simp add: div_eq_0_iff)
    then have "fold16 (unat acc) = unat acc" by (auto simp: fold16_def)
    then show ?thesis using True by (simp add: sum_fold.simps)
  next
    case False
    then show ?thesis using 1 carry_decreases(2) [OF False] fold16_carry [of "unat acc"]
      by (subst sum_fold.simps) simp
  qed
qed

lemma unat_sum_finish: "unat (gm_sum_finish acc) = 65535 - fold16 (unat acc)"
proof -
  have "unat (- 1 - sum_fold acc) = unat (- 1 :: u32) - unat (sum_fold acc)"
    by (rule unat_sub) (simp add: word_order.extremum)
  moreover have "NOT (sum_fold acc) = - 1 - sum_fold acc" by (simp add: not_eq_complement)
  ultimately have "unat (NOT (sum_fold acc)) = 4294967295 - fold16 (unat acc)"
    by (simp only: unat_sum_fold) (simp add: unsigned_minus_1_eq_mask mask_eq_exp_minus_1)
  then have "unat (gm_sum_finish acc) = (4294967295 - fold16 (unat acc)) mod 65536"
    by (simp add: gm_sum_finish_def unsigned_ucast_eq take_bit_eq_mod)
  also have "\<dots> = 65535 - fold16 (unat acc)"
  proof -
    have "4294967295 - fold16 (unat acc) = (65535 - fold16 (unat acc)) + 65535 * 65536"
      using fold16_le [of "unat acc"] by simp
    then show ?thesis by (simp only: mod_mult_self1) simp
  qed
  finally show ?thesis .
qed

text \<open>Every message the stack sums is far below the \<open>2 ^ 32\<close> bytes at which the sum could wrap.\<close>

lemma word_sum_small: "length data \<le> 65535 \<Longrightarrow> word_sum data < 2147483648"
proof -
  assume "length data \<le> 65535"
  then have "65535 * ((length data + 1) div 2) \<le> 65535 * 32768" by (intro mult_le_mono2) simp
  then show ?thesis using word_sum_bound [of data] by simp
qed

lemma unat_gm_checksum:
  assumes "length data \<le> 65535"
  shows "unat (gm_checksum data) = 65535 - fold16 (word_sum data)"
  using unat_sum_add [of 0 data] word_sum_small [OF assms]
  by (simp add: gm_checksum_def unat_sum_finish)

lemma checksum_cong:
  "length xs \<le> 65535 \<Longrightarrow> length ys \<le> 65535 \<Longrightarrow> word_sum xs = word_sum ys \<Longrightarrow> gm_checksum xs = gm_checksum ys"
  by (simp add: word_eq_iff_unsigned [where 'a = nat] unat_gm_checksum)

lemma fold16_eq_max: "fold16 n = 65535 \<longleftrightarrow> n \<noteq> 0 \<and> 65535 dvd n"
proof (cases n)
  case (Suc m)
  have "m mod 65535 = 65534 \<longleftrightarrow> Suc m mod 65535 = 0"
    using mod_Suc [of m 65535] by (simp split: if_splits)
  then show ?thesis by (simp add: fold16_def Suc dvd_eq_mod_eq_0)
qed (simp add: fold16_def)

text \<open>A checksum comes out as zero exactly when the words sum to a non-zero multiple of \<open>65535\<close>.\<close>

lemma gm_checksum_0_iff:
  assumes "length data \<le> 65535"
  shows "gm_checksum data = 0 \<longleftrightarrow> word_sum data \<noteq> 0 \<and> 65535 dvd word_sum data"
proof -
  have "gm_checksum data = 0 \<longleftrightarrow> unat (gm_checksum data) = 0" by (simp add: unat_eq_zero)
  also have "\<dots> \<longleftrightarrow> fold16 (word_sum data) = 65535"
    using fold16_le [of "word_sum data"] unat_gm_checksum [OF assms] by simp
  finally show ?thesis by (simp add: fold16_eq_max)
qed

lemma fold16_complement: "n + (65535 - fold16 n) \<noteq> 0 \<and> 65535 dvd (n + (65535 - fold16 n))"
proof (cases n)
  case (Suc m)
  obtain q r where m: "m = 65535 * q + r" and r: "r < 65535"
    by (metis mod_less_divisor mult_div_mod_eq zero_less_numeral)
  then have "m mod 65535 = r" by simp
  then have "n + (65535 - fold16 n) = 65535 * (q + 1)" using m r by (simp add: fold16_def Suc)
  then show ?thesis by (simp only: dvd_triv_left) simp
qed (simp add: fold16_def)

lemma be16_sum: "word_sum (be16 c) = unat c"
  using unat_bounds(2) [of c]
  by (simp add: be16_def unsigned_ucast_eq take_bit_eq_mod drop_bit_eq_div unat_div_distrib
      less_mult_imp_div_less)

text \<open>
  Writing the checksum of a message into the message's zeroed checksum field makes the whole
  message sum to zero: the receiving side's test accepts what the sending side produces.
\<close>

lemma checksum_insert:
  assumes "even (length pre)" "length pre + length suf + 2 \<le> 65535"
  shows "gm_checksum (pre @ be16 (gm_checksum (pre @ [0, 0] @ suf)) @ suf) = 0"
proof -
  let ?n = "word_sum pre + word_sum suf"
  have ws: "word_sum (pre @ [0, 0] @ suf) = ?n" by (simp add: word_sum_append assms)
  have len: "length (pre @ [0, 0] @ suf) \<le> 65535" using assms by simp
  have c: "unat (gm_checksum (pre @ [0, 0] @ suf)) = 65535 - fold16 ?n"
    using unat_gm_checksum [OF len] ws by (simp only:)
  have "word_sum (pre @ be16 (gm_checksum (pre @ [0, 0] @ suf)) @ suf) = ?n + (65535 - fold16 ?n)"
    by (simp only: word_sum_append assms(1) be16_sum c length_be even_numeral)
  then show ?thesis using assms fold16_complement [of ?n] by (simp add: gm_checksum_0_iff)
qed

text \<open>UDP sends \<open>0xffff\<close> for a checksum of zero; the message still sums to zero.\<close>

lemma checksum_insert_udp:
  assumes "even (length pre)" "length pre + length suf + 2 \<le> 65535"
    and c: "c = gm_checksum (pre @ [0, 0] @ suf)"
  shows "gm_checksum (pre @ be16 (if c \<noteq> 0 then c else 0xffff) @ suf) = 0"
proof (cases "c = 0")
  case True
  let ?n = "word_sum pre + word_sum suf"
  have len: "length (pre @ [0, 0] @ suf) \<le> 65535" "length (pre @ be16 0xffff @ suf) \<le> 65535"
    using assms by simp_all
  have "word_sum (pre @ [0, 0] @ suf) = ?n" by (simp add: word_sum_append assms)
  then have "65535 dvd ?n" using True c gm_checksum_0_iff [OF len(1)] by metis
  moreover have "word_sum (pre @ be16 0xffff @ suf) = ?n + 65535"
    by (simp add: word_sum_append assms be16_sum)
  ultimately have "gm_checksum (pre @ be16 0xffff @ suf) = 0" using gm_checksum_0_iff [OF len(2)] by simp
  then show ?thesis using True by simp
qed (use checksum_insert [OF assms(1,2)] c in simp)


subsection \<open>Pseudo headers\<close>

definition pseudo_header :: "u8 \<Rightarrow> ip4 \<Rightarrow> ip4 \<Rightarrow> nat \<Rightarrow> bytes" where
  "pseudo_header protocol src dst len = ip_bytes src @ ip_bytes dst @ [0, protocol] @ be16 (of_nat len)"

lemma length_pseudo_header [simp]: "length (pseudo_header p src dst n) = 12"
  by (simp add: pseudo_header_def)

lemma gm_sum_add_append:
  "even (length xs) \<Longrightarrow> gm_sum_add (gm_sum_add acc xs) ys = gm_sum_add acc (xs @ ys)"
  by (induction acc xs rule: gm_sum_add.induct) auto

lemma tcp_checksum_pseudo:
  "gm_tcp_checksum src dst data = gm_checksum (pseudo_header 6 src dst (length data) @ data)"
  by (simp add: gm_tcp_checksum_def gm_checksum_def pseudo_header_def gm_sum_add_append be16_def Let_def
      del: gm_sum_add.simps)

lemma sum_add_be16:
  assumes "n < 65536"
  shows "gm_sum_add acc (be16 (of_nat n)) = acc + of_nat n"
proof -
  have "unat (of_nat n :: u16) = n" using assms by (simp add: unat_of_nat)
  then have "unat (push_bit 8 (ucast (ucast (drop_bit 8 (of_nat n :: u16)) :: u8)) OR
      ucast (ucast (of_nat n :: u16) :: u8) :: u32) = n"
    using be16_sum [of "of_nat n"] by (simp add: unat_pair be16_def)
  then have "push_bit 8 (ucast (ucast (drop_bit 8 (of_nat n :: u16)) :: u8)) OR
      ucast (ucast (of_nat n :: u16) :: u8) = (of_nat n :: u32)"
    using assms by (simp add: word_eq_iff_unsigned [where 'a = nat] unat_of_nat)
  then show ?thesis by (simp add: be16_def)
qed

lemma udp_checksum_pseudo:
  assumes "length data < 65536"
  shows "gm_udp_checksum src dst data = gm_checksum (pseudo_header 17 src dst (length data) @ data)"
proof -
  have proto: "acc + 17 = gm_sum_add acc [0, 17]" for acc by simp
  show ?thesis
    unfolding gm_udp_checksum_def Let_def proto sum_add_be16 [OF assms, symmetric] gm_checksum_def
    by (simp add: pseudo_header_def gm_sum_add_append be16_def del: gm_sum_add.simps)
qed


lemma tcp_checksum_insert:
  assumes "even (length pre)" "length pre + length suf + 2 \<le> 65523"
  shows "gm_tcp_checksum src dst (pre @ be16 (gm_tcp_checksum src dst (pre @ [0, 0] @ suf)) @ suf) = 0"
proof -
  let ?h = "pseudo_header 6 src dst (length pre + length suf + 2)"
  have "even (length (?h @ pre))" "length (?h @ pre) + length suf + 2 \<le> 65535" using assms by simp_all
  from checksum_insert [OF this] show ?thesis by (simp add: tcp_checksum_pseudo)
qed

lemma udp_checksum_insert:
  assumes "even (length pre)" "length pre + length suf + 2 \<le> 65523"
    and c: "c = gm_udp_checksum src dst (pre @ [0, 0] @ suf)"
  shows "gm_udp_checksum src dst (pre @ be16 (if c \<noteq> 0 then c else 0xffff) @ suf) = 0"
proof -
  let ?h = "pseudo_header 17 src dst (length pre + length suf + 2)"
  have h: "even (length (?h @ pre))" "length (?h @ pre) + length suf + 2 \<le> 65535" using assms by simp_all
  have "c = gm_checksum ((?h @ pre) @ [0, 0] @ suf)" using c assms by (simp add: udp_checksum_pseudo)
  from checksum_insert_udp [OF h this] show ?thesis using assms by (simp add: udp_checksum_pseudo)
qed


subsection \<open>Properties\<close>

text \<open>C23: A message summed with its checksum field at zero and then given that checksum is
  accepted by the receiver's test: IPv4 headers and ICMP messages sum to zero under
  \<^verbatim>\<open>gm_checksum\<close>, TCP segments under \<^verbatim>\<open>gm_tcp_checksum\<close>, and UDP datagrams, for which a checksum of
  zero is sent as \<open>0xffff\<close>, under \<^verbatim>\<open>gm_udp_checksum\<close>.\<close>

theorem checksum_verifies:
  assumes "even (length pre)" "length pre + length suf + 2 \<le> 65523"
  shows "gm_checksum (pre @ be16 (gm_checksum (pre @ [0, 0] @ suf)) @ suf) = 0 \<and>
    gm_tcp_checksum src dst (pre @ be16 (gm_tcp_checksum src dst (pre @ [0, 0] @ suf)) @ suf) = 0 \<and>
    (let c = gm_udp_checksum src dst (pre @ [0, 0] @ suf) in
     gm_udp_checksum src dst (pre @ be16 (if c \<noteq> 0 then c else 0xffff) @ suf) = 0)"
  using checksum_insert [OF assms(1), of suf] assms(2) tcp_checksum_insert [OF assms]
    udp_checksum_insert [OF assms refl] by (simp only: Let_def)

theorem checksum_verifies_witness:
  "gm_checksum ([69, 0] @ be16 (gm_checksum ([69, 0] @ [0, 0] @ [1, 2, 3])) @ [1, 2, 3]) = 0 \<and>
   gm_tcp_checksum (10, 0, 0, 1) (10, 0, 0, 2) ([69, 0] @
     be16 (gm_tcp_checksum (10, 0, 0, 1) (10, 0, 0, 2) ([69, 0] @ [0, 0] @ [1, 2, 3])) @ [1, 2, 3]) = 0"
  using checksum_verifies [of "[69, 0]" "[1, 2, 3]" "(10, 0, 0, 1)" "(10, 0, 0, 2)"] by simp

end
