(* ===== verification/Net_Base.thy ===== *)
theory Net_Base
  imports Virtio_Net Net_Checksum
begin

unbundle bit_operations_syntax

section \<open>Ethernet, ARP, IPv4, ICMP and UDP (\<^verbatim>\<open>net.c\<close>)\<close>

text \<open>
  The state of \<^verbatim>\<open>net.c\<close> and its operations below TCP. A packed header structure is the list of its
  bytes; a field the source stores with \<^verbatim>\<open>gm_swap16\<close> appears as the little-endian bytes of the
  swapped value, which is its big-endian encoding. Data pointers with a length are byte lists, and
  a 6-byte hardware address is a byte list.
\<close>

record gm_arp_entry =
  arp_used :: bool
  arp_ip :: ip4
  arp_mac :: bytes

record gm_config =
  cfg_ip :: ip4
  cfg_mask :: ip4
  cfg_gateway :: ip4
  cfg_store_ip :: ip4
  cfg_store_port :: u16

record gm_net = gm_virtio +
  gm_config :: gm_config
  gm_mac :: bytes
  gm_arp :: "gm_arp_entry list"
  gm_ip_id :: u16
  gm_ping_seq :: u16
  gm_ping_reply :: u16
  gm_udp_peer :: ip4
  gm_udp_reply :: bytes
  gm_udp_local_port :: u16
  gm_udp_remote_port :: u16
  gm_udp_next_port :: u16
  gm_udp_reply_len :: nat
  gm_udp_active :: bool
  gm_rx_packets :: u64
  gm_tx_packets :: u64
  gm_net_online :: bool

abbreviation my_ip :: "'a gm_net_scheme \<Rightarrow> ip4" where
  "my_ip s \<equiv> cfg_ip (gm_config s)"

definition ld16 :: "bytes \<Rightarrow> nat \<Rightarrow> u16" where
  "ld16 d i = rd16le (d ! i) (d ! (i + 1))"

definition ld32 :: "bytes \<Rightarrow> nat \<Rightarrow> u32" where
  "ld32 d i = rd32le (d ! i) (d ! (i + 1)) (d ! (i + 2)) (d ! (i + 3))"

definition ip_at :: "bytes \<Rightarrow> nat \<Rightarrow> ip4" where
  "ip_at d i = (d ! i, d ! (i + 1), d ! (i + 2), d ! (i + 3))"


subsection \<open>Frames out\<close>

definition eth_frame :: "bytes \<Rightarrow> bytes \<Rightarrow> u16 \<Rightarrow> bytes \<Rightarrow> bytes" where
  "eth_frame dst src type data =
     (let frame = dst @ src @ [ucast (drop_bit 8 type), ucast type] @ data in
      if length frame < 60 then frame @ replicate (60 - length frame) 0 else frame)"

definition gm_eth_send :: "bytes \<Rightarrow> u16 \<Rightarrow> bytes \<Rightarrow> 'a gm_net_scheme \<Rightarrow> bool \<times> 'a gm_net_scheme" where
  "gm_eth_send dst type data s =
     (if length data + 14 > 1518 then (False, s)
      else
        let (ok, s1) = gm_virtio_net_send (eth_frame dst (gm_mac s) type data) s in
        if \<not> ok then (False, s1) else (True, s1\<lparr>gm_tx_packets := gm_tx_packets s1 + 1\<rparr>))"


subsection \<open>The ARP table\<close>

text \<open>
  The loop of \<^verbatim>\<open>gm_arp_put\<close>: \<open>Inl i\<close> when entry \<open>i\<close> already holds the address, otherwise \<open>Inr\<close> with
  the first free slot, if there is one.
\<close>

fun arp_scan :: "gm_arp_entry list \<Rightarrow> nat \<Rightarrow> nat option \<Rightarrow> ip4 \<Rightarrow> nat + nat option" where
  "arp_scan [] i free_slot ip = Inr free_slot"
| "arp_scan (e # es) i free_slot ip =
     (if arp_used e \<and> gm_ip_eq (arp_ip e) ip then Inl i
      else arp_scan es (i + 1) (if \<not> arp_used e \<and> free_slot = None then Some i else free_slot) ip)"

definition arp_table_put :: "ip4 \<Rightarrow> bytes \<Rightarrow> gm_arp_entry list \<Rightarrow> gm_arp_entry list" where
  "arp_table_put ip mac es =
     (case arp_scan es 0 None ip of
        Inl i \<Rightarrow> es[i := (es ! i)\<lparr>arp_mac := mac\<rparr>]
      | Inr free_slot \<Rightarrow>
          (let i = (case free_slot of None \<Rightarrow> 0 | Some j \<Rightarrow> j) in
           es[i := (es ! i)\<lparr>arp_used := True, arp_ip := ip, arp_mac := mac\<rparr>]))"

definition gm_arp_put :: "ip4 \<Rightarrow> bytes \<Rightarrow> 'a gm_net_scheme \<Rightarrow> 'a gm_net_scheme" where
  "gm_arp_put ip mac s = s\<lparr>gm_arp := arp_table_put ip mac (gm_arp s)\<rparr>"

fun arp_table_lookup :: "ip4 \<Rightarrow> gm_arp_entry list \<Rightarrow> bytes option" where
  "arp_table_lookup ip [] = None"
| "arp_table_lookup ip (e # es) =
     (if arp_used e \<and> gm_ip_eq (arp_ip e) ip then Some (arp_mac e) else arp_table_lookup ip es)"

definition gm_arp_lookup :: "ip4 \<Rightarrow> 'a gm_net_scheme \<Rightarrow> bytes option" where
  "gm_arp_lookup ip s = arp_table_lookup ip (gm_arp s)"

fun same_subnet :: "ip4 \<Rightarrow> ip4 \<Rightarrow> ip4 \<Rightarrow> bool" where
  "same_subnet (m0, m1, m2, m3) (a0, a1, a2, a3) (b0, b1, b2, b3) =
     (a0 AND m0 = b0 AND m0 \<and> a1 AND m1 = b1 AND m1 \<and> a2 AND m2 = b2 AND m2 \<and> a3 AND m3 = b3 AND m3)"

definition gm_same_subnet :: "ip4 \<Rightarrow> ip4 \<Rightarrow> 'a gm_net_scheme \<Rightarrow> bool" where
  "gm_same_subnet a b s = same_subnet (cfg_mask (gm_config s)) a b"

definition gm_next_hop :: "ip4 \<Rightarrow> 'a gm_net_scheme \<Rightarrow> ip4" where
  "gm_next_hop dst s = (if gm_same_subnet (my_ip s) dst s then dst else cfg_gateway (gm_config s))"

definition arp_packet :: "u16 \<Rightarrow> bytes \<Rightarrow> ip4 \<Rightarrow> bytes \<Rightarrow> ip4 \<Rightarrow> bytes" where
  "arp_packet op sha spa tha tpa =
     le16 (gm_swap16 1) @ le16 (gm_swap16 0x0800) @ [6, 4] @ le16 (gm_swap16 op) @
     sha @ ip_bytes spa @ tha @ ip_bytes tpa"

definition gm_arp_request :: "ip4 \<Rightarrow> 'a gm_net_scheme \<Rightarrow> 'a gm_net_scheme" where
  "gm_arp_request ip s =
     snd (gm_eth_send (replicate 6 0xff) 0x0806
       (arp_packet 1 (gm_mac s) (my_ip s) (replicate 6 0) ip) s)"

definition gm_arp_reply :: "bytes \<Rightarrow> 'a gm_net_scheme \<Rightarrow> 'a gm_net_scheme" where
  "gm_arp_reply request s =
     (let sha = take 6 (drop 8 request); spa = ip_at request 14 in
      snd (gm_eth_send sha 0x0806 (arp_packet 2 (gm_mac s) (my_ip s) sha spa) s))"

definition gm_arp_input :: "bytes \<Rightarrow> 'a gm_net_scheme \<Rightarrow> 'a gm_net_scheme" where
  "gm_arp_input data s =
     (if length data < 28 then s
      else if gm_swap16 (ld16 data 0) \<noteq> 1 \<or> gm_swap16 (ld16 data 2) \<noteq> 0x0800 \<or>
        data ! 4 \<noteq> 6 \<or> data ! 5 \<noteq> 4 then s
      else
        let s1 = gm_arp_put (ip_at data 14) (take 6 (drop 8 data)) s;
            op = gm_swap16 (ld16 data 6) in
        if op = 1 \<and> gm_ip_eq (ip_at data 24) (my_ip s1) then gm_arp_reply data s1 else s1)"


subsection \<open>IPv4 out\<close>

definition ipv4_header :: "u16 \<Rightarrow> u16 \<Rightarrow> u8 \<Rightarrow> u16 \<Rightarrow> ip4 \<Rightarrow> ip4 \<Rightarrow> bytes" where
  "ipv4_header total_len ident protocol checksum src dst =
     [0x45, 0] @ le16 (gm_swap16 total_len) @ le16 (gm_swap16 ident) @ le16 (gm_swap16 0x4000) @
     [64, protocol] @ le16 (gm_swap16 checksum) @ ip_bytes src @ ip_bytes dst"

definition ipv4_packet :: "u16 \<Rightarrow> u8 \<Rightarrow> ip4 \<Rightarrow> ip4 \<Rightarrow> bytes \<Rightarrow> bytes" where
  "ipv4_packet ident protocol src dst data =
     (let total_len = of_nat (20 + length data);
          checksum = gm_checksum (ipv4_header total_len ident protocol 0 src dst) in
      ipv4_header total_len ident protocol checksum src dst @ data)"

definition gm_ipv4_send :: "ip4 \<Rightarrow> u8 \<Rightarrow> bytes \<Rightarrow> 'a gm_net_scheme \<Rightarrow> bool \<times> 'a gm_net_scheme" where
  "gm_ipv4_send dst protocol data s =
     (if length data + 20 > 1500 then (False, s)
      else case gm_arp_lookup (gm_next_hop dst s) s of
        None \<Rightarrow> (False, s)
      | Some mac \<Rightarrow>
          let s1 = s\<lparr>gm_ip_id := gm_ip_id s + 1\<rparr> in
          gm_eth_send mac 0x0800 (ipv4_packet (gm_ip_id s1) protocol (my_ip s1) dst data) s1)"


subsection \<open>UDP and ICMP in\<close>

definition gm_udp_input :: "ip4 \<Rightarrow> bytes \<Rightarrow> 'a gm_net_scheme \<Rightarrow> 'a gm_net_scheme" where
  "gm_udp_input src data s =
     (if \<not> gm_udp_active s \<or> length data < 8 then s
      else
        let udp_len = unat (gm_swap16 (ld16 data 4)) in
        if udp_len < 8 \<or> udp_len > length data then s
        else if \<not> gm_ip_eq src (gm_udp_peer s) \<or> gm_swap16 (ld16 data 0) \<noteq> gm_udp_remote_port s \<or>
          gm_swap16 (ld16 data 2) \<noteq> gm_udp_local_port s then s
        else if ld16 data 6 \<noteq> 0 \<and> gm_udp_checksum src (my_ip s) (take udp_len data) \<noteq> 0 then s
        else
          let payload_len = udp_len - 8 in
          if payload_len = 0 \<or> payload_len > 1024 then s
          else s\<lparr>gm_udp_reply := overwrite (gm_udp_reply s) 0 (take payload_len (drop 8 data)),
                 gm_udp_reply_len := payload_len\<rparr>)"

definition icmp_echo_reply :: "bytes \<Rightarrow> bytes" where
  "icmp_echo_reply data =
     (let reply = data[0 := 0, 2 := 0, 3 := 0];
          cksum = gm_checksum reply in
      reply[2 := ucast (drop_bit 8 cksum), 3 := ucast cksum])"

definition gm_icmp_input :: "ip4 \<Rightarrow> bytes \<Rightarrow> 'a gm_net_scheme \<Rightarrow> 'a gm_net_scheme" where
  "gm_icmp_input src data s =
     (if length data < 8 \<or> gm_checksum data \<noteq> 0 then s
      else if data ! 0 = 0 \<and> data ! 1 = 0 \<and> gm_swap16 (ld16 data 6) = gm_ping_seq s
        then s\<lparr>gm_ping_reply := gm_ping_seq s\<rparr>
      else if data ! 0 \<noteq> 8 \<or> data ! 1 \<noteq> 0 \<or> length data > 1500 then s
      else snd (gm_ipv4_send src 1 (icmp_echo_reply data) s))"



subsection \<open>What sending leaves alone\<close>

text \<open>
  \<open>net_view\<close>: everything a send leaves as it is, that is, all but the driver's queues, the packet
  counter and the IP identifier.
\<close>

definition net_view :: "'a gm_net_scheme \<Rightarrow> 'a gm_net_scheme" where
  "net_view s = s\<lparr>vdev := dev_idle, env_dev := [], gm_virtio_ready := False, vtx_last_used := 0,
     vtx_avail_idx := 0, vtx_avail_ring := [], vtx_desc_len := [], gm_tx_buf := [], gm_tx_free := [],
     gm_tx_next := 0, vrx_last_used := 0, vrx_avail_idx := 0, vrx_avail_ring := [], vq_notified := [],
     gm_ip_id := 0, gm_tx_packets := 0\<rparr>"

lemma net_view_outside: "outside t = outside s \<Longrightarrow> net_view t = net_view s"
  by (cases s; cases t) (simp add: outside_def net_view_def)

lemma net_view_sel:
  assumes "net_view t = net_view s"
  shows "gm_tick_count t = gm_tick_count s" "env_ticks t = env_ticks s" "gm_console t = gm_console s"
    "gm_config t = gm_config s" "gm_mac t = gm_mac s" "gm_arp t = gm_arp s" "gm_ping_seq t = gm_ping_seq s"
    "gm_ping_reply t = gm_ping_reply s" "gm_udp_peer t = gm_udp_peer s" "gm_udp_reply t = gm_udp_reply s"
    "gm_udp_local_port t = gm_udp_local_port s" "gm_udp_remote_port t = gm_udp_remote_port s"
    "gm_udp_next_port t = gm_udp_next_port s" "gm_udp_reply_len t = gm_udp_reply_len s"
    "gm_udp_active t = gm_udp_active s" "gm_rx_packets t = gm_rx_packets s"
    "gm_net_online t = gm_net_online s" "gm_net.more t = gm_net.more s"
  using assms by (cases s; cases t; simp add: net_view_def)+

lemma net_view_upd [simp]:
  "net_view (s\<lparr>gm_tx_packets := p\<rparr>) = net_view s" "net_view (s\<lparr>gm_ip_id := i\<rparr>) = net_view s"
  by (simp_all add: net_view_def)

lemma eth_send_frame:
  assumes "gm_eth_send dst type data s = (r, t)"
  shows "net_view t = net_view s \<and> dev_keeps s t"
proof (cases "length data + 14 > 1518")
  case False
  obtain ok s1 where send: "gm_virtio_net_send (eth_frame dst (gm_mac s) type data) s = (ok, s1)" by fastforce
  then have "t = s1 \<or> t = s1\<lparr>gm_tx_packets := gm_tx_packets s1 + 1\<rparr>"
    using assms False by (auto simp: gm_eth_send_def split: if_splits)
  moreover have "net_view s1 = net_view s" "dev_keeps s s1"
    using send_frame [OF send] net_view_outside [of s1 s] by simp_all
  ultimately show ?thesis by (elim disjE) (simp_all add: dev_keeps_def)
qed (use assms in \<open>simp add: gm_eth_send_def\<close>)

lemma ipv4_send_frame:
  assumes "gm_ipv4_send dst protocol data s = (r, t)"
  shows "net_view t = net_view s \<and> dev_keeps s t"
proof -
  have "t = s \<or> (\<exists>mac pkt. gm_eth_send mac 0x0800 pkt (s\<lparr>gm_ip_id := gm_ip_id s + 1\<rparr>) = (r, t))"
    using assms by (auto simp: gm_ipv4_send_def Let_def split: if_splits option.splits)
  then show ?thesis
  proof (elim disjE exE)
    fix mac pkt
    assume "gm_eth_send mac 0x0800 pkt (s\<lparr>gm_ip_id := gm_ip_id s + 1\<rparr>) = (r, t)"
    from eth_send_frame [OF this] show ?thesis by (simp add: dev_keeps_def)
  qed simp
qed

lemma snd_frame:
  "net_view (snd (gm_eth_send dst type data s)) = net_view s" "dev_keeps s (snd (gm_eth_send dst type data s))"
  "net_view (snd (gm_ipv4_send ip p data s)) = net_view s" "dev_keeps s (snd (gm_ipv4_send ip p data s))"
  using eth_send_frame [of dst type data s] ipv4_send_frame [of ip p data s]
  by (cases "gm_eth_send dst type data s"; cases "gm_ipv4_send ip p data s"; simp)+



subsection \<open>The ARP table as a cache\<close>

text \<open>
  A cache that may forget: what was put last under a key is what is found there, and another key
  keeps its value or is forgotten. Nothing else can ever be found.
\<close>

locale lossy_cache =
  fixes put :: "'k \<Rightarrow> 'v \<Rightarrow> 'c \<Rightarrow> 'c" and get :: "'k \<Rightarrow> 'c \<Rightarrow> 'v option" and inv :: "'c \<Rightarrow> bool"
  assumes inv_put: "inv c \<Longrightarrow> inv (put k v c)"
    and get_put_same: "inv c \<Longrightarrow> get k (put k v c) = Some v"
    and get_put_other: "inv c \<Longrightarrow> k' \<noteq> k \<Longrightarrow> get k' (put k v c) = get k' c \<or> get k' (put k v c) = None"
begin

lemma inv_puts: "inv c \<Longrightarrow> inv (fold (\<lambda>(k, v). put k v) kvs c)"
  by (induction kvs arbitrary: c) (auto intro: inv_put)

lemma get_puts:
  assumes "inv c" "get k (fold (\<lambda>(k, v). put k v) kvs c) = Some v"
  shows "map_of (rev kvs) k = Some v \<or> k \<notin> fst ` set kvs \<and> get k c = Some v"
  using assms
proof (induction kvs arbitrary: v rule: rev_induct)
  case (snoc kv kvs)
  obtain k0 v0 where kv: "kv = (k0, v0)" by (cases kv)
  let ?c = "fold (\<lambda>(k, v). put k v) kvs c"
  have inv: "inv ?c" using snoc.prems(1) by (rule inv_puts)
  have get: "get k (put k0 v0 ?c) = Some v" using snoc.prems(2) kv by simp
  show ?case
  proof (cases "k = k0")
    case True
    then show ?thesis using get get_put_same [OF inv] kv by simp
  next
    case False
    then have "get k ?c = Some v" using get get_put_other [OF inv False, of v0] by simp
    then show ?thesis using snoc.IH snoc.prems(1) False kv by auto
  qed
qed simp

lemma get_after_put:
  "inv c \<Longrightarrow> get k (fold (\<lambda>(k, v). put k v) (kvs @ [(k, v)]) c) = Some v"
  by (simp add: get_put_same inv_puts)

end

definition arp_ok :: "gm_arp_entry list \<Rightarrow> bool" where
  "arp_ok es \<longleftrightarrow> length es = 8 \<and>
     (\<forall>i < 8. \<forall>j < 8. arp_used (es ! i) \<and> arp_used (es ! j) \<and> arp_ip (es ! i) = arp_ip (es ! j) \<longrightarrow> i = j)"

lemma arp_scan_Inl:
  "arp_scan es i f ip = Inl j \<Longrightarrow> \<exists>k < length es. j = i + k \<and> arp_used (es ! k) \<and> arp_ip (es ! k) = ip"
proof (induction es arbitrary: i f)
  case (Cons e es)
  show ?case
  proof (cases "arp_used e \<and> arp_ip e = ip")
    case False
    then obtain k where "k < length es" "j = (i + 1) + k" "arp_used (es ! k)" "arp_ip (es ! k) = ip"
      using Cons.IH [of "i + 1"] Cons.prems by (auto split: if_splits)
    then show ?thesis by (intro exI [of _ "Suc k"]) simp
  qed (use Cons.prems in auto)
qed simp

lemma arp_scan_Inr:
  "arp_scan es i f ip = Inr g \<Longrightarrow>
     (\<forall>k < length es. \<not> (arp_used (es ! k) \<and> arp_ip (es ! k) = ip)) \<and>
     (case g of Some j \<Rightarrow> f = Some j \<or> (\<exists>k < length es. j = i + k \<and> \<not> arp_used (es ! k))
      | None \<Rightarrow> f = None \<and> (\<forall>k < length es. arp_used (es ! k)))"
proof (induction es arbitrary: i f)
  case (Cons e es)
  let ?f = "if \<not> arp_used e \<and> f = None then Some i else f"
  have no: "\<not> (arp_used e \<and> arp_ip e = ip)" and rest: "arp_scan es (i + 1) ?f ip = Inr g"
    using Cons.prems by (auto split: if_splits)
  have "\<exists>k < Suc (length es). j = i + k \<and> \<not> arp_used ((e # es) ! k)"
    if "k < length es" "j = i + 1 + k" "\<not> arp_used (es ! k)" for j k
    using that by (intro exI [of _ "Suc k"]) simp
  then show ?case
    using Cons.IH [OF rest] no
    by (auto simp: less_Suc_eq_0_disj nth_Cons' split: option.splits if_splits)
qed (auto split: option.splits)

lemma arp_lookup_None:
  "arp_table_lookup ip es = None \<longleftrightarrow> (\<forall>k < length es. \<not> (arp_used (es ! k) \<and> arp_ip (es ! k) = ip))"
  by (induction es) (auto simp: less_Suc_eq_0_disj)

lemma arp_lookup_Some:
  "arp_table_lookup ip es = Some mac \<Longrightarrow>
     \<exists>k < length es. arp_used (es ! k) \<and> arp_ip (es ! k) = ip \<and> arp_mac (es ! k) = mac"
proof (induction es)
  case (Cons e es)
  show ?case
  proof (cases "arp_used e \<and> arp_ip e = ip")
    case False
    then obtain k where "k < length es" "arp_used (es ! k)" "arp_ip (es ! k) = ip" "arp_mac (es ! k) = mac"
      using Cons by auto
    then show ?thesis by (intro exI [of _ "Suc k"]) simp
  qed (use Cons.prems in auto)
qed simp

lemma arp_lookup_nth:
  assumes "arp_ok es" "i < 8" "arp_used (es ! i)"
  shows "arp_table_lookup (arp_ip (es ! i)) es = Some (arp_mac (es ! i))"
proof (cases "arp_table_lookup (arp_ip (es ! i)) es")
  case None
  then show ?thesis using assms by (auto simp: arp_lookup_None arp_ok_def)
next
  case (Some mac)
  from arp_lookup_Some [OF this] assms show ?thesis by (auto simp: arp_ok_def Some)
qed

text \<open>Setting one entry: the new address is found, every other one stays unless it was displaced.\<close>

lemma arp_set:
  assumes ok: "arp_ok es" and i: "i < 8" and e: "arp_used e" "arp_ip e = ip"
    and only: "\<And>k. k < 8 \<Longrightarrow> k \<noteq> i \<Longrightarrow> \<not> (arp_used (es ! k) \<and> arp_ip (es ! k) = ip)"
  shows "arp_ok (es[i := e])" and "arp_table_lookup ip (es[i := e]) = Some (arp_mac e)"
    and "ip' \<noteq> ip \<Longrightarrow> arp_table_lookup ip' (es[i := e]) = arp_table_lookup ip' es \<or>
      arp_used (es ! i) \<and> arp_ip (es ! i) = ip' \<and> arp_table_lookup ip' (es[i := e]) = None"
proof -
  have len: "length es = 8" using ok by (simp add: arp_ok_def)
  have nth: "es[i := e] ! k = (if k = i then e else es ! k)" if "k < 8" for k using i len that by simp
  note uniq = ok [unfolded arp_ok_def, THEN conjunct2, rule_format]
  have eq: "a = b" if ab: "a < 8" "b < 8" "arp_used (es[i := e] ! a)" "arp_used (es[i := e] ! b)"
    "arp_ip (es[i := e] ! a) = arp_ip (es[i := e] ! b)" for a b
  proof (cases "a = i \<or> b = i")
    case True
    then show ?thesis using ab e only nth by metis
  next
    case False
    then show ?thesis using ab by (intro uniq) (simp_all add: nth)
  qed
  show ok': "arp_ok (es[i := e])"
    unfolding arp_ok_def by (intro conjI allI impI) (simp add: len, elim conjE, rule eq)
  show "arp_table_lookup ip (es[i := e]) = Some (arp_mac e)"
    using arp_lookup_nth [OF ok' i] e i len by simp
  assume ne: "ip' \<noteq> ip"
  show "arp_table_lookup ip' (es[i := e]) = arp_table_lookup ip' es \<or>
      arp_used (es ! i) \<and> arp_ip (es ! i) = ip' \<and> arp_table_lookup ip' (es[i := e]) = None"
  proof (cases "arp_table_lookup ip' es")
    case None
    then have "arp_table_lookup ip' (es[i := e]) = None"
      using ne e len by (simp add: arp_lookup_None nth)
    then show ?thesis using None by simp
  next
    case (Some mac)
    from arp_lookup_Some [OF this] obtain k where
      k: "k < 8" "arp_used (es ! k)" "arp_ip (es ! k) = ip'" "arp_mac (es ! k) = mac" using len by auto
    show ?thesis
    proof (cases "k = i")
      case True
      then have "arp_table_lookup ip' (es[i := e]) = None"
        using k uniq [OF _ k(1)] ne e len by (metis arp_lookup_None length_list_update nth)
      then show ?thesis using True k by simp
    next
      case False
      then show ?thesis using arp_lookup_nth [OF ok' k(1)] k Some by simp
    qed
  qed
qed

text \<open>The two ways \<open>arp_table_put\<close> sets an entry, as one: which slot, and what may be displaced.\<close>

lemma arp_put_slot:
  assumes "arp_ok es"
  obtains i e where "arp_table_put ip mac es = es[i := e]" "i < 8" "arp_used e" "arp_ip e = ip" "arp_mac e = mac"
    "\<And>k. k < 8 \<Longrightarrow> k \<noteq> i \<Longrightarrow> \<not> (arp_used (es ! k) \<and> arp_ip (es ! k) = ip)"
    "arp_used (es ! i) \<Longrightarrow> arp_ip (es ! i) = ip \<or> i = 0 \<and> (\<forall>k < 8. arp_used (es ! k))"
proof (cases "arp_scan es 0 None ip")
  case (Inl j)
  have len: "length es = 8" using assms by (simp add: arp_ok_def)
  from arp_scan_Inl [OF Inl] len have j: "j < 8" "arp_used (es ! j)" "arp_ip (es ! j) = ip" by auto
  have put: "arp_table_put ip mac es = es[j := (es ! j)\<lparr>arp_mac := mac\<rparr>]" by (simp add: arp_table_put_def Inl)
  have only: "\<not> (arp_used (es ! k) \<and> arp_ip (es ! k) = ip)" if "k < 8" "k \<noteq> j" for k
    using that j assms [unfolded arp_ok_def, THEN conjunct2, rule_format, of k j] by auto
  show ?thesis by (rule that [OF put]) (use j only in auto)
next
  case (Inr g)
  have len: "length es = 8" using assms by (simp add: arp_ok_def)
  let ?i = "case g of None \<Rightarrow> 0 | Some j \<Rightarrow> j"
  show ?thesis
    using arp_scan_Inr [OF Inr] len
    by (intro that [of ?i "(es ! ?i)\<lparr>arp_used := True, arp_ip := ip, arp_mac := mac\<rparr>"])
      (auto simp: arp_table_put_def Inr split: option.splits)
qed

interpretation arp: lossy_cache arp_table_put arp_table_lookup arp_ok
proof
  fix es ip mac ip'
  assume ok: "arp_ok es"
  obtain i e where s: "arp_table_put ip mac es = es[i := e]" "i < 8" "arp_used e" "arp_ip e = ip"
    "arp_mac e = mac" "\<And>k. k < 8 \<Longrightarrow> k \<noteq> i \<Longrightarrow> \<not> (arp_used (es ! k) \<and> arp_ip (es ! k) = ip)"
    "arp_used (es ! i) \<Longrightarrow> arp_ip (es ! i) = ip \<or> i = 0 \<and> (\<forall>k < 8. arp_used (es ! k))"
    by (rule arp_put_slot [OF ok, of ip mac]) blast
  note set = arp_set [OF ok s(2,3,4,6)]
  show "arp_ok (arp_table_put ip mac es)" using set(1) s(1) by simp
  show "arp_table_lookup ip (arp_table_put ip mac es) = Some mac" using set(2) s(1,5) by simp
  show "ip' \<noteq> ip \<Longrightarrow> arp_table_lookup ip' (arp_table_put ip mac es) = arp_table_lookup ip' es \<or>
      arp_table_lookup ip' (arp_table_put ip mac es) = None"
    using set(3) [of ip'] s(1) by auto
qed

lemma arp_put_evicts:
  assumes "arp_ok es" "ip' \<noteq> ip" "arp_table_lookup ip' (arp_table_put ip mac es) \<noteq> arp_table_lookup ip' es"
  shows "arp_ip (es ! 0) = ip' \<and> (\<forall>k < 8. arp_used (es ! k))"
proof -
  obtain i e where s: "arp_table_put ip mac es = es[i := e]" "i < 8" "arp_used e" "arp_ip e = ip"
    "arp_mac e = mac" "\<And>k. k < 8 \<Longrightarrow> k \<noteq> i \<Longrightarrow> \<not> (arp_used (es ! k) \<and> arp_ip (es ! k) = ip)"
    "arp_used (es ! i) \<Longrightarrow> arp_ip (es ! i) = ip \<or> i = 0 \<and> (\<forall>k < 8. arp_used (es ! k))"
    by (rule arp_put_slot [OF assms(1), of ip mac]) blast
  from arp_set(3) [OF assms(1) s(2,3,4,6) assms(2)] show ?thesis using s(1,7) assms(2,3) by auto
qed

lemma gm_arp_puts: "gm_arp (fold (\<lambda>(k, v). gm_arp_put k v) anns s) = fold (\<lambda>(k, v). arp_table_put k v) anns (gm_arp s)"
  by (induction anns arbitrary: s) (auto simp: gm_arp_put_def)


subsection \<open>ARP packets\<close>

lemma length_6: "length xs = 6 \<Longrightarrow> \<exists>a b c d e f. xs = [a, b, c, d, e, f]"
  by (auto simp: length_Suc_conv numeral_eq_Suc)

lemma arp_packet_fields:
  assumes "length sha = 6" "length tha = 6"
    and p: "p = arp_packet op sha spa tha tpa @ pad"
  shows "28 \<le> length p" "ld16 p 0 = gm_swap16 1" "ld16 p 2 = gm_swap16 0x0800" "p ! 4 = 6" "p ! 5 = 4"
    "gm_swap16 (ld16 p 6) = op" "take 6 (drop 8 p) = sha" "ip_at p 14 = spa" "ip_at p 24 = tpa"
proof -
  obtain a b c d e f where sha: "sha = [a, b, c, d, e, f]" using length_6 [OF assms(1)] by blast
  obtain a' b' c' d' e' f' where tha: "tha = [a', b', c', d', e', f']" using length_6 [OF assms(2)] by blast
  obtain s0 s1 s2 s3 where spa: "spa = (s0, s1, s2, s3)" by (cases spa)
  obtain t0 t1 t2 t3 where tpa: "tpa = (t0, t1, t2, t3)" by (cases tpa)
  note defs = p arp_packet_def sha tha spa tpa ld16_def ip_at_def le16_def
  show "28 \<le> length p" "p ! 4 = 6" "p ! 5 = 4" "ld16 p 0 = gm_swap16 1" "ld16 p 2 = gm_swap16 0x0800"
    "take 6 (drop 8 p) = sha" "ip_at p 14 = spa" "ip_at p 24 = tpa" "gm_swap16 (ld16 p 6) = op"
    by (simp_all add: defs del: le16_swap)
qed

lemma arp_input_request:
  assumes "length sha = 6" "length tha = 6" "tpa = my_ip s"
  shows "gm_arp_input (arp_packet 1 sha spa tha tpa @ pad) s =
    snd (gm_eth_send sha 0x0806 (arp_packet 2 (gm_mac s) (my_ip s) sha spa) (gm_arp_put spa sha s))"
  using arp_packet_fields [OF assms(1,2) refl, of 1 spa tpa pad] assms(3)
  by (simp add: gm_arp_input_def gm_arp_reply_def gm_arp_put_def Let_def)

lemma arp_input_reply:
  assumes "length sha = 6" "length tha = 6"
  shows "gm_arp_input (arp_packet 2 sha spa tha tpa @ pad) s = gm_arp_put spa sha s"
  using arp_packet_fields [OF assms refl, of 2 spa tpa pad] by (simp add: gm_arp_input_def Let_def)


subsection \<open>Properties\<close>

text \<open>C24: The ARP table is a sound cache: an address just announced is found with its hardware
  address; whatever is found after any sequence of announcements is the latest one for that
  address (or an earlier entry that no announcement touched); and no address is stored twice.\<close>

theorem arp_finds_latest:
  assumes "arp_ok (gm_arp s)"
  shows "let t = fold (\<lambda>(ip, mac). gm_arp_put ip mac) anns s in
    arp_ok (gm_arp t) \<and> gm_arp_lookup ip (gm_arp_put ip mac t) = Some mac \<and>
    (\<forall>m. gm_arp_lookup ip t = Some m \<longrightarrow>
       map_of (rev anns) ip = Some m \<or> ip \<notin> fst ` set anns \<and> gm_arp_lookup ip s = Some m)"
  using arp.inv_puts [OF assms(1), of anns] arp.get_puts [OF assms(1), of ip anns]
    arp.get_after_put [OF assms(1), of ip anns mac]
  by (simp add: Let_def gm_arp_lookup_def gm_arp_puts gm_arp_put_def)

text \<open>An announcement makes the table forget another address only when all eight entries are
  in use, and then it is the one in entry 0.\<close>

theorem arp_evicts_entry_0:
  assumes "arp_ok (gm_arp s)" "ip' \<noteq> ip" "gm_arp_lookup ip' (gm_arp_put ip mac s) \<noteq> gm_arp_lookup ip' s"
  shows "arp_ip (gm_arp s ! 0) = ip' \<and> (\<forall>k < 8. arp_used (gm_arp s ! k))"
  using arp_put_evicts [OF assms(1,2), of mac] assms(3) by (simp add: gm_arp_lookup_def gm_arp_put_def)

text \<open>ARP resolution works: a host that gets a request for its own address learns the asker and
  answers it with its hardware address, and the asker finds the answer's hardware address in its
  table, whatever padding the frames carry.\<close>

theorem arp_resolution:
  assumes "length (gm_mac a) = 6" "length (gm_mac b) = 6" "arp_ok (gm_arp a)"
  shows "gm_arp_input (arp_packet 1 (gm_mac a) (my_ip a) (replicate 6 0) (my_ip b) @ pad) b =
      snd (gm_eth_send (gm_mac a) 0x0806 (arp_packet 2 (gm_mac b) (my_ip b) (gm_mac a) (my_ip a))
        (gm_arp_put (my_ip a) (gm_mac a) b)) \<and>
    gm_arp_lookup (my_ip b)
      (gm_arp_input (arp_packet 2 (gm_mac b) (my_ip b) (gm_mac a) (my_ip a) @ pad') a) = Some (gm_mac b)"
  using arp_input_request [OF assms(1), of "replicate 6 0" "my_ip b" b]
    arp_input_reply [OF assms(2,1), of "my_ip b" "my_ip a" pad' a] arp.get_put_same [OF assms(3)]
  by (simp add: gm_arp_lookup_def gm_arp_put_def)



subsection \<open>Witnesses\<close>

definition arp_blank :: "gm_arp_entry" where
  "arp_blank = \<lparr>arp_used = False, arp_ip = (0, 0, 0, 0), arp_mac = replicate 6 0\<rparr>"

definition net_blank :: gm_net where
  "net_blank = gm_virtio.extend virtio_start
     (gm_net.fields \<lparr>cfg_ip = (10, 0, 2, 15), cfg_mask = (255, 255, 255, 0), cfg_gateway = (10, 0, 2, 2),
        cfg_store_ip = (10, 0, 2, 2), cfg_store_port = 7070\<rparr> [2, 0, 0, 0, 0, 1]
        (replicate 8 arp_blank) 0 0 0 (0, 0, 0, 0) (replicate 1024 0) 0 0 49152 0 False 0 0 True)"

lemma net_blank_sel [simp]:
  "gm_arp net_blank = replicate 8 arp_blank" "gm_mac net_blank = [2, 0, 0, 0, 0, 1]"
  "my_ip net_blank = (10, 0, 2, 15)"
  by (simp_all add: net_blank_def gm_virtio.extend_def gm_net.fields_def)

lemma arp_ok_blank: "arp_ok (replicate 8 arp_blank)"
  by (simp add: arp_ok_def arp_blank_def)

theorem arp_finds_latest_witness:
  "let t = fold (\<lambda>(ip, mac). gm_arp_put ip mac) [((10, 0, 2, 2), [1, 2, 3, 4, 5, 6])] net_blank in
     gm_arp_lookup (10, 0, 2, 3) (gm_arp_put (10, 0, 2, 3) [6, 5, 4, 3, 2, 1] t) = Some [6, 5, 4, 3, 2, 1]"
  using arp_finds_latest [of net_blank "[((10, 0, 2, 2), [1, 2, 3, 4, 5, 6])]" "(10, 0, 2, 3)" "[6, 5, 4, 3, 2, 1]"]
  by (simp add: arp_ok_blank Let_def)

text \<open>A full table, whose first entry gives way.\<close>

definition net_full :: gm_net where
  "net_full = net_blank\<lparr>gm_arp := map (\<lambda>k. \<lparr>arp_used = True, arp_ip = (10, 0, 3, of_nat k), arp_mac = replicate 6 7\<rparr>) [0..<8]\<rparr>"

lemma arp_full_ok: "arp_ok (gm_arp net_full)"
  by (auto simp: arp_ok_def net_full_def unat_of_nat dest!: arg_cong [where f = unat])

theorem arp_evicts_entry_0_witness:
  "arp_ip (gm_arp net_full ! 0) = (10, 0, 3, 0) \<and> arp_used (gm_arp net_full ! 7)"
proof -
  have "gm_arp_lookup (10, 0, 3, 0) (gm_arp_put (10, 0, 2, 3) (replicate 6 9) net_full) \<noteq>
      gm_arp_lookup (10, 0, 3, 0) net_full"
    by (simp add: gm_arp_lookup_def gm_arp_put_def net_full_def arp_table_put_def upt_rec)
  from arp_evicts_entry_0 [OF arp_full_ok _ this] show ?thesis by simp
qed

theorem arp_resolution_witness:
  "gm_arp_lookup (10, 0, 2, 15)
     (gm_arp_input (arp_packet 2 [2, 0, 0, 0, 0, 1] (10, 0, 2, 15) [2, 0, 0, 0, 0, 1] (10, 0, 2, 15) @ [])
       net_blank) = Some [2, 0, 0, 0, 0, 1]"
  using arp_resolution [of net_blank net_blank "[]" "[]"] by (simp add: arp_ok_blank)

end
