(* ===== verification/Tcp_Ring.thy ===== *)
theory Tcp_Ring
  imports Net_Base
begin

section \<open>The TCP receive ring (\<^verbatim>\<open>tcpstore.c\<close>: \<^verbatim>\<open>gm_tcp_append\<close>, \<^verbatim>\<open>gm_tcp_read\<close>, \<^verbatim>\<open>gm_tcp_drop\<close>)\<close>

text \<open>
  The state of \<^verbatim>\<open>tcpstore.c\<close> and the operations on its 4096-byte receive ring. The ring is
  refined to a queue of bytes, \<open>tcp_stream\<close>: appending adds at its end, reading removes from its
  front. Lengths and indices, which stay below 8192, are natural numbers.
\<close>

datatype tcp_state = TCP_CLOSED | TCP_SYN | TCP_ESTABLISHED | TCP_FIN | TCP_RESET

record gm_tcp = gm_net +
  gm_tcp_dst :: ip4
  gm_tcp_src_port :: u16
  gm_tcp_dst_port :: u16
  gm_tcp_seq :: u32
  gm_tcp_ack :: u32
  gm_tcp_state :: tcp_state
  gm_tcp_rx :: bytes
  gm_tcp_rx_head :: nat
  gm_tcp_rx_len :: nat
  gm_tcp_unacked :: bytes
  gm_tcp_unacked_len :: nat
  gm_tcp_unacked_seq :: u32
  gm_tcp_unacked_tick :: u64
  gm_tcp_unacked_retry :: u8
  gm_tcp_tx_count :: u64
  gm_tcp_rx_count :: u64
  gm_tcp_drop_count :: u64
  gm_next_port :: u16
  gm_next_seq :: u32

text \<open>The two copies of \<^verbatim>\<open>gm_tcp_append\<close>: up to the end of the ring, then from its start.\<close>

definition ring_put :: "bytes \<Rightarrow> nat \<Rightarrow> bytes \<Rightarrow> bytes" where
  "ring_put rx tail data =
     (let first = (if length data > 4096 - tail then 4096 - tail else length data);
          rx1 = (if first \<noteq> 0 then overwrite rx tail (take first data) else rx) in
      if length data > first then overwrite rx1 0 (drop first data) else rx1)"

definition gm_tcp_append :: "bytes \<Rightarrow> 'a gm_tcp_scheme \<Rightarrow> bool \<times> 'a gm_tcp_scheme" where
  "gm_tcp_append data s =
     (let room = 4096 - gm_tcp_rx_len s in
      if length data > room
      then (False, s\<lparr>gm_tcp_drop_count := gm_tcp_drop_count s + of_nat (length data)\<rparr>)
      else
        let tail = (gm_tcp_rx_head s + gm_tcp_rx_len s) mod 4096 in
        (True, s\<lparr>gm_tcp_rx := ring_put (gm_tcp_rx s) tail data,
                 gm_tcp_rx_len := gm_tcp_rx_len s + length data\<rparr>))"

text \<open>The two copies of \<^verbatim>\<open>gm_tcp_read\<close>, and the bytes they deliver.\<close>

definition ring_get :: "bytes \<Rightarrow> nat \<Rightarrow> nat \<Rightarrow> bytes" where
  "ring_get rx head n =
     (let first = (if n > 4096 - head then 4096 - head else n) in
      take first (drop head rx) @ (if n > first then take (n - first) rx else []))"

definition gm_tcp_read :: "nat \<Rightarrow> 'a gm_tcp_scheme \<Rightarrow> bytes \<times> 'a gm_tcp_scheme" where
  "gm_tcp_read limit s =
     (if limit = 0 then ([], s)
      else
        let n = (if gm_tcp_rx_len s > limit then limit else gm_tcp_rx_len s);
            out = ring_get (gm_tcp_rx s) (gm_tcp_rx_head s) n;
            head = (gm_tcp_rx_head s + n) mod 4096;
            len = gm_tcp_rx_len s - n in
        (out, s\<lparr>gm_tcp_rx_head := (if len = 0 then 0 else head), gm_tcp_rx_len := len\<rparr>))"

definition gm_tcp_drop :: "'a gm_tcp_scheme \<Rightarrow> 'a gm_tcp_scheme" where
  "gm_tcp_drop s = s\<lparr>gm_tcp_rx_head := 0, gm_tcp_rx_len := 0\<rparr>"

definition gm_tcp_available :: "'a gm_tcp_scheme \<Rightarrow> nat" where
  "gm_tcp_available s = gm_tcp_rx_len s"


subsection \<open>A queue of bytes with a capacity\<close>

datatype 'a queue_op = Push "'a list" | Pop nat

text \<open>Runs a sequence of operations; collects what was accepted and what came out.\<close>

fun run_queue :: "('a list \<Rightarrow> 's \<Rightarrow> bool \<times> 's) \<Rightarrow> (nat \<Rightarrow> 's \<Rightarrow> 'a list \<times> 's) \<Rightarrow> 'a queue_op list \<Rightarrow> 's \<Rightarrow>
    'a list \<times> 'a list \<times> 's" where
  "run_queue push pop [] s = ([], [], s)"
| "run_queue push pop (Push xs # ops) s =
     (let (ok, s1) = push xs s; (inp, out, t) = run_queue push pop ops s1 in
      ((if ok then xs else []) @ inp, out, t))"
| "run_queue push pop (Pop n # ops) s =
     (let (xs, s1) = pop n s; (inp, out, t) = run_queue push pop ops s1 in (inp, xs @ out, t))"

locale bounded_queue =
  fixes push :: "'a list \<Rightarrow> 's \<Rightarrow> bool \<times> 's" and pop :: "nat \<Rightarrow> 's \<Rightarrow> 'a list \<times> 's"
    and content :: "'s \<Rightarrow> 'a list" and inv :: "'s \<Rightarrow> bool" and cap :: nat
  assumes bounded: "inv s \<Longrightarrow> length (content s) \<le> cap"
    and push: "inv s \<Longrightarrow> push xs s = (ok, t) \<Longrightarrow> inv t \<and>
      (ok \<longleftrightarrow> length (content s) + length xs \<le> cap) \<and> content t = content s @ (if ok then xs else [])"
    and pop: "inv s \<Longrightarrow> pop n s = (xs, t) \<Longrightarrow> inv t \<and> xs = take n (content s) \<and> content t = drop n (content s)"
begin

lemma run_fifo:
  "inv s \<Longrightarrow> run_queue push pop ops s = (inp, out, t) \<Longrightarrow>
     inv t \<and> out @ content t = content s @ inp \<and> length (content t) \<le> cap"
proof (induction ops arbitrary: s inp out t)
  case Nil
  then show ?case using bounded by auto
next
  case (Cons op ops)
  show ?case
  proof (cases op)
    case (Push xs)
    obtain ok s1 where p: "push xs s = (ok, s1)" by fastforce
    obtain inp' where r: "run_queue push pop ops s1 = (inp', out, t)" and i: "inp = (if ok then xs else []) @ inp'"
      using Cons.prems(2) by (auto simp: Push p split: prod.splits)
    from push [OF Cons.prems(1) p] Cons.IH [OF _ r] i show ?thesis by auto
  next
    case (Pop n)
    obtain xs s1 where p: "pop n s = (xs, s1)" by fastforce
    obtain out' where r: "run_queue push pop ops s1 = (inp, out', t)" and o: "out = xs @ out'"
      using Cons.prems(2) by (auto simp: Pop p split: prod.splits)
    have s1: "inv s1" "xs @ content s1 = content s" using pop [OF Cons.prems(1) p] by simp_all
    from Cons.IH [OF s1(1) r] have "out' @ content t = content s1 @ inp" by simp
    then have "xs @ out' @ content t = content s @ inp" using s1(2) by simp
    then show ?thesis using Cons.IH [OF s1(1) r] o by simp
  qed
qed

end


subsection \<open>The ring refines the queue\<close>

definition ring_ok :: "'a gm_tcp_scheme \<Rightarrow> bool" where
  "ring_ok s \<longleftrightarrow> length (gm_tcp_rx s) = 4096 \<and> gm_tcp_rx_head s < 4096 \<and> gm_tcp_rx_len s \<le> 4096"

text \<open>The bytes received and not yet read: the ring read from its head on.\<close>

definition tcp_stream :: "'a gm_tcp_scheme \<Rightarrow> bytes" where
  "tcp_stream s = take (gm_tcp_rx_len s) (rotate (gm_tcp_rx_head s) (gm_tcp_rx s))"

lemma length_tcp_stream: "ring_ok s \<Longrightarrow> length (tcp_stream s) = gm_tcp_rx_len s"
  by (simp add: ring_ok_def tcp_stream_def)

lemma ring_put_nth:
  assumes "length rx = 4096" "tail < 4096" "length data \<le> 4096" "p < 4096"
  shows "ring_put rx tail data ! p =
    (if tail \<le> p \<and> p < tail + length data then data ! (p - tail)
     else if p + 4096 < tail + length data then data ! (p + 4096 - tail) else rx ! p)"
  using assms by (auto simp: ring_put_def Let_def nth_overwrite not_less min_def add.commute)

lemma length_ring_put:
  "length rx = 4096 \<Longrightarrow> tail < 4096 \<Longrightarrow> length data \<le> 4096 \<Longrightarrow> length (ring_put rx tail data) = 4096"
  by (auto simp: ring_put_def Let_def)

lemma ring_index:
  assumes "head < 4096" "len + n \<le> 4096" "k < len + n" "length rx = 4096" "length data = n"
  shows "ring_put rx ((head + len) mod 4096) data ! ((head + k) mod 4096) =
    (if k < len then rx ! ((head + k) mod 4096) else data ! (k - len))"
proof -
  have m: "x mod 4096 = (if x < 4096 then x else x - 4096)" if "x < 8192" for x :: nat
    using that by (auto simp: mod_if)
  have tail: "(head + len) mod 4096 = (if head + len < 4096 then head + len else head + len - 4096)"
    and pos: "(head + k) mod 4096 = (if head + k < 4096 then head + k else head + k - 4096)"
    using assms m [of "head + len"] m [of "head + k"] by simp_all
  have lt: "(head + len) mod 4096 < 4096" "(head + k) mod 4096 < 4096" by simp_all
  have d: "length data \<le> 4096" using assms by simp
  show ?thesis
    by (subst ring_put_nth [OF assms(4) lt(1) d lt(2)]) (use assms in \<open>auto simp: tail pos algebra_simps\<close>)
qed

lemma ring_put_stream:
  assumes "head < 4096" "len + length data \<le> 4096" "length rx = 4096"
  shows "take (len + length data) (rotate head (ring_put rx ((head + len) mod 4096) data)) =
    take len (rotate head rx) @ data"
proof (rule nth_equalityI)
  have len: "length (ring_put rx ((head + len) mod 4096) data) = 4096"
    using assms by (intro length_ring_put) simp_all
  then show "length (take (len + length data) (rotate head (ring_put rx ((head + len) mod 4096) data))) =
      length (take len (rotate head rx) @ data)"
    using assms by simp
  fix k
  assume "k < length (take (len + length data) (rotate head (ring_put rx ((head + len) mod 4096) data)))"
  then have k: "k < len + length data" "k < 4096" using len by simp_all
  then show "take (len + length data) (rotate head (ring_put rx ((head + len) mod 4096) data)) ! k =
      (take len (rotate head rx) @ data) ! k"
    using ring_index [OF assms(1,2) k(1) assms(3) refl] assms len
    by (simp add: nth_rotate nth_append)
qed

lemma ring_get_stream:
  assumes "head < 4096" "n \<le> 4096" "length rx = 4096"
  shows "ring_get rx head n = take n (rotate head rx)"
  using assms by (auto simp: ring_get_def Let_def rotate_drop_take)

lemma stream_drop:
  assumes "length rx = 4096" "n \<le> len" "len \<le> 4096" "head < 4096"
  shows "take (len - n) (rotate ((head + n) mod 4096) rx) = drop n (take len (rotate head rx))"
proof -
  have "rotate ((head + n) mod 4096) rx = rotate n (rotate head rx)"
    using assms(1) rotate_conv_mod [of "head + n" rx] by (simp add: rotate_rotate add.commute)
  also have "\<dots> = drop (n mod 4096) (rotate head rx) @ take (n mod 4096) (rotate head rx)"
    using assms(1) by (simp add: rotate_drop_take [of n "rotate head rx"])
  finally show ?thesis
    using assms by (cases "n = 4096") (auto simp: drop_take)
qed

lemma append_refines:
  assumes "ring_ok s" "gm_tcp_append data s = (ok, t)"
  shows "ring_ok t \<and> (ok \<longleftrightarrow> length (tcp_stream s) + length data \<le> 4096) \<and>
    tcp_stream t = tcp_stream s @ (if ok then data else [])"
proof (cases "gm_tcp_rx_len s + length data \<le> 4096")
  case True
  have ok: "length (gm_tcp_rx s) = 4096" "gm_tcp_rx_head s < 4096" "gm_tcp_rx_len s \<le> 4096"
    using assms(1) by (simp_all add: ring_ok_def)
  have len: "length (ring_put (gm_tcp_rx s) ((gm_tcp_rx_head s + gm_tcp_rx_len s) mod 4096) data) = 4096"
    using ok True by (intro length_ring_put) simp_all
  have "ok" and t: "t = s\<lparr>gm_tcp_rx := ring_put (gm_tcp_rx s) ((gm_tcp_rx_head s + gm_tcp_rx_len s) mod 4096) data,
      gm_tcp_rx_len := gm_tcp_rx_len s + length data\<rparr>"
    using assms(2) True by (auto simp: gm_tcp_append_def Let_def split: if_splits)
  then show ?thesis
    using True ok len ring_put_stream [OF ok(2) True ok(1)] length_tcp_stream [OF assms(1)]
    by (simp add: ring_ok_def tcp_stream_def)
next
  case False
  then show ?thesis using assms length_tcp_stream [OF assms(1)]
    by (auto simp: gm_tcp_append_def Let_def ring_ok_def tcp_stream_def split: if_splits)
qed

lemma read_refines:
  assumes "ring_ok s" "gm_tcp_read n s = (out, t)"
  shows "ring_ok t \<and> out = take n (tcp_stream s) \<and> tcp_stream t = drop n (tcp_stream s)"
proof (cases "n = 0")
  case False
  have ok: "length (gm_tcp_rx s) = 4096" "gm_tcp_rx_head s < 4096" "gm_tcp_rx_len s \<le> 4096"
    using assms(1) by (simp_all add: ring_ok_def)
  define m where "m = min (gm_tcp_rx_len s) n"
  have m: "m \<le> gm_tcp_rx_len s" "m \<le> 4096" using ok(3) by (simp_all add: m_def)
  have out: "out = ring_get (gm_tcp_rx s) (gm_tcp_rx_head s) m"
    and t: "t = s\<lparr>gm_tcp_rx_head := (if gm_tcp_rx_len s - m = 0 then 0 else (gm_tcp_rx_head s + m) mod 4096),
      gm_tcp_rx_len := gm_tcp_rx_len s - m\<rparr>"
    using assms(2) False by (auto simp: gm_tcp_read_def Let_def m_def min_def split: if_splits)
  have "out = take n (tcp_stream s)"
    using out ring_get_stream [OF ok(2) m(2) ok(1)] by (simp add: tcp_stream_def m_def min.commute)
  moreover have "tcp_stream t = drop n (tcp_stream s)"
    using t stream_drop [OF ok(1) m(1) ok(3,2)] ok
    by (auto simp: tcp_stream_def m_def min_def)
  moreover have "ring_ok t" using t ok by (auto simp: ring_ok_def)
  ultimately show ?thesis by blast
qed (use assms in \<open>auto simp: gm_tcp_read_def tcp_stream_def\<close>)

interpretation rx: bounded_queue gm_tcp_append gm_tcp_read tcp_stream ring_ok 4096
proof
  show "ring_ok s \<Longrightarrow> length (tcp_stream s) \<le> 4096" for s :: "'a gm_tcp_scheme"
    by (simp add: length_tcp_stream ring_ok_def)
qed (fact append_refines, fact read_refines)


subsection \<open>Properties\<close>

text \<open>C10: The receive ring is a FIFO byte queue of capacity 4096: over any sequence of appends and
  reads, the bytes read followed by the bytes still buffered are the bytes buffered at the start
  followed by the data of the accepted appends, in order and unchanged, however the ring wraps.\<close>

theorem tcp_ring_fifo:
  assumes "ring_ok s" "run_queue gm_tcp_append gm_tcp_read ops s = (inp, out, t)"
  shows "ring_ok t \<and> out @ tcp_stream t = tcp_stream s @ inp \<and> length (tcp_stream t) \<le> 4096"
  using assms by (rule rx.run_fifo)


text \<open>A ring about to wrap: its head three bytes before the end, holding one byte.\<close>

definition ring_example :: gm_tcp where
  "ring_example = gm_net.extend net_blank
     (gm_tcp.fields (10, 0, 2, 2) 40000 7070 0 0 TCP_ESTABLISHED (replicate 4096 0) 4093 1
        (replicate 1280 0) 0 0 0 0 0 0 0 40001 0)"

lemma ring_example_sel [simp]:
  "gm_tcp_rx ring_example = replicate 4096 0" "gm_tcp_rx_head ring_example = 4093"
  "gm_tcp_rx_len ring_example = 1" "gm_tcp_state ring_example = TCP_ESTABLISHED" "gm_tcp_ack ring_example = 0"
  "gm_tcp_dst ring_example = (10, 0, 2, 2)" "gm_tcp_dst_port ring_example = 7070"
  "gm_tcp_src_port ring_example = 40000" "my_ip ring_example = (10, 0, 2, 15)"
  by (simp_all add: ring_example_def gm_net.extend_def gm_tcp.fields_def net_blank_def gm_virtio.extend_def
      gm_net.fields_def)

theorem tcp_ring_fifo_witness:
  "\<exists>inp out t. run_queue gm_tcp_append gm_tcp_read [Push [1, 2, 3, 4], Pop 2] ring_example = (inp, out, t) \<and>
     inp = [1, 2, 3, 4] \<and> out = [0, 1] \<and> tcp_stream t = [2, 3, 4]"
proof -
  obtain inp out t where run: "run_queue gm_tcp_append gm_tcp_read [Push [1, 2, 3, 4], Pop 2] ring_example =
      (inp, out, t)" by (rule prod_cases3)
  have ok: "ring_ok ring_example" by (simp add: ring_ok_def)
  have st: "tcp_stream ring_example = [0]" by (simp add: tcp_stream_def rotate_drop_take)
  from run have "inp = [1, 2, 3, 4]" by (auto simp: gm_tcp_append_def gm_tcp_read_def Let_def)
  moreover from run have "length out = 2"
    by (auto simp: gm_tcp_append_def gm_tcp_read_def Let_def ring_get_def length_ring_put)
  ultimately show ?thesis
    using tcp_ring_fifo [OF ok run] st run by (auto simp: length_Suc_conv numeral_2_eq_2)
qed

end
