(* ===== verification/Tcp_Conn.thy ===== *)
theory Tcp_Conn
  imports Tcp_Ring
begin

unbundle bit_operations_syntax

section \<open>TCP segments and the connection state machine (\<^verbatim>\<open>tcpstore.c\<close>)\<close>

text \<open>
  Building and sending segments, the handler of received segments, and the retransmission poll.
  Sequence numbers are 32-bit words and wrap; the flags byte is tested bit by bit as in the source.
\<close>

definition tcp_header :: "u16 \<Rightarrow> u16 \<Rightarrow> u32 \<Rightarrow> u32 \<Rightarrow> u8 \<Rightarrow> u16 \<Rightarrow> bytes" where
  "tcp_header src dst seq ack flags checksum =
     le16 (gm_swap16 src) @ le16 (gm_swap16 dst) @ le32 (gm_swap32 seq) @ le32 (gm_swap32 ack) @
     [push_bit 4 5, flags] @ le16 (gm_swap16 4096) @ le16 (gm_swap16 checksum) @ le16 0"

definition tcp_packet :: "ip4 \<Rightarrow> ip4 \<Rightarrow> u16 \<Rightarrow> u16 \<Rightarrow> u32 \<Rightarrow> u32 \<Rightarrow> u8 \<Rightarrow> bytes \<Rightarrow> bytes" where
  "tcp_packet src_ip dst_ip src dst seq ack flags data =
     (let checksum = gm_tcp_checksum src_ip dst_ip (tcp_header src dst seq ack flags 0 @ data) in
      tcp_header src dst seq ack flags checksum @ data)"

definition gm_tcp_segment :: "u32 \<Rightarrow> u32 \<Rightarrow> u8 \<Rightarrow> bytes \<Rightarrow> 'a gm_tcp_scheme \<Rightarrow> bool \<times> 'a gm_tcp_scheme" where
  "gm_tcp_segment seq ack flags data s =
     (if (20 + length data) mod 65536 > 1500 then (False, s)
      else
        let packet = tcp_packet (my_ip s) (gm_tcp_dst s) (gm_tcp_src_port s) (gm_tcp_dst_port s) seq ack flags data;
            (ok, s1) = gm_ipv4_send (gm_tcp_dst s) 6 packet s in
        if \<not> ok then (False, s1) else (True, s1\<lparr>gm_tcp_tx_count := gm_tcp_tx_count s1 + 1\<rparr>))"

definition gm_tcp_init :: "'a gm_tcp_scheme \<Rightarrow> 'a gm_tcp_scheme" where
  "gm_tcp_init s = s\<lparr>gm_tcp_state := TCP_CLOSED, gm_tcp_rx_head := 0, gm_tcp_rx_len := 0,
     gm_tcp_unacked_len := 0, gm_tcp_tx_count := 0, gm_tcp_rx_count := 0, gm_tcp_drop_count := 0,
     gm_next_port := 40000, gm_next_seq := 0x474d0001\<rparr>"

definition gm_tcp_connected :: "'a gm_tcp_scheme \<Rightarrow> bool" where
  "gm_tcp_connected s \<longleftrightarrow> gm_tcp_state s = TCP_ESTABLISHED"

text \<open>The part of \<^verbatim>\<open>gm_tcp_input\<close> after the header tests, on the fields of an accepted segment.\<close>

definition tcp_acked :: "u32 \<Rightarrow> u8 \<Rightarrow> 'a gm_tcp_scheme \<Rightarrow> 'a gm_tcp_scheme" where
  "tcp_acked ack flags s =
     (if flags AND 0x10 \<noteq> 0 \<and> gm_tcp_unacked_len s \<noteq> 0 \<and>
        ack \<ge> gm_tcp_unacked_seq s + of_nat (gm_tcp_unacked_len s)
      then s\<lparr>gm_tcp_unacked_len := 0, gm_tcp_unacked_retry := 0\<rparr> else s)"

definition tcp_payload :: "u32 \<Rightarrow> bytes \<Rightarrow> 'a gm_tcp_scheme \<Rightarrow> 'a gm_tcp_scheme" where
  "tcp_payload seq payload s =
     (if payload = [] then s
      else
        let s1 = (if seq = gm_tcp_ack s then
                    let (ok, s') = gm_tcp_append payload s in
                    if ok then s'\<lparr>gm_tcp_ack := gm_tcp_ack s' + of_nat (length payload)\<rparr> else s'
                  else s) in
        snd (gm_tcp_segment (gm_tcp_seq s1) (gm_tcp_ack s1) 0x10 [] s1))"

definition tcp_fin :: "u32 \<Rightarrow> bytes \<Rightarrow> 'a gm_tcp_scheme \<Rightarrow> 'a gm_tcp_scheme" where
  "tcp_fin seq payload s =
     (let s1 = (if seq + of_nat (length payload) = gm_tcp_ack s then s\<lparr>gm_tcp_ack := gm_tcp_ack s + 1\<rparr> else s);
          s2 = snd (gm_tcp_segment (gm_tcp_seq s1) (gm_tcp_ack s1) 0x10 [] s1) in
      s2\<lparr>gm_tcp_state := TCP_CLOSED, gm_tcp_unacked_len := 0\<rparr>)"

definition tcp_handle :: "u32 \<Rightarrow> u32 \<Rightarrow> u8 \<Rightarrow> bytes \<Rightarrow> 'a gm_tcp_scheme \<Rightarrow> 'a gm_tcp_scheme" where
  "tcp_handle seq ack flags payload s =
     (if flags AND 0x04 \<noteq> 0 then s\<lparr>gm_tcp_state := TCP_RESET, gm_tcp_unacked_len := 0\<rparr>
      else if gm_tcp_state s = TCP_SYN \<and> flags AND (0x02 OR 0x10) = 0x02 OR 0x10 then
        (if ack \<noteq> gm_tcp_seq s + 1 then s
         else
           let s1 = s\<lparr>gm_tcp_seq := gm_tcp_seq s + 1, gm_tcp_ack := seq + 1\<rparr>;
               (ok, s2) = gm_tcp_segment (gm_tcp_seq s1) (gm_tcp_ack s1) 0x10 [] s1 in
           if ok then s2\<lparr>gm_tcp_state := TCP_ESTABLISHED\<rparr> else s2)
      else if gm_tcp_state s \<noteq> TCP_ESTABLISHED \<and> gm_tcp_state s \<noteq> TCP_FIN then s
      else
        let s1 = tcp_acked ack flags s; s2 = tcp_payload seq payload s1 in
        if flags AND 0x01 \<noteq> 0 then tcp_fin seq payload s2 else s2)"

text \<open>The header tests of \<^verbatim>\<open>gm_tcp_input\<close>: the segment belongs to the connection and is intact.\<close>

definition tcp_accepts :: "ip4 \<Rightarrow> bytes \<Rightarrow> 'a gm_tcp_scheme \<Rightarrow> bool" where
  "tcp_accepts src data s \<longleftrightarrow>
     \<not> length data < 20 \<and> gm_ip_eq src (gm_tcp_dst s) \<and>
     (let header_len = unat (drop_bit 4 (data ! 12)) * 4 in \<not> (header_len < 20 \<or> header_len > length data)) \<and>
     gm_swap16 (ld16 data 0) = gm_tcp_dst_port s \<and> gm_swap16 (ld16 data 2) = gm_tcp_src_port s \<and>
     gm_tcp_checksum src (my_ip s) data = 0"

definition gm_tcp_input :: "ip4 \<Rightarrow> bytes \<Rightarrow> 'a gm_tcp_scheme \<Rightarrow> 'a gm_tcp_scheme" where
  "gm_tcp_input src data s =
     (if \<not> tcp_accepts src data s then s
      else
        let header_len = unat (drop_bit 4 (data ! 12)) * 4;
            seq = gm_swap32 (ld32 data 4); ack = gm_swap32 (ld32 data 8); flags = data ! 13;
            payload = drop header_len data in
        tcp_handle seq ack flags payload (s\<lparr>gm_tcp_rx_count := gm_tcp_rx_count s + 1\<rparr>))"

definition gm_tcp_poll :: "'a gm_tcp_scheme \<Rightarrow> 'a gm_tcp_scheme" where
  "gm_tcp_poll s =
     (if gm_tcp_state s \<noteq> TCP_ESTABLISHED \<or> gm_tcp_unacked_len s = 0 then s
      else
        let (now, s1) = gm_ticks s in
        if now - gm_tcp_unacked_tick s1 < 50 then s1
        else if gm_tcp_unacked_retry s1 \<ge> 5 then s1\<lparr>gm_tcp_state := TCP_RESET, gm_tcp_unacked_len := 0\<rparr>
        else
          let s2 = s1\<lparr>gm_tcp_unacked_retry := gm_tcp_unacked_retry s1 + 1, gm_tcp_unacked_tick := now\<rparr> in
          snd (gm_tcp_segment (gm_tcp_unacked_seq s2) (gm_tcp_ack s2) (0x10 OR 0x08)
            (take (gm_tcp_unacked_len s2) (gm_tcp_unacked s2)) s2))"

definition tcp_state_name :: "tcp_state \<Rightarrow> bytes" where
  "tcp_state_name st = (case st of TCP_CLOSED \<Rightarrow> asc ''closed'' | TCP_SYN \<Rightarrow> asc ''syn''
     | TCP_ESTABLISHED \<Rightarrow> asc ''up'' | TCP_FIN \<Rightarrow> asc ''fin'' | TCP_RESET \<Rightarrow> asc ''reset'')"

definition gm_tcp_status :: "'a gm_tcp_scheme \<Rightarrow> 'a gm_tcp_scheme" where
  "gm_tcp_status s =
     (let s = gm_say ''tcp state='' s;
          s = gm_write (Some (tcp_state_name (gm_tcp_state s))) s;
          s = gm_say '' rx='' s; s = gm_print_u64 (gm_tcp_rx_count s) s;
          s = gm_say '' tx='' s; s = gm_print_u64 (gm_tcp_tx_count s) s;
          s = gm_say '' buffered='' s; s = gm_print_u64 (of_nat (gm_tcp_rx_len s)) s;
          s = gm_say '' dropped='' s; s = gm_print_u64 (gm_tcp_drop_count s) s in
      gm_write (Some [10]) s)"


subsection \<open>What a segment leaves alone\<close>

definition tcp_view :: "'a gm_tcp_scheme \<Rightarrow> 'a gm_tcp_scheme" where
  "tcp_view s = (net_view s)\<lparr>gm_tcp_tx_count := 0\<rparr>"

lemma tcp_view_upd [simp]: "tcp_view (s\<lparr>gm_tcp_tx_count := n\<rparr>) = tcp_view s"
  by (simp add: tcp_view_def net_view_def)

lemma tcp_view_sel:
  assumes "tcp_view t = tcp_view s"
  shows "gm_tcp_dst t = gm_tcp_dst s" "gm_tcp_src_port t = gm_tcp_src_port s"
    "gm_tcp_dst_port t = gm_tcp_dst_port s" "gm_tcp_seq t = gm_tcp_seq s" "gm_tcp_ack t = gm_tcp_ack s"
    "gm_tcp_state t = gm_tcp_state s" "gm_tcp_rx t = gm_tcp_rx s" "gm_tcp_rx_head t = gm_tcp_rx_head s"
    "gm_tcp_rx_len t = gm_tcp_rx_len s" "gm_tcp_unacked t = gm_tcp_unacked s"
    "gm_tcp_unacked_len t = gm_tcp_unacked_len s" "gm_tcp_unacked_seq t = gm_tcp_unacked_seq s"
    "gm_tcp_unacked_tick t = gm_tcp_unacked_tick s" "gm_tcp_unacked_retry t = gm_tcp_unacked_retry s"
    "gm_next_port t = gm_next_port s" "gm_next_seq t = gm_next_seq s" "gm_tcp.more t = gm_tcp.more s"
    "gm_tick_count t = gm_tick_count s" "env_ticks t = env_ticks s" "gm_console t = gm_console s"
    "gm_config t = gm_config s" "gm_mac t = gm_mac s" "gm_arp t = gm_arp s" "gm_net_online t = gm_net_online s"
  using assms by (cases s; cases t; simp add: tcp_view_def net_view_def)+

lemma segment_frame:
  assumes "gm_tcp_segment seq ack flags data s = (r, t)"
  shows "tcp_view t = tcp_view s \<and> dev_keeps s t"
proof (cases "(20 + length data) mod 65536 > 1500")
  case False
  obtain ok s1 where send: "gm_ipv4_send (gm_tcp_dst s) 6
      (tcp_packet (my_ip s) (gm_tcp_dst s) (gm_tcp_src_port s) (gm_tcp_dst_port s) seq ack flags data) s = (ok, s1)"
    by fastforce
  then have "t = s1 \<or> t = s1\<lparr>gm_tcp_tx_count := gm_tcp_tx_count s1 + 1\<rparr>"
    using assms False by (auto simp: gm_tcp_segment_def split: if_splits)
  moreover have "tcp_view s1 = tcp_view s" "dev_keeps s s1"
    using ipv4_send_frame [OF send] by (simp_all add: tcp_view_def)
  ultimately show ?thesis by (elim disjE) (simp_all add: dev_keeps_def)
qed (use assms in \<open>simp add: gm_tcp_segment_def\<close>)

lemma snd_segment_frame:
  "tcp_view (snd (gm_tcp_segment seq ack flags data s)) = tcp_view s"
  "dev_keeps s (snd (gm_tcp_segment seq ack flags data s))"
  using segment_frame [of seq ack flags data s] by (cases "gm_tcp_segment seq ack flags data s"; simp)+

lemmas segment_sel = tcp_view_sel [OF snd_segment_frame(1)]

text \<open>\<open>tcp_outside\<close>: everything the connection's handlers leave alone, driver and TCP state aside.\<close>

definition tcp_outside :: "'a gm_tcp_scheme \<Rightarrow> 'a gm_tcp_scheme" where
  "tcp_outside s = (net_view s)\<lparr>gm_tcp_seq := 0, gm_tcp_ack := 0, gm_tcp_state := TCP_CLOSED, gm_tcp_rx := [],
     gm_tcp_rx_head := 0, gm_tcp_rx_len := 0, gm_tcp_unacked := [], gm_tcp_unacked_len := 0, gm_tcp_unacked_seq := 0,
     gm_tcp_unacked_tick := 0, gm_tcp_unacked_retry := 0, gm_tcp_tx_count := 0, gm_tcp_rx_count := 0,
     gm_tcp_drop_count := 0\<rparr>"

lemma tcp_outside_upd [simp]:
  "tcp_outside (s\<lparr>gm_tcp_seq := a\<rparr>) = tcp_outside s" "tcp_outside (s\<lparr>gm_tcp_ack := b\<rparr>) = tcp_outside s"
  "tcp_outside (s\<lparr>gm_tcp_state := c\<rparr>) = tcp_outside s" "tcp_outside (s\<lparr>gm_tcp_rx := d\<rparr>) = tcp_outside s"
  "tcp_outside (s\<lparr>gm_tcp_rx_head := e\<rparr>) = tcp_outside s" "tcp_outside (s\<lparr>gm_tcp_rx_len := f\<rparr>) = tcp_outside s"
  "tcp_outside (s\<lparr>gm_tcp_unacked := g\<rparr>) = tcp_outside s" "tcp_outside (s\<lparr>gm_tcp_unacked_len := h\<rparr>) = tcp_outside s"
  "tcp_outside (s\<lparr>gm_tcp_unacked_seq := i\<rparr>) = tcp_outside s" "tcp_outside (s\<lparr>gm_tcp_unacked_tick := j\<rparr>) = tcp_outside s"
  "tcp_outside (s\<lparr>gm_tcp_unacked_retry := k\<rparr>) = tcp_outside s" "tcp_outside (s\<lparr>gm_tcp_tx_count := l\<rparr>) = tcp_outside s"
  "tcp_outside (s\<lparr>gm_tcp_rx_count := m\<rparr>) = tcp_outside s" "tcp_outside (s\<lparr>gm_tcp_drop_count := n\<rparr>) = tcp_outside s"
  by (simp_all add: tcp_outside_def net_view_def)

lemma tcp_outside_view: "tcp_view t = tcp_view s \<Longrightarrow> tcp_outside t = tcp_outside s"
  by (cases s; cases t) (simp add: tcp_view_def tcp_outside_def net_view_def)

lemma tcp_outside_net: "tcp_outside t = tcp_outside s \<Longrightarrow> gm_tick_count t = gm_tick_count s \<and>
    env_ticks t = env_ticks s \<and> gm_console t = gm_console s \<and> gm_config t = gm_config s \<and> gm_mac t = gm_mac s \<and>
    gm_arp t = gm_arp s \<and> gm_net_online t = gm_net_online s \<and> gm_tcp.more t = gm_tcp.more s"
  by (cases s; cases t) (simp add: tcp_outside_def net_view_def)

lemma append_frame [simp]:
  "tcp_outside (snd (gm_tcp_append data s)) = tcp_outside s" "dev_keeps s (snd (gm_tcp_append data s))"
  by (auto simp: gm_tcp_append_def Let_def intro!: dev_keeps_same)

lemma snd_segment_outside [simp]: "tcp_outside (snd (gm_tcp_segment seq ack flags data s)) = tcp_outside s"
  by (rule tcp_outside_view) (rule snd_segment_frame)

lemma dev_keeps_tcp [simp]:
  "dev_keeps s (t\<lparr>gm_tcp_seq := a\<rparr>) = dev_keeps s t" "dev_keeps s (t\<lparr>gm_tcp_ack := b\<rparr>) = dev_keeps s t"
  "dev_keeps s (t\<lparr>gm_tcp_state := c\<rparr>) = dev_keeps s t" "dev_keeps s (t\<lparr>gm_tcp_unacked_len := h\<rparr>) = dev_keeps s t"
  "dev_keeps s (t\<lparr>gm_tcp_unacked_retry := k\<rparr>) = dev_keeps s t" "dev_keeps s (t\<lparr>gm_tcp_unacked_tick := j\<rparr>) = dev_keeps s t"
  "dev_keeps s (t\<lparr>gm_tcp_rx_count := m\<rparr>) = dev_keeps s t"
  by (simp_all add: dev_keeps_def)

lemma dev_keeps_tcp_from [simp]:
  "dev_keeps (s\<lparr>gm_tcp_seq := a\<rparr>) t = dev_keeps s t" "dev_keeps (s\<lparr>gm_tcp_ack := b\<rparr>) t = dev_keeps s t"
  "dev_keeps (s\<lparr>gm_tcp_unacked_len := h\<rparr>) t = dev_keeps s t" "dev_keeps (s\<lparr>gm_tcp_rx_count := m\<rparr>) t = dev_keeps s t"
  "dev_keeps (s\<lparr>gm_tcp_unacked_retry := k\<rparr>) t = dev_keeps s t" "dev_keeps (s\<lparr>gm_tcp_unacked_tick := j\<rparr>) t = dev_keeps s t"
  by (simp_all add: dev_keeps_def)

lemma tcp_payload_frame: "tcp_outside (tcp_payload seq payload s) = tcp_outside s \<and> dev_keeps s (tcp_payload seq payload s)"
proof -
  let ?s1 = "if seq = gm_tcp_ack s then let (ok, s') = gm_tcp_append payload s in
      if ok then s'\<lparr>gm_tcp_ack := gm_tcp_ack s' + of_nat (length payload)\<rparr> else s' else s"
  have "tcp_outside ?s1 = tcp_outside s" "dev_keeps s ?s1"
    by (simp_all add: Let_def case_prod_beta)
  then show ?thesis
    using dev_keeps_trans [OF _ snd_segment_frame(2), of s ?s1] by (auto simp: tcp_payload_def Let_def)
qed

lemma tcp_fin_frame: "tcp_outside (tcp_fin seq payload s) = tcp_outside s \<and> dev_keeps s (tcp_fin seq payload s)"
proof -
  let ?s1 = "if seq + of_nat (length payload) = gm_tcp_ack s then s\<lparr>gm_tcp_ack := gm_tcp_ack s + 1\<rparr> else s"
  have "tcp_outside ?s1 = tcp_outside s" "dev_keeps s ?s1" by simp_all
  then show ?thesis
    using dev_keeps_trans [OF _ snd_segment_frame(2), of s ?s1] by (simp add: tcp_fin_def Let_def)
qed

lemma tcp_handle_frame: "tcp_outside (tcp_handle seq ack flags payload s) = tcp_outside s \<and>
    dev_keeps s (tcp_handle seq ack flags payload s)"
proof -
  let ?s1 = "s\<lparr>gm_tcp_seq := gm_tcp_seq s + 1, gm_tcp_ack := seq + 1\<rparr>"
  let ?seg = "gm_tcp_segment (gm_tcp_seq ?s1) (gm_tcp_ack ?s1) 0x10 [] ?s1"
  have syn: "tcp_outside (snd ?seg) = tcp_outside s \<and> dev_keeps s (snd ?seg)"
    using snd_segment_frame(2) [of ?s1] by simp
  let ?t = "tcp_acked ack flags s"
  have t: "tcp_outside ?t = tcp_outside s" "dev_keeps s ?t" by (simp_all add: tcp_acked_def)
  have pay: "tcp_outside (tcp_payload seq payload ?t) = tcp_outside s" "dev_keeps s (tcp_payload seq payload ?t)"
    using tcp_payload_frame [of seq payload ?t] t dev_keeps_trans by auto
  have fin: "tcp_outside (tcp_fin seq payload (tcp_payload seq payload ?t)) = tcp_outside s"
    "dev_keeps s (tcp_fin seq payload (tcp_payload seq payload ?t))"
    using tcp_fin_frame [of seq payload "tcp_payload seq payload ?t"] pay dev_keeps_trans by auto
  show ?thesis
    unfolding tcp_handle_def Let_def using syn pay fin by (simp add: case_prod_beta)
qed

lemma tcp_input_frame: "tcp_outside (gm_tcp_input src data s) = tcp_outside s \<and> dev_keeps s (gm_tcp_input src data s)"
  using tcp_handle_frame [of _ _ _ _ "s\<lparr>gm_tcp_rx_count := gm_tcp_rx_count s + 1\<rparr>"]
  by (simp add: gm_tcp_input_def Let_def)



subsection \<open>The connection invariant\<close>

text \<open>
  \<open>tcp_ok\<close>: the ring is well-formed, and data awaits an acknowledgement only once the
  handshake is over, and then it ends at the next sequence number to send.
\<close>

definition tcp_ok :: "'a gm_tcp_scheme \<Rightarrow> bool" where
  "tcp_ok s \<longleftrightarrow> ring_ok s \<and> length (gm_tcp_unacked s) = 1280 \<and> gm_tcp_unacked_len s \<le> 1280 \<and>
     (gm_tcp_unacked_len s \<noteq> 0 \<longrightarrow> gm_tcp_state s \<noteq> TCP_SYN \<and>
        gm_tcp_seq s = gm_tcp_unacked_seq s + of_nat (gm_tcp_unacked_len s))"

lemma tcp_view_stream:
  assumes "tcp_view t = tcp_view s"
  shows "tcp_stream t = tcp_stream s \<and> ring_ok t = ring_ok s \<and> tcp_ok t = tcp_ok s"
  by (simp add: tcp_stream_def ring_ok_def tcp_ok_def tcp_view_sel [OF assms])

lemmas segment_stream [simp] = tcp_view_stream [OF snd_segment_frame(1), THEN conjunct1]
lemmas segment_ok [simp] = tcp_view_stream [OF snd_segment_frame(1), THEN conjunct2, THEN conjunct2]

lemma stream_upd [simp]:
  "tcp_stream (s\<lparr>gm_tcp_ack := a\<rparr>) = tcp_stream s" "tcp_stream (s\<lparr>gm_tcp_seq := b\<rparr>) = tcp_stream s"
  "tcp_stream (s\<lparr>gm_tcp_state := c\<rparr>) = tcp_stream s" "tcp_stream (s\<lparr>gm_tcp_unacked_len := d\<rparr>) = tcp_stream s"
  "tcp_stream (s\<lparr>gm_tcp_unacked_retry := e\<rparr>) = tcp_stream s" "tcp_stream (s\<lparr>gm_tcp_rx_count := f\<rparr>) = tcp_stream s"
  "ring_ok (s\<lparr>gm_tcp_ack := a\<rparr>) = ring_ok s" "ring_ok (s\<lparr>gm_tcp_seq := b\<rparr>) = ring_ok s"
  "ring_ok (s\<lparr>gm_tcp_state := c\<rparr>) = ring_ok s" "ring_ok (s\<lparr>gm_tcp_unacked_len := d\<rparr>) = ring_ok s"
  "ring_ok (s\<lparr>gm_tcp_unacked_retry := e\<rparr>) = ring_ok s" "ring_ok (s\<lparr>gm_tcp_rx_count := f\<rparr>) = ring_ok s"
  by (simp_all add: tcp_stream_def ring_ok_def)

text \<open>What an append leaves of the rest of the connection.\<close>

lemma append_sel:
  assumes "gm_tcp_append data s = (ok, t)"
  shows "gm_tcp_ack t = gm_tcp_ack s" "gm_tcp_seq t = gm_tcp_seq s" "gm_tcp_state t = gm_tcp_state s"
    "gm_tcp_unacked t = gm_tcp_unacked s" "gm_tcp_unacked_len t = gm_tcp_unacked_len s"
    "gm_tcp_unacked_seq t = gm_tcp_unacked_seq s"
  using assms by (auto simp: gm_tcp_append_def Let_def split: if_splits)

text \<open>
  A payload is delivered when it starts at the acknowledged position and fits the ring; in every
  other case the stream and the acknowledged position stay as they are.
\<close>

lemma tcp_payload_cases:
  assumes "ring_ok s" and t: "t = tcp_payload seq payload s"
  shows "ring_ok t" and "gm_tcp_state t = gm_tcp_state s" and "gm_tcp_seq t = gm_tcp_seq s"
    and "gm_tcp_unacked t = gm_tcp_unacked s" "gm_tcp_unacked_len t = gm_tcp_unacked_len s"
      "gm_tcp_unacked_seq t = gm_tcp_unacked_seq s"
    and "if seq = gm_tcp_ack s \<and> length (tcp_stream s) + length payload \<le> 4096
      then tcp_stream t = tcp_stream s @ payload \<and> gm_tcp_ack t = gm_tcp_ack s + of_nat (length payload)
      else tcp_stream t = tcp_stream s \<and> gm_tcp_ack t = gm_tcp_ack s"
proof -
  obtain ok s1 where a: "gm_tcp_append payload s = (ok, s1)" by fastforce
  note r = append_refines [OF assms(1) a] append_sel [OF a]
  show "ring_ok t" "gm_tcp_state t = gm_tcp_state s" "gm_tcp_seq t = gm_tcp_seq s"
    "gm_tcp_unacked t = gm_tcp_unacked s" "gm_tcp_unacked_len t = gm_tcp_unacked_len s"
    "gm_tcp_unacked_seq t = gm_tcp_unacked_seq s"
    "if seq = gm_tcp_ack s \<and> length (tcp_stream s) + length payload \<le> 4096
      then tcp_stream t = tcp_stream s @ payload \<and> gm_tcp_ack t = gm_tcp_ack s + of_nat (length payload)
      else tcp_stream t = tcp_stream s \<and> gm_tcp_ack t = gm_tcp_ack s"
    using r assms(1)
    by (simp_all add: t tcp_payload_def a Let_def segment_sel
        tcp_view_stream [OF snd_segment_frame(1), THEN conjunct2, THEN conjunct1])
qed

lemma tcp_acked_sel [simp]:
  "gm_tcp_state (tcp_acked ack flags s) = gm_tcp_state s" "gm_tcp_seq (tcp_acked ack flags s) = gm_tcp_seq s"
  "gm_tcp_ack (tcp_acked ack flags s) = gm_tcp_ack s" "tcp_stream (tcp_acked ack flags s) = tcp_stream s"
  "ring_ok (tcp_acked ack flags s) = ring_ok s"
  by (simp_all add: tcp_acked_def)

lemma tcp_acked_ok: "tcp_ok s \<Longrightarrow> tcp_ok (tcp_acked ack flags s)"
  by (simp add: tcp_acked_def tcp_ok_def)

lemma tcp_payload_state [simp]: "gm_tcp_state (tcp_payload seq payload s) = gm_tcp_state s"
  using append_sel(3) [of payload s] by (auto simp: tcp_payload_def Let_def segment_sel split: prod.splits)

lemma tcp_payload_ok: "tcp_ok s \<Longrightarrow> tcp_ok (tcp_payload seq payload s)"
  using tcp_payload_cases(1-6) [OF _ refl, of s seq payload] by (simp add: tcp_ok_def)

lemma tcp_fin_sel [simp]:
  "gm_tcp_state (tcp_fin seq payload s) = TCP_CLOSED" "gm_tcp_unacked_len (tcp_fin seq payload s) = 0"
  "tcp_stream (tcp_fin seq payload s) = tcp_stream s"
  "gm_tcp_ack (tcp_fin seq payload s) =
     (if seq + of_nat (length payload) = gm_tcp_ack s then gm_tcp_ack s + 1 else gm_tcp_ack s)"
  by (simp_all add: tcp_fin_def Let_def segment_sel)

lemma tcp_fin_ring: "ring_ok (tcp_fin seq payload s) = ring_ok s"
  by (simp add: tcp_fin_def ring_ok_def Let_def segment_sel)

lemma tcp_fin_ok: "tcp_ok s \<Longrightarrow> tcp_ok (tcp_fin seq payload s)"
  by (simp add: tcp_fin_def tcp_ok_def ring_ok_def Let_def segment_sel)

lemma tcp_ok_upd [simp]: "tcp_ok (s\<lparr>gm_tcp_rx_count := n\<rparr>) = tcp_ok s"
  by (simp add: tcp_ok_def)

text \<open>The five ways a segment of the connection is handled.\<close>

lemma tcp_handle_cases:
  obtains (reset) "flags AND 0x04 \<noteq> 0"
      "tcp_handle seq ack flags payload s = s\<lparr>gm_tcp_state := TCP_RESET, gm_tcp_unacked_len := 0\<rparr>"
  | (opened) ok s2 where "gm_tcp_state s = TCP_SYN" "flags AND 0x12 = 0x12" "ack = gm_tcp_seq s + 1"
      "gm_tcp_segment (gm_tcp_seq s + 1) (seq + 1) 0x10 []
         (s\<lparr>gm_tcp_seq := gm_tcp_seq s + 1, gm_tcp_ack := seq + 1\<rparr>) = (ok, s2)"
      "tcp_handle seq ack flags payload s = (if ok then s2\<lparr>gm_tcp_state := TCP_ESTABLISHED\<rparr> else s2)"
  | (ignored) "gm_tcp_state s \<noteq> TCP_ESTABLISHED" "gm_tcp_state s \<noteq> TCP_FIN"
      "tcp_handle seq ack flags payload s = s"
  | (data) "gm_tcp_state s = TCP_ESTABLISHED \<or> gm_tcp_state s = TCP_FIN" "flags AND 0x01 = 0"
      "tcp_handle seq ack flags payload s = tcp_payload seq payload (tcp_acked ack flags s)"
  | (fin) "gm_tcp_state s = TCP_ESTABLISHED \<or> gm_tcp_state s = TCP_FIN" "flags AND 0x01 \<noteq> 0"
      "tcp_handle seq ack flags payload s =
         tcp_fin seq payload (tcp_payload seq payload (tcp_acked ack flags s))"
proof -
  have or: "(0x02 OR 0x10 :: u8) = 0x12" by simp
  obtain ok s2 where seg: "gm_tcp_segment (gm_tcp_seq s + 1) (seq + 1) 0x10 []
      (s\<lparr>gm_tcp_seq := gm_tcp_seq s + 1, gm_tcp_ack := seq + 1\<rparr>) = (ok, s2)" by fastforce
  show ?thesis
  proof (cases "flags AND 0x04 \<noteq> 0")
    case True
    then show ?thesis by (intro reset) (simp_all add: tcp_handle_def)
  next
    case nrst: False
    show ?thesis
    proof (cases "gm_tcp_state s = TCP_SYN")
      case True
      then show ?thesis
        using nrst opened [OF True _ _ seg] ignored
        by (cases "flags AND 0x12 = 0x12"; cases "ack = gm_tcp_seq s + 1")
          (simp_all add: tcp_handle_def or seg Let_def)
    next
      case False
      then show ?thesis
        using nrst ignored data fin
        by (cases "gm_tcp_state s = TCP_ESTABLISHED \<or> gm_tcp_state s = TCP_FIN"; cases "flags AND 0x01 = 0")
          (auto simp: tcp_handle_def Let_def)
    qed
  qed
qed

lemma tcp_handle_ok:
  assumes "tcp_ok s"
  shows "tcp_ok (tcp_handle seq ack flags payload s)"
proof (cases rule: tcp_handle_cases [of flags seq ack payload s])
  case reset
  then show ?thesis using assms by (simp add: tcp_ok_def)
next
  case (opened ok s2)
  have "tcp_ok (s\<lparr>gm_tcp_seq := gm_tcp_seq s + 1, gm_tcp_ack := seq + 1\<rparr>)"
    using assms opened(1) by (auto simp: tcp_ok_def)
  then have "tcp_ok s2" and "gm_tcp_unacked_len s2 = 0"
    using tcp_view_stream [OF segment_frame [OF opened(4), THEN conjunct1]]
      tcp_view_sel(11) [OF segment_frame [OF opened(4), THEN conjunct1]] assms opened(1)
    by (auto simp: tcp_ok_def)
  then show ?thesis using opened(5) by (simp add: tcp_ok_def)
next
  case fin
  then show ?thesis using assms by (simp add: tcp_fin_ok tcp_payload_ok tcp_acked_ok)
qed (use assms in \<open>simp_all add: tcp_payload_ok tcp_acked_ok\<close>)

lemma tcp_input_ok: "tcp_ok s \<Longrightarrow> tcp_ok (gm_tcp_input src data s)"
  by (simp add: gm_tcp_input_def Let_def tcp_handle_ok)

lemma ticks_frame:
  assumes "gm_ticks s = (now, t)"
  shows "t = s\<lparr>gm_tick_count := gm_tick_count t, env_ticks := env_ticks t\<rparr>"
  using assms by (auto simp: gm_ticks_def clock_advance_def Let_def split: list.splits)

lemma tcp_ok_clock [simp]: "tcp_ok (s\<lparr>gm_tick_count := a\<rparr>) = tcp_ok s" "tcp_ok (s\<lparr>env_ticks := b\<rparr>) = tcp_ok s"
  by (simp_all add: tcp_ok_def ring_ok_def)

lemma tcp_ok_ticks: "gm_ticks s = (now, t) \<Longrightarrow> tcp_ok t = tcp_ok s"
  by (subst ticks_frame) simp_all

lemma tcp_poll_ok:
  assumes "tcp_ok s"
  shows "tcp_ok (gm_tcp_poll s)"
proof -
  obtain now s1 where t: "gm_ticks s = (now, s1)" by fastforce
  then have ok: "tcp_ok s1" using assms tcp_ok_ticks by blast
  then have "tcp_ok (s1\<lparr>gm_tcp_state := TCP_RESET, gm_tcp_unacked_len := 0\<rparr>)"
    and "tcp_ok (s1\<lparr>gm_tcp_unacked_retry := r, gm_tcp_unacked_tick := n\<rparr>)" for r n
    by (simp_all add: tcp_ok_def ring_ok_def)
  then show ?thesis using assms ok t by (simp add: gm_tcp_poll_def Let_def)
qed



subsection \<open>Segments in and out\<close>

lemma tcp_header_split:
  "tcp_header src dst seq ack flags c =
     (be16 src @ be16 dst @ be32 seq @ be32 ack @ [0x50, flags] @ be16 4096) @ be16 c @ [0, 0]"
proof -
  have "le16 0 = [0, 0]" by (simp add: le16_def)
  then show ?thesis by (simp add: tcp_header_def)
qed

lemma tcp_packet_fields:
  assumes "p = tcp_packet src_ip dst_ip src dst seq ack flags data"
  shows "length p = 20 + length data" "p ! 12 = 0x50" "p ! 13 = flags" "drop 20 p = data"
    "gm_swap16 (ld16 p 0) = src" "gm_swap16 (ld16 p 2) = dst" "gm_swap32 (ld32 p 4) = seq" "gm_swap32 (ld32 p 8) = ack"
  unfolding assms tcp_packet_def tcp_header_split Let_def
  by (simp_all add: ld16_def ld32_def be16_def be32_def)

lemma tcp_packet_checksum:
  assumes "length data \<le> 1480"
  shows "gm_tcp_checksum src_ip dst_ip (tcp_packet src_ip dst_ip src dst seq ack flags data) = 0"
proof -
  let ?pre = "be16 src @ be16 dst @ be32 seq @ be32 ack @ [0x50, flags] @ be16 4096"
  have "even (length ?pre)" "length ?pre + length ([0, 0] @ data) + 2 \<le> 65523" using assms by simp_all
  from tcp_checksum_insert [OF this, of src_ip dst_ip] show ?thesis
    by (simp add: tcp_packet_def tcp_header_split Let_def be16_def)
qed

lemma tcp_packet_accepted:
  assumes "length data \<le> 1480" "gm_tcp_dst r = src_ip" "my_ip r = dst_ip" "gm_tcp_dst_port r = src" "gm_tcp_src_port r = dst"
  shows "gm_tcp_input src_ip (tcp_packet src_ip dst_ip src dst seq ack flags data) r =
    tcp_handle seq ack flags data (r\<lparr>gm_tcp_rx_count := gm_tcp_rx_count r + 1\<rparr>)"
proof -
  note f = tcp_packet_fields [OF refl, of src_ip dst_ip src dst seq ack flags data]
  have "tcp_accepts src_ip (tcp_packet src_ip dst_ip src dst seq ack flags data) r"
    using assms f tcp_packet_checksum [OF assms(1)] by (simp add: tcp_accepts_def)
  then show ?thesis using f by (simp add: gm_tcp_input_def Let_def)
qed

lemma tcp_handle_stream:
  assumes "ring_ok s" "gm_tcp_state s = TCP_ESTABLISHED \<or> gm_tcp_state s = TCP_FIN"
    and "t = tcp_handle seq ack flags payload s" "flags AND 0x04 = 0"
  shows "if seq = gm_tcp_ack s \<and> length (tcp_stream s) + length payload \<le> 4096
    then tcp_stream t = tcp_stream s @ payload \<and>
      (gm_tcp_ack t = gm_tcp_ack s + of_nat (length payload) \<or>
       flags AND 0x01 \<noteq> 0 \<and> gm_tcp_ack t = gm_tcp_ack s + of_nat (length payload) + 1)
    else tcp_stream t = tcp_stream s \<and>
      (gm_tcp_ack t = gm_tcp_ack s \<or>
       flags AND 0x01 \<noteq> 0 \<and> seq + of_nat (length payload) = gm_tcp_ack s \<and> gm_tcp_ack t = gm_tcp_ack s + 1)"
proof -
  have ring: "ring_ok (tcp_acked ack flags s)" using assms(1) by simp
  note p = tcp_payload_cases(7) [OF ring refl, of seq payload]
  show ?thesis
  proof (cases rule: tcp_handle_cases [of flags seq ack payload s])
    case data
    then show ?thesis using p assms(3) by (auto split: if_splits)
  next
    case fin
    then show ?thesis using p assms(3) by (auto split: if_splits)
  qed (use assms in auto)
qed



subsection \<open>A session as a sequence of segments and reads\<close>

text \<open>The fields of a raw segment, and that its payload agrees with the peer's byte stream \<open>P\<close>.\<close>

definition segment_seq :: "bytes \<Rightarrow> u32" where
  "segment_seq data = gm_swap32 (ld32 data 4)"

definition segment_payload :: "bytes \<Rightarrow> bytes" where
  "segment_payload data = drop (unat (drop_bit 4 (data ! 12)) * 4) data"

definition carries :: "(u32 \<Rightarrow> u8) \<Rightarrow> bytes \<Rightarrow> bool" where
  "carries P data \<longleftrightarrow>
     (\<forall>i < length (segment_payload data). segment_payload data ! i = P (segment_seq data + of_nat i))"

text \<open>
  \<open>tcp_session P base s out\<close>: a connection whose next expected byte was \<open>base\<close> has received segments
  (lost, repeated, reordered or overlapping ones; those it accepts carry the peer's bytes) and has
  had \<open>out\<close> read from it, and is now in state \<open>s\<close>.
\<close>

inductive tcp_session :: "(u32 \<Rightarrow> u8) \<Rightarrow> u32 \<Rightarrow> gm_tcp \<Rightarrow> bytes \<Rightarrow> bool" for P base where
  start: "ring_ok s \<Longrightarrow> gm_tcp_state s = TCP_ESTABLISHED \<Longrightarrow> gm_tcp_ack s = base \<Longrightarrow> tcp_stream s = [] \<Longrightarrow>
    tcp_session P base s []"
| input: "tcp_session P base s out \<Longrightarrow> (tcp_accepts src data s \<longrightarrow> carries P data) \<Longrightarrow>
    tcp_session P base (gm_tcp_input src data s) out"
| read: "tcp_session P base s out \<Longrightarrow> gm_tcp_read n s = (xs, t) \<Longrightarrow> tcp_session P base t (out @ xs)"

definition peer_prefix :: "(u32 \<Rightarrow> u8) \<Rightarrow> u32 \<Rightarrow> nat \<Rightarrow> bytes" where
  "peer_prefix P base n = map (\<lambda>i. P (base + of_nat i)) [0..<n]"

lemma length_peer_prefix [simp]: "length (peer_prefix P base n) = n"
  by (simp add: peer_prefix_def)

lemma peer_prefix_append:
  "peer_prefix P base (m + n) = peer_prefix P base m @ peer_prefix P (base + of_nat m) n"
  by (rule nth_equalityI) (auto simp: peer_prefix_def nth_append add.assoc simp flip: of_nat_add)

lemma carries_prefix: "carries P data \<Longrightarrow> segment_payload data = peer_prefix P (segment_seq data) (length (segment_payload data))"
  by (auto simp: carries_def peer_prefix_def intro!: nth_equalityI)

definition session_ok :: "(u32 \<Rightarrow> u8) \<Rightarrow> u32 \<Rightarrow> gm_tcp \<Rightarrow> bytes \<Rightarrow> bool" where
  "session_ok P base s out \<longleftrightarrow> ring_ok s \<and> gm_tcp_state s \<noteq> TCP_SYN \<and>
     out @ tcp_stream s = peer_prefix P base (length (out @ tcp_stream s)) \<and>
     (gm_tcp_state s = TCP_ESTABLISHED \<or> gm_tcp_state s = TCP_FIN \<longrightarrow>
        gm_tcp_ack s = base + of_nat (length (out @ tcp_stream s)))"

lemma handle_ring_ok: "ring_ok s \<Longrightarrow> gm_tcp_state s \<noteq> TCP_SYN \<Longrightarrow> ring_ok (tcp_handle seq ack flags payload s)"
  using tcp_payload_cases(1) [OF _ refl, of "tcp_acked ack flags s" seq payload]
  by (cases rule: tcp_handle_cases [of flags seq ack payload s])
    (simp_all add: tcp_fin_ring)

lemma session_data:
  assumes "session_ok P base s out" "gm_tcp_state s = TCP_ESTABLISHED \<or> gm_tcp_state s = TCP_FIN"
    and "payload = peer_prefix P seq (length payload)"
    and "t = tcp_payload seq payload (tcp_acked ack flags s)"
  shows "session_ok P base t out"
proof -
  have ring: "ring_ok (tcp_acked ack flags s)" using assms(1) by (simp add: session_ok_def)
  note p = tcp_payload_cases [OF ring assms(4)]
  show ?thesis
  proof (cases "seq = gm_tcp_ack s \<and> length (tcp_stream s) + length payload \<le> 4096")
    case True
    then have t: "tcp_stream t = tcp_stream s @ payload" "gm_tcp_ack t = gm_tcp_ack s + of_nat (length payload)"
      using p(7) by (simp_all split: if_splits)
    have base: "seq = base + of_nat (length (out @ tcp_stream s))" using True assms(1,2) by (simp add: session_ok_def)
    have "out @ tcp_stream s @ payload =
        peer_prefix P base (length (out @ tcp_stream s)) @ peer_prefix P seq (length payload)"
      using assms(1,3) by (simp add: session_ok_def)
    also have "\<dots> = peer_prefix P base (length (out @ tcp_stream s) + length payload)"
      by (simp only: peer_prefix_append base)
    finally show ?thesis using assms(1) base True p(1,2) t by (simp add: session_ok_def add.assoc)
  next
    case False
    then show ?thesis using assms(1) p by (auto simp: session_ok_def split: if_splits)
  qed
qed

lemma session_handle:
  assumes "session_ok P base s out" "payload = peer_prefix P seq (length payload)"
  shows "session_ok P base (tcp_handle seq ack flags payload s) out"
proof (cases rule: tcp_handle_cases [of flags seq ack payload s])
  case reset
  then show ?thesis using assms by (simp add: session_ok_def)
next
  case (opened ok s2)
  then show ?thesis using assms by (simp add: session_ok_def)
next
  case ignored
  then show ?thesis using assms by simp
next
  case data
  then show ?thesis using session_data [OF assms(1) data(1) assms(2) refl] by simp
next
  case fin
  have ok: "session_ok P base (tcp_payload seq payload (tcp_acked ack flags s)) out"
    by (rule session_data [OF assms(1) fin(1) assms(2) refl])
  have "ring_ok (tcp_handle seq ack flags payload s)"
    using assms(1) by (intro handle_ring_ok) (simp_all add: session_ok_def)
  then show ?thesis using ok fin(3) by (simp add: session_ok_def)
qed

lemma session_invariant: "tcp_session P base s out \<Longrightarrow> session_ok P base s out"
proof (induction rule: tcp_session.induct)
  case (start s)
  then show ?case by (simp add: session_ok_def peer_prefix_def)
next
  case (input s out src data)
  let ?s = "s\<lparr>gm_tcp_rx_count := gm_tcp_rx_count s + 1\<rparr>"
  have "session_ok P base ?s out" using input.IH by (simp add: session_ok_def)
  then show ?case
    using input carries_prefix [of P data] session_handle [of P base ?s out "segment_payload data" "segment_seq data"]
    by (simp add: gm_tcp_input_def segment_payload_def segment_seq_def Let_def)
next
  case (read s out n xs t)
  have r: "ring_ok t" "xs = take n (tcp_stream s)" "tcp_stream t = drop n (tcp_stream s)"
    using read_refines [of s n xs t] read by (simp_all add: session_ok_def)
  have "gm_tcp_state t = gm_tcp_state s" "gm_tcp_ack t = gm_tcp_ack s"
    using read.hyps(2) by (auto simp: gm_tcp_read_def Let_def split: if_splits)
  then show ?case using read.IH r by (simp add: session_ok_def)
qed

subsection \<open>Properties\<close>

text \<open>C25: Every segment \<^verbatim>\<open>gm_tcp_segment\<close> builds is understood by the receiving side of the same
  code: the endpoint whose addresses and ports match accepts its checksum and handles exactly the
  sequence number, acknowledgement, flags and payload it was built from.\<close>

theorem tcp_segment_round_trip:
  assumes "length data \<le> 1480" "gm_tcp_dst r = src_ip" "my_ip r = dst_ip"
    and "gm_tcp_dst_port r = src" "gm_tcp_src_port r = dst"
  shows "gm_tcp_input src_ip (tcp_packet src_ip dst_ip src dst seq ack flags data) r =
    tcp_handle seq ack flags data (r\<lparr>gm_tcp_rx_count := gm_tcp_rx_count r + 1\<rparr>)"
  using assms by (rule tcp_packet_accepted)

text \<open>C18: The connection's state changes only as it should on a received segment: to RESET by RST,
  from SYN to ESTABLISHED by a SYN-ACK that acknowledges the sent SYN, and from ESTABLISHED or FIN
  to CLOSED by FIN. In every other case, a bad checksum, a foreign address or port included, the
  state stays.\<close>

theorem tcp_state_machine:
  "gm_tcp_state (gm_tcp_input src data s) = gm_tcp_state s \<or>
   tcp_accepts src data s \<and>
   (data ! 13 AND 0x04 \<noteq> 0 \<and> gm_tcp_state (gm_tcp_input src data s) = TCP_RESET \<or>
    gm_tcp_state s = TCP_SYN \<and> data ! 13 AND 0x12 = 0x12 \<and> gm_swap32 (ld32 data 8) = gm_tcp_seq s + 1 \<and>
      gm_tcp_state (gm_tcp_input src data s) = TCP_ESTABLISHED \<or>
    (gm_tcp_state s = TCP_ESTABLISHED \<or> gm_tcp_state s = TCP_FIN) \<and> data ! 13 AND 0x01 \<noteq> 0 \<and>
      gm_tcp_state (gm_tcp_input src data s) = TCP_CLOSED)"
proof (cases "tcp_accepts src data s")
  case True
  let ?s = "s\<lparr>gm_tcp_rx_count := gm_tcp_rx_count s + 1\<rparr>" and ?h = "unat (drop_bit 4 (data ! 12)) * 4"
  let ?seq = "gm_swap32 (ld32 data 4)" and ?ack = "gm_swap32 (ld32 data 8)"
  have t: "gm_tcp_input src data s = tcp_handle ?seq ?ack (data ! 13) (drop ?h data) ?s"
    using True by (simp add: gm_tcp_input_def Let_def)
  show ?thesis
  proof (cases rule: tcp_handle_cases [of "data ! 13" ?seq ?ack "drop ?h data" ?s])
    case (opened ok s2)
    then show ?thesis
      using True t tcp_view_sel(6) [OF segment_frame [OF opened(4), THEN conjunct1]] by simp
  next
    case data
    show ?thesis unfolding t data(3) by simp
  next
    case fin
    then show ?thesis using True t by simp
  qed (use True t in simp_all)
qed (simp add: gm_tcp_input_def)

text \<open>C5: TCP reception delivers the peer's byte stream: however segments are lost, repeated,
  reordered or overlapping, what has been read followed by what is buffered is always an initial
  part of the bytes the peer sent, in order, without gaps or repetitions.\<close>

theorem tcp_delivers_in_order:
  assumes "tcp_session P base s out"
  shows "out @ tcp_stream s = map (\<lambda>i. P (base + of_nat i)) [0..<length (out @ tcp_stream s)]"
  using session_invariant [OF assms] unfolding session_ok_def peer_prefix_def by blast



subsection \<open>Acknowledgements across the wrap of the sequence space\<close>

text \<open>
  The acknowledgement test compares 32-bit sequence numbers as plain integers. When the
  outstanding data crosses the end of the sequence space, an acknowledgement of none of it
  passes for an acknowledgement of all of it.
\<close>

lemma tcp_wrapped_ack_misread:
  assumes "gm_tcp_unacked_seq s = 0xfffffff0" "gm_tcp_unacked_len s = 32"
  shows "gm_tcp_unacked_len (tcp_acked 0xfffffff0 0x10 s) = 0"
  using assms by (simp add: tcp_acked_def)


subsection \<open>Witnesses\<close>

theorem tcp_segment_round_trip_witness:
  "gm_tcp_input (10, 0, 2, 2) (tcp_packet (10, 0, 2, 2) (10, 0, 2, 15) 7070 40000 5 6 0x18 [104, 105]) ring_example =
   tcp_handle 5 6 0x18 [104, 105] (ring_example\<lparr>gm_tcp_rx_count := gm_tcp_rx_count ring_example + 1\<rparr>)"
  by (rule tcp_segment_round_trip) simp_all

definition tcp_example :: gm_tcp where
  "tcp_example = ring_example\<lparr>gm_tcp_rx_len := 0\<rparr>"

definition hello_packet :: bytes where
  "hello_packet = tcp_packet (10, 0, 2, 2) (10, 0, 2, 15) 7070 40000 0 0 0x18 [104, 105]"

lemma hello_input:
  "gm_tcp_input (10, 0, 2, 2) hello_packet tcp_example =
   tcp_handle 0 0 0x18 [104, 105] (tcp_example\<lparr>gm_tcp_rx_count := gm_tcp_rx_count tcp_example + 1\<rparr>)"
  unfolding hello_packet_def by (rule tcp_packet_accepted) (simp_all add: tcp_example_def)

theorem tcp_delivers_in_order_witness:
  "let t = gm_tcp_input (10, 0, 2, 2) hello_packet tcp_example in
   tcp_stream t = [104, 105] \<and> [] @ tcp_stream t = map (\<lambda>i. (104 :: u8) + ucast (0 + of_nat i :: u32)) [0..<length ([] @ tcp_stream t)]"
proof -
  let ?P = "\<lambda>x :: u32. (104 :: u8) + ucast x" and ?t = "gm_tcp_input (10, 0, 2, 2) hello_packet tcp_example"
  have ring: "ring_ok tcp_example" by (simp add: tcp_example_def ring_ok_def)
  have st: "tcp_stream tcp_example = []" by (simp add: tcp_example_def tcp_stream_def)
  have "tcp_session ?P 0 tcp_example []"
    by (rule tcp_session.start [OF ring _ _ st]) (simp_all add: tcp_example_def)
  moreover have "segment_payload hello_packet = [104, 105]" "segment_seq hello_packet = 0"
    using tcp_packet_fields [OF hello_packet_def] by (simp_all add: segment_payload_def segment_seq_def)
  then have "carries ?P hello_packet" by (auto simp: carries_def less_Suc_eq)
  ultimately have "tcp_session ?P 0 ?t []" by (intro tcp_session.input) simp_all
  from tcp_delivers_in_order [OF this]
  have "[] @ tcp_stream ?t = map (\<lambda>i. ?P (0 + of_nat i)) [0..<length ([] @ tcp_stream ?t)]" .
  moreover have "tcp_stream ?t = [104, 105]"
    using tcp_handle_stream [OF _ _ hello_input] ring st by (simp add: tcp_example_def)
  ultimately show ?thesis by (simp add: Let_def)
qed

end
