(* ===== verification/Net_Input.thy ===== *)
theory Net_Input
  imports Tcp_Conn
begin

unbundle bit_operations_syntax

section \<open>Received frames and the network pump (\<^verbatim>\<open>net.c\<close>, \<^verbatim>\<open>kernel.c\<close>)\<close>

text \<open>
  The path of a received frame: Ethernet, IPv4 with its tests, and the protocol handlers; the
  receive loop \<^verbatim>\<open>gm_net_poll\<close>, which ends because every frame moves the receive queue on; and
  \<^verbatim>\<open>gm_pump\<close>, one round of network work followed by \<^verbatim>\<open>hlt\<close>.
\<close>

definition gm_ipv4_input :: "ip4 \<Rightarrow> u8 \<Rightarrow> bytes \<Rightarrow> 'a gm_tcp_scheme \<Rightarrow> 'a gm_tcp_scheme" where
  "gm_ipv4_input src protocol data s =
     (if protocol = 1 then gm_icmp_input src data s
      else if protocol = 6 then gm_tcp_input src data s
      else if protocol = 17 then gm_udp_input src data s
      else s)"

definition gm_ipv4_packet :: "bytes \<Rightarrow> 'a gm_tcp_scheme \<Rightarrow> 'a gm_tcp_scheme" where
  "gm_ipv4_packet data s =
     (if length data < 20 then s
      else if drop_bit 4 (data ! 0) \<noteq> 4 \<or> data ! 0 AND 0x0f < 5 then s
      else
        let header_len = unat (data ! 0 AND 0x0f) * 4;
            total_len = unat (gm_swap16 (ld16 data 2));
            fragment = gm_swap16 (ld16 data 6) in
        if header_len > length data \<or> total_len < header_len \<or> total_len > length data then s
        else if fragment AND 0xbfff \<noteq> 0 then s
        else if gm_checksum (take header_len data) \<noteq> 0 then s
        else if \<not> gm_ip_eq (ip_at data 16) (my_ip s) \<and> \<not> gm_ip_eq (ip_at data 16) (255, 255, 255, 255) then s
        else gm_ipv4_input (ip_at data 12) (data ! 9) (take (total_len - header_len) (drop header_len data)) s)"

definition gm_eth_input :: "bytes \<Rightarrow> 'a gm_tcp_scheme \<Rightarrow> 'a gm_tcp_scheme" where
  "gm_eth_input frame s =
     (if length frame < 14 then s
      else
        let type = (push_bit 8 (ucast (frame ! 12)) OR ucast (frame ! 13) :: u16) in
        if type = 0x0806 then gm_arp_input (drop 14 frame) s
        else if type = 0x0800 then gm_ipv4_packet (drop 14 frame) s
        else s)"


subsection \<open>What the handlers leave alone\<close>

text \<open>
  \<open>net_still\<close>: the clock, the console, the configuration, the parameters of the client in progress
  and every layer above the network. No received frame changes any of them.
\<close>

definition poll_view :: "'a gm_tcp_scheme \<Rightarrow> _" where
  "poll_view s = (gm_console s, gm_config s, gm_mac s, gm_ping_seq s, gm_udp_peer s, gm_udp_local_port s,
     gm_udp_remote_port s, gm_udp_next_port s, gm_udp_active s, gm_tcp_dst s, gm_tcp_src_port s,
     gm_tcp_dst_port s, gm_next_port s, gm_next_seq s, gm_tcp.more s)"

definition net_still :: "'a gm_tcp_scheme \<Rightarrow> _" where
  "net_still s = (gm_tick_count s, env_ticks s, poll_view s)"

lemma net_still_view: "net_view t = net_view s \<Longrightarrow> net_still t = net_still s"
  by (cases s; cases t) (simp add: net_view_def net_still_def poll_view_def)

lemma net_still_outside: "tcp_outside t = tcp_outside s \<Longrightarrow> net_still t = net_still s"
  by (cases s; cases t) (simp add: tcp_outside_def net_view_def net_still_def poll_view_def)

lemma still_snd_send [simp]:
  "net_still (snd (gm_eth_send dst type data s)) = net_still s"
  "net_still (snd (gm_ipv4_send ip p data s)) = net_still s"
  by (simp_all add: net_still_view [OF snd_frame(1)] net_still_view [OF snd_frame(3)])

lemma arp_put_still [simp]: "net_still (gm_arp_put ip mac s) = net_still s" "dev_keeps s (gm_arp_put ip mac s)"
  "my_ip (gm_arp_put ip mac s) = my_ip s" "gm_mac (gm_arp_put ip mac s) = gm_mac s"
  by (simp_all add: gm_arp_put_def net_still_def poll_view_def dev_keeps_def)

lemma arp_input_still: "net_still (gm_arp_input data s) = net_still s \<and> dev_keeps s (gm_arp_input data s)"
proof -
  have "dev_keeps s (snd (gm_eth_send d ty p (gm_arp_put ip mac s)))" for d ty p ip mac
    using dev_keeps_trans [OF arp_put_still(2) snd_frame(2)] .
  then show ?thesis by (simp add: gm_arp_input_def gm_arp_reply_def Let_def)
qed

lemma udp_input_still: "net_still (gm_udp_input src data s) = net_still s \<and> dev_keeps s (gm_udp_input src data s)"
  by (simp add: gm_udp_input_def net_still_def poll_view_def dev_keeps_def Let_def)

lemma icmp_input_still: "net_still (gm_icmp_input src data s) = net_still s \<and> dev_keeps s (gm_icmp_input src data s)"
  by (simp add: gm_icmp_input_def snd_frame) (simp add: net_still_def poll_view_def dev_keeps_def)

lemma tcp_input_still: "net_still (gm_tcp_input src data s) = net_still s \<and> dev_keeps s (gm_tcp_input src data s)"
  using tcp_input_frame [of src data s] net_still_outside [of "gm_tcp_input src data s" s] by simp

lemma ipv4_packet_still: "net_still (gm_ipv4_packet data s) = net_still s \<and> dev_keeps s (gm_ipv4_packet data s)"
  by (simp add: gm_ipv4_packet_def gm_ipv4_input_def icmp_input_still udp_input_still tcp_input_still Let_def)

lemma eth_input_still: "net_still (gm_eth_input frame s) = net_still s \<and> dev_keeps s (gm_eth_input frame s)"
  by (simp add: gm_eth_input_def arp_input_still ipv4_packet_still Let_def)


subsection \<open>The receive loop\<close>

definition frame_input :: "bytes \<Rightarrow> 'a gm_tcp_scheme \<Rightarrow> 'a gm_tcp_scheme" where
  "frame_input frame s =
     (let s1 = s\<lparr>gm_rx_packets := gm_rx_packets s + 1\<rparr> in
      if length frame \<ge> 14 then gm_eth_input frame s1 else s1)"

lemma frame_input_still: "net_still (frame_input frame s) = net_still s \<and> dev_keeps s (frame_input frame s)"
proof -
  let ?s = "s\<lparr>gm_rx_packets := gm_rx_packets s + 1\<rparr>"
  have "net_still ?s = net_still s" "dev_keeps s ?s" by (simp_all add: net_still_def poll_view_def dev_keeps_def)
  then show ?thesis using eth_input_still [of frame ?s] dev_keeps_trans by (auto simp: frame_input_def Let_def)
qed

function net_poll_loop :: "'a gm_tcp_scheme \<Rightarrow> 'a gm_tcp_scheme" where
  "net_poll_loop s =
     (case gm_virtio_net_poll 1518 s of (rc, s1) \<Rightarrow>
        case rc of
          Poll_Error \<Rightarrow> s1\<lparr>gm_net_online := False\<rparr>
        | Poll_None \<Rightarrow> s1
        | Poll_Frame frame \<Rightarrow> net_poll_loop (frame_input frame s1))"
  by pat_completeness auto
termination
proof (relation rx_order)
  fix s rc frame and s1 :: "'a gm_tcp_scheme"
  assume "(rc, s1) = gm_virtio_net_poll 1518 s" "rc = Poll_Frame frame"
  then have "(s1, s) \<in> rx_order" by (metis net_poll_progress)
  then show "(frame_input frame s1, s) \<in> rx_order" using frame_input_still rx_order_keeps by blast
qed simp

declare net_poll_loop.simps [simp del]

definition gm_net_poll :: "'a gm_tcp_scheme \<Rightarrow> 'a gm_tcp_scheme" where
  "gm_net_poll s = (if \<not> gm_net_online s then s else net_poll_loop s)"

definition gm_pump :: "'a gm_tcp_scheme \<Rightarrow> 'a gm_tcp_scheme" where
  "gm_pump s = cpu_hlt (gm_tcp_poll (gm_net_poll s))"



subsection \<open>What polling and pumping leave alone\<close>

lemma net_poll_loop_still: "net_still (net_poll_loop s) = net_still s"
proof (induction s rule: net_poll_loop.induct)
  case (1 s)
  obtain rc s1 where p: "gm_virtio_net_poll 1518 s = (rc, s1)" by fastforce
  have "net_still s1 = net_still s" using net_poll_outside [OF p] net_view_outside net_still_view by blast
  then show ?case
    using 1 [OF p [symmetric]] frame_input_still
    by (subst net_poll_loop.simps) (auto simp: p net_still_def poll_view_def split: poll_result.splits)
qed

lemma net_poll_still: "net_still (gm_net_poll s) = net_still s"
  by (simp add: gm_net_poll_def net_poll_loop_still)

lemma poll_view_still: "net_still t = net_still s \<Longrightarrow> poll_view t = poll_view s"
  by (simp add: net_still_def)

lemma poll_view_clock [simp]:
  "poll_view (clock_advance s) = poll_view s" "poll_view (cpu_hlt s) = poll_view s"
  "poll_view (s\<lparr>gm_tick_count := n\<rparr>) = poll_view s" "poll_view (s\<lparr>env_ticks := e\<rparr>) = poll_view s"
  by (auto simp: poll_view_def clock_advance_def cpu_hlt_def gm_timer_irq_def split: list.splits)

lemma poll_view_ticks: "gm_ticks s = (now, t) \<Longrightarrow> poll_view t = poll_view s"
  by (auto simp: gm_ticks_def Let_def)

lemma tcp_poll_frame: "poll_view (gm_tcp_poll s) = poll_view s \<and> clock_keeps s (gm_tcp_poll s)"
proof -
  obtain now s1 where t: "gm_ticks s = (now, s1)" by fastforce
  have v: "poll_view s1 = poll_view s" "clock_keeps s s1"
    using poll_view_ticks [OF t] clock_keeps_ticks [OF t] by simp_all
  have seg: "net_still (snd (gm_tcp_segment a b f d u)) = net_still u" for a b f d and u :: "'a gm_tcp_scheme"
    by (rule net_still_outside) simp
  let ?u = "s1\<lparr>gm_tcp_unacked_retry := gm_tcp_unacked_retry s1 + 1, gm_tcp_unacked_tick := now\<rparr>"
  have "poll_view (snd (gm_tcp_segment a b f d ?u)) = poll_view s" "clock_keeps s1 (snd (gm_tcp_segment a b f d ?u))"
    for a b f d
    using seg [of a b f d ?u] v(1) by (auto simp: net_still_def poll_view_def intro!: clock_keeps_same)
  note sent = this(1) clock_keeps_trans [OF v(2) this(2)]
  have "poll_view (s1\<lparr>gm_tcp_state := TCP_RESET, gm_tcp_unacked_len := 0\<rparr>) = poll_view s"
    "clock_keeps s1 (s1\<lparr>gm_tcp_state := TCP_RESET, gm_tcp_unacked_len := 0\<rparr>)"
    using v(1) by (auto simp: poll_view_def intro!: clock_keeps_same)
  note reset = this(1) clock_keeps_trans [OF v(2) this(2)]
  show ?thesis using v by (simp add: gm_tcp_poll_def t Let_def sent reset)
qed

lemma pump_view: "poll_view (gm_pump s) = poll_view s"
  by (simp add: gm_pump_def tcp_poll_frame poll_view_still [OF net_poll_still])

lemma pump_clock: "clock_moves s (gm_pump s)"
proof -
  have "clock_keeps s (gm_net_poll s)" using net_poll_still [of s] by (intro clock_keeps_same) (simp_all add: net_still_def)
  then have "clock_keeps s (gm_tcp_poll (gm_net_poll s))" using tcp_poll_frame clock_keeps_trans by blast
  then show ?thesis unfolding gm_pump_def using clock_moves_hlt clock_keeps_moves by blast
qed



subsection \<open>The invariant of the network stack\<close>

text \<open>
  \<open>net_ok\<close> joins the invariants of the layers: the driver's queues, the ARP table, the UDP reply
  buffer and the TCP connection. Every send and every received frame keeps it.
\<close>

definition net_ok :: "'a gm_tcp_scheme \<Rightarrow> bool" where
  "net_ok s \<longleftrightarrow> driver_ok s \<and> arp_ok (gm_arp s) \<and> length (gm_udp_reply s) = 1024 \<and> gm_udp_reply_len s \<le> 1024 \<and> tcp_ok s"

lemma driver_ok_upd [simp]:
  "driver_ok (s\<lparr>gm_arp := a\<rparr>) = driver_ok s" "driver_ok (s\<lparr>gm_ip_id := b\<rparr>) = driver_ok s"
  "driver_ok (s\<lparr>gm_ping_reply := c\<rparr>) = driver_ok s" "driver_ok (s\<lparr>gm_udp_reply := d\<rparr>) = driver_ok s"
  "driver_ok (s\<lparr>gm_udp_reply_len := e\<rparr>) = driver_ok s" "driver_ok (s\<lparr>gm_rx_packets := f\<rparr>) = driver_ok s"
  "driver_ok (s\<lparr>gm_tx_packets := g\<rparr>) = driver_ok s" "driver_ok (s\<lparr>gm_net_online := h\<rparr>) = driver_ok s"
  "driver_ok (s\<lparr>gm_tick_count := i\<rparr>) = driver_ok s" "driver_ok (s\<lparr>env_ticks := j\<rparr>) = driver_ok s"
  "driver_ok (s\<lparr>gm_console := k\<rparr>) = driver_ok s"
  by (simp_all add: driver_ok_def virtio_ok_def)

lemma driver_ok_tcp_upd [simp]:
  "driver_ok (s\<lparr>gm_tcp_seq := a\<rparr>) = driver_ok s" "driver_ok (s\<lparr>gm_tcp_ack := b\<rparr>) = driver_ok s"
  "driver_ok (s\<lparr>gm_tcp_state := c\<rparr>) = driver_ok s" "driver_ok (s\<lparr>gm_tcp_rx := d\<rparr>) = driver_ok s"
  "driver_ok (s\<lparr>gm_tcp_rx_len := e\<rparr>) = driver_ok s" "driver_ok (s\<lparr>gm_tcp_unacked_len := f\<rparr>) = driver_ok s"
  "driver_ok (s\<lparr>gm_tcp_unacked_retry := g\<rparr>) = driver_ok s" "driver_ok (s\<lparr>gm_tcp_unacked_tick := h\<rparr>) = driver_ok s"
  "driver_ok (s\<lparr>gm_tcp_tx_count := i\<rparr>) = driver_ok s" "driver_ok (s\<lparr>gm_tcp_rx_count := j\<rparr>) = driver_ok s"
  "driver_ok (s\<lparr>gm_tcp_drop_count := k\<rparr>) = driver_ok s" "driver_ok (s\<lparr>gm_tcp_rx_head := l\<rparr>) = driver_ok s"
  by (simp_all add: driver_ok_def virtio_ok_def)

lemma eth_send_driver_ok: "driver_ok s \<Longrightarrow> driver_ok (snd (gm_eth_send dst type data s))"
  using driver_ok_send [of s "eth_frame dst (gm_mac s) type data"]
  by (cases "gm_virtio_net_send (eth_frame dst (gm_mac s) type data) s") (simp add: gm_eth_send_def)

lemma ipv4_send_driver_ok: "driver_ok s \<Longrightarrow> driver_ok (snd (gm_ipv4_send dst p data s))"
  by (simp add: gm_ipv4_send_def eth_send_driver_ok Let_def split: option.splits)

lemma segment_driver_ok: "driver_ok s \<Longrightarrow> driver_ok (snd (gm_tcp_segment seq ack flags data s))"
  using ipv4_send_driver_ok [of s] by (simp add: gm_tcp_segment_def Let_def case_prod_beta)

lemma tcp_input_driver_ok:
  assumes "driver_ok s"
  shows "driver_ok (gm_tcp_input src data s)"
proof -
  have app: "driver_ok (snd (gm_tcp_append d u)) = driver_ok u" for d and u :: "'a gm_tcp_scheme"
    by (simp add: gm_tcp_append_def Let_def)
  have pay: "driver_ok (tcp_payload sq p u)" if "driver_ok u" for sq p and u :: "'a gm_tcp_scheme"
    using that by (simp add: tcp_payload_def Let_def case_prod_beta segment_driver_ok app)
  have fin: "driver_ok (tcp_fin sq p u)" if "driver_ok u" for sq p and u :: "'a gm_tcp_scheme"
    using that by (simp add: tcp_fin_def Let_def segment_driver_ok)
  have ack: "driver_ok (tcp_acked a f u) = driver_ok u" for a f and u :: "'a gm_tcp_scheme"
    by (simp add: tcp_acked_def)
  have "driver_ok (tcp_handle sq a f p u)" if "driver_ok u" for sq a f p and u :: "'a gm_tcp_scheme"
    using that by (simp add: tcp_handle_def Let_def case_prod_beta pay fin ack segment_driver_ok)
  then show ?thesis using assms by (simp add: gm_tcp_input_def Let_def)
qed

lemma net_ok_view: "net_view t = net_view s \<Longrightarrow> driver_ok t \<Longrightarrow> net_ok s \<Longrightarrow> net_ok t"
  by (cases s; cases t) (simp add: net_view_def net_ok_def tcp_ok_def ring_ok_def)

lemma eth_send_ok: "net_ok s \<Longrightarrow> net_ok (snd (gm_eth_send dst type data s))"
  by (rule net_ok_view [OF snd_frame(1)]) (simp_all add: eth_send_driver_ok net_ok_def)

lemma ipv4_send_ok: "net_ok s \<Longrightarrow> net_ok (snd (gm_ipv4_send dst p data s))"
  by (rule net_ok_view [OF snd_frame(3)]) (simp_all add: ipv4_send_driver_ok net_ok_def)

lemma tcp_ok_net_upd [simp]:
  "tcp_ok (s\<lparr>gm_arp := a\<rparr>) = tcp_ok s" "tcp_ok (s\<lparr>gm_ping_reply := b\<rparr>) = tcp_ok s"
  "tcp_ok (s\<lparr>gm_udp_reply := c\<rparr>) = tcp_ok s" "tcp_ok (s\<lparr>gm_udp_reply_len := d\<rparr>) = tcp_ok s"
  "tcp_ok (s\<lparr>gm_rx_packets := e\<rparr>) = tcp_ok s" "tcp_ok (s\<lparr>gm_net_online := f\<rparr>) = tcp_ok s"
  "tcp_ok (s\<lparr>gm_console := g\<rparr>) = tcp_ok s"
  by (simp_all add: tcp_ok_def ring_ok_def)

lemma arp_put_ok: "net_ok s \<Longrightarrow> net_ok (gm_arp_put ip mac s)"
  by (simp add: net_ok_def gm_arp_put_def arp.inv_put)

lemma arp_input_ok: "net_ok s \<Longrightarrow> net_ok (gm_arp_input data s)"
  by (simp add: gm_arp_input_def gm_arp_reply_def Let_def eth_send_ok arp_put_ok)

lemma udp_input_ok: "net_ok s \<Longrightarrow> net_ok (gm_udp_input src data s)"
  by (simp add: gm_udp_input_def net_ok_def Let_def)

lemma icmp_input_ok: "net_ok s \<Longrightarrow> net_ok (gm_icmp_input src data s)"
  using ipv4_send_ok [of s] by (simp add: gm_icmp_input_def) (simp add: net_ok_def)

lemma tcp_input_net_ok:
  assumes "net_ok s"
  shows "net_ok (gm_tcp_input src data s)"
proof -
  have "gm_arp (gm_tcp_input src data s) = gm_arp s"
    "gm_udp_reply (gm_tcp_input src data s) = gm_udp_reply s"
    "gm_udp_reply_len (gm_tcp_input src data s) = gm_udp_reply_len s"
    using tcp_input_frame [of src data s]
    by (cases s; cases "gm_tcp_input src data s"; simp add: tcp_outside_def net_view_def)+
  then show ?thesis using assms by (simp add: net_ok_def tcp_input_ok tcp_input_driver_ok)
qed

lemma eth_input_ok: "net_ok s \<Longrightarrow> net_ok (gm_eth_input frame s)"
  by (simp add: gm_eth_input_def gm_ipv4_packet_def gm_ipv4_input_def arp_input_ok icmp_input_ok
      tcp_input_net_ok udp_input_ok Let_def)

lemma frame_input_ok: "net_ok s \<Longrightarrow> net_ok (frame_input frame s)"
proof -
  assume "net_ok s"
  then have "net_ok (s\<lparr>gm_rx_packets := gm_rx_packets s + 1\<rparr>)" by (simp add: net_ok_def)
  then show ?thesis by (simp add: frame_input_def eth_input_ok Let_def)
qed

lemma net_poll_ok: "net_ok s \<Longrightarrow> net_ok (gm_net_poll s)"
proof -
  have "net_ok s \<Longrightarrow> net_ok (net_poll_loop s)"
  proof (induction s rule: net_poll_loop.induct)
    case (1 s)
    obtain rc s1 where p: "gm_virtio_net_poll 1518 s = (rc, s1)" by fastforce
    have "net_view s1 = net_view s" using net_poll_outside [OF p] by (rule net_view_outside)
    moreover have "driver_ok s1" using driver_ok_poll [OF _ p] 1(2) by (simp add: net_ok_def)
    ultimately have ok: "net_ok s1" using 1(2) by (rule net_ok_view)
    then have "net_ok (s1\<lparr>gm_net_online := False\<rparr>)" by (simp add: net_ok_def)
    then show ?case using 1(1) [OF p [symmetric]] ok frame_input_ok
      by (subst net_poll_loop.simps) (auto simp: p split: poll_result.splits)
  qed
  then show "net_ok s \<Longrightarrow> net_ok (gm_net_poll s)" by (simp add: gm_net_poll_def)
qed

lemma tcp_poll_net_ok:
  assumes "net_ok s"
  shows "net_ok (gm_tcp_poll s)"
proof -
  obtain now s1 where t: "gm_ticks s = (now, s1)" by fastforce
  have s1: "s1 = s\<lparr>gm_tick_count := gm_tick_count s1, env_ticks := env_ticks s1\<rparr>" by (rule ticks_frame [OF t])
  have "driver_ok s1" "arp_ok (gm_arp s1)" "length (gm_udp_reply s1) = 1024" "gm_udp_reply_len s1 \<le> 1024"
    using assms by (subst s1; simp add: net_ok_def)+
  moreover have "gm_arp (snd (gm_tcp_segment a b f d u)) = gm_arp u \<and>
      gm_udp_reply (snd (gm_tcp_segment a b f d u)) = gm_udp_reply u \<and>
      gm_udp_reply_len (snd (gm_tcp_segment a b f d u)) = gm_udp_reply_len u" for a b f d and u :: "'a gm_tcp_scheme"
    using snd_segment_frame(1) [of a b f d u]
    by (cases u; cases "snd (gm_tcp_segment a b f d u)") (simp add: tcp_view_def net_view_def)
  ultimately show ?thesis
    using assms tcp_poll_ok [of s]
    by (simp add: net_ok_def gm_tcp_poll_def t Let_def segment_driver_ok)
qed

lemma net_ok_clock: "net_ok (clock_advance s) = net_ok s" "net_ok (cpu_hlt s) = net_ok s"
  by (auto simp: net_ok_def cpu_hlt_def gm_timer_irq_def clock_advance_def split: list.splits)

lemma pump_ok: "net_ok s \<Longrightarrow> net_ok (gm_pump s)"
  by (simp add: gm_pump_def net_ok_clock tcp_poll_net_ok net_poll_ok)



subsection \<open>Packets in and out\<close>

lemma ipv4_header_split:
  "ipv4_header n ident protocol c src dst =
     ([0x45, 0] @ be16 n @ be16 ident @ be16 0x4000 @ [64, protocol]) @ be16 c @ (ip_bytes src @ ip_bytes dst)"
  by (simp add: ipv4_header_def)

lemma ipv4_packet_fields:
  assumes "p = ipv4_packet ident protocol src dst data @ pad" "length data \<le> 1480"
  shows "length p = 20 + length data + length pad" "p ! 0 = 0x45" "unat (gm_swap16 (ld16 p 2)) = 20 + length data"
    "gm_swap16 (ld16 p 6) = 0x4000" "p ! 9 = protocol" "ip_at p 12 = src" "ip_at p 16 = dst"
    "take (length data) (drop 20 p) = data" "gm_checksum (take 20 p) = 0"
proof -
  let ?n = "of_nat (20 + length data) :: u16" and ?pre = "[0x45, 0] @ be16 (of_nat (20 + length data)) @ be16 ident @ be16 0x4000 @ [64, protocol]"
  let ?c = "gm_checksum (ipv4_header ?n ident protocol 0 src dst)"
  obtain s0 s1 s2 s3 where src: "src = (s0, s1, s2, s3)" by (cases src)
  obtain d0 d1 d2 d3 where dst: "dst = (d0, d1, d2, d3)" by (cases dst)
  have p: "p = (?pre @ be16 ?c @ (ip_bytes src @ ip_bytes dst)) @ data @ pad"
    by (simp add: assms(1) ipv4_packet_def ipv4_header_split Let_def)
  have frag: "rd16be 64 16384 = 0x4000" by (simp add: rd16be_def)
  have "unat ?n = 20 + length data" using assms(2) by (subst unat_of_nat) simp
  then show "unat (gm_swap16 (ld16 p 2)) = 20 + length data" by (simp add: p ld16_def be16_def)
  show "length p = 20 + length data + length pad" "p ! 0 = 0x45" "gm_swap16 (ld16 p 6) = 0x4000" "p ! 9 = protocol"
    "ip_at p 12 = src" "ip_at p 16 = dst" "take (length data) (drop 20 p) = data"
    by (simp_all add: p src dst ld16_def ip_at_def be16_def frag)
  have "gm_checksum (?pre @ be16 (gm_checksum (?pre @ [0, 0] @ (ip_bytes src @ ip_bytes dst))) @ (ip_bytes src @ ip_bytes dst)) = 0"
    by (rule checksum_insert) simp_all
  moreover have "be16 0 = [0, 0]" by (simp add: be16_def)
  ultimately show "gm_checksum (take 20 p) = 0" by (simp add: p ipv4_header_split)
qed

lemma ipv4_packet_accepted:
  assumes "length data \<le> 1480" "dst = my_ip s \<or> dst = (255, 255, 255, 255)"
  shows "gm_ipv4_packet (ipv4_packet ident protocol src dst data @ pad) s = gm_ipv4_input src protocol data s"
proof -
  note f = ipv4_packet_fields [OF refl assms(1), of ident protocol src dst pad]
  have "drop_bit 4 (0x45 :: u8) = 4" "(0x45 :: u8) AND 0x0f = 5" "(0x4000 :: u16) AND 0xbfff = 0" by simp_all
  then show ?thesis using f assms(2) by (auto simp: gm_ipv4_packet_def Let_def)
qed

lemma eth_input_frame:
  assumes "length dst = 6" "length src = 6"
  shows "gm_eth_input (eth_frame dst src 0x0800 data) s =
      gm_ipv4_packet (data @ replicate (60 - (14 + length data)) 0) s"
    and "gm_eth_input (eth_frame dst src 0x0806 data) s =
      gm_arp_input (data @ replicate (60 - (14 + length data)) 0) s"
proof -
  obtain a b c d e f where dst: "dst = [a, b, c, d, e, f]" using length_6 [OF assms(1)] by blast
  obtain a' b' c' d' e' f' where src: "src = [a', b', c', d', e', f']" using length_6 [OF assms(2)] by blast
  have fr: "eth_frame dst src ty data = dst @ src @ [ucast (drop_bit 8 ty), ucast ty] @ data @ replicate (60 - (14 + length data)) 0"
    for ty by (auto simp: eth_frame_def dst src Let_def)
  show "gm_eth_input (eth_frame dst src 0x0800 data) s =
      gm_ipv4_packet (data @ replicate (60 - (14 + length data)) 0) s"
    "gm_eth_input (eth_frame dst src 0x0806 data) s =
      gm_arp_input (data @ replicate (60 - (14 + length data)) 0) s"
    unfolding fr by (simp_all add: gm_eth_input_def dst src Let_def)
qed

lemma icmp_echo_reply_fields:
  assumes "8 \<le> length data" "length data \<le> 1500"
  shows "length (icmp_echo_reply data) = length data" "icmp_echo_reply data ! 0 = 0"
    "icmp_echo_reply data ! 1 = data ! 1" "drop 4 (icmp_echo_reply data) = drop 4 data"
    "gm_checksum (icmp_echo_reply data) = 0"
proof -
  obtain a b c d rest where data: "data = a # b # c # d # rest"
    using assms(1) by (auto simp: numeral_eq_Suc Suc_le_length_iff)
  have r: "icmp_echo_reply data = [0, b] @ be16 (gm_checksum ([0, b] @ [0, 0] @ rest)) @ rest"
    by (simp add: icmp_echo_reply_def data be16_def Let_def numeral_2_eq_2 numeral_3_eq_3)
  show "length (icmp_echo_reply data) = length data" "icmp_echo_reply data ! 0 = 0"
    "icmp_echo_reply data ! 1 = data ! 1" "drop 4 (icmp_echo_reply data) = drop 4 data"
    unfolding r by (simp_all add: data be16_def)
  show "gm_checksum (icmp_echo_reply data) = 0"
    unfolding r using assms(2) data by (intro checksum_insert) simp_all
qed



subsection \<open>Properties\<close>

text \<open>C17: Whatever frames the device delivers, one round of the network pump keeps every invariant
  of the stack (queues, ARP table, UDP buffer, TCP connection), moves the clock on, and changes
  nothing of the configuration, the console or the layers above the network.\<close>

theorem pump_keeps_invariants:
  assumes "net_ok s"
  shows "net_ok (gm_pump s) \<and> clock_moves s (gm_pump s) \<and> gm_config (gm_pump s) = gm_config s \<and>
    gm_console (gm_pump s) = gm_console s \<and> gm_tcp.more (gm_pump s) = gm_tcp.more s"
  using pump_ok [OF assms] pump_clock [of s] pump_view [of s] by (simp add: poll_view_def)

text \<open>C26: A packet \<^verbatim>\<open>gm_ipv4_send\<close> puts into an Ethernet frame arrives: the receive path of the
  addressed host hands exactly the sender's address, protocol and data to the protocol handler,
  with the padding of short frames removed.\<close>

theorem ipv4_round_trip:
  assumes "length data \<le> 1480" "length (gm_mac a) = 6" "length mac = 6"
  shows "gm_eth_input (eth_frame mac (gm_mac a) 0x0800 (ipv4_packet ident protocol (my_ip a) (my_ip b) data)) b =
    gm_ipv4_input (my_ip a) protocol data b"
  using ipv4_packet_accepted [OF assms(1), of "my_ip b" b] by (simp add: eth_input_frame [OF assms(3,2)])

text \<open>C27: A valid echo request is answered to its sender with a reply of the same length, identifier,
  sequence number and payload, whose type is 0 and whose checksum is right.\<close>

theorem icmp_echo_answered:
  assumes "8 \<le> length data" "length data \<le> 1500" "gm_checksum data = 0" "data ! 0 = 8" "data ! 1 = 0"
  shows "\<exists>reply. gm_icmp_input src data s = snd (gm_ipv4_send src 1 reply s) \<and> length reply = length data \<and>
    reply ! 0 = 0 \<and> reply ! 1 = 0 \<and> drop 4 reply = drop 4 data \<and> gm_checksum reply = 0"
  using icmp_echo_reply_fields [OF assms(1,2)] assms
  by (intro exI [of _ "icmp_echo_reply data"]) (simp add: gm_icmp_input_def)


subsection \<open>Witnesses\<close>

lemma net_ok_example: "net_ok tcp_example"
proof -
  have v: "driver_ok virtio_start" unfolding virtio_start_def by (rule driver_ok_init)
  have "driver_ok tcp_example"
    using v by (simp add: driver_ok_def virtio_ok_def tcp_example_def ring_example_def gm_net.extend_def gm_tcp.fields_def
        net_blank_def gm_virtio.extend_def gm_net.fields_def)
  then show ?thesis
    by (simp add: net_ok_def tcp_example_def tcp_ok_def ring_ok_def ring_example_def gm_net.extend_def
        gm_tcp.fields_def net_blank_def gm_virtio.extend_def gm_net.fields_def arp_ok_blank)
qed

theorem pump_keeps_invariants_witness: "net_ok (gm_pump tcp_example) \<and> clock_moves tcp_example (gm_pump tcp_example)"
  using pump_keeps_invariants [OF net_ok_example] by blast

theorem ipv4_round_trip_witness:
  "gm_eth_input (eth_frame (replicate 6 255) (gm_mac net_blank) 0x0800
     (ipv4_packet 1 1 (my_ip net_blank) (my_ip tcp_example) [8, 0])) tcp_example =
   gm_ipv4_input (my_ip net_blank) 1 [8, 0] tcp_example"
  by (rule ipv4_round_trip) simp_all

definition echo_request :: bytes where
  "echo_request = [8, 0] @ be16 (gm_checksum ([8, 0] @ [0, 0] @ [71, 77, 0, 1])) @ [71, 77, 0, 1]"

theorem icmp_echo_answered_witness:
  "\<exists>reply. gm_icmp_input (10, 0, 2, 2) echo_request tcp_example = snd (gm_ipv4_send (10, 0, 2, 2) 1 reply tcp_example) \<and>
     length reply = 8 \<and> gm_checksum reply = 0"
proof -
  have len: "length echo_request = 8" by (simp add: echo_request_def)
  have "gm_checksum echo_request = 0" unfolding echo_request_def by (rule checksum_insert) simp_all
  moreover have "echo_request ! 0 = 8" "echo_request ! 1 = 0" by (simp_all add: echo_request_def)
  ultimately show ?thesis
    using icmp_echo_answered [of echo_request "(10, 0, 2, 2)" tcp_example] len by auto
qed

end
