(* ===== verification/Net_Client.thy ===== *)
theory Net_Client
  imports Net_Input
begin

unbundle bit_operations_syntax

section \<open>Waiting network clients (\<^verbatim>\<open>net.c\<close>: resolution, UDP exchange, ping)\<close>

text \<open>
  The operations of \<^verbatim>\<open>net.c\<close> that wait: each is a loop that pumps the network until an answer has
  arrived or \<^verbatim>\<open>gm_ticks()-start\<close> has reached the time-out. The loops end because every pump moves
  the clock on (\<open>wait_measure\<close>). A pointer argument with its length is a byte list; the empty
  result stands for the return value 0.
\<close>

lemma arp_request_frame: "net_still (gm_arp_request ip s) = net_still s" "dev_keeps s (gm_arp_request ip s)"
  by (simp_all add: gm_arp_request_def snd_frame)

text \<open>One round of the resolution loop up to the pump: a request every ten ticks.\<close>

definition prepare_request :: "ip4 \<Rightarrow> u64 \<Rightarrow> 'a gm_tcp_scheme \<Rightarrow> u64 \<times> 'a gm_tcp_scheme" where
  "prepare_request hop prev s =
     (let (now, s1) = gm_ticks s in
      if now - prev \<ge> 10 then gm_ticks (gm_arp_request hop s1) else (prev, s1))"

lemma prepare_request_clock: "prepare_request hop prev s = (l, t) \<Longrightarrow> clock_keeps s t"
proof -
  assume a: "prepare_request hop prev s = (l, t)"
  obtain now s1 where t1: "gm_ticks s = (now, s1)" by fastforce
  have "clock_keeps s1 (gm_arp_request hop s1)"
    using arp_request_frame(1) [of hop s1] by (intro clock_keeps_same) (simp_all add: net_still_def)
  then have "clock_keeps s (gm_arp_request hop s1)" using clock_keeps_ticks [OF t1] clock_keeps_trans by blast
  then show "clock_keeps s t"
    using a t1 clock_keeps_ticks [OF t1] clock_keeps_ticks [of "gm_arp_request hop s1"] clock_keeps_trans
    by (auto simp: prepare_request_def split: if_splits)
qed

function prepare_loop :: "ip4 \<Rightarrow> u64 \<Rightarrow> u64 \<Rightarrow> u64 \<Rightarrow> 'a gm_tcp_scheme \<Rightarrow> bool \<times> 'a gm_tcp_scheme" where
  "prepare_loop hop start timeout prev s =
     (case gm_ticks s of (now, s1) \<Rightarrow>
        if now - start < timeout then
          case prepare_request hop prev s1 of (prev', s2) \<Rightarrow>
            let s3 = gm_pump s2 in
            if gm_arp_lookup hop s3 \<noteq> None then (True, s3) else prepare_loop hop start timeout prev' s3
        else (False, s1))"
  by pat_completeness auto
termination
proof (relation "inv_image wait_order (\<lambda>(hop, start, timeout, prev, s). (start, timeout, s))")
  fix hop start timeout prev now prev' p and s s1 s2 s3 :: "'a gm_tcp_scheme"
  assume t: "(now, s1) = gm_ticks s" "now - start < timeout" and "(prev', s2) = prepare_request hop prev s1" "s3 = gm_pump s2"
  then have "clock_moves s1 s3" using prepare_request_clock clock_keeps_moves pump_clock by metis
  then show "((hop, start, timeout, prev', s3), hop, start, timeout, prev, s) \<in>
      inv_image wait_order (\<lambda>(hop, start, timeout, prev, s). (start, timeout, s))"
    using wait_order_step [OF t(1) [symmetric] t(2)] by simp
qed simp

declare prepare_loop.simps [simp del]

definition gm_net_prepare :: "ip4 \<Rightarrow> u64 \<Rightarrow> 'a gm_tcp_scheme \<Rightarrow> bool \<times> 'a gm_tcp_scheme" where
  "gm_net_prepare dst timeout s =
     (if \<not> gm_net_online s then (False, s)
      else
        let hop = gm_next_hop dst s in
        if gm_arp_lookup hop s \<noteq> None then (True, s)
        else
          let (start, s1) = gm_ticks s in
          prepare_loop hop start timeout (start - timeout) s1)"


subsection \<open>UDP exchange\<close>

definition udp_packet :: "ip4 \<Rightarrow> ip4 \<Rightarrow> u16 \<Rightarrow> u16 \<Rightarrow> bytes \<Rightarrow> bytes" where
  "udp_packet src_ip dst_ip src dst tx =
     (let udp_len = of_nat (8 + length tx) :: u16;
          head = le16 (gm_swap16 src) @ le16 (gm_swap16 dst) @ le16 (gm_swap16 udp_len);
          checksum = gm_udp_checksum src_ip dst_ip (head @ le16 0 @ tx) in
      head @ le16 (gm_swap16 (if checksum \<noteq> 0 then checksum else 0xffff)) @ tx)"

function udp_wait :: "u64 \<Rightarrow> u64 \<Rightarrow> 'a gm_tcp_scheme \<Rightarrow> 'a gm_tcp_scheme" where
  "udp_wait start timeout s =
     (case gm_ticks s of (now, s1) \<Rightarrow>
        if now - start < timeout \<and> gm_udp_reply_len s1 = 0 then udp_wait start timeout (gm_pump s1) else s1)"
  by pat_completeness auto
termination
  by (relation wait_order) (auto intro: wait_order_step [OF sym _ pump_clock])

declare udp_wait.simps [simp del]

definition udp_begin :: "ip4 \<Rightarrow> u16 \<Rightarrow> 'a gm_tcp_scheme \<Rightarrow> 'a gm_tcp_scheme" where
  "udp_begin dst port s =
     s\<lparr>gm_udp_local_port := gm_udp_next_port s,
       gm_udp_next_port := (if gm_udp_next_port s \<ge> 65535 then 49152 else gm_udp_next_port s + 1),
       gm_udp_remote_port := port, gm_udp_peer := dst, gm_udp_reply_len := 0, gm_udp_active := True\<rparr>"

definition udp_finish :: "nat \<Rightarrow> 'a gm_tcp_scheme \<Rightarrow> bytes \<times> 'a gm_tcp_scheme" where
  "udp_finish rx_max s =
     (let reply_len = gm_udp_reply_len s;
          s1 = s\<lparr>gm_udp_active := False, gm_udp_reply_len := 0\<rparr> in
      if reply_len = 0 \<or> reply_len > rx_max then ([], s1)
      else (take reply_len (gm_udp_reply s1), s1))"

definition gm_udp_exchange :: "ip4 \<Rightarrow> u16 \<Rightarrow> bytes \<Rightarrow> nat \<Rightarrow> u64 \<Rightarrow> 'a gm_tcp_scheme \<Rightarrow> bytes \<times> 'a gm_tcp_scheme" where
  "gm_udp_exchange dst port tx rx_max timeout s =
     (if port = 0 \<or> length tx > 1024 \<or> rx_max > 1024 \<or> timeout = 0 then ([], s)
      else if gm_udp_active s then ([], s)
      else case gm_net_prepare dst timeout s of (ready, s1) \<Rightarrow>
        if \<not> ready then ([], s1)
        else
          let s2 = udp_begin dst port s1;
              packet = udp_packet (my_ip s2) dst (gm_udp_local_port s2) port tx;
              (sent, s3) = gm_ipv4_send dst 17 packet s2 in
          if \<not> sent then ([], s3\<lparr>gm_udp_active := False\<rparr>)
          else
            let (start, s4) = gm_ticks s3 in
            udp_finish rx_max (udp_wait start timeout s4))"


subsection \<open>Ping\<close>

definition ping_packet :: "u16 \<Rightarrow> bytes" where
  "ping_packet seq =
     (let packet = [8, 0, 0, 0, 0x47, 0x4d, ucast (drop_bit 8 seq), ucast seq] @ asc ''gmker 3.2 ping'' @ [0, 0];
          cksum = gm_checksum packet in
      packet[2 := ucast (drop_bit 8 cksum), 3 := ucast cksum])"

function ping_loop :: "u64 \<Rightarrow> u64 \<Rightarrow> 'a gm_tcp_scheme \<Rightarrow> bool \<times> 'a gm_tcp_scheme" where
  "ping_loop start timeout s =
     (case gm_ticks s of (now, s1) \<Rightarrow>
        if now - start < timeout then
          let s2 = gm_pump s1 in
          if gm_ping_reply s2 = gm_ping_seq s2 then (True, s2) else ping_loop start timeout s2
        else (False, s1))"
  by pat_completeness auto
termination
  by (relation wait_order) (auto intro: wait_order_step [OF sym _ pump_clock])

declare ping_loop.simps [simp del]

definition gm_ping :: "ip4 \<Rightarrow> u64 \<Rightarrow> 'a gm_tcp_scheme \<Rightarrow> bool \<times> 'a gm_tcp_scheme" where
  "gm_ping dst timeout s =
     (if gm_ip_eq dst (my_ip s) then (True, s)
      else case gm_net_prepare dst timeout s of (ready, s1) \<Rightarrow>
        if \<not> ready then (False, s1)
        else
          let s2 = s1\<lparr>gm_ping_seq := gm_ping_seq s1 + 1\<rparr>;
              packet = ping_packet (gm_ping_seq s2);
              s3 = s2\<lparr>gm_ping_reply := 0\<rparr>;
              (sent, s4) = gm_ipv4_send dst 1 packet s3 in
          if \<not> sent then (False, s4)
          else
            let (start, s5) = gm_ticks s4 in
            ping_loop start timeout s5)"



subsection \<open>What the waiting loops keep\<close>

text \<open>
  Whatever a pump, a clock reading and an ARP request keep, all waiting loops keep. The two
  instances are the invariant of the network stack and the part of the state no frame changes.
\<close>

locale pump_invariant =
  fixes I :: "'a gm_tcp_scheme \<Rightarrow> bool"
  assumes pump: "I s \<Longrightarrow> I (gm_pump s)"
    and ticks: "I s \<Longrightarrow> gm_ticks s = (now, t) \<Longrightarrow> I t"
    and arp_request: "I s \<Longrightarrow> I (gm_arp_request ip s)"
begin

lemma request:
  assumes "I s" "prepare_request hop prev s = (l, t)"
  shows "I t"
proof -
  obtain now s1 where t: "gm_ticks s = (now, s1)" by fastforce
  have I1: "I s1" by (rule ticks [OF assms(1) t])
  show ?thesis
    using assms(2) I1 ticks [OF arp_request [OF I1, of hop]] by (auto simp: prepare_request_def t split: if_splits)
qed

lemma resolve: "I s \<Longrightarrow> prepare_loop hop start timeout prev s = (r, t) \<Longrightarrow> I t"
proof (induction hop start timeout prev s rule: prepare_loop.induct)
  case (1 hop start timeout prev s)
  obtain now s1 where t: "gm_ticks s = (now, s1)" by fastforce
  obtain prev' s2 where r: "prepare_request hop prev s1 = (prev', s2)" by fastforce
  have I1: "I s1" using ticks [OF 1(2) t] .
  then have I3: "I (gm_pump s2)" using request [OF _ r] pump by blast
  note IH = 1(1) [OF t [symmetric] _ r [symmetric] refl]
  from 1(3) show ?case
    using I1 I3 IH by (subst (asm) prepare_loop.simps) (auto simp: t r Let_def split: if_splits)
qed

lemma prepare:
  assumes "I s" "gm_net_prepare dst timeout s = (r, t)"
  shows "I t"
proof -
  obtain now s1 where t: "gm_ticks s = (now, s1)" by fastforce
  show ?thesis
    using assms resolve [OF ticks [OF assms(1) t], of "gm_next_hop dst s"]
    by (auto simp: gm_net_prepare_def t Let_def split: if_splits)
qed

lemma udp_reply: "I s \<Longrightarrow> I (udp_wait start timeout s)"
proof (induction start timeout s rule: udp_wait.induct)
  case (1 start timeout s)
  obtain now s1 where t: "gm_ticks s = (now, s1)" by fastforce
  have "I s1" using ticks [OF 1(2) t] .
  then show ?case using 1(1) [OF t [symmetric]] pump by (subst udp_wait.simps) (auto simp: t)
qed

lemma ping_reply: "I s \<Longrightarrow> ping_loop start timeout s = (r, t) \<Longrightarrow> I t"
proof (induction start timeout s rule: ping_loop.induct)
  case (1 start timeout s)
  obtain now s1 where t: "gm_ticks s = (now, s1)" by fastforce
  have "I s1" "I (gm_pump s1)" using ticks [OF 1(2) t] pump by blast+
  then show ?case
    using 1(3) 1(1) [OF t [symmetric] _ refl]
    by (subst (asm) ping_loop.simps) (auto simp: t Let_def split: if_splits)
qed

end

lemma net_ok_ticks: "net_ok s \<Longrightarrow> gm_ticks s = (now, t) \<Longrightarrow> net_ok t"
  by (auto simp: gm_ticks_def Let_def net_ok_clock)

interpretation stack: pump_invariant net_ok
  by unfold_locales (auto intro: pump_ok net_ok_ticks eth_send_ok simp: gm_arp_request_def)

interpretation calm: pump_invariant "\<lambda>t. poll_view t = v" for v
  by unfold_locales (simp_all add: pump_view poll_view_ticks poll_view_still [OF arp_request_frame(1)])

lemma prepare_view: "gm_net_prepare dst timeout s = (r, t) \<Longrightarrow> poll_view t = poll_view s"
  by (rule calm.prepare [OF refl])

text \<open>Resolution succeeds exactly with the next hop's address in the table.\<close>

lemma prepare_loop_resolved:
  "prepare_loop hop start timeout prev s = (True, t) \<Longrightarrow> gm_arp_lookup hop t \<noteq> None"
proof (induction hop start timeout prev s rule: prepare_loop.induct)
  case (1 hop start timeout prev s)
  obtain now s1 where t: "gm_ticks s = (now, s1)" by fastforce
  obtain prev' s2 where r: "prepare_request hop prev s1 = (prev', s2)" by fastforce
  from 1(2) show ?case
    using 1(1) [OF t [symmetric] _ r [symmetric] refl]
    by (subst (asm) prepare_loop.simps) (auto simp: t r Let_def split: if_splits)
qed



subsection \<open>Results of the clients\<close>

text \<open>\<open>upper\<close>: the part of the state every network client leaves alone.\<close>

definition upper :: "'a gm_tcp_scheme \<Rightarrow> bytes \<times> gm_config \<times> bytes \<times> 'a" where
  "upper s = (gm_console s, gm_config s, gm_mac s, gm_tcp.more s)"

lemma upper_view: "poll_view t = poll_view s \<Longrightarrow> upper t = upper s"
  by (simp add: poll_view_def upper_def)

lemma upper_net: "net_view t = net_view s \<Longrightarrow> upper t = upper s"
  by (intro upper_view poll_view_still net_still_view)

lemma net_ok_udp [simp]:
  "net_ok (s\<lparr>gm_udp_active := b\<rparr>) = net_ok s" "net_ok (s\<lparr>gm_udp_peer := p\<rparr>) = net_ok s"
  "net_ok (s\<lparr>gm_udp_local_port := l\<rparr>) = net_ok s" "net_ok (s\<lparr>gm_udp_remote_port := r\<rparr>) = net_ok s"
  "net_ok (s\<lparr>gm_udp_next_port := n\<rparr>) = net_ok s" "net_ok s \<Longrightarrow> net_ok (s\<lparr>gm_udp_reply_len := 0\<rparr>)"
  by (simp_all add: net_ok_def driver_ok_def virtio_ok_def tcp_ok_def ring_ok_def)

lemma upper_udp [simp]:
  "upper (s\<lparr>gm_udp_active := b\<rparr>) = upper s" "upper (s\<lparr>gm_udp_reply_len := k\<rparr>) = upper s"
  by (simp_all add: upper_def)

lemma udp_begin_frame: "upper (udp_begin dst port s) = upper s" "net_ok s \<Longrightarrow> net_ok (udp_begin dst port s)"
  by (simp_all add: udp_begin_def) (simp add: upper_def)

lemma udp_finish_state: "udp_finish rx_max s = (out, t) \<Longrightarrow> t = s\<lparr>gm_udp_active := False, gm_udp_reply_len := 0\<rparr>"
  by (auto simp: udp_finish_def Let_def split: if_splits)

lemma udp_finish_frame:
  assumes "udp_finish rx_max s = (out, t)"
  shows "upper t = upper s" "net_ok s \<Longrightarrow> net_ok t" "length out \<le> rx_max" "\<not> gm_udp_active t"
proof -
  note t = udp_finish_state [OF assms]
  show "upper t = upper s" "\<not> gm_udp_active t" by (simp_all add: t)
  show "net_ok t" if "net_ok s" using that by (simp add: t)
  show "length out \<le> rx_max" using assms by (auto simp: udp_finish_def Let_def split: if_splits)
qed

lemma udp_wait_view: "poll_view (udp_wait start timeout s) = poll_view s"
  by (rule calm.udp_reply [OF refl])

text \<open>The ways an exchange can end: refused at once, unresolved, not sent, or after the wait.\<close>

lemma udp_exchange_cases:
  assumes "gm_udp_exchange dst port tx rx_max timeout s = (out, t)"
  obtains (refused) "out = []" "t = s"
  | (unresolved) "gm_net_prepare dst timeout s = (False, t)" "out = []" "\<not> gm_udp_active s"
  | (unsent) s1 s3 where "gm_net_prepare dst timeout s = (True, s1)" "\<not> gm_udp_active s"
      "gm_ipv4_send dst 17 (udp_packet (my_ip s1) dst (gm_udp_next_port s1) port tx) (udp_begin dst port s1) = (False, s3)"
      "out = []" "t = s3\<lparr>gm_udp_active := False\<rparr>"
  | (waited) s1 s3 start s4 where "gm_net_prepare dst timeout s = (True, s1)" "\<not> gm_udp_active s" "length tx \<le> 1024"
      "gm_ipv4_send dst 17 (udp_packet (my_ip s1) dst (gm_udp_next_port s1) port tx) (udp_begin dst port s1) = (True, s3)"
      "gm_ticks s3 = (start, s4)" "udp_finish rx_max (udp_wait start timeout s4) = (out, t)"
proof (cases "(port = 0 \<or> length tx > 1024 \<or> rx_max > 1024 \<or> timeout = 0) \<or> gm_udp_active s")
  case True
  then show ?thesis using assms refused by (auto simp: gm_udp_exchange_def split: if_splits)
next
  case False
  obtain ready s1 where p: "gm_net_prepare dst timeout s = (ready, s1)" by fastforce
  obtain sent s3 where send: "gm_ipv4_send dst 17 (udp_packet (my_ip s1) dst (gm_udp_next_port s1) port tx)
      (udp_begin dst port s1) = (sent, s3)" by fastforce
  obtain start s4 where t: "gm_ticks s3 = (start, s4)" by fastforce
  have b: "my_ip (udp_begin dst port s1) = my_ip s1" "gm_udp_local_port (udp_begin dst port s1) = gm_udp_next_port s1"
    by (simp_all add: udp_begin_def)
  have eq: "gm_udp_exchange dst port tx rx_max timeout s =
      (if \<not> ready then ([], s1) else if \<not> sent then ([], s3\<lparr>gm_udp_active := False\<rparr>)
       else udp_finish rx_max (udp_wait start timeout s4))"
    using False by (simp add: gm_udp_exchange_def p send b t Let_def)
  show ?thesis
  proof (cases "ready \<and> sent")
    case True
    then show ?thesis using assms eq p send t False by (intro waited [of s1 s3 start s4]) simp_all
  next
    case no: False
    show ?thesis
    proof (cases ready)
      case True
      then show ?thesis using assms eq p send no False by (intro unsent [of s1 s3]) simp_all
    qed (use assms eq p False in \<open>simp add: unresolved\<close>)
  qed
qed

lemma udp_exchange_result:
  assumes "gm_udp_exchange dst port tx rx_max timeout s = (out, t)"
  shows "net_ok s \<Longrightarrow> net_ok t" and "upper t = upper s" and "length out \<le> rx_max" and "gm_udp_active t \<Longrightarrow> gm_udp_active s"
proof -
  show "net_ok t" if "net_ok s"
    using assms
  proof (cases rule: udp_exchange_cases)
    case (unsent s1 s3)
    have "net_ok s3" using ipv4_send_ok [OF udp_begin_frame(2) [OF stack.prepare [OF that unsent(1)]]] unsent(3)
      by (metis snd_conv)
    then show ?thesis using unsent by simp
  next
    case (waited s1 s3 start s4)
    have "net_ok s3" using ipv4_send_ok [OF udp_begin_frame(2) [OF stack.prepare [OF that waited(1)]]] waited(4)
      by (metis snd_conv)
    then have "net_ok (udp_wait start timeout s4)" using waited(5) net_ok_ticks stack.udp_reply by blast
    then show ?thesis using udp_finish_frame(2) [OF waited(6)] by blast
  next
    case unresolved
    then show ?thesis using stack.prepare [OF that, of dst timeout] by simp
  qed (use that in auto)
  have up: "upper s3 = upper s" if "gm_net_prepare dst timeout s = (True, s1)"
    "gm_ipv4_send dst 17 p (udp_begin dst port s1) = (r, s3)" for s1 s3 p r
    using upper_view [OF prepare_view [OF that(1)]] udp_begin_frame(1) [of dst port s1]
      upper_net [of s3 "udp_begin dst port s1"] ipv4_send_frame [OF that(2)] by simp
  show "upper t = upper s"
    using assms
  proof (cases rule: udp_exchange_cases)
    case unresolved
    then show ?thesis using upper_view prepare_view by blast
  next
    case (unsent s1 s3)
    then show ?thesis using up by simp
  next
    case (waited s1 s3 start s4)
    have "upper (udp_wait start timeout s4) = upper s3"
      using upper_view udp_wait_view poll_view_ticks [OF waited(5)] by metis
    then show ?thesis using up [OF waited(1,4)] udp_finish_frame(1) [OF waited(6)] by simp
  qed simp
  show "length out \<le> rx_max"
    using assms by (cases rule: udp_exchange_cases) (simp_all add: udp_finish_frame(3))
  show "gm_udp_active t \<Longrightarrow> gm_udp_active s"
    using assms
  proof (cases rule: udp_exchange_cases)
    case unresolved
    then show "gm_udp_active t \<Longrightarrow> gm_udp_active s" using prepare_view [of dst timeout s False t] by (simp add: poll_view_def)
  next
    case (waited s1 s3 start s4)
    then show "gm_udp_active t \<Longrightarrow> gm_udp_active s" using udp_finish_frame(4) by blast
  qed simp_all
qed



subsection \<open>Datagrams in and out\<close>

lemma udp_packet_split:
  assumes "c = gm_udp_checksum src_ip dst_ip ((be16 src @ be16 dst @ be16 (of_nat (8 + length tx))) @ [0, 0] @ tx)"
  shows "udp_packet src_ip dst_ip src dst tx =
    (be16 src @ be16 dst @ be16 (of_nat (8 + length tx))) @ be16 (if c \<noteq> 0 then c else 0xffff) @ tx"
proof -
  have "le16 0 = [0, 0]" by (simp add: le16_def)
  then show ?thesis using assms by (simp add: udp_packet_def Let_def)
qed

lemma udp_packet_accepted:
  assumes "tx \<noteq> []" "length tx \<le> 1024" "gm_udp_active r" "gm_udp_peer r = src_ip" "my_ip r = dst_ip"
    "gm_udp_remote_port r = src" "gm_udp_local_port r = dst"
  shows "gm_udp_input src_ip (udp_packet src_ip dst_ip src dst tx) r =
    r\<lparr>gm_udp_reply := overwrite (gm_udp_reply r) 0 tx, gm_udp_reply_len := length tx\<rparr>"
proof -
  let ?pre = "be16 src @ be16 dst @ be16 (of_nat (8 + length tx))"
  define c where "c = gm_udp_checksum src_ip dst_ip (?pre @ [0, 0] @ tx)"
  let ?p = "udp_packet src_ip dst_ip src dst tx" and ?c = "if c \<noteq> 0 then c else 0xffff"
  have p: "?p = ?pre @ be16 ?c @ tx" by (rule udp_packet_split [OF c_def])
  have len: "length ?p = 8 + length tx" by (simp add: p)
  have "unat (of_nat (8 + length tx) :: u16) = 8 + length tx" using assms(2) by (subst unat_of_nat) simp
  then have ulen: "unat (gm_swap16 (ld16 ?p 4)) = 8 + length tx" by (simp add: p ld16_def be16_def)
  have ports: "gm_swap16 (ld16 ?p 0) = src" "gm_swap16 (ld16 ?p 2) = dst"
    by (simp_all add: p ld16_def be16_def)
  have sum: "gm_udp_checksum src_ip dst_ip ?p = 0"
    unfolding p using assms(2) by (intro udp_checksum_insert [OF _ _ c_def]) simp_all
  have "drop 8 ?p = tx" by (simp add: p)
  then show ?thesis
    using assms len ulen ports sum by (simp add: gm_udp_input_def Let_def)
qed


subsection \<open>Ping across the wrap of its sequence number\<close>

lemma ping_still:
  "net_view t = net_view s \<Longrightarrow> gm_ping_reply t = gm_ping_reply s \<and> gm_ping_seq t = gm_ping_seq s"
  by (cases s; cases t) (simp add: net_view_def)

lemma ping_tcp_still:
  "tcp_outside t = tcp_outside s \<Longrightarrow> gm_ping_reply t = gm_ping_reply s \<and> gm_ping_seq t = gm_ping_seq s"
  by (cases s; cases t) (simp add: tcp_outside_def net_view_def)

text \<open>A frame leaves the reply register alone or sets it to the sequence number waited for.\<close>

lemma frame_input_ping:
  "gm_ping_reply (frame_input f s) = gm_ping_reply s \<or> gm_ping_reply (frame_input f s) = gm_ping_seq s"
proof -
  have icmp: "gm_ping_reply (gm_icmp_input src d u) = gm_ping_reply u \<or> gm_ping_reply (gm_icmp_input src d u) = gm_ping_seq u"
    for src d and u :: "'a gm_tcp_scheme"
    by (simp add: gm_icmp_input_def ping_still [OF snd_frame(3)])
  have arp: "gm_ping_reply (gm_arp_input d u) = gm_ping_reply u" for d and u :: "'a gm_tcp_scheme"
    by (simp add: gm_arp_input_def gm_arp_reply_def Let_def ping_still [OF snd_frame(1)]) (simp add: gm_arp_put_def)
  have udp: "gm_ping_reply (gm_udp_input src d u) = gm_ping_reply u" for src d and u :: "'a gm_tcp_scheme"
    by (simp add: gm_udp_input_def Let_def)
  have tcp: "gm_ping_reply (gm_tcp_input src d u) = gm_ping_reply u" for src d and u :: "'a gm_tcp_scheme"
    using ping_tcp_still [of "gm_tcp_input src d u" u] tcp_input_frame by blast
  have "gm_ping_reply (gm_eth_input f u) = gm_ping_reply u \<or> gm_ping_reply (gm_eth_input f u) = gm_ping_seq u"
    for u :: "'a gm_tcp_scheme"
    using icmp by (simp add: gm_eth_input_def gm_ipv4_packet_def gm_ipv4_input_def arp udp tcp Let_def)
  from this [of "s\<lparr>gm_rx_packets := gm_rx_packets s + 1\<rparr>"] show ?thesis by (simp add: frame_input_def Let_def)
qed

lemma net_poll_ping: "gm_ping_reply s = gm_ping_seq s \<Longrightarrow> gm_ping_reply (gm_net_poll s) = gm_ping_seq (gm_net_poll s)"
proof -
  have "gm_ping_reply s = gm_ping_seq s \<Longrightarrow> gm_ping_reply (net_poll_loop s) = gm_ping_seq (net_poll_loop s)"
  proof (induction s rule: net_poll_loop.induct)
    case (1 s)
    obtain rc s1 where p: "gm_virtio_net_poll 1518 s = (rc, s1)" by fastforce
    have s1: "gm_ping_reply s1 = gm_ping_seq s1"
      using ping_still [OF net_view_outside [OF net_poll_outside [OF p]]] 1(2) by simp
    have seq: "gm_ping_seq (frame_input f s1) = gm_ping_seq s1" for f
      using frame_input_still [of f s1] by (simp add: net_still_def poll_view_def)
    show ?case
      using 1(1) [OF p [symmetric]] s1 frame_input_ping [of _ s1] seq
      by (subst (1 2) net_poll_loop.simps) (auto simp: p split: poll_result.splits)
  qed
  then show "gm_ping_reply s = gm_ping_seq s \<Longrightarrow> ?thesis" by (simp add: gm_net_poll_def)
qed

lemma tcp_poll_ping: "gm_ping_reply (gm_tcp_poll s) = gm_ping_reply s \<and> gm_ping_seq (gm_tcp_poll s) = gm_ping_seq s"
proof -
  obtain now s1 where t: "gm_ticks s = (now, s1)" by fastforce
  have "gm_ping_reply s1 = gm_ping_reply s \<and> gm_ping_seq s1 = gm_ping_seq s"
    by (subst (1 2) ticks_frame [OF t]) simp
  then show ?thesis
    by (simp add: gm_tcp_poll_def t Let_def ping_tcp_still [OF snd_segment_outside])
qed

lemma pump_ping: "gm_ping_reply s = gm_ping_seq s \<Longrightarrow> gm_ping_reply (gm_pump s) = gm_ping_seq (gm_pump s)"
  using net_poll_ping [of s] tcp_poll_ping [of "gm_net_poll s"]
  by (auto simp: gm_pump_def cpu_hlt_def gm_timer_irq_def clock_advance_def split: list.splits)

text \<open>
  \<^verbatim>\<open>gm_ping\<close> clears the reply register to 0 and waits for it to equal the sequence number. When the
  16-bit sequence number wraps to 0 the two are equal from the start: the ping succeeds after one
  pump, whether or not anything answered.
\<close>

lemma ping_wrap_needs_no_reply:
  assumes "gm_ping_seq s = 0xffff" "dst \<noteq> my_ip s" "gm_net_prepare dst timeout s = (True, s1)"
    and "gm_ipv4_send dst 1 (ping_packet 0) (s1\<lparr>gm_ping_seq := 0, gm_ping_reply := 0\<rparr>) = (True, s4)"
    and "gm_ticks s4 = (start, s5)" "gm_ticks s5 = (now, s6)" "now - start < timeout"
  shows "fst (gm_ping dst timeout s)"
proof -
  have seq: "gm_ping_seq s1 + 1 = 0"
    using prepare_view [OF assms(3)] assms(1) by (simp add: poll_view_def)
  have "gm_ping_reply s4 = 0 \<and> gm_ping_seq s4 = 0"
    using ping_still [of s4] ipv4_send_frame [OF assms(4)] by simp
  then have "gm_ping_reply s6 = gm_ping_seq s6"
    by (subst (1 2) ticks_frame [OF assms(6)]; subst (1 2) ticks_frame [OF assms(5)]; simp)
  then have "gm_ping_reply (gm_pump s6) = gm_ping_seq (gm_pump s6)" by (rule pump_ping)
  then have "ping_loop start timeout s5 = (True, gm_pump s6)"
    using assms(6,7) by (subst ping_loop.simps) (simp add: Let_def)
  then show ?thesis using assms seq by (simp add: gm_ping_def Let_def)
qed


subsection \<open>Status lines\<close>

definition gm_net_status :: "'a gm_net_scheme \<Rightarrow> 'a gm_net_scheme" where
  "gm_net_status s =
     (let s = gm_say ''net state='' s;
          s = gm_say (if gm_net_online s then ''up'' else ''offline'') s;
          s = gm_say '' ip='' s; s = gm_print_ip (my_ip s) s;
          s = gm_say '' mask='' s; s = gm_print_ip (cfg_mask (gm_config s)) s;
          s = gm_say '' gw='' s; s = gm_print_ip (cfg_gateway (gm_config s)) s;
          s = gm_say '' rx='' s; s = gm_print_u64 (gm_rx_packets s) s;
          s = gm_say '' tx='' s; s = gm_print_u64 (gm_tx_packets s) s in
      gm_write (Some [10]) s)"

definition mac_number :: "bytes \<Rightarrow> u64" where
  "mac_number mac = push_bit 40 (ucast (mac ! 0)) OR push_bit 32 (ucast (mac ! 1)) OR push_bit 24 (ucast (mac ! 2)) OR
     push_bit 16 (ucast (mac ! 3)) OR push_bit 8 (ucast (mac ! 4)) OR ucast (mac ! 5)"

fun arp_status_loop :: "gm_arp_entry list \<Rightarrow> 'a gm_net_scheme \<Rightarrow> 'a gm_net_scheme" where
  "arp_status_loop [] s = s"
| "arp_status_loop (e # es) s =
     (if \<not> arp_used e then arp_status_loop es s
      else
        let s = gm_print_ip (arp_ip e) s; s = gm_say '' -> '' s; s = gm_print_hex (mac_number (arp_mac e)) s in
        arp_status_loop es (gm_write (Some [10]) s))"

definition gm_arp_status :: "'a gm_net_scheme \<Rightarrow> 'a gm_net_scheme" where
  "gm_arp_status s = arp_status_loop (gm_arp s) s"


subsection \<open>Properties\<close>

text \<open>C28: A UDP exchange hands back at most \<^verbatim>\<open>rx_max\<close> bytes, leaves no exchange in progress, keeps every
  invariant of the stack and touches nothing above the network, on every path: refused arguments,
  failed resolution, failed send, time-out or reply.\<close>

theorem udp_exchange_safe:
  assumes "net_ok s" "gm_udp_exchange dst port tx rx_max timeout s = (out, t)"
  shows "net_ok t \<and> length out \<le> rx_max \<and> gm_tcp.more t = gm_tcp.more s \<and> gm_console t = gm_console s \<and>
    gm_config t = gm_config s \<and> (gm_udp_active t \<longrightarrow> gm_udp_active s)"
  using udp_exchange_result [OF assms(2)] assms(1) by (auto simp: upper_def)

text \<open>C29: A datagram built by \<^verbatim>\<open>gm_udp_exchange\<close> is accepted by the receiving side of the same code when it
  waits for exactly this peer and these ports, and its payload arrives unchanged.\<close>

theorem udp_round_trip:
  assumes "tx \<noteq> []" "length tx \<le> 1024" "length (gm_udp_reply r) = 1024" "gm_udp_active r" "gm_udp_peer r = src_ip"
    and "my_ip r = dst_ip" "gm_udp_remote_port r = src" "gm_udp_local_port r = dst"
  shows "let t = gm_udp_input src_ip (udp_packet src_ip dst_ip src dst tx) r in
    gm_udp_reply_len t = length tx \<and> take (gm_udp_reply_len t) (gm_udp_reply t) = tx"
  using udp_packet_accepted [OF assms(1,2,4-8)] by (simp add: Let_def overwrite_def)


subsection \<open>Witnesses\<close>

theorem udp_exchange_safe_witness:
  "\<exists>out t. gm_udp_exchange (10, 0, 2, 2) 53 [1] 512 100 tcp_example = (out, t) \<and> net_ok t \<and> length out \<le> 512"
proof -
  obtain out t where e: "gm_udp_exchange (10, 0, 2, 2) 53 [1] 512 100 tcp_example = (out, t)" by fastforce
  from udp_exchange_safe [OF net_ok_example e] e show ?thesis by blast
qed

definition udp_example :: gm_tcp where
  "udp_example = (tcp_example\<lparr>gm_udp_active := True, gm_udp_peer := (10, 0, 2, 3), gm_udp_remote_port := 53,
     gm_udp_local_port := 49152\<rparr>)"

theorem udp_round_trip_witness:
  "let t = gm_udp_input (10, 0, 2, 3) (udp_packet (10, 0, 2, 3) (10, 0, 2, 15) 53 49152 [7, 8, 9]) udp_example in
   gm_udp_reply_len t = 3 \<and> take (gm_udp_reply_len t) (gm_udp_reply t) = [7, 8, 9]"
proof -
  have "length (gm_udp_reply udp_example) = 1024" using net_ok_example by (simp add: udp_example_def net_ok_def)
  moreover have "gm_udp_active udp_example" "gm_udp_peer udp_example = (10, 0, 2, 3)" "my_ip udp_example = (10, 0, 2, 15)"
    "gm_udp_remote_port udp_example = 53" "gm_udp_local_port udp_example = 49152"
    by (simp_all add: udp_example_def tcp_example_def)
  ultimately show ?thesis
    using udp_round_trip [of "[7, 8, 9]" udp_example "(10, 0, 2, 3)" "(10, 0, 2, 15)" 53 49152]
    by (simp add: numeral_3_eq_3)
qed

end
