(* ===== verification/Tcp_Client.thy ===== *)
theory Tcp_Client
  imports Net_Client
begin

unbundle bit_operations_syntax

section \<open>Waiting TCP operations (\<^verbatim>\<open>tcpstore.c\<close>: connect, send, close)\<close>

text \<open>
  The blocking operations of the TCP connection. Each waits by pumping the network, as the clients
  of \<^verbatim>\<open>net.c\<close> do; \<open>wait_acked\<close> is the loop \<^verbatim>\<open>while (gm_tcp_unacked_len && gm_ticks()-start<timeout)\<close>
  that \<^verbatim>\<open>gm_tcp_send\<close> runs twice and \<^verbatim>\<open>gm_tcp_close\<close> once.
\<close>

text \<open>
  One round of the connection loop up to the pump: a SYN every 50 ticks, five at most. The function
  returns at once when the segment cannot be sent, leaves the loop after five attempts, and goes on
  otherwise.
\<close>

datatype connect_step = Connect_Return | Connect_Break | Connect_Go u64 u8

definition connect_syn :: "u64 \<Rightarrow> u8 \<Rightarrow> 'a gm_tcp_scheme \<Rightarrow> connect_step \<times> 'a gm_tcp_scheme" where
  "connect_syn prev retry s =
     (case gm_ticks s of (now, s1) \<Rightarrow>
        if now - prev \<ge> 50 then
          if retry \<ge> 5 then (Connect_Break, s1)
          else case gm_tcp_segment (gm_tcp_seq s1) 0 0x02 [] s1 of (ok, s2) \<Rightarrow>
            if \<not> ok then (Connect_Return, s2)
            else case gm_ticks s2 of (now2, s3) \<Rightarrow> (Connect_Go now2 (retry + 1), s3)
        else (Connect_Go prev retry, s1))"

lemma segment_clock: "clock_keeps s (snd (gm_tcp_segment seq ack flags data s))"
  using net_still_outside [OF snd_segment_outside, of seq ack flags data s]
  by (intro clock_keeps_same) (simp_all add: net_still_def)

lemma connect_syn_clock: "connect_syn prev retry s = (r, t) \<Longrightarrow> clock_keeps s t"
proof -
  assume a: "connect_syn prev retry s = (r, t)"
  obtain now s1 where t1: "gm_ticks s = (now, s1)" by fastforce
  obtain ok s2 where seg: "gm_tcp_segment (gm_tcp_seq s1) 0 0x02 [] s1 = (ok, s2)" by fastforce
  obtain now2 s3 where t3: "gm_ticks s2 = (now2, s3)" by fastforce
  have "clock_keeps s s1" "clock_keeps s1 s2" "clock_keeps s2 s3"
    using clock_keeps_ticks [OF t1] clock_keeps_ticks [OF t3] segment_clock [of s1] seg by (metis snd_conv)+
  then have "clock_keeps s s1" "clock_keeps s s2" "clock_keeps s s3" using clock_keeps_trans by blast+
  then show "clock_keeps s t" using a by (auto simp: connect_syn_def t1 seg t3 split: if_splits)
qed

definition tcp_closed :: "'a gm_tcp_scheme \<Rightarrow> 'a gm_tcp_scheme" where
  "tcp_closed s = s\<lparr>gm_tcp_state := TCP_CLOSED\<rparr>"

function connect_loop :: "u64 \<Rightarrow> u64 \<Rightarrow> u64 \<Rightarrow> u8 \<Rightarrow> 'a gm_tcp_scheme \<Rightarrow> bool \<times> 'a gm_tcp_scheme" where
  "connect_loop start timeout prev retry s =
     (case gm_ticks s of (now, s1) \<Rightarrow>
        if now - start < timeout then
          case connect_syn prev retry s1 of (step, s2) \<Rightarrow>
            case step of
              Connect_Return \<Rightarrow> (False, s2)
            | Connect_Break \<Rightarrow> (False, tcp_closed s2)
            | Connect_Go prev' retry' \<Rightarrow>
                let s3 = gm_pump s2 in
                if gm_tcp_state s3 = TCP_ESTABLISHED then (True, s3)
                else if gm_tcp_state s3 = TCP_RESET then (False, tcp_closed s3)
                else connect_loop start timeout prev' retry' s3
        else (False, tcp_closed s1))"
  by pat_completeness auto
termination
proof (relation "inv_image wait_order (\<lambda>(start, timeout, prev, retry, s). (start, timeout, s))")
  fix start timeout prev now prev' and retry retry' :: u8 and step and s s1 s2 s3 :: "'a gm_tcp_scheme"
  assume t: "(now, s1) = gm_ticks s" "now - start < timeout" and "(step, s2) = connect_syn prev retry s1" "s3 = gm_pump s2"
  then have "clock_moves s1 s3" using connect_syn_clock clock_keeps_moves pump_clock by metis
  then show "((start, timeout, prev', retry', s3), start, timeout, prev, retry, s) \<in>
      inv_image wait_order (\<lambda>(start, timeout, prev, retry, s). (start, timeout, s))"
    using wait_order_step [OF t(1) [symmetric] t(2)] by simp
qed simp

declare connect_loop.simps [simp del]

definition tcp_open :: "ip4 \<Rightarrow> u16 \<Rightarrow> 'a gm_tcp_scheme \<Rightarrow> 'a gm_tcp_scheme" where
  "tcp_open dst port s =
     s\<lparr>gm_tcp_dst := dst, gm_tcp_src_port := gm_next_port s, gm_next_port := gm_next_port s + 1,
       gm_tcp_dst_port := port, gm_tcp_seq := gm_next_seq s, gm_next_seq := gm_next_seq s + 0x1000,
       gm_tcp_ack := 0, gm_tcp_rx_head := 0, gm_tcp_rx_len := 0, gm_tcp_unacked_len := 0, gm_tcp_state := TCP_SYN\<rparr>"

definition gm_tcp_connect :: "ip4 \<Rightarrow> u16 \<Rightarrow> u64 \<Rightarrow> 'a gm_tcp_scheme \<Rightarrow> bool \<times> 'a gm_tcp_scheme" where
  "gm_tcp_connect dst port timeout s =
     (case gm_net_prepare dst timeout s of (ready, s1) \<Rightarrow>
        if \<not> ready then (False, s1)
        else case gm_ticks (tcp_open dst port s1) of (start, s2) \<Rightarrow>
          connect_loop start timeout (start - timeout) 0 s2)"

function wait_acked :: "u64 \<Rightarrow> u64 \<Rightarrow> 'a gm_tcp_scheme \<Rightarrow> 'a gm_tcp_scheme" where
  "wait_acked start timeout s =
     (if gm_tcp_unacked_len s = 0 then s
      else case gm_ticks s of (now, s1) \<Rightarrow>
        if now - start < timeout then wait_acked start timeout (gm_pump s1) else s1)"
  by pat_completeness auto
termination
  by (relation wait_order) (auto intro: wait_order_step [OF sym _ pump_clock])

declare wait_acked.simps [simp del]

definition tcp_give_up :: "'a gm_tcp_scheme \<Rightarrow> 'a gm_tcp_scheme" where
  "tcp_give_up s = s\<lparr>gm_tcp_state := TCP_RESET, gm_tcp_unacked_len := 0\<rparr>"

text \<open>The part of \<^verbatim>\<open>gm_tcp_send\<close> after earlier data has been acknowledged.\<close>

definition tcp_send_now :: "bytes \<Rightarrow> u64 \<Rightarrow> 'a gm_tcp_scheme \<Rightarrow> bool \<times> 'a gm_tcp_scheme" where
  "tcp_send_now data timeout s =
     (let s1 = s\<lparr>gm_tcp_unacked := overwrite (gm_tcp_unacked s) 0 data, gm_tcp_unacked_len := length data,
                 gm_tcp_unacked_seq := gm_tcp_seq s\<rparr> in
      case gm_ticks s1 of (now, s2) \<Rightarrow>
        let s3 = s2\<lparr>gm_tcp_unacked_tick := now, gm_tcp_unacked_retry := 0\<rparr> in
        case gm_tcp_segment (gm_tcp_seq s3) (gm_tcp_ack s3) (0x10 OR 0x08) data s3 of (ok, s4) \<Rightarrow>
          if \<not> ok then (False, s4\<lparr>gm_tcp_unacked_len := 0\<rparr>)
          else case gm_ticks (s4\<lparr>gm_tcp_seq := gm_tcp_seq s4 + of_nat (length data)\<rparr>) of (start, s5) \<Rightarrow>
            let s6 = wait_acked start timeout s5 in
            if gm_tcp_unacked_len s6 \<noteq> 0 then (False, tcp_give_up s6)
            else (gm_tcp_state s6 = TCP_ESTABLISHED, s6))"

definition gm_tcp_send :: "bytes \<Rightarrow> u64 \<Rightarrow> 'a gm_tcp_scheme \<Rightarrow> bool \<times> 'a gm_tcp_scheme" where
  "gm_tcp_send data timeout s =
     (if gm_tcp_state s \<noteq> TCP_ESTABLISHED \<or> length data = 0 \<or> length data > 1280 then (False, s)
      else if gm_tcp_unacked_len s \<noteq> 0 then
        case gm_ticks s of (start, s1) \<Rightarrow>
          let s2 = wait_acked start timeout s1 in
          if gm_tcp_unacked_len s2 \<noteq> 0 then (False, tcp_give_up s2) else tcp_send_now data timeout s2
      else tcp_send_now data timeout s)"

definition gm_tcp_close :: "'a gm_tcp_scheme \<Rightarrow> 'a gm_tcp_scheme" where
  "gm_tcp_close s =
     (if gm_tcp_state s \<noteq> TCP_ESTABLISHED then s
      else case gm_ticks s of (start, s1) \<Rightarrow>
        let s2 = wait_acked start 100 s1 in
        if gm_tcp_unacked_len s2 \<noteq> 0 then s2
        else case gm_tcp_segment (gm_tcp_seq s2) (gm_tcp_ack s2) (0x01 OR 0x10) [] s2 of (ok, s3) \<Rightarrow>
          if ok then s3\<lparr>gm_tcp_seq := gm_tcp_seq s3 + 1, gm_tcp_state := TCP_FIN\<rparr> else s3)"



subsection \<open>What the operations keep\<close>

locale tcp_invariant = pump_invariant I for I :: "'a gm_tcp_scheme \<Rightarrow> bool" +
  assumes segment: "I s \<Longrightarrow> gm_tcp_segment seq ack flags data s = (ok, t) \<Longrightarrow> I t"
    and closed: "I s \<Longrightarrow> I (tcp_closed s)"
    and give_up: "I s \<Longrightarrow> I (tcp_give_up s)"
begin

lemma syn: "I s \<Longrightarrow> connect_syn prev retry s = (r, t) \<Longrightarrow> I t"
proof -
  assume a: "I s" "connect_syn prev retry s = (r, t)"
  obtain now s1 where t1: "gm_ticks s = (now, s1)" by fastforce
  obtain ok s2 where seg: "gm_tcp_segment (gm_tcp_seq s1) 0 0x02 [] s1 = (ok, s2)" by fastforce
  obtain now2 s3 where t3: "gm_ticks s2 = (now2, s3)" by fastforce
  have "I s1" "I s2" "I s3" using ticks [OF a(1) t1] segment [OF _ seg] ticks [OF _ t3] by blast+
  then show "I t" using a(2) by (auto simp: connect_syn_def t1 seg t3 split: if_splits)
qed

lemma connect: "I s \<Longrightarrow> connect_loop start timeout prev retry s = (r, t) \<Longrightarrow> I t"
proof (induction start timeout prev retry s rule: connect_loop.induct)
  case (1 start timeout prev retry s)
  obtain now s1 where t: "gm_ticks s = (now, s1)" by fastforce
  obtain step s2 where c: "connect_syn prev retry s1 = (step, s2)" by fastforce
  have I: "I s1" "I s2" "I (gm_pump s2)" using ticks [OF 1(2) t] syn [OF _ c] pump by blast+
  note IH = 1(1) [OF t [symmetric] _ c [symmetric] _ refl]
  from 1(3) show ?case
    using I closed IH
    by (subst (asm) connect_loop.simps) (auto simp: t c Let_def split: if_splits connect_step.splits)
qed

lemma acked: "I s \<Longrightarrow> I (wait_acked start timeout s)"
proof (induction start timeout s rule: wait_acked.induct)
  case (1 start timeout s)
  obtain now s1 where t: "gm_ticks s = (now, s1)" by fastforce
  have "I s1" using ticks [OF 1(2) t] .
  then show ?case using 1(1) [OF _ t [symmetric]] 1(2) pump by (subst wait_acked.simps) (auto simp: t)
qed

end

lemma segment_net_ok: "net_ok s \<Longrightarrow> gm_tcp_segment seq ack flags data s = (ok, t) \<Longrightarrow> net_ok t"
proof -
  assume a: "net_ok s" "gm_tcp_segment seq ack flags data s = (ok, t)"
  then have v: "tcp_view t = tcp_view s" using segment_frame by blast
  have "driver_ok t" using segment_driver_ok [of s seq ack flags data] a by (simp add: net_ok_def)
  moreover have "tcp_ok t" using tcp_view_stream [OF v] a(1) by (simp add: net_ok_def)
  moreover have "gm_arp t = gm_arp s" "gm_udp_reply t = gm_udp_reply s" "gm_udp_reply_len t = gm_udp_reply_len s"
    using v by (cases s; cases t; simp add: tcp_view_def net_view_def)+
  ultimately show "net_ok t" using a(1) by (simp add: net_ok_def)
qed

lemma segment_view: "gm_tcp_segment seq ack flags data s = (ok, t) \<Longrightarrow> poll_view t = poll_view s"
  using segment_frame tcp_outside_view net_still_outside poll_view_still by metis

lemma net_ok_state: "net_ok s \<Longrightarrow> net_ok (tcp_closed s)" "net_ok s \<Longrightarrow> net_ok (tcp_give_up s)"
  by (auto simp: net_ok_def tcp_ok_def tcp_closed_def tcp_give_up_def)

lemma poll_view_state [simp]: "poll_view (tcp_closed s) = poll_view s" "poll_view (tcp_give_up s) = poll_view s"
  by (simp_all add: poll_view_def tcp_closed_def tcp_give_up_def)

lemma give_up_sel [simp]: "gm_tcp_unacked_len (tcp_give_up s) = 0" "gm_tcp_state (tcp_give_up s) = TCP_RESET"
  by (simp_all add: tcp_give_up_def)

interpretation stack: tcp_invariant net_ok
  by unfold_locales (auto intro: segment_net_ok net_ok_state)

interpretation calm: tcp_invariant "\<lambda>t. poll_view t = v" for v
  by unfold_locales (simp_all add: segment_view)



subsection \<open>Connecting\<close>

lemma connect_loop_established:
  "connect_loop start timeout prev retry s = (True, t) \<Longrightarrow> gm_tcp_state t = TCP_ESTABLISHED"
proof (induction start timeout prev retry s rule: connect_loop.induct)
  case (1 start timeout prev retry s)
  obtain now s1 where t: "gm_ticks s = (now, s1)" by fastforce
  obtain step s2 where c: "connect_syn prev retry s1 = (step, s2)" by fastforce
  note IH = 1(1) [OF t [symmetric] _ c [symmetric] _ refl]
  from 1(2) show ?case
    using IH by (subst (asm) connect_loop.simps) (auto simp: t c Let_def split: if_splits connect_step.splits)
qed

lemma tcp_open_frame: "net_ok s \<Longrightarrow> net_ok (tcp_open dst port s)" "upper (tcp_open dst port s) = upper s"
  by (auto simp: tcp_open_def net_ok_def tcp_ok_def ring_ok_def upper_def driver_ok_def virtio_ok_def)

lemma tcp_connect_result:
  assumes "gm_tcp_connect dst port timeout s = (r, t)"
  shows "net_ok s \<Longrightarrow> net_ok t" "upper t = upper s" "r \<Longrightarrow> gm_tcp_state t = TCP_ESTABLISHED"
proof -
  obtain ready s1 where p: "gm_net_prepare dst timeout s = (ready, s1)" by fastforce
  obtain start s2 where t2: "gm_ticks (tcp_open dst port s1) = (start, s2)" by fastforce
  have cases: "\<not> ready \<and> r = False \<and> t = s1 \<or> connect_loop start timeout (start - timeout) 0 s2 = (r, t)"
    using assms by (auto simp: gm_tcp_connect_def p t2 split: if_splits)
  show "net_ok t" if "net_ok s"
  proof -
    have "net_ok s1" using stack.prepare [OF that p] .
    then have "net_ok s2" using tcp_open_frame(1) net_ok_ticks [OF _ t2] by blast
    then show ?thesis using cases \<open>net_ok s1\<close> stack.connect by blast
  qed
  have "upper s2 = upper (tcp_open dst port s1)" using upper_view [OF poll_view_ticks [OF t2]] .
  then have up: "upper s2 = upper s1" by (simp add: tcp_open_frame)
  have "upper s1 = upper s" using upper_view [OF prepare_view [OF p]] .
  then show "upper t = upper s" using cases up calm.connect [OF refl] upper_view by metis
  show "r \<Longrightarrow> gm_tcp_state t = TCP_ESTABLISHED" using cases connect_loop_established by auto
qed


subsection \<open>Sending\<close>

definition tcp_mark :: "bytes \<Rightarrow> 'a gm_tcp_scheme \<Rightarrow> 'a gm_tcp_scheme" where
  "tcp_mark data s = s\<lparr>gm_tcp_unacked := overwrite (gm_tcp_unacked s) 0 data, gm_tcp_unacked_len := length data,
     gm_tcp_unacked_seq := gm_tcp_seq s\<rparr>"

text \<open>The ways a send can end once earlier data is out of the way.\<close>

lemma tcp_send_now_cases:
  assumes "tcp_send_now data timeout s = (r, t)"
  obtains (unsent) now s2 s4 where "gm_ticks (tcp_mark data s) = (now, s2)" "\<not> r" "t = s4\<lparr>gm_tcp_unacked_len := 0\<rparr>"
      "gm_tcp_segment (gm_tcp_seq s) (gm_tcp_ack s2) 0x18 data
         (s2\<lparr>gm_tcp_unacked_tick := now, gm_tcp_unacked_retry := 0\<rparr>) = (False, s4)"
  | (waited) now s2 s4 start s5 where "gm_ticks (tcp_mark data s) = (now, s2)"
      "gm_tcp_segment (gm_tcp_seq s) (gm_tcp_ack s2) 0x18 data
         (s2\<lparr>gm_tcp_unacked_tick := now, gm_tcp_unacked_retry := 0\<rparr>) = (True, s4)"
      "gm_ticks (s4\<lparr>gm_tcp_seq := gm_tcp_seq s4 + of_nat (length data)\<rparr>) = (start, s5)"
      "t = (if gm_tcp_unacked_len (wait_acked start timeout s5) \<noteq> 0
            then tcp_give_up (wait_acked start timeout s5) else wait_acked start timeout s5)"
      "r \<longleftrightarrow> gm_tcp_unacked_len (wait_acked start timeout s5) = 0 \<and>
         gm_tcp_state (wait_acked start timeout s5) = TCP_ESTABLISHED"
proof -
  obtain now s2 where t2: "gm_ticks (tcp_mark data s) = (now, s2)" by fastforce
  have seq: "gm_tcp_seq s2 = gm_tcp_seq s" by (subst ticks_frame [OF t2]) (simp add: tcp_mark_def)
  let ?s3 = "s2\<lparr>gm_tcp_unacked_tick := now, gm_tcp_unacked_retry := 0\<rparr>"
  obtain ok s4 where seg: "gm_tcp_segment (gm_tcp_seq s) (gm_tcp_ack s2) 0x18 data ?s3 = (ok, s4)" by fastforce
  obtain start s5 where t5: "gm_ticks (s4\<lparr>gm_tcp_seq := gm_tcp_seq s4 + of_nat (length data)\<rparr>) = (start, s5)" by fastforce
  have flags: "(0x10 OR 0x08 :: u8) = 0x18" by simp
  let ?s6 = "wait_acked start timeout s5"
  have eq: "tcp_send_now data timeout s =
      (if \<not> ok then (False, s4\<lparr>gm_tcp_unacked_len := 0\<rparr>)
       else if gm_tcp_unacked_len ?s6 \<noteq> 0 then (False, tcp_give_up ?s6) else (gm_tcp_state ?s6 = TCP_ESTABLISHED, ?s6))"
    using t2 seg t5 seq by (simp add: tcp_send_now_def tcp_mark_def [symmetric] flags Let_def)
  show ?thesis
  proof (cases ok)
    case True
    then show ?thesis using assms eq seg by (intro waited [OF t2 _ t5]) (auto split: if_splits)
  next
    case False
    then show ?thesis using assms eq seg by (intro unsent [OF t2, of s4]) auto
  qed
qed

lemma tcp_mark_view [simp]: "poll_view (tcp_mark data s) = poll_view s"
  by (simp add: tcp_mark_def poll_view_def)

lemma poll_view_tcp_upd [simp]:
  "poll_view (s\<lparr>gm_tcp_unacked_tick := a\<rparr>) = poll_view s" "poll_view (s\<lparr>gm_tcp_unacked_retry := b\<rparr>) = poll_view s"
  "poll_view (s\<lparr>gm_tcp_unacked_len := c\<rparr>) = poll_view s" "poll_view (s\<lparr>gm_tcp_seq := d\<rparr>) = poll_view s"
  "poll_view (s\<lparr>gm_tcp_state := e\<rparr>) = poll_view s"
  by (simp_all add: poll_view_def)

lemma tcp_send_now_view: "tcp_send_now data timeout s = (r, t) \<Longrightarrow> poll_view t = poll_view s"
proof (erule tcp_send_now_cases)
  fix now s2 s4
  assume "gm_ticks (tcp_mark data s) = (now, s2)" "t = s4\<lparr>gm_tcp_unacked_len := 0\<rparr>"
    "gm_tcp_segment (gm_tcp_seq s) (gm_tcp_ack s2) 0x18 data
       (s2\<lparr>gm_tcp_unacked_tick := now, gm_tcp_unacked_retry := 0\<rparr>) = (False, s4)"
  then show ?thesis by (simp add: segment_view poll_view_ticks)
next
  fix now s2 s4 start s5
  assume a: "gm_ticks (tcp_mark data s) = (now, s2)"
    "gm_tcp_segment (gm_tcp_seq s) (gm_tcp_ack s2) 0x18 data
       (s2\<lparr>gm_tcp_unacked_tick := now, gm_tcp_unacked_retry := 0\<rparr>) = (True, s4)"
    "gm_ticks (s4\<lparr>gm_tcp_seq := gm_tcp_seq s4 + of_nat (length data)\<rparr>) = (start, s5)"
    and t: "t = (if gm_tcp_unacked_len (wait_acked start timeout s5) \<noteq> 0
      then tcp_give_up (wait_acked start timeout s5) else wait_acked start timeout s5)"
  have "poll_view s5 = poll_view s"
    using poll_view_ticks [OF a(3)] segment_view [OF a(2)] poll_view_ticks [OF a(1)] by simp
  then show ?thesis using calm.acked [OF refl, of start timeout s5] t by simp
qed

text \<open>The state just after the segment has gone out satisfies the invariant again.\<close>

lemma tcp_sent_ok:
  assumes "net_ok s" "gm_tcp_state s \<noteq> TCP_SYN" "length data \<le> 1280" "gm_ticks (tcp_mark data s) = (now, s2)"
    and "gm_tcp_segment (gm_tcp_seq s) (gm_tcp_ack s2) 0x18 data
       (s2\<lparr>gm_tcp_unacked_tick := now, gm_tcp_unacked_retry := 0\<rparr>) = (ok, s4)"
  shows "net_ok (s4\<lparr>gm_tcp_seq := gm_tcp_seq s4 + of_nat (length data)\<rparr>)"
    and "net_ok (s4\<lparr>gm_tcp_unacked_len := 0\<rparr>)"
proof -
  let ?s3 = "s2\<lparr>gm_tcp_unacked_tick := now, gm_tcp_unacked_retry := 0\<rparr>"
  have s2: "s2 = (tcp_mark data s)\<lparr>gm_tick_count := gm_tick_count s2, env_ticks := env_ticks s2\<rparr>" by (rule ticks_frame [OF assms(4)])
  have v: "tcp_view s4 = tcp_view ?s3" using segment_frame [OF assms(5)] by blast
  have "driver_ok s2" using assms(1) by (subst s2) (simp add: tcp_mark_def net_ok_def driver_ok_def virtio_ok_def)
  then have vok: "driver_ok s4" using segment_driver_ok [of ?s3] assms(5) by (metis snd_conv driver_ok_tcp_upd(7,8))
  have "gm_arp s4 = gm_arp s2" "gm_udp_reply s4 = gm_udp_reply s2" "gm_udp_reply_len s4 = gm_udp_reply_len s2"
    using v by (cases s2; cases s4; simp add: tcp_view_def net_view_def)+
  moreover have "gm_arp s2 = gm_arp s" "gm_udp_reply s2 = gm_udp_reply s" "gm_udp_reply_len s2 = gm_udp_reply_len s"
    by (subst s2; simp add: tcp_mark_def)+
  ultimately have n: "driver_ok s4 \<and> arp_ok (gm_arp s4) \<and> length (gm_udp_reply s4) = 1024 \<and> gm_udp_reply_len s4 \<le> 1024"
    using vok assms(1) by (simp add: net_ok_def)
  have f: "gm_tcp_seq s4 = gm_tcp_seq s" "gm_tcp_state s4 = gm_tcp_state s" "gm_tcp_rx s4 = gm_tcp_rx s"
    "gm_tcp_rx_head s4 = gm_tcp_rx_head s" "gm_tcp_rx_len s4 = gm_tcp_rx_len s"
    "gm_tcp_unacked s4 = overwrite (gm_tcp_unacked s) 0 data" "gm_tcp_unacked_len s4 = length data"
    "gm_tcp_unacked_seq s4 = gm_tcp_seq s"
    unfolding tcp_view_sel [OF v] by (simp, subst s2, simp add: tcp_mark_def)+
  show "net_ok (s4\<lparr>gm_tcp_seq := gm_tcp_seq s4 + of_nat (length data)\<rparr>)" "net_ok (s4\<lparr>gm_tcp_unacked_len := 0\<rparr>)"
    using n f assms(1-3) by (simp_all add: net_ok_def tcp_ok_def ring_ok_def)
qed

lemma tcp_send_now_ok:
  assumes "net_ok s" "gm_tcp_state s \<noteq> TCP_SYN" "length data \<le> 1280" "tcp_send_now data timeout s = (r, t)"
  shows "net_ok t \<and> gm_tcp_unacked_len t = 0 \<and> (r \<longrightarrow> gm_tcp_state t = TCP_ESTABLISHED)"
  using assms(4)
proof (cases rule: tcp_send_now_cases)
  case (unsent now s2 s4)
  then show ?thesis using tcp_sent_ok(2) [OF assms(1-3) unsent(1,4)] by simp
next
  case (waited now s2 s4 start s5)
  have "net_ok s5" using tcp_sent_ok(1) [OF assms(1-3) waited(1,2)] waited(3) net_ok_ticks by blast
  then have "net_ok (wait_acked start timeout s5)" by (rule stack.acked)
  then show ?thesis using waited(4,5) by (auto simp: net_ok_state)
qed

text \<open>No frame takes a connection back into the handshake.\<close>

lemma net_view_state: "net_view t = net_view s \<Longrightarrow> gm_tcp_state t = gm_tcp_state s"
  by (cases s; cases t) (simp add: net_view_def)

lemma tcp_handle_no_syn:
  assumes "gm_tcp_state s \<noteq> TCP_SYN"
  shows "gm_tcp_state (tcp_handle seq ack flags payload s) \<noteq> TCP_SYN"
  using assms by (cases rule: tcp_handle_cases [of flags seq ack payload s]) auto

lemma frame_no_syn: "gm_tcp_state s \<noteq> TCP_SYN \<Longrightarrow> gm_tcp_state (frame_input f s) \<noteq> TCP_SYN"
proof -
  have arp: "gm_tcp_state (gm_arp_input d u) = gm_tcp_state u" for d and u :: "'a gm_tcp_scheme"
    by (simp add: gm_arp_input_def gm_arp_reply_def Let_def net_view_state [OF snd_frame(1)]) (simp add: gm_arp_put_def)
  have udp: "gm_tcp_state (gm_udp_input src d u) = gm_tcp_state u" for src d and u :: "'a gm_tcp_scheme"
    by (simp add: gm_udp_input_def Let_def)
  have icmp: "gm_tcp_state (gm_icmp_input src d u) = gm_tcp_state u" for src d and u :: "'a gm_tcp_scheme"
    by (simp add: gm_icmp_input_def net_view_state [OF snd_frame(3)])
  have tcp: "gm_tcp_state u \<noteq> TCP_SYN \<Longrightarrow> gm_tcp_state (gm_tcp_input src d u) \<noteq> TCP_SYN" for src d and u :: "'a gm_tcp_scheme"
    by (simp add: gm_tcp_input_def Let_def tcp_handle_no_syn)
  show "gm_tcp_state s \<noteq> TCP_SYN \<Longrightarrow> gm_tcp_state (frame_input f s) \<noteq> TCP_SYN"
    by (simp add: frame_input_def gm_eth_input_def gm_ipv4_packet_def gm_ipv4_input_def arp udp icmp tcp Let_def)
qed

lemma net_poll_no_syn: "gm_tcp_state s \<noteq> TCP_SYN \<Longrightarrow> gm_tcp_state (gm_net_poll s) \<noteq> TCP_SYN"
proof -
  have "gm_tcp_state s \<noteq> TCP_SYN \<Longrightarrow> gm_tcp_state (net_poll_loop s) \<noteq> TCP_SYN"
  proof (induction s rule: net_poll_loop.induct)
    case (1 s)
    obtain rc s1 where p: "gm_virtio_net_poll 1518 s = (rc, s1)" by fastforce
    have "gm_tcp_state s1 \<noteq> TCP_SYN"
      using net_view_state [OF net_view_outside [OF net_poll_outside [OF p]]] 1(2) by simp
    then show ?case using 1(1) [OF p [symmetric]] frame_no_syn
      by (subst net_poll_loop.simps) (auto simp: p split: poll_result.splits)
  qed
  then show "gm_tcp_state s \<noteq> TCP_SYN \<Longrightarrow> ?thesis" by (simp add: gm_net_poll_def)
qed

lemma state_clock [simp]:
  "gm_tcp_state (clock_advance s) = gm_tcp_state s" "gm_tcp_state (cpu_hlt s) = gm_tcp_state s"
  by (auto simp: clock_advance_def cpu_hlt_def gm_timer_irq_def split: list.splits)

lemma state_ticks: "gm_ticks s = (now, t) \<Longrightarrow> gm_tcp_state t = gm_tcp_state s"
  by (auto simp: gm_ticks_def Let_def)

lemma tcp_poll_no_syn: "gm_tcp_state s \<noteq> TCP_SYN \<Longrightarrow> gm_tcp_state (gm_tcp_poll s) \<noteq> TCP_SYN"
proof -
  assume a: "gm_tcp_state s \<noteq> TCP_SYN"
  obtain now s1 where t: "gm_ticks s = (now, s1)" by fastforce
  show ?thesis using a state_ticks [OF t] by (simp add: gm_tcp_poll_def t Let_def segment_sel)
qed

interpretation up: tcp_invariant "\<lambda>s. gm_tcp_state s \<noteq> TCP_SYN"
proof
  show "gm_tcp_state (gm_pump s) \<noteq> TCP_SYN" if "gm_tcp_state s \<noteq> TCP_SYN" for s :: "'a gm_tcp_scheme"
    using that by (simp add: gm_pump_def tcp_poll_no_syn net_poll_no_syn)
  show "gm_tcp_state t \<noteq> TCP_SYN" if "gm_tcp_state s \<noteq> TCP_SYN" "gm_tcp_segment seq ack flags data s = (ok, t)"
    for s t :: "'a gm_tcp_scheme" and seq ack flags data ok
    using tcp_view_sel(6) [OF segment_frame [OF that(2), THEN conjunct1]] that(1) by simp
qed (auto simp: state_ticks gm_arp_request_def net_view_state [OF snd_frame(1)] tcp_closed_def)

lemma tcp_send_result:
  assumes "gm_tcp_send data timeout s = (r, t)"
  shows "poll_view t = poll_view s"
    and "net_ok s \<Longrightarrow> net_ok t \<and> (r \<longrightarrow> gm_tcp_state t = TCP_ESTABLISHED \<and> gm_tcp_unacked_len t = 0)"
    and "gm_tcp_state s \<noteq> TCP_ESTABLISHED \<or> length data = 0 \<or> length data > 1280 \<Longrightarrow> \<not> r \<and> t = s"
proof -
  show "gm_tcp_state s \<noteq> TCP_ESTABLISHED \<or> length data = 0 \<or> length data > 1280 \<Longrightarrow> \<not> r \<and> t = s"
    using assms by (auto simp: gm_tcp_send_def split: if_splits)
  obtain start s1 where t1: "gm_ticks s = (start, s1)" by fastforce
  let ?s2 = "wait_acked start timeout s1"
  have cases: "\<not> r \<and> t = s \<or> gm_tcp_state s = TCP_ESTABLISHED \<and> length data \<le> 1280 \<and>
      (\<not> r \<and> t = tcp_give_up ?s2 \<or> tcp_send_now data timeout ?s2 = (r, t) \<or> tcp_send_now data timeout s = (r, t))"
    using assms by (auto simp: gm_tcp_send_def t1 Let_def split: if_splits)
  have v: "poll_view ?s2 = poll_view s" using calm.acked [OF refl] poll_view_ticks [OF t1] by metis
  then show "poll_view t = poll_view s" using cases tcp_send_now_view by (metis poll_view_state(2))
  show "net_ok t \<and> (r \<longrightarrow> gm_tcp_state t = TCP_ESTABLISHED \<and> gm_tcp_unacked_len t = 0)" if ok: "net_ok s"
  proof -
    have n: "net_ok ?s2" using stack.acked net_ok_ticks [OF ok t1] by blast
    have e: "gm_tcp_state ?s2 \<noteq> TCP_SYN" if "gm_tcp_state s = TCP_ESTABLISHED"
      using up.acked [of s1 start timeout] state_ticks [OF t1] that by simp
    have g: "gm_tcp_state s = TCP_ESTABLISHED \<Longrightarrow> gm_tcp_state s \<noteq> TCP_SYN" by simp
    from cases show ?thesis using ok n e g tcp_send_now_ok net_ok_state(2) by blast
  qed
qed

lemma tcp_close_result:
  shows "poll_view (gm_tcp_close s) = poll_view s" and "net_ok s \<Longrightarrow> net_ok (gm_tcp_close s)"
proof -
  obtain start s1 where t1: "gm_ticks s = (start, s1)" by fastforce
  let ?s2 = "wait_acked start 100 s1"
  obtain ok s3 where seg: "gm_tcp_segment (gm_tcp_seq ?s2) (gm_tcp_ack ?s2) (0x01 OR 0x10) [] ?s2 = (ok, s3)" by fastforce
  have d: "gm_tcp_close s = (if gm_tcp_state s \<noteq> TCP_ESTABLISHED then s else if gm_tcp_unacked_len ?s2 \<noteq> 0 then ?s2
      else if ok then s3\<lparr>gm_tcp_seq := gm_tcp_seq s3 + 1, gm_tcp_state := TCP_FIN\<rparr> else s3)"
    using seg by (simp add: gm_tcp_close_def t1 Let_def)
  have v: "poll_view ?s2 = poll_view s" using calm.acked [OF refl] poll_view_ticks [OF t1] by metis
  then show "poll_view (gm_tcp_close s) = poll_view s" using segment_view [OF seg] by (simp add: d)
  show "net_ok (gm_tcp_close s)" if "net_ok s"
  proof -
    have n: "net_ok ?s2" using stack.acked net_ok_ticks [OF that t1] by blast
    then have n3: "net_ok s3" using segment_net_ok [OF _ seg] by blast
    have "gm_tcp_unacked_len s3 = gm_tcp_unacked_len ?s2" using tcp_view_sel segment_frame [OF seg] by metis
    then show ?thesis using that n n3 by (auto simp: d net_ok_def tcp_ok_def)
  qed
qed


subsection \<open>The properties\<close>

text \<open>C30: Connecting always returns. It keeps every invariant of the stack and leaves the console, the configuration
  and the layers above alone; success means that the connection is established.\<close>

theorem tcp_connect_sound:
  assumes "net_ok s" "gm_tcp_connect dst port timeout s = (r, t)"
  shows "net_ok t \<and> upper t = upper s \<and> (r \<longrightarrow> gm_tcp_connected t)"
  using tcp_connect_result [OF assms(2)] assms(1) by (simp add: gm_tcp_connected_def)

text \<open>C31: A send is refused without touching the state when there is no connection, no data, or more than 1280
  bytes. Otherwise it keeps every invariant, and it reports success only when the connection is still up and
  nothing is left unacknowledged.\<close>

theorem tcp_send_sound:
  assumes "net_ok s" "gm_tcp_send data timeout s = (r, t)"
  shows "if \<not> gm_tcp_connected s \<or> data = [] \<or> length data > 1280 then \<not> r \<and> t = s
    else net_ok t \<and> upper t = upper s \<and> (r \<longrightarrow> gm_tcp_connected t \<and> gm_tcp_unacked_len t = 0)"
  using tcp_send_result [OF assms(2)] assms(1) upper_view by (auto simp: gm_tcp_connected_def)


subsection \<open>Witnesses\<close>

theorem tcp_connect_sound_witness:
  "\<exists>r t. gm_tcp_connect (10, 0, 2, 2) 7070 300 tcp_example = (r, t) \<and> net_ok t \<and> upper t = upper tcp_example"
proof -
  obtain r t where e: "gm_tcp_connect (10, 0, 2, 2) 7070 300 tcp_example = (r, t)" by fastforce
  from tcp_connect_sound [OF net_ok_example e] e show ?thesis by blast
qed

theorem tcp_send_sound_witness:
  "\<exists>r t. gm_tcp_send [80, 73] 200 tcp_example = (r, t) \<and> gm_tcp_connected tcp_example \<and> net_ok t \<and> upper t = upper tcp_example"
proof -
  obtain r t where e: "gm_tcp_send [80, 73] 200 tcp_example = (r, t)" by fastforce
  have "gm_tcp_connected tcp_example" by (simp add: gm_tcp_connected_def tcp_example_def)
  then show ?thesis using tcp_send_sound [OF net_ok_example e] e by auto
qed

end
