(* ===== verification/Store_Client.thy ===== *)
theory Store_Client
  imports Tcp_Client
begin

section \<open>The store protocol, client side (\<^verbatim>\<open>tcpstore.c\<close>: \<^verbatim>\<open>gm_store_*\<close>)\<close>

text \<open>
  The GMSTORE requests the kernel sends over its one TCP connection, and the replies it reads. A
  request is built in a 256-byte buffer (256 + 1024 for writes) and a reply line is collected in a
  256-byte buffer; both are byte lists here, and the bounds that the C arrays need are theorems.
  A reply line may contain NUL bytes, which end the string for every comparison, as in C. The tests
  of output pointers against NULL are boolean arguments.
\<close>

subsection \<open>Paths and numbers\<close>

fun store_path_loop :: "cstr \<Rightarrow> nat \<Rightarrow> nat option" where
  "store_path_loop [] i = Some i"
| "store_path_loop (c # r) i =
     (if c = 0 then Some i
      else if c = 32 \<or> c = 10 \<or> c = 13 \<or> c = 9 then None
      else if c = 46 \<and> cur r = 46 then None
      else store_path_loop r (i + 1))"

definition gm_store_path :: "cstr option \<Rightarrow> bool" where
  "gm_store_path path = (case path of
     None \<Rightarrow> False
   | Some p \<Rightarrow>
       if cur p \<noteq> 47 \<or> cur (tl p) = 0 then False
       else case store_path_loop (tl p) 1 of None \<Rightarrow> False | Some i \<Rightarrow> i < 192)"

function store_dec_loop :: "u64 \<Rightarrow> bytes \<Rightarrow> bytes" where
  "store_dec_loop v tmp = (if v \<noteq> 0 then store_dec_loop (v div 10) (tmp @ [48 + ucast (v mod 10)]) else tmp)"
  by pat_completeness auto
termination
  by (relation "measure (\<lambda>(v, tmp). unat v)") (auto simp: unat_div_distrib div_less_dividend unat_gt_0)

declare store_dec_loop.simps [simp del]

definition gm_store_dec :: "u64 \<Rightarrow> bytes" where
  "gm_store_dec v = (if v = 0 then [48] else rev (store_dec_loop v []))"

text \<open>The part of a C string before its NUL, which the copying loops copy.\<close>

definition until_nul :: "cstr \<Rightarrow> bytes" where
  "until_nul s = takeWhile (\<lambda>c. c \<noteq> 0) s"

definition gm_store_line :: "cstr \<Rightarrow> cstr option \<Rightarrow> u64 \<Rightarrow> bool \<Rightarrow> bytes" where
  "gm_store_line op path a has_a =
     until_nul op @ (case path of None \<Rightarrow> [] | Some p \<Rightarrow> 32 # until_nul p) @
     (if has_a then 32 # gm_store_dec a else []) @ [10]"

fun store_number_loop :: "cstr \<Rightarrow> u64 \<Rightarrow> nat \<Rightarrow> u64 option" where
  "store_number_loop [] n digits = (if digits = 0 then None else Some n)"
| "store_number_loop (c # s) n digits =
     (if 48 \<le> c \<and> c \<le> 57 then
        let digit = ucast (c - 48) in
        if n > 1844674407370955161 \<or> (n = 1844674407370955161 \<and> digit > 5) then None
        else store_number_loop s (n * 10 + digit) (digits + 1)
      else if digits = 0 \<or> c \<noteq> 0 then None else Some n)"

definition gm_store_number :: "cstr \<Rightarrow> u64 option" where
  "gm_store_number s = store_number_loop s 0 0"


subsection \<open>Reply lines\<close>

text \<open>The inner loop of \<^verbatim>\<open>gm_store_wait_line\<close>: it takes bytes while the connection has some.\<close>

datatype line_step = Line_Done bytes | Line_Full | Line_More bytes

lemma tcp_read_len: "gm_tcp_rx_len (snd (gm_tcp_read n s)) = gm_tcp_rx_len s - n"
  by (simp add: gm_tcp_read_def Let_def)

function line_drain :: "nat \<Rightarrow> bytes \<Rightarrow> 'a gm_tcp_scheme \<Rightarrow> line_step \<times> 'a gm_tcp_scheme" where
  "line_drain cap line s =
     (if gm_tcp_available s = 0 then (Line_More line, s)
      else case gm_tcp_read 1 s of (cs, s1) \<Rightarrow>
        case cs of
          [] \<Rightarrow> (Line_More line, s1)
        | c # _ \<Rightarrow>
            if c = 10 then (Line_Done (if line \<noteq> [] \<and> last line = 13 then butlast line else line), s1)
            else if length line + 1 < cap then line_drain cap (line @ [c]) s1
            else (Line_Full, s1))"
  by pat_completeness auto
termination
  by (relation "measure (\<lambda>(cap, line, s). gm_tcp_rx_len s)")
    (auto simp: gm_tcp_available_def tcp_read_len dest!: arg_cong [where f = snd])

declare line_drain.simps [simp del]

text \<open>Reading from the ring touches its head and its length only.\<close>

definition ring_moved :: "'a gm_tcp_scheme \<Rightarrow> 'a gm_tcp_scheme \<Rightarrow> bool" where
  "ring_moved s t \<longleftrightarrow> t = s\<lparr>gm_tcp_rx_head := gm_tcp_rx_head t, gm_tcp_rx_len := gm_tcp_rx_len t\<rparr>"

lemma ring_moved_refl [simp]: "ring_moved s s"
  by (simp add: ring_moved_def)

lemma ring_moved_trans: "ring_moved s t \<Longrightarrow> ring_moved t u \<Longrightarrow> ring_moved s u"
  by (cases s; cases t; cases u) (auto simp: ring_moved_def)

lemma tcp_read_moved: "gm_tcp_read n s = (out, t) \<Longrightarrow> ring_moved s t"
  by (auto simp: gm_tcp_read_def Let_def ring_moved_def split: if_splits)

lemma line_drain_moved: "line_drain cap line s = (r, t) \<Longrightarrow> ring_moved s t"
proof (induction cap line s rule: line_drain.induct)
  case (1 cap line s)
  obtain cs s1 where r: "gm_tcp_read 1 s = (cs, s1)" by fastforce
  note m = tcp_read_moved [OF r]
  from 1(2) show ?case
    using m 1(1) [OF _ r [symmetric]] ring_moved_trans [OF m]
    by (subst (asm) line_drain.simps) (auto simp: r [unfolded One_nat_def] split: if_splits list.splits)
qed

lemma ring_moved_clock: "ring_moved s t \<Longrightarrow> clock_keeps s t"
  by (cases s; cases t) (auto simp: ring_moved_def clock_keeps_def)

function wait_line_loop :: "u64 \<Rightarrow> u64 \<Rightarrow> nat \<Rightarrow> bytes \<Rightarrow> 'a gm_tcp_scheme \<Rightarrow> bytes option \<times> 'a gm_tcp_scheme" where
  "wait_line_loop start timeout cap line s =
     (case gm_ticks s of (now, s1) \<Rightarrow>
        if now - start < timeout then
          case line_drain cap line (gm_pump s1) of (step, s2) \<Rightarrow>
            case step of
              Line_Done l \<Rightarrow> (Some l, s2)
            | Line_Full \<Rightarrow> (None, s2)
            | Line_More line' \<Rightarrow> wait_line_loop start timeout cap line' s2
        else (None, s1))"
  by pat_completeness auto
termination
proof (relation "inv_image wait_order (\<lambda>(start, timeout, cap, line, s). (start, timeout, s))")
  fix start timeout now :: u64 and cap :: nat and line line' :: bytes and step and s s1 s2 :: "'a gm_tcp_scheme"
  assume t: "(now, s1) = gm_ticks s" "now - start < timeout" and d: "(step, s2) = line_drain cap line (gm_pump s1)"
  have "clock_moves s1 s2"
    using clock_moves_keeps [OF pump_clock ring_moved_clock [OF line_drain_moved [OF d [symmetric]]]] .
  then show "((start, timeout, cap, line', s2), start, timeout, cap, line, s) \<in>
      inv_image wait_order (\<lambda>(start, timeout, cap, line, s). (start, timeout, s))"
    using wait_order_step [OF t(1) [symmetric] t(2)] by simp
qed simp

declare wait_line_loop.simps [simp del]

definition gm_store_wait_line :: "nat \<Rightarrow> u64 \<Rightarrow> 'a gm_tcp_scheme \<Rightarrow> cstr option \<times> 'a gm_tcp_scheme" where
  "gm_store_wait_line cap timeout s = (case gm_ticks s of (start, s1) \<Rightarrow> wait_line_loop start timeout cap [] s1)"

definition gm_store_ok :: "u64 \<Rightarrow> 'a gm_tcp_scheme \<Rightarrow> bool \<times> 'a gm_tcp_scheme" where
  "gm_store_ok timeout s =
     (case gm_store_wait_line 256 timeout s of (line, s1) \<Rightarrow>
        case line of None \<Rightarrow> (False, s1) | Some l \<Rightarrow> (gm_starts (Some l) (Some (asc ''OK'')), s1))"


subsection \<open>Requests\<close>

definition gm_store_connect :: "'a gm_tcp_scheme \<Rightarrow> bool \<times> 'a gm_tcp_scheme" where
  "gm_store_connect s =
     (let s1 = gm_tcp_drop s in
      case gm_tcp_connect (cfg_store_ip (gm_config s1)) (cfg_store_port (gm_config s1)) 300 s1 of (up, s2) \<Rightarrow>
        if \<not> up then (False, s2)
        else case gm_store_wait_line 256 200 s2 of (line, s3) \<Rightarrow>
          let ok = (case line of None \<Rightarrow> False | Some l \<Rightarrow> gm_streq (Some l) (Some (asc ''GMSTORE 2.0''))) in
          (ok, if ok then s3 else gm_tcp_close s3))"

text \<open>Dropping what is buffered, sending a request and waiting for the first reply line.\<close>

definition store_ask :: "bytes \<Rightarrow> u64 \<Rightarrow> 'a gm_tcp_scheme \<Rightarrow> cstr option \<times> 'a gm_tcp_scheme" where
  "store_ask req timeout s =
     (case gm_tcp_send req timeout (gm_tcp_drop s) of (sent, s1) \<Rightarrow>
        if \<not> sent then (None, s1) else gm_store_wait_line 256 timeout s1)"

definition gm_store_ping :: "'a gm_tcp_scheme \<Rightarrow> bool \<times> 'a gm_tcp_scheme" where
  "gm_store_ping s =
     (case store_ask (asc ''PING'' @ [10]) 200 s of (line, s1) \<Rightarrow>
        case line of None \<Rightarrow> (False, s1) | Some l \<Rightarrow> (gm_streq (Some l) (Some (asc ''OK PONG'')), s1))"

text \<open>The listing goes on for as long as the server sends items.\<close>

definition list_item :: "cstr option \<Rightarrow> cstr \<Rightarrow> 'a gm_tcp_scheme \<Rightarrow> 'a gm_tcp_scheme" where
  "list_item prefix l s =
     (if prefix = None \<or> gm_starts (Some (drop 5 l)) prefix
      then gm_write (Some [10]) (gm_write (Some (drop 5 l)) s) else s)"

partial_function (option) list_loop :: "cstr option \<Rightarrow> 'a gm_tcp_scheme \<Rightarrow> (bool \<times> 'a gm_tcp_scheme) option" where
  "list_loop prefix s =
     (case gm_store_wait_line 256 200 s of (line, s1) \<Rightarrow>
        case line of
          None \<Rightarrow> Some (False, s1)
        | Some l \<Rightarrow>
            if gm_streq (Some l) (Some (asc ''OK END'')) then Some (True, s1)
            else if \<not> gm_starts (Some l) (Some (asc ''ITEM '')) then Some (False, s1)
            else list_loop prefix (list_item prefix l s1))"

definition gm_store_list_prefix :: "cstr option \<Rightarrow> 'a gm_tcp_scheme \<Rightarrow> (bool \<times> 'a gm_tcp_scheme) option" where
  "gm_store_list_prefix prefix s =
     (case gm_tcp_send (asc ''LIST'' @ [10]) 200 (gm_tcp_drop s) of (sent, s1) \<Rightarrow>
        if \<not> sent then Some (False, s1) else list_loop prefix s1)"

definition gm_store_list :: "'a gm_tcp_scheme \<Rightarrow> (bool \<times> 'a gm_tcp_scheme) option" where
  "gm_store_list s = gm_store_list_prefix None s"

definition gm_store_size :: "cstr option \<Rightarrow> bool \<Rightarrow> 'a gm_tcp_scheme \<Rightarrow> u64 option \<times> 'a gm_tcp_scheme" where
  "gm_store_size path out s =
     (if \<not> out \<or> \<not> gm_store_path path then (None, s)
      else case store_ask (gm_store_line (asc ''STAT'') path 0 False) 200 s of (line, s1) \<Rightarrow>
        case line of
          None \<Rightarrow> (None, s1)
        | Some l \<Rightarrow> if \<not> gm_starts (Some l) (Some (asc ''OK '')) then (None, s1) else (gm_store_number (drop 3 l), s1))"

text \<open>\<^verbatim>\<open>READ path offset len\<close>: the newline of \<^verbatim>\<open>gm_store_line\<close> is replaced by the second number.\<close>

definition read_request :: "cstr option \<Rightarrow> u64 \<Rightarrow> u16 \<Rightarrow> bytes" where
  "read_request path offset len =
     butlast (gm_store_line (asc ''READ'') path offset True) @ [32] @ gm_store_dec (ucast len) @ [10]"

function read_wait :: "u64 \<Rightarrow> nat \<Rightarrow> bytes \<Rightarrow> 'a gm_tcp_scheme \<Rightarrow> bytes \<times> 'a gm_tcp_scheme" where
  "read_wait start count data s =
     (if length data < count then
        case gm_ticks s of (now, s1) \<Rightarrow>
          if now - start < 300 then
            case gm_tcp_read (count - length data) (gm_pump s1) of (out, s2) \<Rightarrow> read_wait start count (data @ out) s2
          else (data, s1)
      else (data, s))"
  by pat_completeness auto
termination
proof (relation "inv_image wait_order (\<lambda>(start, count, data, s). (start, 300, s))")
  fix start now :: u64 and count :: nat and data out :: bytes and s s1 s2 :: "'a gm_tcp_scheme"
  assume t: "(now, s1) = gm_ticks s" "now - start < 300" and d: "(out, s2) = gm_tcp_read (count - length data) (gm_pump s1)"
  have "clock_moves s1 s2"
    using clock_moves_keeps [OF pump_clock ring_moved_clock [OF tcp_read_moved [OF d [symmetric]]]] .
  then show "((start, count, data @ out, s2), start, count, data, s) \<in>
      inv_image wait_order (\<lambda>(start, count, data, s). (start, 300, s))"
    using wait_order_step [OF t(1) [symmetric] t(2)] by simp
qed simp

declare read_wait.simps [simp del]

text \<open>
  The result says whether the call succeeds and which bytes it has put at the start of the caller's buffer.
  When the server stops in the middle of a block those bytes are there although the call fails.
\<close>

definition gm_store_read :: "cstr option \<Rightarrow> u64 \<Rightarrow> bool \<Rightarrow> u16 \<Rightarrow> bool \<Rightarrow> 'a gm_tcp_scheme \<Rightarrow> bool \<times> bytes \<times> 'a gm_tcp_scheme" where
  "gm_store_read path offset data len got s =
     (if \<not> got \<or> \<not> gm_store_path path \<or> (\<not> data \<and> len \<noteq> 0) \<or> len > 1024 then (False, [], s)
      else case store_ask (read_request path offset len) 200 s of (line, s1) \<Rightarrow>
        case line of
          None \<Rightarrow> (False, [], s1)
        | Some l \<Rightarrow>
            if \<not> gm_starts (Some l) (Some (asc ''OK '')) then (False, [], s1)
            else case gm_store_number (drop 3 l) of
              None \<Rightarrow> (False, [], s1)
            | Some count \<Rightarrow>
                if count > ucast len then (False, [], s1)
                else case gm_ticks s1 of (start, s2) \<Rightarrow>
                  case read_wait start (unat count) [] s2 of (out, s3) \<Rightarrow> (length out = unat count, out, s3))"

definition gm_store_stat :: "cstr option \<Rightarrow> 'a gm_tcp_scheme \<Rightarrow> bool \<times> 'a gm_tcp_scheme" where
  "gm_store_stat path s =
     (case gm_store_size path True s of (sz, s1) \<Rightarrow>
        case sz of
          None \<Rightarrow> (False, s1)
        | Some n \<Rightarrow> 
            (let s = gm_write path s1; s = gm_say '' '' s; s = gm_print_u64 n s; s = gm_write (Some (asc '' bytes'' @ [10])) s
             in (True, s)))"

partial_function (option) cat_loop :: "cstr option \<Rightarrow> u64 \<Rightarrow> 'a gm_tcp_scheme \<Rightarrow> (bool \<times> 'a gm_tcp_scheme) option" where
  "cat_loop path offset s =
     (case gm_store_read path offset True 1024 True s of (ok, out, s1) \<Rightarrow>
        if \<not> ok then Some (False, s1)
        else
          let s2 = put_bytes out s1 in
          if length out < 1024 then Some (True, s2) else cat_loop path (offset + of_nat (length out)) s2)"

definition gm_store_cat :: "cstr option \<Rightarrow> 'a gm_tcp_scheme \<Rightarrow> (bool \<times> 'a gm_tcp_scheme) option" where
  "gm_store_cat path s = (if \<not> gm_store_path path then Some (False, s) else cat_loop path 0 s)"

text \<open>The head of a write request, and the request when it fits the buffer and a segment.\<close>

definition write_head :: "cstr option \<Rightarrow> u16 \<Rightarrow> bool \<Rightarrow> bytes" where
  "write_head path len app =
     (if app then asc ''APPEND'' else asc ''WRITE'') @ [32] @
     (case path of None \<Rightarrow> [] | Some p \<Rightarrow> until_nul p) @ [32] @ gm_store_dec (ucast len) @ [10]"

definition gm_store_write :: "cstr option \<Rightarrow> bytes option \<Rightarrow> u16 \<Rightarrow> bool \<Rightarrow> 'a gm_tcp_scheme \<Rightarrow> bool \<times> 'a gm_tcp_scheme" where
  "gm_store_write path data len app s =
     (if \<not> gm_store_path path \<or> (data = None \<and> len \<noteq> 0) \<or> len > 1024 then (False, s)
      else
        let req = write_head path len app in
        if length req + unat len > 256 + 1024 \<or> length req + unat len > 1280 then (False, s)
        else
          let body = (case data of None \<Rightarrow> [] | Some d \<Rightarrow> take (unat len) d) in
          case gm_tcp_send (req @ body) 300 (gm_tcp_drop s) of (sent, s1) \<Rightarrow>
            if \<not> sent then (False, s1) else gm_store_ok 300 s1)"

definition gm_store_delete :: "cstr option \<Rightarrow> 'a gm_tcp_scheme \<Rightarrow> bool \<times> 'a gm_tcp_scheme" where
  "gm_store_delete path s =
     (if \<not> gm_store_path path then (False, s)
      else case gm_tcp_send (gm_store_line (asc ''DEL'') path 0 False) 200 (gm_tcp_drop s) of (sent, s1) \<Rightarrow>
        if \<not> sent then (False, s1) else gm_store_ok 200 s1)"

definition gm_store_status :: "'a gm_tcp_scheme \<Rightarrow> 'a gm_tcp_scheme" where
  "gm_store_status s =
     (let s = gm_say ''store server='' s; s = gm_print_ip (cfg_store_ip (gm_config s)) s;
          s = gm_say '':'' s; s = gm_print_u64 (ucast (cfg_store_port (gm_config s))) s;
          s = gm_say '' block='' s; s = gm_print_u64 1024 s;
          s = gm_say '' connected='' s; s = gm_say (if gm_tcp_connected s then ''yes'' else ''no'') s
      in gm_write (Some [10]) s)"



subsection \<open>Paths and numbers, exactly\<close>

lemma store_path_loop_spec:
  "cstr_ok p \<Longrightarrow> store_path_loop p i =
     (if set p \<inter> {9, 10, 13, 32} = {} \<and> \<not> (\<exists>k. Suc k < length p \<and> p ! k = 46 \<and> p ! Suc k = 46)
      then Some (i + length p) else None)"
proof (induction p arbitrary: i)
  case (Cons c r)
  have "(\<exists>k. Suc k < length (c # r) \<and> (c # r) ! k = 46 \<and> (c # r) ! Suc k = 46) \<longleftrightarrow>
      (c = 46 \<and> cur r = 46) \<or> (\<exists>k. Suc k < length r \<and> r ! k = 46 \<and> r ! Suc k = 46)"
    (is "?l \<longleftrightarrow> ?r")
  proof
    assume ?l
    then obtain k where k: "Suc k < length (c # r)" "(c # r) ! k = 46" "(c # r) ! Suc k = 46" by blast
    then show ?r by (cases k; cases r) auto
  next
    assume ?r
    then show ?l
    proof
      assume "c = 46 \<and> cur r = 46"
      then show ?l by (intro exI [of _ 0], cases r) auto
    next
      assume "\<exists>k. Suc k < length r \<and> r ! k = 46 \<and> r ! Suc k = 46"
      then obtain k where "Suc k < length r \<and> r ! k = 46 \<and> r ! Suc k = 46" by blast
      then show ?l by (intro exI [of _ "Suc k"]) simp
    qed
  qed
  with Cons show ?case by auto
qed simp

text \<open>What a path may be: absolute, two to 191 bytes, no blanks, no two dots in a row.\<close>

definition store_path_ok :: "cstr \<Rightarrow> bool" where
  "store_path_ok p \<longleftrightarrow> 2 \<le> length p \<and> length p < 192 \<and> hd p = 47 \<and> set p \<inter> {9, 10, 13, 32} = {} \<and>
     \<not> (\<exists>k. Suc k < length p \<and> p ! k = 46 \<and> p ! Suc k = 46)"

lemma store_path_iff:
  assumes "cstr_ok p"
  shows "gm_store_path (Some p) \<longleftrightarrow> store_path_ok p"
proof (cases "2 \<le> length p \<and> hd p = 47")
  case True
  then obtain c r where p: "p = 47 # c # r" by (cases p; cases "tl p") auto
  have dots: "(\<exists>k. Suc k < length p \<and> p ! k = 46 \<and> p ! Suc k = 46) \<longleftrightarrow>
      (\<exists>k. Suc k < length (c # r) \<and> (c # r) ! k = 46 \<and> (c # r) ! Suc k = 46)" (is "?l \<longleftrightarrow> ?r")
  proof
    assume ?l
    then obtain k where k: "Suc k < length p" "p ! k = 46" "p ! Suc k = 46" by blast
    then show ?r by (cases k) (auto simp: p)
  next
    assume ?r
    then obtain k where "Suc k < length (c # r) \<and> (c # r) ! k = 46 \<and> (c # r) ! Suc k = 46" by blast
    then show ?l by (intro exI [of _ "Suc k"]) (simp add: p)
  qed
  have "cstr_ok (c # r)" using assms p by simp
  from store_path_loop_spec [OF this, of 1] dots show ?thesis
    using assms by (simp add: gm_store_path_def store_path_ok_def p)
next
  case False
  then show ?thesis
    using assms by (cases p; cases "tl p") (auto simp: gm_store_path_def store_path_ok_def)
qed

lemma until_nul_ok [simp]: "cstr_ok s \<Longrightarrow> until_nul s = s"
  by (auto simp: until_nul_def cstr_ok_def takeWhile_eq_all_conv)

lemma store_dec_loop_print: "length tmp + Suc k \<le> 24 \<Longrightarrow> unat v < 10 ^ Suc k \<Longrightarrow> store_dec_loop v tmp = print_u64_loop v tmp"
proof (induction k arbitrary: v tmp)
  case 0
  have "v div 10 = 0" using 0 by (simp add: word_unat_eq_iff unat_div_distrib)
  then show ?case using 0
    by (simp add: store_dec_loop.simps [of v] print_u64_loop.simps [of v] store_dec_loop.simps [of 0] print_u64_loop.simps [of 0])
next
  case (Suc k)
  have "unat (v div 10) < 10 ^ Suc k" using Suc.prems(2) by (simp add: unat_div_distrib less_mult_imp_div_less mult.commute)
  with Suc show ?case by (subst store_dec_loop.simps, subst print_u64_loop.simps) simp
qed

lemma store_dec_bytes [simp]: "gm_store_dec v = dec_bytes (unat v)"
  using store_dec_loop_print [of "[]" 19 v] unat_bounds(4) [of v] print_u64_dec [of v]
  by (auto simp: gm_store_dec_def print_u64_def split: if_splits)

lemma store_number_parse:
  "store_number_loop s n d = (case parse_u64_loop s n d of (v, ok) \<Rightarrow>
     if ok \<and> cur (dropWhile is_digit s) = 0 then Some v else None)"
  by (induction s n d rule: store_number_loop.induct) (auto simp: Let_def is_digit_def)

lemma store_number_spec:
  "gm_store_number s = Some v \<longleftrightarrow> (let ds = takeWhile is_digit s in
     ds \<noteq> [] \<and> dec_val ds < 2 ^ 64 \<and> v = of_nat (dec_val ds) \<and> cur (dropWhile is_digit s) = 0)"
  using gm_parse_u64_spec [of s] unfolding gm_store_number_def store_number_parse gm_parse_u64_def
  by (auto simp: Let_def)


subsection \<open>What the client keeps\<close>

locale store_invariant = tcp_invariant I for I :: "'a gm_tcp_scheme \<Rightarrow> bool" +
  assumes read: "I s \<Longrightarrow> gm_tcp_read n s = (out, t) \<Longrightarrow> I t"
    and flush: "I s \<Longrightarrow> I (gm_tcp_drop s)"
    and send: "I s \<Longrightarrow> gm_tcp_send data timeout s = (r, t) \<Longrightarrow> I t"
    and conn: "I s \<Longrightarrow> gm_tcp_connect dst port timeout s = (r, t) \<Longrightarrow> I t"
    and close: "I s \<Longrightarrow> I (gm_tcp_close s)"
begin

lemma drain: "I s \<Longrightarrow> line_drain cap line s = (r, t) \<Longrightarrow> I t"
proof (induction cap line s rule: line_drain.induct)
  case (1 cap line s)
  obtain cs s1 where r: "gm_tcp_read 1 s = (cs, s1)" by fastforce
  have "I s1" using read [OF 1(2) r] .
  then show ?case using 1(2,3) 1(1) [OF _ r [symmetric]]
    by (subst (asm) line_drain.simps) (auto simp: r [unfolded One_nat_def] split: if_splits list.splits)
qed

lemma line_loop: "I s \<Longrightarrow> wait_line_loop start timeout cap line s = (r, t) \<Longrightarrow> I t"
proof (induction start timeout cap line s rule: wait_line_loop.induct)
  case (1 start timeout cap line s)
  obtain now s1 where t: "gm_ticks s = (now, s1)" by fastforce
  obtain st s2 where d: "line_drain cap line (gm_pump s1) = (st, s2)" by fastforce
  have I: "I s1" "I s2" using ticks [OF 1(2) t] drain [OF pump d] by blast+
  from 1(3) show ?case using I 1(1) [OF t [symmetric] _ d [symmetric]]
    by (subst (asm) wait_line_loop.simps) (auto simp: t d split: if_splits line_step.splits)
qed

lemma wait_line: "I s \<Longrightarrow> gm_store_wait_line cap timeout s = (r, t) \<Longrightarrow> I t"
proof -
  assume a: "I s" "gm_store_wait_line cap timeout s = (r, t)"
  obtain start s1 where c: "gm_ticks s = (start, s1)" by fastforce
  show "I t" using line_loop [OF ticks [OF a(1) c]] a(2) by (simp add: gm_store_wait_line_def c)
qed

lemma store_ok: "I s \<Longrightarrow> gm_store_ok timeout s = (r, t) \<Longrightarrow> I t"
proof -
  assume a: "I s" "gm_store_ok timeout s = (r, t)"
  obtain line s1 where w: "gm_store_wait_line 256 timeout s = (line, s1)" by fastforce
  show "I t" using wait_line [OF a(1) w] a(2) by (simp add: gm_store_ok_def w split: option.splits)
qed

lemma ask: "I s \<Longrightarrow> store_ask req timeout s = (r, t) \<Longrightarrow> I t"
proof -
  assume a: "I s" "store_ask req timeout s = (r, t)"
  obtain ok s1 where c: "gm_tcp_send req timeout (gm_tcp_drop s) = (ok, s1)" by fastforce
  have "I s1" using send [OF flush [OF a(1)] c] .
  then show "I t" using wait_line [of s1 256 timeout r t] a(2) by (simp add: store_ask_def c split: if_splits)
qed

lemma send_ok: "I s \<Longrightarrow> gm_tcp_send req timeout (gm_tcp_drop s) = (ok, s1) \<Longrightarrow>
    (if \<not> ok then (False, s1) else gm_store_ok tmo s1) = (r, t) \<Longrightarrow> I t"
  using send [OF flush, of s req timeout ok s1] store_ok [of s1 tmo r t] by (simp split: if_splits)

lemma connect_store: "I s \<Longrightarrow> gm_store_connect s = (r, t) \<Longrightarrow> I t"
proof -
  assume a: "I s" "gm_store_connect s = (r, t)"
  let ?c = "gm_config (gm_tcp_drop s)"
  obtain ok s1 where c: "gm_tcp_connect (cfg_store_ip ?c) (cfg_store_port ?c) 300 (gm_tcp_drop s) = (ok, s1)" by fastforce
  obtain line s2 where w: "gm_store_wait_line 256 200 s1 = (line, s2)" by fastforce
  have "I s1" "I s2" using conn [OF flush [OF a(1)] c] wait_line [OF _ w] by blast+
  then show "I t" using close [of s2] a(2) by (auto simp: gm_store_connect_def Let_def c w split: if_splits)
qed

lemma ping_store: "I s \<Longrightarrow> gm_store_ping s = (r, t) \<Longrightarrow> I t"
proof -
  assume a: "I s" "gm_store_ping s = (r, t)"
  obtain line s1 where q: "store_ask (asc ''PING'' @ [10]) 200 s = (line, s1)" by fastforce
  show "I t" using ask [OF a(1) q] a(2) q by (simp add: gm_store_ping_def split: option.splits)
qed

lemma size_store: "I s \<Longrightarrow> gm_store_size path out s = (r, t) \<Longrightarrow> I t"
proof -
  assume a: "I s" "gm_store_size path out s = (r, t)"
  obtain line s1 where q: "store_ask (gm_store_line (asc ''STAT'') path 0 False) 200 s = (line, s1)" by fastforce
  show "I t" using ask [OF a(1) q] a q by (simp add: gm_store_size_def split: option.splits if_splits)
qed

lemma body: "I s \<Longrightarrow> read_wait start count data s = (out, t) \<Longrightarrow> I t"
proof (induction start count data s rule: read_wait.induct)
  case (1 start count data s)
  obtain now s1 where t: "gm_ticks s = (now, s1)" by fastforce
  obtain o2 s2 where d: "gm_tcp_read (count - length data) (gm_pump s1) = (o2, s2)" by fastforce
  have I: "I s1" "I s2" using ticks [OF 1(2) t] read [OF pump d] by blast+
  from 1(3) show ?case using I 1(2) 1(1) [OF _ t [symmetric] _ d [symmetric]]
    by (subst (asm) read_wait.simps) (auto simp: t d split: if_splits)
qed

lemma read_store: "I s \<Longrightarrow> gm_store_read path offset data len got s = (r, out, t) \<Longrightarrow> I t"
proof -
  assume a: "I s" "gm_store_read path offset data len got s = (r, out, t)"
  obtain line s1 where q: "store_ask (read_request path offset len) 200 s = (line, s1)" by fastforce
  obtain start s2 where c: "gm_ticks s1 = (start, s2)" by fastforce
  have I: "I s1" "I s2" using ask [OF a(1) q] ticks [OF _ c] by blast+
  then have "I t'" if "read_wait start n [] s2 = (out', t')" for n out' t' using body that by blast
  then show "I t" using a I by (auto simp: gm_store_read_def q c split: if_splits option.splits prod.splits)
qed

lemma write_store: "I s \<Longrightarrow> gm_store_write path data len app s = (r, t) \<Longrightarrow> I t"
proof -
  assume a: "I s" "gm_store_write path data len app s = (r, t)"
  let ?q = "write_head path len app @ (case data of None \<Rightarrow> [] | Some d \<Rightarrow> take (unat len) d)"
  obtain ok s1 where c: "gm_tcp_send ?q 300 (gm_tcp_drop s) = (ok, s1)" by fastforce
  show "I t" using send_ok [OF a(1) c, of 300 r t] a by (simp add: gm_store_write_def Let_def c split: if_splits)
qed

lemma delete_store: "I s \<Longrightarrow> gm_store_delete path s = (r, t) \<Longrightarrow> I t"
proof -
  assume a: "I s" "gm_store_delete path s = (r, t)"
  obtain ok s1 where c: "gm_tcp_send (gm_store_line (asc ''DEL'') path 0 False) 200 (gm_tcp_drop s) = (ok, s1)" by fastforce
  show "I t" using send_ok [OF a(1) c, of 200 r t] a c by (simp add: gm_store_delete_def split: if_splits)
qed

end

lemma read_net_ok: "net_ok s \<Longrightarrow> gm_tcp_read n s = (out, t) \<Longrightarrow> net_ok t"
proof -
  assume a: "net_ok s" "gm_tcp_read n s = (out, t)"
  have "ring_ok s" using a(1) by (simp add: net_ok_def tcp_ok_def)
  from read_refines [OF this a(2)] have "ring_ok t" by blast
  with a show "net_ok t" using tcp_read_moved [OF a(2)]
    by (cases s; cases t) (auto simp: ring_moved_def net_ok_def tcp_ok_def driver_ok_def virtio_ok_def)
qed

lemma drop_net_ok: "net_ok s \<Longrightarrow> net_ok (gm_tcp_drop s)"
  by (simp add: gm_tcp_drop_def net_ok_def tcp_ok_def ring_ok_def)

lemma drop_upper [simp]: "upper (gm_tcp_drop s) = upper s"
  by (simp add: gm_tcp_drop_def upper_def)

lemma read_upper: "gm_tcp_read n s = (out, t) \<Longrightarrow> upper t = upper s"
  using tcp_read_moved by (cases s; cases t) (fastforce simp: ring_moved_def upper_def)

interpretation stack: store_invariant net_ok
  by unfold_locales (auto intro: read_net_ok drop_net_ok tcp_close_result dest: tcp_send_result(2) tcp_connect_result(1))

interpretation above: store_invariant "\<lambda>t. upper t = v" for v
proof
  show "upper t = v" if "upper s = v" "gm_tcp_segment seq ack flags data s = (ok, t)"
    for s t :: "'a gm_tcp_scheme" and seq ack flags data ok
    using upper_view [OF segment_view [OF that(2)]] that(1) by simp
  show "upper (tcp_closed s) = v" "upper (tcp_give_up s) = v" if "upper s = v" for s :: "'a gm_tcp_scheme"
    using upper_view [OF poll_view_state(1)] upper_view [OF poll_view_state(2)] that by metis+
  show "upper (gm_tcp_close s) = v" if "upper s = v" for s :: "'a gm_tcp_scheme"
    using upper_view [OF tcp_close_result(1)] that by metis
qed (auto simp: read_upper upper_view [OF pump_view] upper_view [OF poll_view_ticks] tcp_connect_result(2)
      upper_view [OF tcp_send_result(1)] upper_view [OF poll_view_still [OF arp_request_frame(1)]])



subsection \<open>Requests are single lines that fit their buffers\<close>

definition one_line :: "bytes \<Rightarrow> bool" where
  "one_line req \<longleftrightarrow> length req \<le> 256 \<and> req \<noteq> [] \<and> last req = 10 \<and> 10 \<notin> set (butlast req) \<and> 0 \<notin> set req"

lemma store_line_words:
  assumes "cstr_ok p"
  shows "cstr_ok op \<Longrightarrow> gm_store_line op (Some p) a False = op @ 32 # p @ [10]"
    and "cstr_ok op \<Longrightarrow> gm_store_line op (Some p) a True = op @ 32 # p @ 32 # dec_bytes (unat a) @ [10]"
    and "read_request (Some p) a len = asc ''READ'' @ 32 # p @ 32 # dec_bytes (unat a) @ 32 # dec_bytes (unat len) @ [10]"
    and "write_head (Some p) len app =
      (if app then asc ''APPEND'' else asc ''WRITE'') @ 32 # p @ 32 # dec_bytes (unat len) @ [10]"
  using assms by (simp_all add: gm_store_line_def read_request_def write_head_def butlast_append)

lemma dec_bytes_u16: "length (dec_bytes (unat (w :: u16))) \<le> 5"
  using length_dec_bytes [of "unat w" 4] unat_bounds(2) [of w] by simp

lemma dec_bytes_no_newline: "10 \<notin> set (dec_bytes n)"
  using dec_bytes_digits [of 10 n] by (auto simp: is_digit_def)

lemma store_request_lines:
  assumes "cstr_ok p" "gm_store_path (Some p)"
  shows "one_line (gm_store_line (asc ''STAT'') (Some p) 0 False)" "one_line (gm_store_line (asc ''DEL'') (Some p) 0 False)"
    "one_line (read_request (Some p) offset len)" "one_line (write_head (Some p) len app)"
proof -
  have p: "length p < 192" "10 \<notin> set p" "0 \<notin> set p"
    using assms store_path_iff [OF assms(1)] by (auto simp: store_path_ok_def cstr_ok_def)
  have d: "0 \<notin> set (dec_bytes n)" for n using dec_bytes_cstr_ok [of n] by (simp add: cstr_ok_def)
  note facts = one_line_def store_line_words [OF assms(1)] butlast_append p(2,3) d dec_bytes_no_newline
  show "one_line (gm_store_line (asc ''STAT'') (Some p) 0 False)" "one_line (gm_store_line (asc ''DEL'') (Some p) 0 False)"
    using p(1) by (simp_all add: facts)
  show "one_line (read_request (Some p) offset len)"
    using p(1) length_dec_bytes_u64 [of offset] dec_bytes_u16 [of len] by (simp add: facts)
  show "one_line (write_head (Some p) len app)"
    using p(1) dec_bytes_u16 [of len] by (cases app) (simp_all add: facts)
qed


subsection \<open>Reply lines are cut out of the byte stream\<close>

text \<open>A line without its terminator: one trailing return is dropped.\<close>

definition chomp :: "bytes \<Rightarrow> bytes" where
  "chomp l = (if l \<noteq> [] \<and> last l = 13 then butlast l else l)"

lemma line_drain_stream:
  assumes "ring_ok s" "line_drain cap line s = (r, t)"
  shows "ring_ok t \<and>
    (let l = takeWhile (\<lambda>c. c \<noteq> 10) (tcp_stream s) in
     if l \<noteq> [] \<and> length line + length l \<ge> cap then r = Line_Full
     else if l = tcp_stream s then r = Line_More (line @ l) \<and> tcp_stream t = []
     else r = Line_Done (chomp (line @ l)) \<and> tcp_stream s = l @ 10 # tcp_stream t)"
  using assms
proof (induction cap line s rule: line_drain.induct)
  case (1 cap line s)
  obtain cs s1 where rd: "gm_tcp_read 1 s = (cs, s1)" by fastforce
  have R: "ring_ok s1" "cs = take 1 (tcp_stream s)" "tcp_stream s1 = drop 1 (tcp_stream s)"
    using read_refines [OF 1(2) rd] by blast+
  have avail: "gm_tcp_available s = length (tcp_stream s)"
    using length_tcp_stream [OF 1(2)] by (simp add: gm_tcp_available_def)
  show ?case
  proof (cases "tcp_stream s")
    case Nil
    then show ?thesis using 1(2,3) avail by (subst (asm) line_drain.simps) (auto simp: Let_def)
  next
    case (Cons c rest)
    then have cs: "cs = [c]" "tcp_stream s1 = rest" using R by simp_all
    note eq = 1(3) [unfolded line_drain.simps [of cap line s] rd cs(1), simplified, unfolded avail Cons, simplified]
    show ?thesis
    proof (cases "c = 10 \<or> \<not> length line + 1 < cap")
      case True
      then show ?thesis using eq R(1) cs Cons by (auto simp: chomp_def split: if_splits)
    next
      case False
      have step: "line_drain cap (line @ [c]) s1 = (r, t)" using eq False by (simp split: if_splits)
      have a: "gm_tcp_available s \<noteq> 0" using avail Cons by simp
      note IH = 1(1) [OF a rd [symmetric] cs(1) _ _ R(1) step]
      show ?thesis
      proof (cases "takeWhile (\<lambda>c. c \<noteq> 10) rest = []")
        case True
        then show ?thesis using IH False cs Cons by (auto simp: Let_def split: if_splits)
      next
        case nonempty: False
        then show ?thesis using IH False cs Cons by (auto simp: Let_def split: if_splits)
      qed
    qed
  qed
qed

lemma line_drain_bound: "line_drain cap line s = (r, t) \<Longrightarrow> length line < cap \<Longrightarrow>
    (\<forall>l. r = Line_Done l \<or> r = Line_More l \<longrightarrow> length l < cap)"
proof (induction cap line s rule: line_drain.induct)
  case (1 cap line s)
  obtain cs s1 where rd: "gm_tcp_read 1 s = (cs, s1)" by fastforce
  show ?case using 1(2,3) 1(1) [OF _ rd [symmetric]]
    by (subst (asm) line_drain.simps) (auto simp: rd [unfolded One_nat_def] split: if_splits list.splits)
qed

lemma wait_line_bound: "wait_line_loop start timeout cap line s = (Some l, t) \<Longrightarrow> length line < cap \<Longrightarrow> length l < cap"
proof (induction start timeout cap line s rule: wait_line_loop.induct)
  case (1 start timeout cap line s)
  obtain now s1 where t: "gm_ticks s = (now, s1)" by fastforce
  obtain st s2 where d: "line_drain cap line (gm_pump s1) = (st, s2)" by fastforce
  show ?case using 1(2,3) 1(1) [OF t [symmetric] _ d [symmetric]] line_drain_bound [OF d]
    by (subst (asm) wait_line_loop.simps) (auto simp: t d split: if_splits line_step.splits)
qed

lemma store_line_bound: "gm_store_wait_line cap timeout s = (Some l, t) \<Longrightarrow> 0 < cap \<Longrightarrow> length l < cap"
  using wait_line_bound [of _ timeout cap "[]" _ l t] by (auto simp: gm_store_wait_line_def split: prod.splits)


subsection \<open>The properties\<close>

text \<open>C32: Every request of the store client is exactly one line that fits the 256-byte request buffer: a path that
  \<^verbatim>\<open>gm_store_path\<close> accepts cannot end the line early or add a word, so the command, its path and its numbers reach
  the server as they were given.\<close>

theorem store_requests_well_formed:
  assumes "cstr_ok p" "gm_store_path (Some p)"
  shows "one_line (gm_store_line (asc ''STAT'') (Some p) 0 False) \<and> one_line (gm_store_line (asc ''DEL'') (Some p) 0 False) \<and>
    one_line (read_request (Some p) offset len) \<and> one_line (write_head (Some p) len app) \<and>
    read_request (Some p) offset len =
      asc ''READ '' @ p @ 32 # gm_store_dec offset @ 32 # gm_store_dec (ucast len) @ [10] \<and> 32 \<notin> set p"
  using store_request_lines [OF assms] store_line_words(3) [OF assms(1)] store_path_iff [OF assms(1)] assms(2)
  by (auto simp: store_path_ok_def)

text \<open>One pass over the received bytes cuts the reply stream into lines exactly: with a newline in the stream the
  line is everything before it (one trailing return removed) and the bytes after it stay buffered; without one all
  bytes are kept for the next pass; and a line of 256 bytes or more is refused before the buffer overflows.\<close>

theorem store_line_framing:
  assumes "ring_ok s" "line_drain cap line s = (r, t)"
  shows "ring_ok t \<and>
    (let l = takeWhile (\<lambda>c. c \<noteq> 10) (tcp_stream s) in
     if l \<noteq> [] \<and> length line + length l \<ge> cap then r = Line_Full
     else if l = tcp_stream s then r = Line_More (line @ l) \<and> tcp_stream t = []
     else r = Line_Done (chomp (line @ l)) \<and> tcp_stream s = l @ 10 # tcp_stream t)"
  using line_drain_stream [OF assms] .

lemma tcp_read_bound: "gm_tcp_read n s = (out, t) \<Longrightarrow> length out \<le> n"
  by (auto simp: gm_tcp_read_def ring_get_def Let_def min_def split: if_splits)

lemma read_wait_bound: "length data \<le> count \<Longrightarrow> read_wait start count data s = (out, t) \<Longrightarrow> length out \<le> count"
proof (induction start count data s rule: read_wait.induct)
  case (1 start count data s)
  obtain now s1 where t: "gm_ticks s = (now, s1)" by fastforce
  obtain o2 s2 where d: "gm_tcp_read (count - length data) (gm_pump s1) = (o2, s2)" by fastforce
  show ?case using tcp_read_bound [OF d] 1(2,3) 1(1) [OF _ t [symmetric] _ d [symmetric]]
    by (subst (asm) read_wait.simps) (auto simp: t d split: if_splits)
qed

lemma store_read_bound: "gm_store_read path offset data len got s = (r, out, t) \<Longrightarrow> length out \<le> unat len"
  by (auto simp: gm_store_read_def word_le_nat_alt not_less split: if_splits prod.splits option.splits
      dest!: read_wait_bound [rotated] elim: order_trans)

text \<open>C33: A store read keeps every invariant of the stack and touches nothing above it; it never puts more bytes
  into the caller's buffer than it takes, whatever the server answers, and it refuses a bad path or a block over
  1024 bytes without sending anything.\<close>

theorem store_read_sound:
  assumes "net_ok s" "gm_store_read path offset data len got s = (r, out, t)"
  shows "net_ok t \<and> upper t = upper s \<and> length out \<le> unat len \<and>
    (\<not> gm_store_path path \<or> len > 1024 \<longrightarrow> \<not> r \<and> out = [] \<and> t = s)"
  using stack.read_store [OF assms] above.read_store [OF refl assms(2)] store_read_bound [OF assms(2)] assms(2)
  by (auto simp: gm_store_read_def split: if_splits)


subsection \<open>Witnesses\<close>

theorem store_requests_well_formed_witness:
  "read_request (Some (asc ''/a'')) 7 64 = asc ''READ /a 7 64'' @ [10] \<and> one_line (write_head (Some (asc ''/a'')) 64 True)"
  using store_requests_well_formed [of "asc ''/a''" 7 64 True]
  by (simp add: gm_store_path_def dec_bytes.simps)

theorem store_line_framing_witness:
  "\<exists>r t. line_drain 256 [79] ring_example = (r, t) \<and> r = Line_More [79, 0] \<and> tcp_stream t = []"
proof -
  obtain r t where e: "line_drain 256 [79] ring_example = (r, t)" by fastforce
  have ok: "ring_ok ring_example" by (simp add: ring_ok_def)
  have st: "tcp_stream ring_example = [0]" by (simp add: tcp_stream_def rotate_drop_take)
  from store_line_framing [OF ok e] show ?thesis using e by (simp add: st)
qed

theorem store_read_sound_witness:
  "\<exists>r out t. gm_store_read (Some (asc ''/a'')) 0 True 64 True tcp_example = (r, out, t) \<and> net_ok t \<and> length out \<le> 64"
proof -
  obtain r out t where e: "gm_store_read (Some (asc ''/a'')) 0 True 64 True tcp_example = (r, out, t)" by (rule prod_cases3)
  from store_read_sound [OF net_ok_example e] e show ?thesis by auto
qed

end
