(* ===== verification/Core_Memory.thy ===== *)
theory Core_Memory
  imports Gm_Machine
begin

unbundle bit_operations_syntax

section \<open>Physical memory and address spaces (\<^verbatim>\<open>core.c\<close>)\<close>

text \<open>
  The page allocator and the page tables. Physical memory is a function from the physical address
  of an 8-byte word to its contents; a table entry is such a word. The kernel reaches physical
  memory through the direct map at \<^verbatim>\<open>gm_hhdm\<close>, so a pointer is a physical address plus that offset.
  The TLB is not part of the model: \<^verbatim>\<open>invlpg\<close> has no effect on what the tables say.
\<close>

record memmap_entry =
  mm_base :: u64
  mm_length :: u64
  mm_type :: u64

record gm_memory =
  gm_hhdm :: u64
  gm_page_next :: u64
  gm_page_end :: u64
  cpu_cr3 :: u64
  phys_mem :: "u64 \<Rightarrow> u64"

subsection \<open>The allocator\<close>

definition gm_align_up :: "u64 \<Rightarrow> u64 \<Rightarrow> u64" where
  "gm_align_up v a = (v + a - 1) AND NOT (a - 1)"

text \<open>The choice among the usable regions: one step of the loop, and the loop.\<close>

definition memory_step :: "memmap_entry \<Rightarrow> u64 \<times> u64 \<Rightarrow> u64 \<times> u64" where
  "memory_step e best =
     (if mm_type e \<noteq> 0 then best
      else
        let end = mm_base e + mm_length e in
        if end \<le> 0x1000000 then best
        else
          let base = gm_align_up (if mm_base e < 0x1000000 then 0x1000000 else mm_base e) 4096 in
          if end \<le> base then best
          else if fst best = 0 \<or> end - base > snd best - fst best then (base, end AND NOT 4095)
          else best)"

fun memory_scan :: "memmap_entry list \<Rightarrow> u64 \<times> u64 \<Rightarrow> u64 \<times> u64" where
  "memory_scan [] best = best"
| "memory_scan (e # es) best = memory_scan es (memory_step e best)"

definition gm_memory_init :: "memmap_entry list \<Rightarrow> u64 \<Rightarrow> gm_memory \<Rightarrow> 'a gm_machine_scheme \<Rightarrow>
    (gm_memory \<times> 'a gm_machine_scheme) outcome" where
  "gm_memory_init entries hhdm m s =
     (let best = memory_scan entries (0, 0) in
      if fst best = 0 \<or> snd best \<le> fst best then Panic ''no usable memory''
      else
        let s = gm_say ''memory '' s; s = gm_print_u64 ((snd best - fst best) div 1024 div 1024) s;
            s = gm_write (Some (asc '' MiB'' @ [10])) s in
        Ok (m\<lparr>gm_hhdm := hhdm, gm_page_next := fst best, gm_page_end := snd best\<rparr>, s))"

definition gm_phys :: "u64 \<Rightarrow> gm_memory \<Rightarrow> u64" where
  "gm_phys phys m = phys + gm_hhdm m"

text \<open>Reading and writing a word, and clearing a page, through the direct map.\<close>

definition mem_get :: "u64 \<Rightarrow> gm_memory \<Rightarrow> u64" where
  "mem_get ptr m = phys_mem m (ptr - gm_hhdm m)"

definition mem_put :: "u64 \<Rightarrow> u64 \<Rightarrow> gm_memory \<Rightarrow> gm_memory" where
  "mem_put ptr v m = m\<lparr>phys_mem := (phys_mem m)(ptr - gm_hhdm m := v)\<rparr>"

definition mem_clear :: "u64 \<Rightarrow> gm_memory \<Rightarrow> gm_memory" where
  "mem_clear ptr m = m\<lparr>phys_mem := (\<lambda>a. if a - (ptr - gm_hhdm m) < 4096 then 0 else phys_mem m a)\<rparr>"

definition gm_page_alloc :: "gm_memory \<Rightarrow> (u64 \<times> gm_memory) outcome" where
  "gm_page_alloc m =
     (if gm_page_next m + 4096 > gm_page_end m then Panic ''out of pages''
      else
        let phys = gm_page_next m; m1 = m\<lparr>gm_page_next := gm_page_next m + 4096\<rparr> in
        Ok (phys, mem_clear (gm_phys phys m1) m1))"

definition gm_memory_free :: "gm_memory \<Rightarrow> u64" where
  "gm_memory_free m = gm_page_end m - gm_page_next m"


subsection \<open>Page tables\<close>

abbreviation addr_mask :: u64 where
  "addr_mask \<equiv> 0x000ffffffffff000"

definition gm_table :: "u64 \<Rightarrow> gm_memory \<Rightarrow> u64" where
  "gm_table entry m = gm_phys (entry AND addr_mask) m"

definition gm_next_table :: "u64 \<Rightarrow> u64 \<Rightarrow> u64 \<Rightarrow> gm_memory \<Rightarrow> (u64 \<times> gm_memory) outcome" where
  "gm_next_table table index flags m =
     (let p = table + 8 * index in
      and_then
        (if mem_get p m AND 1 = 0 then
           and_then (gm_page_alloc m) (\<lambda>(phys, m1). Ok (mem_put p (phys OR 1 OR 2 OR flags) m1))
         else Ok (mem_put p (mem_get p m OR flags) m))
        (\<lambda>m2. Ok (gm_table (mem_get p m2) m2, m2)))"

definition gm_map_page_flags :: "u64 \<Rightarrow> u64 \<Rightarrow> u64 \<Rightarrow> u64 \<Rightarrow> gm_memory \<Rightarrow> (bool \<times> gm_memory) outcome" where
  "gm_map_page_flags cr3 virt phys flags m =
     (if virt AND 0xfff \<noteq> 0 \<or> phys AND 0xfff \<noteq> 0 then Ok (False, m)
      else
        let parent_flags = flags AND 4 in
        and_then (gm_next_table (gm_table cr3 m) (drop_bit 39 virt AND 0x1ff) parent_flags m) (\<lambda>(pdpt, m1).
        and_then (gm_next_table pdpt (drop_bit 30 virt AND 0x1ff) parent_flags m1) (\<lambda>(pd, m2).
        and_then (gm_next_table pd (drop_bit 21 virt AND 0x1ff) parent_flags m2) (\<lambda>(pt, m3).
          let p = pt + 8 * (drop_bit 12 virt AND 0x1ff) in
          if mem_get p m3 AND 1 \<noteq> 0 then Ok (False, m3)
          else Ok (True, mem_put p (phys AND addr_mask OR flags OR 1) m3)))))"

definition gm_address_space_current :: "gm_memory \<Rightarrow> u64" where
  "gm_address_space_current m = cpu_cr3 m"

fun copy_kernel_half :: "u64 \<Rightarrow> u64 \<Rightarrow> nat \<Rightarrow> nat \<Rightarrow> gm_memory \<Rightarrow> gm_memory" where
  "copy_kernel_half source target i 0 m = m"
| "copy_kernel_half source target i (Suc n) m =
     copy_kernel_half source target (i + 1) n
       (mem_put (target + 8 * of_nat i) (mem_get (source + 8 * of_nat i) m AND NOT 4) m)"

definition gm_address_space_create :: "gm_memory \<Rightarrow> (u64 \<times> gm_memory) outcome" where
  "gm_address_space_create m =
     (let source_cr3 = cpu_cr3 m in
      and_then (gm_page_alloc m) (\<lambda>(phys, m1).
        Ok (phys, copy_kernel_half (gm_table source_cr3 m1) (gm_phys phys m1) 256 256 m1)))"

definition gm_address_space_switch :: "u64 \<Rightarrow> gm_memory \<Rightarrow> gm_memory" where
  "gm_address_space_switch cr3 m = m\<lparr>cpu_cr3 := cr3\<rparr>"

definition gm_map_page :: "u64 \<Rightarrow> u64 \<Rightarrow> u64 \<Rightarrow> gm_memory \<Rightarrow> (bool \<times> gm_memory) outcome" where
  "gm_map_page virt phys flags m = gm_map_page_flags (cpu_cr3 m) virt phys flags m"

definition gm_map_user_page_in :: "u64 \<Rightarrow> u64 \<Rightarrow> u64 \<Rightarrow> u64 \<Rightarrow> gm_memory \<Rightarrow> (bool \<times> gm_memory) outcome" where
  "gm_map_user_page_in cr3 virt phys flags m = gm_map_page_flags cr3 virt phys (flags OR 4) m"

end
