(* ===== verification/Programs_State.thy ===== *)
theory Programs_State
  imports Store_Client Core_Memory
begin

unbundle bit_operations_syntax

section \<open>Application slots and shared resources (\<^verbatim>\<open>programs.c\<close>, first part)\<close>

text \<open>
  The state of \<^verbatim>\<open>programs.c\<close> and its resource manager. Slot numbers, resource ids and queue indices,
  which stay below 8, are natural numbers; tick counts are 64-bit words. \<^verbatim>\<open>gm_program_current\<close>, a pointer
  into \<^verbatim>\<open>gm_apps\<close>, is the index of the slot.

  The memory that a program sees is \<open>user_mem\<close>: for every address space, named by its \<^verbatim>\<open>cr3\<close>, the byte
  at each user address. That two address spaces share no user page, so that one byte map per space is an
  adequate view of the page tables, is proved over the tables themselves in \<open>Core_Paging\<close>.
\<close>

record service_frame =
  f_rax :: u64
  f_rbx :: u64
  f_rcx :: u64
  f_rdx :: u64
  f_rsi :: u64
  f_rdi :: u64
  f_rbp :: u64
  f_r8 :: u64
  f_r9 :: u64
  f_r10 :: u64
  f_r11 :: u64
  f_r12 :: u64
  f_r13 :: u64
  f_r14 :: u64
  f_r15 :: u64
  f_rip :: u64
  f_cs :: u64
  f_rflags :: u64
  f_rsp :: u64
  f_ss :: u64

definition frame_zero :: service_frame where
  "frame_zero = \<lparr>f_rax = 0, f_rbx = 0, f_rcx = 0, f_rdx = 0, f_rsi = 0, f_rdi = 0, f_rbp = 0, f_r8 = 0, f_r9 = 0,
     f_r10 = 0, f_r11 = 0, f_r12 = 0, f_r13 = 0, f_r14 = 0, f_r15 = 0, f_rip = 0, f_cs = 0, f_rflags = 0, f_rsp = 0, f_ss = 0\<rparr>"

datatype app_state = APP_FREE | APP_READY | APP_RUNNING | APP_BLOCKED

record gm_app_slot =
  resume_rsp :: u64
  app_result :: u32
  app_state :: app_state
  runtime_ticks :: u64
  app_cr3 :: u64
  app_image :: u64
  app_arg :: u64
  app_stack :: u64
  app_context :: service_frame
  owned_resource :: nat
  waiting_resource :: nat
  periodic_id :: nat

record gm_resource =
  res_owner :: nat
  res_wait :: "nat list"
  wait_head :: nat
  wait_len :: nat
  acquired_tick :: u64
  total_ticks :: u64
  acquisitions :: u64
  max_hold :: u64
  res_recent :: "u32 list"

record gm_periodic =
  interval_ticks :: u64
  next_tick :: u64
  remaining :: u32
  periodic_slot :: nat
  periodic_active :: bool
  periodic_name :: cstr
  periodic_args :: cstr

record gm_programs = gm_tcp +
  gm_apps :: "gm_app_slot list"
  gm_resources :: "gm_resource list"
  gm_periodics :: "gm_periodic list"
  gm_resource_epochs :: "u64 list"
  gm_program_kernel_cr3 :: u64
  gm_program_next :: nat
  gm_program_current :: nat
  gm_mem :: gm_memory
  user_mem :: "u64 \<Rightarrow> u64 \<Rightarrow> u8"

definition app_upd :: "nat \<Rightarrow> (gm_app_slot \<Rightarrow> gm_app_slot) \<Rightarrow> 'a gm_programs_scheme \<Rightarrow> 'a gm_programs_scheme" where
  "app_upd slot f s = s\<lparr>gm_apps := (gm_apps s)[slot := f (gm_apps s ! slot)]\<rparr>"

definition res_upd :: "nat \<Rightarrow> (gm_resource \<Rightarrow> gm_resource) \<Rightarrow> 'a gm_programs_scheme \<Rightarrow> 'a gm_programs_scheme" where
  "res_upd k f s = s\<lparr>gm_resources := (gm_resources s)[k := f (gm_resources s ! k)]\<rparr>"

definition gm_program_activate :: "nat \<Rightarrow> 'a gm_programs_scheme \<Rightarrow> 'a gm_programs_scheme" where
  "gm_program_activate slot s =
     s\<lparr>gm_program_current := slot, gm_mem := gm_address_space_switch (app_cr3 (gm_apps s ! slot)) (gm_mem s)\<rparr>"

definition gm_program_kernel :: "'a gm_programs_scheme \<Rightarrow> 'a gm_programs_scheme" where
  "gm_program_kernel s = s\<lparr>gm_mem := gm_address_space_switch (gm_program_kernel_cr3 s) (gm_mem s)\<rparr>"


subsection \<open>The resource manager\<close>

text \<open>The index into \<^verbatim>\<open>gm_resources\<close> of a resource id.\<close>

definition gm_resource_get :: "nat \<Rightarrow> nat option" where
  "gm_resource_get resource = (if resource = 0 \<or> resource > 2 then None else Some (resource - 1))"

definition gm_resource_owned :: "nat \<Rightarrow> nat \<Rightarrow> 'a gm_programs_scheme \<Rightarrow> bool outcome" where
  "gm_resource_owned slot resource_id s = (case gm_resource_get resource_id of
     None \<Rightarrow> Ok False
   | Some k \<Rightarrow>
       if owned_resource (gm_apps s ! slot) \<noteq> resource_id then Ok False
       else if res_owner (gm_resources s ! k) \<noteq> slot + 1 then Panic ''resource owner'' else Ok True)"

definition gm_resource_bucket :: "u64 \<Rightarrow> 'a gm_programs_scheme \<Rightarrow> 'a gm_programs_scheme" where
  "gm_resource_bucket epoch s =
     (let bucket = unat (epoch mod 60) in
      if gm_resource_epochs s ! bucket = epoch + 1 then s
      else s\<lparr>gm_resource_epochs := (gm_resource_epochs s)[bucket := epoch + 1],
             gm_resources := map (\<lambda>r. r\<lparr>res_recent := (res_recent r)[bucket := 0]\<rparr>) (gm_resources s)\<rparr>)"

text \<open>
  The loop over the buckets that a hold touched. The window is 60 buckets wide, so that it ends within
  61 rounds (\<open>account_loop_ends\<close>); the first argument bounds the rounds. This needs a clock more than a second below \<open>2 ^ 64\<close>
  ticks, which it reaches after 584 million years: there \<^verbatim>\<open>(epoch+1)*1000\<close> wraps, the loop of the code starts over from a small
  value, and the model stops after its 61 rounds instead of following it.
\<close>

fun account_loop :: "nat \<Rightarrow> nat \<Rightarrow> u64 \<Rightarrow> u64 \<Rightarrow> 'a gm_programs_scheme \<Rightarrow> u64 \<times> 'a gm_programs_scheme" where
  "account_loop 0 k start now s = (start, s)"
| "account_loop (Suc n) k start now s =
     (if start < now then
        let epoch = start div 1000;
            s1 = gm_resource_bucket epoch s;
            bucket = unat (epoch mod 60);
            end = (if (epoch + 1) * 1000 > now then now else (epoch + 1) * 1000);
            s2 = res_upd k (\<lambda>r. r\<lparr>res_recent := (res_recent r)[bucket := res_recent r ! bucket + ucast (end - start)]\<rparr>) s1 in
        account_loop n k end now s2
      else (start, s))"

definition gm_resource_account :: "nat \<Rightarrow> u64 \<Rightarrow> 'a gm_programs_scheme \<Rightarrow> 'a gm_programs_scheme" where
  "gm_resource_account k now s =
     (let start = acquired_tick (gm_resources s ! k) in
      if now < start then s
      else
        let hold = now - start;
            s1 = res_upd k (\<lambda>r. r\<lparr>total_ticks := total_ticks r + hold,
                                  max_hold := (if hold > max_hold r then hold else max_hold r)\<rparr>) s;
            from = (if hold > 60000 then now - 60000 else start) in
        snd (account_loop 61 k from now s1))"

definition gm_resource_wait :: "nat \<Rightarrow> gm_resource \<Rightarrow> gm_resource option" where
  "gm_resource_wait slot r =
     (if wait_len r \<ge> 4 then None
      else
        let tail = (wait_head r + wait_len r) mod 4 in
        Some (r\<lparr>res_wait := (res_wait r)[tail := slot], wait_len := wait_len r + 1\<rparr>))"

definition gm_resource_grant_next :: "nat \<Rightarrow> nat \<Rightarrow> u64 \<Rightarrow> 'a gm_programs_scheme \<Rightarrow> 'a gm_programs_scheme outcome" where
  "gm_resource_grant_next k resource_id now s =
     (let r = gm_resources s ! k in
      if wait_len r = 0 then Ok s
      else
        let slot = res_wait r ! wait_head r;
            s1 = res_upd k (\<lambda>r. r\<lparr>wait_head := (wait_head r + 1) mod 4, wait_len := wait_len r - 1\<rparr>) s in
        if slot \<ge> 4 then Panic ''resource waiter''
        else if app_state (gm_apps s1 ! slot) \<noteq> APP_BLOCKED \<or> waiting_resource (gm_apps s1 ! slot) \<noteq> resource_id \<or>
            owned_resource (gm_apps s1 ! slot) \<noteq> 0 then Panic ''resource wait state''
        else
          let s2 = res_upd k (\<lambda>r. r\<lparr>res_owner := slot + 1, acquired_tick := now, acquisitions := acquisitions r + 1\<rparr>) s1 in
          Ok (app_upd slot (\<lambda>a. a\<lparr>waiting_resource := 0, owned_resource := resource_id,
                app_context := (app_context a)\<lparr>f_rax := 1\<rparr>, app_state := APP_READY\<rparr>) s2))"

definition gm_resource_release_app :: "nat \<Rightarrow> nat \<Rightarrow> 'a gm_programs_scheme \<Rightarrow> (bool \<times> 'a gm_programs_scheme) outcome" where
  "gm_resource_release_app slot resource_id s = (case gm_resource_get resource_id of
     None \<Rightarrow> Ok (False, s)
   | Some k \<Rightarrow>
       if owned_resource (gm_apps s ! slot) \<noteq> resource_id \<or> res_owner (gm_resources s ! k) \<noteq> slot + 1 then Ok (False, s)
       else case gm_ticks s of (now, s1) \<Rightarrow>
         let s2 = gm_resource_account k now s1;
             s3 = res_upd k (\<lambda>r. r\<lparr>res_owner := 0\<rparr>) s2;
             s4 = app_upd slot (\<lambda>a. a\<lparr>owned_resource := 0\<rparr>) s3 in
         and_then (gm_resource_grant_next k resource_id now s4) (\<lambda>s5. Ok (True, s5)))"

definition gm_resource_reclaim :: "nat \<Rightarrow> 'a gm_programs_scheme \<Rightarrow> 'a gm_programs_scheme outcome" where
  "gm_resource_reclaim slot s =
     (let resource = owned_resource (gm_apps s ! slot) in
      if resource = 0 then Ok s
      else and_then (gm_resource_release_app slot resource s) (\<lambda>(released, s1).
        if \<not> released then Panic ''resource reclaim'' else Ok s1))"

text \<open>The result says whether the caller has been blocked; the frame carries the answer in \<^verbatim>\<open>rax\<close> when it has not.\<close>

definition gm_resource_acquire_service :: "nat \<Rightarrow> nat \<Rightarrow> service_frame \<Rightarrow> 'a gm_programs_scheme \<Rightarrow>
    (bool \<times> service_frame \<times> 'a gm_programs_scheme) outcome" where
  "gm_resource_acquire_service slot resource_id frame s =
     (let app = gm_apps s ! slot in
      case gm_resource_get resource_id of
        None \<Rightarrow> Ok (False, frame\<lparr>f_rax := 0\<rparr>, s)
      | Some k \<Rightarrow>
          if owned_resource app \<noteq> 0 \<or> waiting_resource app \<noteq> 0 then Ok (False, frame\<lparr>f_rax := 0\<rparr>, s)
          else if res_owner (gm_resources s ! k) = 0 then
            case gm_ticks s of (now, s1) \<Rightarrow>
              let s2 = res_upd k (\<lambda>r. r\<lparr>res_owner := slot + 1, acquired_tick := now, acquisitions := acquisitions r + 1\<rparr>) s1 in
              Ok (False, frame\<lparr>f_rax := 1\<rparr>, app_upd slot (\<lambda>a. a\<lparr>owned_resource := resource_id\<rparr>) s2)
          else case gm_resource_wait slot (gm_resources s ! k) of
            None \<Rightarrow> Panic ''resource wait full''
          | Some r \<Rightarrow>
              let s1 = res_upd k (\<lambda>_. r) s;
                  s2 = app_upd slot (\<lambda>a. a\<lparr>app_context := frame, waiting_resource := resource_id, app_state := APP_BLOCKED\<rparr>) s1 in
              Ok (True, frame, gm_program_kernel s2))"


subsection \<open>Status lines\<close>

fun gm_app_state_name :: "app_state \<Rightarrow> string" where
  "gm_app_state_name APP_FREE = ''free''"
| "gm_app_state_name APP_READY = ''ready''"
| "gm_app_state_name APP_RUNNING = ''running''"
| "gm_app_state_name APP_BLOCKED = ''blocked''"

definition gm_resource_name :: "nat \<Rightarrow> string" where
  "gm_resource_name resource = (if resource = 1 then ''tcp'' else if resource = 2 then ''udp'' else ''-'')"

definition gm_resource_live :: "gm_resource \<Rightarrow> u64 \<Rightarrow> u64" where
  "gm_resource_live r now = (if res_owner r = 0 \<or> now < acquired_tick r then 0 else now - acquired_tick r)"

fun recent_loop :: "u64 list \<Rightarrow> u32 list \<Rightarrow> u64 \<Rightarrow> u64" where
  "recent_loop (e # es) (n # ns) current_epoch =
     (if e \<noteq> 0 \<and> e - 1 \<le> current_epoch \<and> current_epoch - (e - 1) < 60 then ucast n else 0) + recent_loop es ns current_epoch"
| "recent_loop _ _ current_epoch = 0"

definition gm_resource_recent :: "gm_resource \<Rightarrow> u64 \<Rightarrow> 'a gm_programs_scheme \<Rightarrow> u64" where
  "gm_resource_recent r now s =
     (let recent = recent_loop (gm_resource_epochs s) (res_recent r) (now div 1000) in
      if res_owner r \<noteq> 0 \<and> now \<ge> acquired_tick r then
        let start = (if now > 60000 \<and> acquired_tick r < now - 60000 then now - 60000 else acquired_tick r) in
        recent + (now - start)
      else recent)"

fun programs_status_loop :: "nat \<Rightarrow> gm_app_slot list \<Rightarrow> 'a gm_programs_scheme \<Rightarrow> 'a gm_programs_scheme" where
  "programs_status_loop i [] s = s"
| "programs_status_loop i (app # apps) s =
     (let s = gm_say ''app '' s; s = gm_print_u64 (of_nat i) s; s = gm_say '' '' s;
          s = gm_say (gm_app_state_name (app_state app)) s; s = gm_say '' ticks='' s; s = gm_print_u64 (runtime_ticks app) s;
          s = gm_say '' owns='' s; s = gm_say (gm_resource_name (owned_resource app)) s;
          s = gm_say '' waits='' s; s = gm_say (gm_resource_name (waiting_resource app)) s in
      programs_status_loop (i + 1) apps (gm_write (Some [10]) s))"

definition gm_programs_status :: "'a gm_programs_scheme \<Rightarrow> 'a gm_programs_scheme" where
  "gm_programs_status s = programs_status_loop 0 (gm_apps s) s"

definition gm_resource_status :: "nat \<Rightarrow> u64 \<Rightarrow> 'a gm_programs_scheme \<Rightarrow> 'a gm_programs_scheme" where
  "gm_resource_status resource_id now s = (case gm_resource_get resource_id of
     None \<Rightarrow> s
   | Some k \<Rightarrow>
       let r = gm_resources s ! k; live = gm_resource_live r now; ticks = total_ticks r + live;
           longest = (if live > max_hold r then live else max_hold r);
           s = gm_say (gm_resource_name resource_id) s; s = gm_say '' owner='' s;
           s = (if res_owner r \<noteq> 0 then gm_print_u64 (of_nat (res_owner r - 1)) (gm_say ''app'' s) else gm_say ''free'' s);
           s = gm_say '' held='' s; s = gm_print_u64 live s; s = gm_say '' waiters='' s; s = gm_print_u64 (of_nat (wait_len r)) s;
           s = gm_say '' acquisitions='' s; s = gm_print_u64 (acquisitions r) s;
           s = gm_say '' total='' s; s = gm_print_u64 ticks s; s = gm_say '' max='' s; s = gm_print_u64 longest s;
           s = gm_say '' recent10m='' s; s = gm_print_u64 (gm_resource_recent r now s) s in
       gm_write (Some (asc '' ticks'' @ [10])) s)"

definition gm_resources_status :: "'a gm_programs_scheme \<Rightarrow> 'a gm_programs_scheme" where
  "gm_resources_status s =
     (case gm_ticks s of (now, s1) \<Rightarrow> gm_resource_status 2 now (gm_resource_status 1 now s1))"

end
