(* ===== verification/Programs_Resource.thy ===== *)
theory Programs_Resource
  imports Programs_State
begin

section \<open>The resource manager is a FIFO lock manager\<close>

text \<open>
  The specification of the resource manager is a pair of lists: for every resource its owner (0 or slot + 1)
  and the queue of the slots that wait for it, and for every slot its state and the resources it owns and
  waits for. \<open>spec_acquire\<close> and \<open>spec_release\<close> say what the two services do to it. The ring buffers, the
  tick accounting and the panics of \<^verbatim>\<open>programs.c\<close> are refined to it: under the invariant no check of the code
  fails, and every operation commutes with the abstraction.
\<close>

subsection \<open>The specification\<close>

type_synonym lock_state = "(nat \<times> nat list) list \<times> (app_state \<times> nat \<times> nat) list"

fun spec_acquire :: "nat \<Rightarrow> nat \<Rightarrow> lock_state \<Rightarrow> lock_state" where
  "spec_acquire i k (L, W) =
     (case (L ! k, W ! i) of ((own, q), (st, h, w)) \<Rightarrow>
        if own = 0 then (L[k := (i + 1, q)], W[i := (st, k + 1, w)])
        else (L[k := (own, q @ [i])], W[i := (APP_BLOCKED, h, k + 1)]))"

fun spec_release :: "nat \<Rightarrow> nat \<Rightarrow> lock_state \<Rightarrow> lock_state" where
  "spec_release i k (L, W) =
     (case (L ! k, W ! i) of ((own, q), (st, h, w)) \<Rightarrow>
        case q of
          [] \<Rightarrow> (L[k := (0, [])], W[i := (st, 0, w)])
        | j # q' \<Rightarrow> (L[k := (j + 1, q')], W[i := (st, 0, w), j := (APP_READY, k + 1, 0)]))"

fun spec_state :: "nat \<Rightarrow> app_state \<Rightarrow> lock_state \<Rightarrow> lock_state" where
  "spec_state i st (L, W) = (case W ! i of (_, h, w) \<Rightarrow> (L, W[i := (st, h, w)]))"

text \<open>Owners and waiters agree with the slots; nobody waits for a free resource or while owning one.\<close>

definition lock_ok :: "lock_state \<Rightarrow> bool" where
  "lock_ok = (\<lambda>(L, W). length L = 2 \<and> length W = 4 \<and>
     (\<forall>k < 2. distinct (snd (L ! k)) \<and> set (snd (L ! k)) \<subseteq> {..<4} \<and> fst (L ! k) \<le> 4 \<and>
        (fst (L ! k) = 0 \<longrightarrow> snd (L ! k) = [])) \<and>
     (\<forall>k < 2. \<forall>i < 4. (fst (L ! k) = i + 1 \<longleftrightarrow> fst (snd (W ! i)) = k + 1) \<and>
        (i \<in> set (snd (L ! k)) \<longleftrightarrow> snd (snd (W ! i)) = k + 1)) \<and>
     (\<forall>i < 4. fst (snd (W ! i)) \<le> 2 \<and> snd (snd (W ! i)) \<le> 2 \<and>
        (snd (snd (W ! i)) \<noteq> 0 \<longleftrightarrow> fst (W ! i) = APP_BLOCKED) \<and>
        (snd (snd (W ! i)) \<noteq> 0 \<longrightarrow> fst (snd (W ! i)) = 0) \<and>
        (fst (W ! i) = APP_FREE \<longrightarrow> fst (snd (W ! i)) = 0)))"

lemma lock_okD:
  assumes "lock_ok (L, W)"
  shows "length L = 2" "length W = 4"
    and "k < 2 \<Longrightarrow> distinct (snd (L ! k))" "k < 2 \<Longrightarrow> set (snd (L ! k)) \<subseteq> {..<4}" "k < 2 \<Longrightarrow> fst (L ! k) \<le> 4"
      "k < 2 \<Longrightarrow> fst (L ! k) = 0 \<Longrightarrow> snd (L ! k) = []"
    and "k < 2 \<Longrightarrow> i < 4 \<Longrightarrow> fst (L ! k) = i + 1 \<longleftrightarrow> fst (snd (W ! i)) = k + 1"
      "k < 2 \<Longrightarrow> i < 4 \<Longrightarrow> i \<in> set (snd (L ! k)) \<longleftrightarrow> snd (snd (W ! i)) = k + 1"
    and "i < 4 \<Longrightarrow> fst (snd (W ! i)) \<le> 2" "i < 4 \<Longrightarrow> snd (snd (W ! i)) \<le> 2"
      "i < 4 \<Longrightarrow> snd (snd (W ! i)) \<noteq> 0 \<longleftrightarrow> fst (W ! i) = APP_BLOCKED"
      "i < 4 \<Longrightarrow> snd (snd (W ! i)) \<noteq> 0 \<Longrightarrow> fst (snd (W ! i)) = 0"
      "i < 4 \<Longrightarrow> fst (W ! i) = APP_FREE \<Longrightarrow> fst (snd (W ! i)) = 0"
  using assms unfolding lock_ok_def by auto

lemma all_less_2: "(\<forall>k < (2 :: nat). P k) \<longleftrightarrow> P 0 \<and> P 1"
  by (auto simp: numeral_2_eq_2 less_Suc_eq)

lemma all_less_4: "(\<forall>i < (4 :: nat). P i) \<longleftrightarrow> P 0 \<and> P 1 \<and> P 2 \<and> P 3"
  by (auto simp: eval_nat_numeral less_Suc_eq)

text \<open>An owner does not wait, so a queue never holds all four slots.\<close>

lemma queue_short:
  assumes "lock_ok (L, W)" "k < 2" "fst (L ! k) \<noteq> 0"
  shows "length (snd (L ! k)) < 4"
proof -
  obtain i where i: "fst (L ! k) = i + 1" "i < 4" using lock_okD(5) [OF assms(1,2)] assms(3) by (cases "fst (L ! k)") auto
  have own: "fst (snd (W ! i)) = k + 1" using lock_okD(7) [OF assms(1,2) i(2)] i(1) by simp
  have "snd (snd (W ! i)) = 0"
  proof (rule ccontr)
    assume "snd (snd (W ! i)) \<noteq> 0"
    from lock_okD(12) [OF assms(1) i(2) this] own show False by simp
  qed
  then have "i \<notin> set (snd (L ! k))" using lock_okD(8) [OF assms(1,2) i(2)] by simp
  then have "set (snd (L ! k)) \<subseteq> {..<4} - {i}" using lock_okD(4) [OF assms(1,2)] by auto
  then have "card (set (snd (L ! k))) \<le> card ({..<4} - {i})" by (intro card_mono) auto
  then show ?thesis using distinct_card [OF lock_okD(3) [OF assms(1,2)]] i(2) by simp
qed

lemma spec_acquire_ok:
  assumes "lock_ok (L, W)" "k < 2" "i < 4" "fst (snd (W ! i)) = 0" "fst (W ! i) = APP_RUNNING"
  shows "lock_ok (spec_acquire i k (L, W))"
proof -
  note D = lock_okD [OF assms(1)]
  obtain own q where L: "L ! k = (own, q)" by fastforce
  have w: "snd (snd (W ! i)) = 0" using D(11) [OF assms(3)] assms(5) by simp
  have W: "W ! i = (APP_RUNNING, 0, 0)" using w assms(4,5) by (simp add: prod_eq_iff)
  have no_own: "fst (L ! k') \<noteq> Suc i" if "k' < 2" for k' using D(7) [OF that assms(3)] assms(4) by simp
  have no_wait: "i \<notin> set (snd (L ! k'))" if "k' < 2" for k' using D(8) [OF that assms(3)] w by simp
  show ?thesis
  proof (cases "own = 0")
    case True
    have q: "q = []" using D(6) [OF assms(2)] True L by simp
    have free: "fst (snd (W ! j)) \<noteq> Suc k \<and> snd (snd (W ! j)) \<noteq> Suc k" if "j < 4" for j
      using D(7) [OF assms(2) that] D(8) [OF assms(2) that] L True q by simp
    show ?thesis unfolding lock_ok_def
      using D assms(2,3) L W True q no_own no_wait free
      by (auto simp: nth_list_update)
  next
    case False
    note Dk = lock_okD(3-8) [OF assms(1,2), unfolded L fst_conv snd_conv]
    show ?thesis unfolding lock_ok_def
      using D Dk False assms(2,3) L W no_own no_wait no_own [OF assms(2)] no_wait [OF assms(2)]
      by (auto simp: nth_list_update)
  qed
qed

lemma spec_release_ok:
  assumes "lock_ok (L, W)" "k < 2" "i < 4" "fst (snd (W ! i)) = k + 1"
  shows "lock_ok (spec_release i k (L, W))"
proof -
  note D = lock_okD [OF assms(1)]
  obtain own q where L: "L ! k = (own, q)" by fastforce
  have own: "own = i + 1" using D(7) [OF assms(2,3)] assms(4) L by simp
  have w: "snd (snd (W ! i)) = 0" using D(12) [OF assms(3)] assms(4) by (cases "snd (snd (W ! i)) = 0") auto
  obtain st where W: "W ! i = (st, k + 1, 0)" using w assms(4) by (metis prod.collapse)
  have st: "st \<noteq> APP_BLOCKED" "st \<noteq> APP_FREE" using D(11,13) [OF assms(3)] W by auto
  have no_wait: "i \<notin> set (snd (L ! k'))" if "k' < 2" for k' using D(8) [OF that assms(3)] w by simp
  have no_own: "fst (L ! k') \<noteq> Suc i" if "k' < 2" "k' \<noteq> k" for k' using D(7) [OF that(1) assms(3)] assms(4) that(2) by simp
  have only: "fst (snd (W ! j)) \<noteq> Suc k" if "j < 4" "j \<noteq> i" for j using D(7) [OF assms(2) that(1)] L own that(2) by simp
  show ?thesis
  proof (cases q)
    case Nil
    have free: "snd (snd (W ! j)) \<noteq> Suc k" if "j < 4" for j using D(8) [OF assms(2) that] L Nil by simp
    show ?thesis unfolding lock_ok_def
      using D assms(2,3) L W Nil own st no_wait no_own only free
      by (auto simp: nth_list_update)
  next
    case (Cons j q')
    have j: "j < 4" using D(4) [OF assms(2)] L Cons by simp
    have wj: "snd (snd (W ! j)) = k + 1" using D(8) [OF assms(2) j] L Cons by simp
    have oj: "fst (snd (W ! j)) = 0" using D(12) [OF j] wj by simp
    have ij: "j \<noteq> i" "j \<notin> set q'" using no_wait [OF assms(2)] L Cons D(3) [OF assms(2)] by auto
    have other: "j \<notin> set (snd (L ! k')) \<and> fst (L ! k') \<noteq> Suc j" if "k' < 2" "k' \<noteq> k" for k'
      using D(8) [OF that(1) j] D(7) [OF that(1) j] wj oj that(2) by simp
    have rest: "l \<in> set q' \<longleftrightarrow> snd (snd (W ! l)) = Suc k" if "l < 4" "l \<noteq> j" for l
      using D(8) [OF assms(2) that(1)] L Cons that(2) by auto
    have excl: False if "l < 4" "fst (snd (W ! l)) = Suc x" "snd (snd (W ! l)) = Suc y" for l x y
      using lock_okD(12) [OF assms(1) that(1)] that(2,3) by simp
    have q': "distinct q'" "set q' \<subseteq> {..<4}" using D(3,4) [OF assms(2)] L Cons by auto
    note Dk = lock_okD(3-8) [OF assms(1,2), unfolded L fst_conv snd_conv]
    show ?thesis unfolding lock_ok_def
      using D Dk assms(2,3) L W Cons own st no_wait [OF assms(2)] oj wj no_wait no_own only j ij other rest q' excl
      by (auto simp: nth_list_update)
  qed
qed

lemma spec_state_ok:
  assumes "lock_ok (L, W)" "i < 4" "fst (W ! i) \<noteq> APP_BLOCKED" "st \<noteq> APP_BLOCKED" "st = APP_FREE \<longrightarrow> fst (snd (W ! i)) = 0"
  shows "lock_ok (spec_state i st (L, W))"
proof -
  note D = lock_okD [OF assms(1)]
  have w: "snd (snd (W ! i)) = 0" using D(11) [OF assms(2)] assms(3) by simp
  obtain st0 h where W: "W ! i = (st0, h, 0)" using w by (metis prod.collapse)
  note Di = D(9-13) [OF assms(2), unfolded W fst_conv snd_conv]
  have own: "fst (L ! k') = Suc i \<longleftrightarrow> h = Suc k'" "i \<notin> set (snd (L ! k'))" if "k' < 2" for k'
    using D(7,8) [OF that assms(2)] W by auto
  show ?thesis unfolding lock_ok_def
    using D Di assms W own by (auto simp: nth_list_update)
qed



subsection \<open>The code refines the specification\<close>

definition wait_queue :: "gm_resource \<Rightarrow> nat list" where
  "wait_queue r = map (\<lambda>i. res_wait r ! ((wait_head r + i) mod 4)) [0..<wait_len r]"

definition res_shape :: "gm_resource \<Rightarrow> bool" where
  "res_shape r \<longleftrightarrow> length (res_wait r) = 4 \<and> wait_head r < 4 \<and> wait_len r \<le> 4 \<and> length (res_recent r) = 60"

definition res_view :: "gm_resource \<Rightarrow> nat \<times> nat list" where
  "res_view r = (res_owner r, wait_queue r)"

definition app_view :: "gm_app_slot \<Rightarrow> app_state \<times> nat \<times> nat" where
  "app_view a = (app_state a, owned_resource a, waiting_resource a)"

definition lock_view :: "'a gm_programs_scheme \<Rightarrow> lock_state" where
  "lock_view s = (map res_view (gm_resources s), map app_view (gm_apps s))"

definition res_ok :: "'a gm_programs_scheme \<Rightarrow> bool" where
  "res_ok s \<longleftrightarrow> lock_ok (lock_view s) \<and> list_all res_shape (gm_resources s) \<and> length (gm_resource_epochs s) = 60"

lemma wait_queue_upd [simp]:
  "wait_queue (r\<lparr>res_owner := a\<rparr>) = wait_queue r" "wait_queue (r\<lparr>acquired_tick := b\<rparr>) = wait_queue r"
  "wait_queue (r\<lparr>acquisitions := c\<rparr>) = wait_queue r" "wait_queue (r\<lparr>total_ticks := b\<rparr>) = wait_queue r"
  "wait_queue (r\<lparr>max_hold := b\<rparr>) = wait_queue r" "wait_queue (r\<lparr>res_recent := d\<rparr>) = wait_queue r"
  by (simp_all add: wait_queue_def)

lemma res_shape_upd [simp]:
  "res_shape (r\<lparr>res_owner := a\<rparr>) = res_shape r" "res_shape (r\<lparr>acquired_tick := b\<rparr>) = res_shape r"
  "res_shape (r\<lparr>acquisitions := c\<rparr>) = res_shape r" "res_shape (r\<lparr>total_ticks := b\<rparr>) = res_shape r"
  "res_shape (r\<lparr>max_hold := b\<rparr>) = res_shape r"
  "length d = length (res_recent r) \<Longrightarrow> res_shape (r\<lparr>res_recent := d\<rparr>) = res_shape r"
  by (simp_all add: res_shape_def)

lemma ring_neq: "i < n \<Longrightarrow> n < m \<Longrightarrow> (a + i) mod m \<noteq> (a + n) mod m" for a :: nat
  using mod_eq_dvd_iff_nat [of "a + i" "a + n" m] by (auto dest: dvd_imp_le)

lemma wait_queue_push:
  assumes "res_shape r" "gm_resource_wait slot r = Some r'"
  shows "wait_queue r' = wait_queue r @ [slot]" "res_shape r'" "res_owner r' = res_owner r"
proof -
  have len: "wait_len r < 4" and r': "r' = r\<lparr>res_wait := (res_wait r)[(wait_head r + wait_len r) mod 4 := slot], wait_len := wait_len r + 1\<rparr>"
    using assms(2) by (auto simp: gm_resource_wait_def Let_def split: if_splits)
  have ne: "(wait_head r + i) mod 4 \<noteq> (wait_head r + wait_len r) mod 4" if "i < wait_len r" for i
    using ring_neq [OF that len] .
  have "wait_queue r' = map (\<lambda>i. res_wait r' ! ((wait_head r + i) mod 4)) [0..<wait_len r] @ [slot]"
    using assms(1) by (simp add: wait_queue_def r' res_shape_def)
  also have "map (\<lambda>i. res_wait r' ! ((wait_head r + i) mod 4)) [0..<wait_len r] = wait_queue r"
    by (auto simp: wait_queue_def r' ne [THEN not_sym])
  finally show "wait_queue r' = wait_queue r @ [slot]" .
  show "res_shape r'" "res_owner r' = res_owner r" using assms(1) len by (simp_all add: r' res_shape_def)
qed

lemma wait_queue_pop:
  assumes "wait_len r \<noteq> 0"
  shows "wait_queue r = res_wait r ! (wait_head r mod 4) # wait_queue (r\<lparr>wait_head := (wait_head r + 1) mod 4, wait_len := wait_len r - 1\<rparr>)"
proof -
  obtain n where n: "wait_len r = Suc n" using assms by (cases "wait_len r") auto
  have "(wait_head r + Suc i) mod 4 = ((wait_head r + 1) mod 4 + i) mod 4" for i
    by (metis Suc_eq_plus1_left add.assoc mod_add_left_eq)
  then show ?thesis unfolding wait_queue_def n by (simp add: upt_conv_Cons map_Suc_upt [symmetric] del: upt_Suc map_Suc_upt)
qed

lemma wait_queue_empty [simp]: "wait_queue r = [] \<longleftrightarrow> wait_len r = 0"
  by (simp add: wait_queue_def)

lemma lock_view_upd:
  "lock_view (res_upd k f s) = ((fst (lock_view s))[k := res_view (f (gm_resources s ! k))], snd (lock_view s))"
  "lock_view (app_upd i g s) = (fst (lock_view s), (snd (lock_view s))[i := app_view (g (gm_apps s ! i))])"
  by (simp_all add: lock_view_def res_upd_def app_upd_def map_update)

lemma lock_view_kernel [simp]: "lock_view (gm_program_kernel s) = lock_view s"
  by (simp add: lock_view_def gm_program_kernel_def)

lemma upd_sel [simp]:
  "gm_apps (res_upd k f s) = gm_apps s" "gm_resources (app_upd i g s) = gm_resources s"
  "gm_resource_epochs (res_upd k f s) = gm_resource_epochs s" "gm_resource_epochs (app_upd i g s) = gm_resource_epochs s"
  by (simp_all add: res_upd_def app_upd_def)

text \<open>Accounting touches the counters only.\<close>

definition lock_same :: "'a gm_programs_scheme \<Rightarrow> 'a gm_programs_scheme \<Rightarrow> bool" where
  "lock_same s t \<longleftrightarrow> lock_view t = lock_view s \<and>
     (list_all res_shape (gm_resources s) \<and> length (gm_resource_epochs s) = 60 \<longrightarrow>
      list_all res_shape (gm_resources t) \<and> length (gm_resource_epochs t) = 60) \<and>
     t = s\<lparr>gm_resources := gm_resources t, gm_resource_epochs := gm_resource_epochs t\<rparr>"

lemma lock_same_refl [simp]: "lock_same s s"
  by (simp add: lock_same_def)

lemma lock_same_trans: "lock_same s t \<Longrightarrow> lock_same t u \<Longrightarrow> lock_same s u"
  unfolding lock_same_def by (elim conjE, intro conjI impI) (simp, simp, simp, erule ssubst, erule ssubst, simp)

lemma lock_same_bucket: "lock_same s (gm_resource_bucket epoch s)"
  by (auto simp: lock_same_def gm_resource_bucket_def Let_def lock_view_def res_view_def list_all_iff)

lemma lock_same_res_upd:
  assumes "\<And>r. res_view (f r) = res_view r" "\<And>r. res_shape r \<Longrightarrow> res_shape (f r)"
  shows "lock_same s (res_upd k f s)"
proof (cases "k < length (gm_resources s)")
  case True
  have "map res_view ((gm_resources s)[k := f (gm_resources s ! k)]) = map res_view (gm_resources s)"
    using True assms(1) by (intro nth_equalityI) (auto simp: nth_list_update)
  moreover have "list_all res_shape ((gm_resources s)[k := f (gm_resources s ! k)])" if "list_all res_shape (gm_resources s)"
    using True assms(2) that by (auto simp: list_all_length nth_list_update)
  ultimately show ?thesis by (simp add: lock_same_def lock_view_def res_upd_def)
qed (simp add: res_upd_def lock_same_def not_less list_update_beyond lock_view_def)

lemma lock_same_account_loop: "lock_same s (snd (account_loop n k start now s))"
proof (induction n arbitrary: start s)
  case (Suc n)
  show ?case
    by (auto simp: Let_def intro!: lock_same_trans [OF _ Suc.IH] lock_same_trans [OF lock_same_bucket lock_same_res_upd] simp: res_view_def)
qed simp

lemma lock_same_account: "lock_same s (gm_resource_account k now s)"
  by (auto simp: gm_resource_account_def Let_def res_view_def intro!: lock_same_trans [OF lock_same_res_upd lock_same_account_loop])


text \<open>What a resource operation leaves alone: everything but the clock, the resources and the slots it names.\<close>

definition app_fixed :: "gm_app_slot \<Rightarrow> u64 \<times> u64 \<times> u64 \<times> u64 \<times> u64 \<times> u32 \<times> nat \<times> u64" where
  "app_fixed a = (app_cr3 a, app_image a, app_arg a, app_stack a, runtime_ticks a, app_result a, periodic_id a, resume_rsp a)"

definition res_frame :: "'a gm_programs_scheme \<Rightarrow> 'a gm_programs_scheme \<Rightarrow> bool" where
  "res_frame s t \<longleftrightarrow> map app_fixed (gm_apps t) = map app_fixed (gm_apps s) \<and>
     t = s\<lparr>gm_tick_count := gm_tick_count t, env_ticks := env_ticks t, gm_apps := gm_apps t,
           gm_resources := gm_resources t, gm_resource_epochs := gm_resource_epochs t\<rparr>"

lemma res_frame_refl [simp]: "res_frame s s"
  by (simp add: res_frame_def)

lemma res_frame_trans: "res_frame s t \<Longrightarrow> res_frame t u \<Longrightarrow> res_frame s u"
  unfolding res_frame_def by (elim conjE, intro conjI) (simp, erule ssubst, erule ssubst, simp)

lemma res_frame_same: "lock_same s t \<Longrightarrow> res_frame s t"
  unfolding lock_same_def res_frame_def by (elim conjE, intro conjI) (erule ssubst, simp, erule ssubst, simp)

lemma res_frame_res_upd: "res_frame s (res_upd k f s)"
  by (simp add: res_frame_def res_upd_def)

lemma res_frame_app_upd: "(\<And>a. app_fixed (f a) = app_fixed a) \<Longrightarrow> res_frame s (app_upd i f s)"
  by (cases "i < length (gm_apps s)")
    (auto simp: res_frame_def app_upd_def map_update list_update_beyond not_less intro!: list_update_same_conv [THEN iffD2])

lemma res_frame_ticks: "gm_ticks s = (now, t) \<Longrightarrow> res_frame s t"
  by (auto simp: res_frame_def gm_ticks_def clock_advance_def Let_def split: list.splits)

lemma ticks_locks:
  assumes "gm_ticks s = (now, t)"
  shows "lock_view t = lock_view s" "gm_resources t = gm_resources s" "gm_apps t = gm_apps s" "gm_resource_epochs t = gm_resource_epochs s"
  using assms by (auto simp: gm_ticks_def clock_advance_def Let_def lock_view_def split: list.splits)

lemma res_ok_view:
  assumes "res_ok s"
  shows "length (gm_resources s) = 2" "length (gm_apps s) = 4"
    "k < 2 \<Longrightarrow> fst (lock_view s) ! k = res_view (gm_resources s ! k)"
    "i < 4 \<Longrightarrow> snd (lock_view s) ! i = app_view (gm_apps s ! i)"
    "lock_ok (fst (lock_view s), snd (lock_view s))" "k < 2 \<Longrightarrow> res_shape (gm_resources s ! k)"
  using assms lock_okD(1,2) [of "fst (lock_view s)" "snd (lock_view s)"]
  by (auto simp: res_ok_def lock_view_def list_all_length)

lemma grant_next_refines:
  assumes "list_all res_shape (gm_resources s)" "k < length (gm_resources s)" "wait_queue (gm_resources s ! k) = q"
    and "\<And>j. j \<in> set q \<Longrightarrow> j < 4 \<and> app_view (gm_apps s ! j) = (APP_BLOCKED, 0, r)"
  shows "\<exists>t. gm_resource_grant_next k r now s = Ok t \<and> res_frame s t \<and> list_all res_shape (gm_resources t) \<and>
    gm_resource_epochs t = gm_resource_epochs s \<and>
    lock_view t = (case q of [] \<Rightarrow> lock_view s
      | j # q' \<Rightarrow> ((fst (lock_view s))[k := (j + 1, q')], (snd (lock_view s))[j := (APP_READY, r, 0)]))"
proof (cases q)
  case Nil
  then show ?thesis using assms by (auto simp: gm_resource_grant_next_def)
next
  case (Cons j q')
  let ?r = "gm_resources s ! k"
  let ?r1 = "?r\<lparr>wait_head := (wait_head ?r + 1) mod 4, wait_len := wait_len ?r - 1\<rparr>"
  let ?s1 = "res_upd k (\<lambda>r. r\<lparr>wait_head := (wait_head r + 1) mod 4, wait_len := wait_len r - 1\<rparr>) s"
  let ?s2 = "res_upd k (\<lambda>r. r\<lparr>res_owner := j + 1, acquired_tick := now, acquisitions := acquisitions r + 1\<rparr>) ?s1"
  let ?t = "app_upd j (\<lambda>a. a\<lparr>waiting_resource := 0, owned_resource := r, app_context := (app_context a)\<lparr>f_rax := 1\<rparr>, app_state := APP_READY\<rparr>) ?s2"
  have shape: "res_shape ?r" using assms(1,2) by (simp add: list_all_length)
  have len: "wait_len ?r \<noteq> 0" using Cons assms(3) wait_queue_empty [of ?r] by auto
  have head: "res_wait ?r ! wait_head ?r = j" and rest: "wait_queue ?r1 = q'"
    using wait_queue_pop [OF len] assms(3) Cons shape by (auto simp: res_shape_def)
  have j: "j < 4" "app_view (gm_apps s ! j) = (APP_BLOCKED, 0, r)" using assms(4) Cons by simp_all
  have eq: "gm_resource_grant_next k r now s = Ok ?t"
    using len head j by (simp add: gm_resource_grant_next_def Let_def app_view_def)
  have "res_frame s ?s1" "res_frame ?s1 ?s2" "res_frame ?s2 ?t"
    by (rule res_frame_res_upd, rule res_frame_res_upd, rule res_frame_app_upd, simp add: app_fixed_def)
  then have f: "res_frame s ?t" using res_frame_trans by blast
  have "res_shape ?r1" using shape by (auto simp: res_shape_def)
  then have sh: "list_all res_shape (gm_resources ?t)"
    using assms(1,2) by (auto simp: res_upd_def list_all_length nth_list_update)
  have v: "lock_view ?t = ((fst (lock_view s))[k := (j + 1, q')], (snd (lock_view s))[j := (APP_READY, r, 0)])"
    using assms(2) rest by (simp add: lock_view_upd res_view_def app_view_def, simp add: res_upd_def)
  show ?thesis using eq f sh v Cons by (intro exI [of _ ?t]) simp
qed

text \<open>Releasing an owned resource.\<close>

lemma release_refines:
  assumes ok: "res_ok s" and i: "i < 4" and k: "k < 2" and own: "owned_resource (gm_apps s ! i) = k + 1"
  shows "\<exists>t. gm_resource_release_app i (k + 1) s = Ok (True, t) \<and> res_ok t \<and> res_frame s t \<and>
    lock_view t = spec_release i k (lock_view s)"
proof -
  note V = res_ok_view [OF ok]
  obtain L W where LW: "lock_view s = (L, W)" by fastforce
  have lok: "lock_ok (L, W)" using V(5) LW by simp
  note D = lock_okD [OF lok]
  have Lk: "L ! k = (res_owner (gm_resources s ! k), wait_queue (gm_resources s ! k))"
    using V(3) [OF k] LW by (simp add: res_view_def)
  have Wi: "W ! x = app_view (gm_apps s ! x)" if "x < 4" for x using V(4) [OF that] LW by simp
  have ho: "fst (snd (W ! i)) = k + 1" using own Wi [OF i] by (simp add: app_view_def)
  have owner: "res_owner (gm_resources s ! k) = i + 1" using D(7) [OF k i] ho Lk by simp
  obtain now s1 where t1: "gm_ticks s = (now, s1)" by fastforce
  let ?s2 = "gm_resource_account k now s1"
  let ?s3 = "res_upd k (\<lambda>r. r\<lparr>res_owner := 0\<rparr>) ?s2"
  let ?s4 = "app_upd i (\<lambda>a. a\<lparr>owned_resource := 0\<rparr>) ?s3"
  have same: "lock_same s1 ?s2" by (rule lock_same_account)
  have v2: "lock_view ?s2 = (L, W)" using same ticks_locks(1) [OF t1] LW by (simp add: lock_same_def)
  have sh2: "list_all res_shape (gm_resources ?s2)" "length (gm_resource_epochs ?s2) = 60"
    using same ok ticks_locks [OF t1] by (simp_all add: lock_same_def res_ok_def)
  have len2: "length (gm_resources ?s2) = 2" "length (gm_apps ?s2) = 4"
    using v2 D(1,2) by (auto simp: lock_view_def)
  have rv2: "res_view (gm_resources ?s2 ! k) = L ! k" "app_view (gm_apps ?s2 ! x) = W ! x" if "x < 4" for x
    using v2 len2 k that by (auto simp: lock_view_def)
  let ?q = "snd (L ! k)"
  have q: "wait_queue (gm_resources ?s4 ! k) = ?q" using len2 k by (simp add: res_upd_def res_view_def rv2(1) [OF i, symmetric])
  have v4: "lock_view ?s4 = (L[k := (0, ?q)], W[i := (fst (W ! i), 0, snd (snd (W ! i)))])"
    using v2 rv2(1) [OF i] rv2(2) [OF i] by (auto simp: lock_view_upd res_view_def app_view_def) (metis fst_conv snd_conv)+
  have wait: "j < 4 \<and> app_view (gm_apps ?s4 ! j) = (APP_BLOCKED, 0, k + 1)" if "j \<in> set ?q" for j
  proof -
    have j: "j < 4" using D(4) [OF k] that by auto
    have w: "snd (snd (W ! j)) = k + 1" using D(8) [OF k j] that by simp
    then have "W ! j = (APP_BLOCKED, 0, k + 1)" using D(11,12) [OF j] by (simp add: prod_eq_iff)
    moreover have "j \<noteq> i" using ho calculation by auto
    ultimately show ?thesis using j rv2(2) [OF j] by (simp add: app_upd_def)
  qed
  have sh4: "list_all res_shape (gm_resources ?s4)" "k < length (gm_resources ?s4)"
    using sh2(1) len2 k by (auto simp: res_upd_def list_all_length nth_list_update)
  obtain t where g: "gm_resource_grant_next k (k + 1) now ?s4 = Ok t" "res_frame ?s4 t" "list_all res_shape (gm_resources t)"
      "gm_resource_epochs t = gm_resource_epochs ?s4"
      "lock_view t = (case ?q of [] \<Rightarrow> lock_view ?s4
        | j # q' \<Rightarrow> ((fst (lock_view ?s4))[k := (j + 1, q')], (snd (lock_view ?s4))[j := (APP_READY, k + 1, 0)]))"
    using grant_next_refines [OF sh4 q wait] by blast
  have view: "lock_view t = spec_release i k (L, W)"
    using g(5) v4 by (auto simp: split: list.splits prod.splits)
  have "res_frame ?s2 ?s3" "res_frame ?s3 ?s4" by (rule res_frame_res_upd, rule res_frame_app_upd, simp add: app_fixed_def)
  then have f: "res_frame s t"
    using res_frame_ticks [OF t1] res_frame_same [OF same] g(2) res_frame_trans by blast
  have "res_ok t" using spec_release_ok [OF lok k i ho] view g(3,4) sh2(2) by (simp add: res_ok_def)
  moreover have get: "gm_resource_get (k + 1) = Some k" using k by (simp add: gm_resource_get_def)
  have "gm_resource_release_app i (k + 1) s = and_then (gm_resource_grant_next k (k + 1) now ?s4) (\<lambda>s5. Ok (True, s5))"
    unfolding gm_resource_release_app_def get option.case own owner t1 Let_def prod.case by simp
  then have "gm_resource_release_app i (k + 1) s = Ok (True, t)" unfolding g(1) by simp
  ultimately show ?thesis using f view LW by (intro exI [of _ t]) simp
qed

lemma release_refused: "gm_resource_get r = None \<or> owned_resource (gm_apps s ! i) \<noteq> r \<Longrightarrow> gm_resource_release_app i r s = Ok (False, s)"
  by (auto simp: gm_resource_release_app_def split: option.splits)

text \<open>A slot that ends gives its resource back, if it has one.\<close>

definition spec_reclaim :: "nat \<Rightarrow> lock_state \<Rightarrow> lock_state" where
  "spec_reclaim i v = (case fst (snd (snd v ! i)) of 0 \<Rightarrow> v | Suc k \<Rightarrow> spec_release i k v)"

lemma reclaim_refines:
  assumes ok: "res_ok s" and i: "i < 4"
  shows "\<exists>t. gm_resource_reclaim i s = Ok t \<and> res_ok t \<and> res_frame s t \<and> lock_view t = spec_reclaim i (lock_view s)"
proof (cases "owned_resource (gm_apps s ! i)")
  case 0
  then show ?thesis using ok res_ok_view(4) [OF ok i] by (simp add: gm_resource_reclaim_def spec_reclaim_def app_view_def)
next
  case (Suc k)
  have v: "fst (snd (snd (lock_view s) ! i)) = Suc k" using res_ok_view(4) [OF ok i] Suc by (simp add: app_view_def)
  then have k: "k < 2" using lock_okD(9) [OF res_ok_view(5) [OF ok] i] by simp
  obtain t where "gm_resource_release_app i (k + 1) s = Ok (True, t)" "res_ok t" "res_frame s t" "lock_view t = spec_release i k (lock_view s)"
    using release_refines [OF ok i k] Suc by auto
  then show ?thesis using Suc v by (simp add: gm_resource_reclaim_def spec_reclaim_def Let_def)
qed

text \<open>Asking for a resource.\<close>

lemma acquire_refines:
  assumes ok: "res_ok s" and i: "i < 4" and k: "k < 2" and run: "app_state (gm_apps s ! i) = APP_RUNNING"
    and own: "owned_resource (gm_apps s ! i) = 0"
  shows "\<exists>b frame' t. gm_resource_acquire_service i (k + 1) frame s = Ok (b, frame', t) \<and> res_ok t \<and>
    lock_view t = spec_acquire i k (lock_view s) \<and> (b \<longleftrightarrow> res_owner (gm_resources s ! k) \<noteq> 0) \<and>
    frame' = (if b then frame else frame\<lparr>f_rax := 1\<rparr>) \<and>
    res_frame (if b then gm_program_kernel s else s) t"
proof -
  note V = res_ok_view [OF ok]
  obtain L W where LW: "lock_view s = (L, W)" by fastforce
  have lok: "lock_ok (L, W)" using V(5) LW by simp
  note D = lock_okD [OF lok]
  let ?r = "gm_resources s ! k"
  have Lk: "L ! k = (res_owner ?r, wait_queue ?r)" using V(3) [OF k] LW by (simp add: res_view_def)
  have wait: "waiting_resource (gm_apps s ! i) = 0"
    using D(11) [OF i] V(4) [OF i] LW run by (simp add: app_view_def)
  have Wi: "W ! i = (APP_RUNNING, 0, 0)" using V(4) [OF i] LW run own wait by (simp add: app_view_def)
  have good: "lock_ok (spec_acquire i k (L, W))" using spec_acquire_ok [OF lok k i] Wi by simp
  have sh: "list_all res_shape (gm_resources s)" "length (gm_resource_epochs s) = 60" using ok by (simp_all add: res_ok_def)
  have get: "gm_resource_get (k + 1) = Some k" using k by (simp add: gm_resource_get_def)
  show ?thesis
  proof (cases "res_owner ?r = 0")
    case True
    obtain now s1 where t1: "gm_ticks s = (now, s1)" by fastforce
    let ?s2 = "res_upd k (\<lambda>r. r\<lparr>res_owner := i + 1, acquired_tick := now, acquisitions := acquisitions r + 1\<rparr>) s1"
    let ?t = "app_upd i (\<lambda>a. a\<lparr>owned_resource := k + 1\<rparr>) ?s2"
    note T = ticks_locks [OF t1]
    have eq: "gm_resource_acquire_service i (k + 1) frame s = Ok (False, frame\<lparr>f_rax := 1\<rparr>, ?t)"
      using True own wait by (simp add: gm_resource_acquire_service_def get [simplified] t1 Let_def)
    have v: "lock_view ?t = spec_acquire i k (L, W)"
      using True LW T Lk Wi run wait by (simp add: lock_view_upd res_view_def app_view_def)
    have "list_all res_shape (gm_resources ?t)" using sh(1) T k V(1) by (auto simp: res_upd_def list_all_length nth_list_update)
    then have "res_ok ?t" using v good sh(2) T by (simp add: res_ok_def)
    moreover have "res_frame ?s2 ?t" by (rule res_frame_app_upd) (simp add: app_fixed_def)
    then have "res_frame s ?t"
      using res_frame_ticks [OF t1] res_frame_res_upd res_frame_trans by blast
    ultimately show ?thesis using eq v True LW by (intro exI [of _ False] exI) auto
  next
    case False
    have "length (wait_queue ?r) < 4" using queue_short [OF lok k] Lk False by simp
    then have "wait_len ?r < 4" by (simp add: wait_queue_def)
    then obtain r' where r': "gm_resource_wait i ?r = Some r'" by (simp add: gm_resource_wait_def Let_def)
    note Q = wait_queue_push [OF V(6) [OF k] r']
    let ?s1 = "res_upd k (\<lambda>_. r') s"
    let ?s2 = "app_upd i (\<lambda>a. a\<lparr>app_context := frame, waiting_resource := k + 1, app_state := APP_BLOCKED\<rparr>) ?s1"
    let ?t = "gm_program_kernel ?s2"
    have eq: "gm_resource_acquire_service i (k + 1) frame s = Ok (True, frame, ?t)"
      using False own wait r' by (simp add: gm_resource_acquire_service_def get [simplified] Let_def)
    have v: "lock_view ?t = spec_acquire i k (L, W)"
      using False LW Lk Wi run wait own Q by (simp add: lock_view_upd res_view_def app_view_def)
    have "list_all res_shape (gm_resources ?t)"
      using sh(1) Q k V(1) by (auto simp: gm_program_kernel_def res_upd_def app_upd_def list_all_length nth_list_update)
    then have "res_ok ?t" using v good sh(2) by (simp add: res_ok_def gm_program_kernel_def)
    moreover have "res_frame (gm_program_kernel s) ?t"
    proof -
      have "res_frame s ?s2"
        using res_frame_trans [OF res_frame_res_upd res_frame_app_upd, of "\<lambda>a. a\<lparr>app_context := frame, waiting_resource := k + 1, app_state := APP_BLOCKED\<rparr>"]
        by (simp add: app_fixed_def)
      then show ?thesis by (simp add: res_frame_def gm_program_kernel_def res_upd_def app_upd_def)
    qed
    ultimately show ?thesis using eq v False LW by (intro exI [of _ True] exI) auto
  qed
qed



subsection \<open>The accounting loop ends\<close>

text \<open>Sixty-one rounds are enough for a window of sixty buckets, as long as the clock is not within a bucket of 2^64.\<close>

lemma account_loop_reaches:
  assumes "unat now + 1000 < 18446744073709551616" "start \<le> now" "start = now \<or> unat now \<le> (unat start div 1000 + n) * 1000"
  shows "fst (account_loop n k start now s) = now"
  using assms(2,3)
proof (induction n arbitrary: start s)
  case 0
  have "unat start \<le> unat now" using 0(1) by (simp add: word_le_nat_alt)
  then have "start = now \<or> unat start = unat now" using 0(2) div_times_less_eq_dividend [of "unat start" 1000] by auto
  then show ?case by (auto simp: word_unat_eq_iff)
next
  case (Suc n)
  show ?case
  proof (cases "start < now")
    case False
    then show ?thesis using Suc.prems(1) by simp
  next
    case True
    let ?next = "(start div 1000 + 1) * 1000"
    have lt: "unat start < unat now" using True by (simp add: word_less_nat_alt)
    have d: "unat (start div 1000) = unat start div 1000" by (simp add: unat_div_distrib)
    have u: "unat ?next = (unat start div 1000 + 1) * 1000"
    proof -
      have "(unat start div 1000 + 1) * 1000 < 18446744073709551616"
        using lt assms(1) div_times_less_eq_dividend [of "unat start" 1000] by simp
      moreover have a: "unat (start div 1000 + 1) = unat start div 1000 + 1" using calculation by (simp add: unat_word_ariths d)
      ultimately have "unat (start div 1000 + 1) * unat (1000 :: u64) < 2 ^ LENGTH(64)" by simp
      then have "unat ?next = unat (start div 1000 + 1) * unat (1000 :: u64)" by (rule iffD1 [OF unat_mult_lem])
      then show ?thesis unfolding a by simp
    qed
    let ?stop = "if ?next > now then now else ?next"
    have le: "?stop \<le> now" by (split if_split) (intro conjI impI order_refl leI)
    have "?stop = now \<or> unat now \<le> (unat ?stop div 1000 + n) * 1000"
    proof (cases "?next > now")
      case False
      have "unat ?next div 1000 = unat start div 1000 + 1" unfolding u by simp
      moreover have "unat now \<le> (unat start div 1000 + Suc n) * 1000" using Suc.prems(2) lt by auto
      ultimately show ?thesis using False by simp
    qed simp
    from Suc.IH [OF le this] show ?thesis using True unfolding account_loop.simps Let_def by simp
  qed
qed

lemma account_loop_ends:
  assumes "unat now + 1000 < 18446744073709551616" "start \<le> now" "now - start \<le> 60000"
  shows "fst (account_loop 61 k start now s) = now"
proof (rule account_loop_reaches [OF assms(1,2)])
  have "unat now - unat start \<le> 60000" using assms(2,3) by (simp add: word_le_nat_alt unat_sub)
  then have "unat now \<le> unat start + 60000" by simp
  also have "\<dots> \<le> (unat start div 1000 + 61) * 1000" using div_mult_mod_eq [of "unat start" 1000] mod_less_divisor [of 1000 "unat start"] by simp
  finally show "start = now \<or> unat now \<le> (unat start div 1000 + 61) * 1000" by simp
qed

end
