(* ===== verification/Programs_Loader.thy ===== *)
theory Programs_Loader
  imports Programs_Resource
begin

unbundle bit_operations_syntax

section \<open>User memory, program images and the loader (\<^verbatim>\<open>programs.c\<close>, second part)\<close>

text \<open>
  The user range \<^verbatim>\<open>GM_PROGRAM_BASE\<close> to \<^verbatim>\<open>GM_PROGRAM_END\<close> holds the image (64 KiB), the argument page, an
  unmapped guard page and the stack (16 KiB). Kernel accesses to user addresses go through the address
  space that \<^verbatim>\<open>cr3\<close> selects.
\<close>

abbreviation program_base :: u64 where "program_base \<equiv> 0x40000000"
abbreviation program_arg :: u64 where "program_arg \<equiv> 0x40010000"
abbreviation program_guard :: u64 where "program_guard \<equiv> 0x40011000"
abbreviation program_stack :: u64 where "program_stack \<equiv> 0x40012000"
abbreviation program_end :: u64 where "program_end \<equiv> 0x40016000"

subsection \<open>Access to user memory\<close>

definition user_get :: "u64 \<Rightarrow> 'a gm_programs_scheme \<Rightarrow> u8" where
  "user_get a s = user_mem s (cpu_cr3 (gm_mem s)) a"

definition user_bytes :: "u64 \<Rightarrow> nat \<Rightarrow> 'a gm_programs_scheme \<Rightarrow> bytes" where
  "user_bytes a n s = map (\<lambda>i. user_get (a + of_nat i) s) [0..<n]"

definition user_put :: "u64 \<Rightarrow> bytes \<Rightarrow> 'a gm_programs_scheme \<Rightarrow> 'a gm_programs_scheme" where
  "user_put a bs s =
     (let c = cpu_cr3 (gm_mem s) in
      s\<lparr>user_mem := (user_mem s)(c := (\<lambda>x. if unat (x - a) < length bs then bs ! unat (x - a) else user_mem s c x))\<rparr>)"

definition gm_user_range :: "u64 \<Rightarrow> u64 \<Rightarrow> bool" where
  "gm_user_range addr len =
     (if addr < program_base \<or> addr \<ge> program_end then False
      else if len > program_end - program_base then False
      else
        let end = addr + len in
        if end < addr \<or> end > program_end then False
        else if addr < program_guard \<and> end \<le> program_guard then True
        else if addr \<ge> program_stack \<and> end \<le> program_end then True
        else False)"

text \<open>The length of a NUL-terminated user string of fewer than \<open>n + i\<close> bytes.\<close>

fun user_string_loop :: "u64 \<Rightarrow> nat \<Rightarrow> nat \<Rightarrow> 'a gm_programs_scheme \<Rightarrow> nat option" where
  "user_string_loop addr i 0 s = None"
| "user_string_loop addr i (Suc n) s =
     (if \<not> gm_user_range (addr + of_nat i) 1 then None
      else if user_get (addr + of_nat i) s = 0 then Some i
      else user_string_loop addr (i + 1) n s)"

definition gm_user_string :: "u64 \<Rightarrow> nat \<Rightarrow> 'a gm_programs_scheme \<Rightarrow> nat option" where
  "gm_user_string addr limit s = (if \<not> gm_user_range addr 1 then None else user_string_loop addr 0 limit s)"

definition gm_program_clear :: "'a gm_programs_scheme \<Rightarrow> 'a gm_programs_scheme" where
  "gm_program_clear s =
     (let app = gm_apps s ! gm_program_current s;
          s = user_put (app_image app) (replicate 65536 0) s;
          s = user_put (app_arg app) (replicate 4096 0) s in
      user_put (app_stack app) (replicate 16384 0) s)"


subsection \<open>Paths\<close>

abbreviation program_prefix :: bytes where
  "program_prefix \<equiv> asc ''/programs/x86_64/''"

definition gm_program_path :: "cstr option \<Rightarrow> cstr option" where
  "gm_program_path name = (case name of
     None \<Rightarrow> None
   | Some n \<Rightarrow>
       if cur n = 0 then None
       else if cur n = 47 then
         (if gm_strlen name \<ge> 192 \<or> \<not> gm_starts name (Some program_prefix) then None else Some (until_nul n))
       else
         let len = gm_strlen name in
         if len = 0 \<or> 17 + len + 4 \<ge> 192 then None
         else if len < 3 \<or> \<not> gm_streq (Some (drop (len - 3) n)) (Some (asc ''.gm'')) then
           Some (program_prefix @ until_nul n @ asc ''.gm'')
         else Some (program_prefix @ until_nul n))"


subsection \<open>Images\<close>

record gm_image_header =
  h_magic :: u32
  h_api :: u32
  h_arch :: u32
  h_image_size :: u32
  h_entry :: u32
  h_checksum :: u32

definition gm_u32 :: "bytes \<Rightarrow> nat \<Rightarrow> u32" where
  "gm_u32 p i = ucast (p ! i) OR push_bit 8 (ucast (p ! (i + 1))) OR push_bit 16 (ucast (p ! (i + 2))) OR push_bit 24 (ucast (p ! (i + 3)))"

definition image_hash_step :: "u32 \<Rightarrow> u8 \<Rightarrow> u32" where
  "image_hash_step hash b = (hash XOR ucast b) * 16777619"

definition gm_image_checksum :: "bytes \<Rightarrow> u32" where
  "gm_image_checksum data = foldl image_hash_step 2166136261 data"

definition read_header :: "bytes \<Rightarrow> gm_image_header" where
  "read_header raw = \<lparr>h_magic = gm_u32 raw 0, h_api = gm_u32 raw 4, h_arch = gm_u32 raw 8, h_image_size = gm_u32 raw 12,
     h_entry = gm_u32 raw 16, h_checksum = gm_u32 raw 20\<rparr>"

text \<open>The tests of the loader on the header and the size of the file.\<close>

definition header_valid :: "gm_image_header \<Rightarrow> u64 \<Rightarrow> bool" where
  "header_valid h file_size \<longleftrightarrow>
     \<not> (h_magic h \<noteq> 0x31304d47 \<or> h_api h \<noteq> 2 \<or> h_arch h \<noteq> 1) \<and>
     \<not> (h_image_size h = 0 \<or> ucast (h_image_size h) > (65536 :: u64) \<or> file_size \<noteq> 24 + ucast (h_image_size h)) \<and>
     \<not> h_entry h \<ge> h_image_size h"

text \<open>A connection to the store: the one there is, or a new one.\<close>

definition store_up :: "'a gm_tcp_scheme \<Rightarrow> bool \<times> 'a gm_tcp_scheme" where
  "store_up s = (if gm_tcp_connected s then (True, s) else gm_store_connect s)"

function load_blocks :: "cstr \<Rightarrow> u64 \<Rightarrow> nat \<Rightarrow> 'a gm_programs_scheme \<Rightarrow> bool \<times> 'a gm_programs_scheme" where
  "load_blocks path offset remain s =
     (if remain = 0 then (True, s)
      else
        let want = (if remain > 1024 then 1024 else remain) in
        case gm_store_read (Some path) (24 + offset) True (of_nat want) True s of (ok, out, s1) \<Rightarrow>
          let s2 = user_put (app_image (gm_apps s1 ! gm_program_current s1) + offset) out s1 in
          if \<not> ok \<or> length out \<noteq> want then (False, s2)
          else load_blocks path (offset + of_nat want) (remain - want) s2)"
  by pat_completeness auto
termination
  by (relation "measure (\<lambda>(path, offset, remain, s). remain)") auto

declare load_blocks.simps [simp del]

definition gm_program_load :: "cstr \<Rightarrow> 'a gm_programs_scheme \<Rightarrow> gm_image_header option \<times> 'a gm_programs_scheme" where
  "gm_program_load path s =
     (case store_up s of (up, s1) \<Rightarrow>
      if \<not> up then (None, s1)
      else case gm_store_size (Some path) True s1 of (sz, s2) \<Rightarrow>
      (case sz of
         None \<Rightarrow> (None, s2)
       | Some file_size \<Rightarrow>
           if file_size < 24 \<or> file_size > 24 + 65536 then (None, s2)
           else case gm_store_read (Some path) 0 True 24 True s2 of (ok, raw, s3) \<Rightarrow>
             if \<not> ok \<or> length raw \<noteq> 24 then (None, s3)
             else
               let header = read_header raw in
               if \<not> header_valid header file_size then (None, s3)
               else
                 let payload = unat (h_image_size header); s4 = gm_program_clear s3 in
                 case load_blocks path 0 payload s4 of (loaded, s5) \<Rightarrow>
                   if \<not> loaded then (None, s5)
                   else if gm_image_checksum (user_bytes (app_image (gm_apps s5 ! gm_program_current s5)) payload s5) \<noteq> h_checksum header
                   then (None, s5)
                   else (Some header, s5)))"

text \<open>The machine code a program returns to: it moves the result to \<^verbatim>\<open>edi\<close> and calls the exit service.\<close>

definition le64 :: "u64 \<Rightarrow> bytes" where
  "le64 w = map (\<lambda>i. ucast (drop_bit (8 * i) w)) [0..<8]"

definition return_code :: bytes where
  "return_code = [0x89, 0xc7, 0xb8, 0x00, 0x00, 0x00, 0x00, 0xcd, 0x80, 0xf4, 0xeb, 0xfd]"

definition gm_program_return_stub :: "u64 \<Rightarrow> 'a gm_programs_scheme \<Rightarrow> 'a gm_programs_scheme" where
  "gm_program_return_stub stack s =
     (let addr = program_arg + 4096 - of_nat (length return_code) in
      user_put stack (le64 addr) (user_put addr return_code s))"


subsection \<open>Starting a program\<close>

datatype start_rc = START_BUSY | START_OK nat | START_ERROR

fun find_free :: "gm_app_slot list \<Rightarrow> nat \<Rightarrow> nat option" where
  "find_free [] slot = None"
| "find_free (app # apps) slot = (if app_state app = APP_FREE then Some slot else find_free apps (slot + 1))"

definition start_context :: "u64 \<Rightarrow> u32 \<Rightarrow> u64 \<Rightarrow> service_frame" where
  "start_context arg_len entry stack = frame_zero\<lparr>f_rdi := program_arg, f_rsi := arg_len, f_rip := program_base + ucast entry,
     f_cs := 0x23, f_rflags := 0x202, f_rsp := stack, f_ss := 0x1b\<rparr>"

definition say_if :: "bool \<Rightarrow> string \<Rightarrow> 'a gm_machine_scheme \<Rightarrow> 'a gm_machine_scheme" where
  "say_if report t s = (if report then gm_write (Some (asc t @ [10])) s else s)"

definition gm_program_start_path :: "cstr \<Rightarrow> cstr option \<Rightarrow> nat \<Rightarrow> bool \<Rightarrow> 'a gm_programs_scheme \<Rightarrow>
    start_rc \<times> 'a gm_programs_scheme" where
  "gm_program_start_path path args periodic report s =
     (case find_free (gm_apps s) 0 of
        None \<Rightarrow> (START_BUSY, say_if report ''no free app slot'' s)
      | Some slot \<Rightarrow>
          case gm_program_load path (gm_program_activate slot s) of (loaded, s1) \<Rightarrow>
          (case loaded of
             None \<Rightarrow> (START_ERROR, say_if report ''program load error'' (gm_program_kernel s1))
           | Some header \<Rightarrow>
               let arg_len = gm_strlen args in
               if arg_len \<ge> 4096 - 16 then (START_ERROR, say_if report ''program args too long'' (gm_program_kernel s1))
               else
                 let arg = app_arg (gm_apps s1 ! slot);
                     text = (case args of None \<Rightarrow> [] | Some a \<Rightarrow> take arg_len a);
                     s2 = (if arg_len \<noteq> 0 then user_put arg text s1 else s1);
                     s3 = user_put (arg + of_nat arg_len) [0] s2;
                     stack = program_stack + 16384 - 8;
                     s4 = gm_program_return_stub stack s3;
                     s5 = app_upd slot (\<lambda>a. a\<lparr>app_context := start_context (of_nat arg_len) (h_entry header) stack,
                            runtime_ticks := 0, app_result := -1, owned_resource := 0, waiting_resource := 0,
                            periodic_id := periodic, app_state := APP_READY\<rparr>) s4;
                     s6 = gm_program_kernel s5;
                     s7 = gm_say ''started slot '' s6; s7 = gm_print_u64 (of_nat slot) s7; s7 = gm_say '' '' s7;
                     s7 = gm_write (Some path) s7; s7 = gm_write (Some [10]) s7 in
                 (START_OK slot, s7)))"

definition gm_program_run :: "cstr option \<Rightarrow> cstr option \<Rightarrow> 'a gm_programs_scheme \<Rightarrow> bool \<times> 'a gm_programs_scheme" where
  "gm_program_run name args s = (case gm_program_path name of
     None \<Rightarrow> (False, s)
   | Some path \<Rightarrow> (True, snd (gm_program_start_path path args 0 True s)))"

definition gm_programs_list :: "'a gm_tcp_scheme \<Rightarrow> 'a gm_tcp_scheme option" where
  "gm_programs_list s =
     (case store_up s of (up, s1) \<Rightarrow>
      if \<not> up then Some (gm_write (Some (asc ''programs unavailable'' @ [10])) s1)
      else case gm_store_list_prefix (Some program_prefix) s1 of
        None \<Rightarrow> None
      | Some (ok, s2) \<Rightarrow> Some (if ok then s2 else gm_write (Some (asc ''programs unavailable'' @ [10])) s2))"

end
