(* ===== verification/Gmpack.thy ===== *)
theory Gmpack
  imports Programs_Loader
begin

unbundle bit_operations_syntax

section \<open>The image packer (\<^verbatim>\<open>gmpack.c\<close>)\<close>

text \<open>
  The tool that turns a linked ELF64 program into the image the kernel loads. The input is a regular file, given by its
  bytes; \<^verbatim>\<open>gm_read\<close> fails where \<^verbatim>\<open>fseek\<close> refuses a negative offset and where \<^verbatim>\<open>fread\<close> comes back short. The fields
  of the ELF structures are at the offsets of \<^verbatim>\<open>elf.h\<close> on a little-endian host.

  The property at the end ties the two sides together: what the packer writes for x86-64 passes every test of the
  loader.
\<close>

subsection \<open>Reading the input\<close>

definition pack_checksum :: "bytes \<Rightarrow> nat \<Rightarrow> u32" where
  "pack_checksum data len = foldl (\<lambda>hash b. (hash XOR ucast b) * 16777619) 2166136261 (take len data)"

definition gm_put32 :: "bytes \<Rightarrow> nat \<Rightarrow> u32 \<Rightarrow> bytes" where
  "gm_put32 p i v = p[i := ucast v, i + 1 := ucast (drop_bit 8 v), i + 2 := ucast (drop_bit 16 v), i + 3 := ucast (drop_bit 24 v)]"

definition gm_read :: "bytes \<Rightarrow> nat \<Rightarrow> u64 \<Rightarrow> bytes option" where
  "gm_read file len offset =
     (if sint offset < 0 then None
      else if unat offset + len \<le> length file then Some (take len (drop (unat offset) file)) else None)"

definition rd16 :: "bytes \<Rightarrow> nat \<Rightarrow> u16" where
  "rd16 p i = rd16le (p ! i) (p ! (i + 1))"

definition rd32 :: "bytes \<Rightarrow> nat \<Rightarrow> u32" where
  "rd32 p i = rd32le (p ! i) (p ! (i + 1)) (p ! (i + 2)) (p ! (i + 3))"

definition rd64 :: "bytes \<Rightarrow> nat \<Rightarrow> u64" where
  "rd64 p i = ucast (rd32 p i) OR push_bit 32 (ucast (rd32 p (i + 4)))"

record elf_header =
  e_ident :: bytes
  e_type :: u16
  e_machine :: u16
  e_version :: u32
  e_entry :: u64
  e_phoff :: u64
  e_phentsize :: u16
  e_phnum :: u16

definition read_ehdr :: "bytes \<Rightarrow> elf_header" where
  "read_ehdr p = \<lparr>e_ident = take 16 p, e_type = rd16 p 16, e_machine = rd16 p 18, e_version = rd32 p 20,
     e_entry = rd64 p 24, e_phoff = rd64 p 32, e_phentsize = rd16 p 54, e_phnum = rd16 p 56\<rparr>"

record elf_segment =
  p_type :: u32
  p_flags :: u32
  p_offset :: u64
  p_vaddr :: u64
  p_filesz :: u64
  p_memsz :: u64

definition read_phdr :: "bytes \<Rightarrow> elf_segment" where
  "read_phdr p = \<lparr>p_type = rd32 p 0, p_flags = rd32 p 4, p_offset = rd64 p 8, p_vaddr = rd64 p 16,
     p_filesz = rd64 p 32, p_memsz = rd64 p 40\<rparr>"

definition gm_arch :: "u16 \<Rightarrow> (u32 \<times> string) option" where
  "gm_arch machine =
     (if machine = 62 then Some (1, ''x86_64'')
      else if machine = 183 then Some (2, ''aarch64'')
      else if machine = 243 then Some (3, ''riscv64'')
      else None)"

text \<open>The tests on the ELF header that do not concern the machine.\<close>

definition elf_valid :: "elf_header \<Rightarrow> bool" where
  "elf_valid eh \<longleftrightarrow> take 4 (e_ident eh) = [0x7f, 69, 76, 70] \<and> e_ident eh ! 4 = 2 \<and> e_ident eh ! 5 = 1 \<and> e_ident eh ! 6 = 1 \<and>
     e_type eh = 2 \<and> e_version eh = 1 \<and> e_phnum eh \<noteq> 0 \<and> e_phentsize eh = 56"


subsection \<open>The segments\<close>

record pack_state =
  pk_image :: bytes
  pk_end :: u64
  pk_found :: bool
  pk_exec :: bool

abbreviation image_top :: u64 where
  "image_top \<equiv> program_base + 65536"

definition segment_outside :: "elf_segment \<Rightarrow> bool" where
  "segment_outside ph \<longleftrightarrow> p_vaddr ph < program_base \<or> p_vaddr ph > image_top \<or> p_memsz ph > 65536 \<or>
     p_vaddr ph + p_memsz ph < p_vaddr ph \<or> p_vaddr ph + p_memsz ph > image_top \<or> p_filesz ph > p_memsz ph"

definition pack_segment :: "bytes \<Rightarrow> u64 \<Rightarrow> elf_segment \<Rightarrow> pack_state \<Rightarrow> string + pack_state" where
  "pack_segment file entry ph st =
     (if p_type ph \<noteq> 1 \<or> p_memsz ph = 0 then Inr st
      else if segment_outside ph then Inl ''gmpack: segment outside gm arena''
      else
        let off = unat (p_vaddr ph - program_base);
            seg_end = p_vaddr ph + p_memsz ph;
            exec = (p_flags ph AND 1 \<noteq> 0 \<and> entry \<ge> p_vaddr ph \<and> entry < seg_end);
            done = st\<lparr>pk_end := (if seg_end > pk_end st then seg_end else pk_end st), pk_found := True, pk_exec := (exec \<or> pk_exec st)\<rparr> in
        if p_filesz ph = 0 then Inr done
        else case gm_read file (unat (p_filesz ph)) (p_offset ph) of
          None \<Rightarrow> Inl ''gmpack: segment read error''
        | Some data \<Rightarrow> Inr (done\<lparr>pk_image := overwrite (pk_image st) off data\<rparr>))"

fun pack_segments :: "bytes \<Rightarrow> elf_header \<Rightarrow> nat \<Rightarrow> nat \<Rightarrow> pack_state \<Rightarrow> string + pack_state" where
  "pack_segments file eh i 0 st = Inr st"
| "pack_segments file eh i (Suc n) st =
     (case gm_read file 56 (e_phoff eh + of_nat i * ucast (e_phentsize eh)) of
        None \<Rightarrow> Inl ''gmpack: program header read error''
      | Some raw \<Rightarrow>
          case pack_segment file (e_entry eh) (read_phdr raw) st of
            Inl e \<Rightarrow> Inl e
          | Inr st' \<Rightarrow> pack_segments file eh (i + 1) n st')"


subsection \<open>The image\<close>

definition pack_header :: "u32 \<Rightarrow> u32 \<Rightarrow> u32 \<Rightarrow> u32 \<Rightarrow> bytes" where
  "pack_header arch image_size entry checksum =
     gm_put32 (gm_put32 (gm_put32 (gm_put32 (gm_put32
       ((replicate 24 0)[0 := 71, 1 := 77, 2 := 48, 3 := 49]) 4 2) 8 arch) 12 image_size) 16 entry) 20 checksum"

text \<open>From the bytes of the input to the bytes of the output and the values of the report.\<close>

definition gm_pack :: "bytes \<Rightarrow> string + bytes \<times> string \<times> u32 \<times> u64 \<times> u32" where
  "gm_pack file =
     (case gm_read file 64 0 of
        None \<Rightarrow> Inl ''gmpack: invalid ELF64 executable''
      | Some raw \<Rightarrow>
          let eh = read_ehdr raw in
          if \<not> elf_valid eh then Inl ''gmpack: invalid ELF64 executable''
          else case gm_arch (e_machine eh) of
            None \<Rightarrow> Inl ''gmpack: invalid ELF64 executable''
          | Some (arch, name) \<Rightarrow>
              if e_entry eh < program_base \<or> e_entry eh \<ge> image_top then Inl ''gmpack: entry outside gm arena''
              else case pack_segments file eh 0 (unat (e_phnum eh))
                     \<lparr>pk_image = replicate 65536 0, pk_end = program_base, pk_found = False, pk_exec = False\<rparr> of
                Inl e \<Rightarrow> Inl e
              | Inr st \<Rightarrow>
                  if \<not> pk_found st \<or> \<not> pk_exec st \<or> pk_end st \<le> program_base then Inl ''gmpack: no executable entry image''
                  else
                    let image_size = ucast (pk_end st - program_base) :: u32; entry = e_entry eh - program_base in
                    if entry \<ge> ucast image_size then Inl ''gmpack: invalid entry''
                    else
                      let checksum = pack_checksum (pk_image st) (unat image_size) in
                      Inr (pack_header arch image_size (ucast entry) checksum @ take (unat image_size) (pk_image st),
                           name, image_size, entry, checksum))"

definition hex8 :: "u32 \<Rightarrow> bytes" where
  "hex8 v = drop 10 (print_hex (ucast v))"

definition pack_report :: "string \<Rightarrow> u32 \<Rightarrow> u64 \<Rightarrow> u32 \<Rightarrow> bytes" where
  "pack_report name image_size entry checksum =
     asc ''GM01 api=2 arch='' @ asc name @ asc '' image='' @ dec_bytes (unat image_size) @ asc '' entry='' @ dec_bytes (unat entry) @
     asc '' checksum='' @ hex8 checksum @ [10]"

text \<open>
  The program: the input as \<^verbatim>\<open>fopen\<close> finds it, whether the output can be opened and written, the exit code,
  the output file when it is written completely, and the text on the standard output or the standard error. \<^verbatim>\<open>perror\<close> adds the text of the
  system error, which is left out.
\<close>

definition gmpack_main :: "cstr \<Rightarrow> nat \<Rightarrow> bytes option \<Rightarrow> bool \<Rightarrow> bool \<Rightarrow> nat \<times> bytes option \<times> bytes" where
  "gmpack_main argv0 argc input out_opens out_writes =
     (if argc \<noteq> 3 then (1, None, asc ''usage: '' @ argv0 @ asc '' program.elf program.gm'' @ [10])
      else case input of
        None \<Rightarrow> (1, None, asc ''gmpack: input'')
      | Some file \<Rightarrow>
          case gm_pack file of
            Inl e \<Rightarrow> (1, None, asc e @ [10])
          | Inr (out, name, image_size, entry, checksum) \<Rightarrow>
              if \<not> out_opens then (1, None, asc ''gmpack: output'')
              else if \<not> out_writes then (1, None, asc ''gmpack: write error'' @ [10])
              else (0, Some out, pack_report name image_size entry checksum))"


subsection \<open>The image against the loader\<close>

lemma pack_checksum_image: "pack_checksum data n = gm_image_checksum (take n data)"
  by (simp add: pack_checksum_def gm_image_checksum_def image_hash_step_def [abs_def])

lemma length_put32 [simp]: "length (gm_put32 p i v) = length p"
  by (simp add: gm_put32_def)

lemma gm_u32_put32:
  "i + 4 \<le> length p \<Longrightarrow> gm_u32 (gm_put32 p i v) i = v"
  "i + 4 \<le> length p \<Longrightarrow> j + 4 \<le> i \<or> i + 4 \<le> j \<Longrightarrow> gm_u32 (gm_put32 p i v) j = gm_u32 p j"
  using rd32le_le32 [of v] by (auto simp: gm_u32_def gm_put32_def nth_list_update rd32le_def)

lemma pack_header_read:
  "length (pack_header arch n entry chk) = 24"
  "read_header (pack_header arch n entry chk) =
     \<lparr>h_magic = 0x31304d47, h_api = 2, h_arch = arch, h_image_size = n, h_entry = entry, h_checksum = chk\<rparr>"
proof -
  have "gm_u32 ((replicate 24 0)[0 := 71, 1 := 77, 2 := 48, 3 := 49]) 0 = 0x31304d47" by (simp add: gm_u32_def nth_list_update)
  then show "length (pack_header arch n entry chk) = 24"
    "read_header (pack_header arch n entry chk) =
       \<lparr>h_magic = 0x31304d47, h_api = 2, h_arch = arch, h_image_size = n, h_entry = entry, h_checksum = chk\<rparr>"
    by (simp_all add: pack_header_def read_header_def gm_u32_put32)
qed

text \<open>The image keeps its size, and its end stays inside the arena.\<close>

definition pack_ok :: "pack_state \<Rightarrow> bool" where
  "pack_ok st \<longleftrightarrow> length (pk_image st) = 65536 \<and> program_base \<le> pk_end st \<and> pk_end st \<le> image_top"

lemma gm_read_length: "gm_read file len off = Some data \<Longrightarrow> length data = len"
  by (auto simp: gm_read_def split: if_splits)

lemma pack_segment_ok:
  assumes "pack_ok st" "pack_segment file entry ph st = Inr st'"
  shows "pack_ok st'"
proof -
  have in_arena: "unat (p_vaddr ph - program_base) + unat (p_filesz ph) \<le> 65536 \<and> program_base \<le> p_vaddr ph \<and> p_vaddr ph + p_memsz ph \<le> image_top"
    if "\<not> segment_outside ph"
  proof -
    have v: "program_base \<le> p_vaddr ph" "p_vaddr ph \<le> p_vaddr ph + p_memsz ph" "p_vaddr ph + p_memsz ph \<le> image_top" "p_filesz ph \<le> p_memsz ph"
      using that by (auto simp: segment_outside_def)
    have "unat (p_vaddr ph + p_memsz ph) = unat (p_vaddr ph) + unat (p_memsz ph)" using v(2) by (metis unat_plus_simple)
    then show ?thesis using v by (simp add: word_le_nat_alt unat_sub)
  qed
  show ?thesis
    using assms in_arena
    by (auto simp: pack_segment_def pack_ok_def Let_def not_less dest!: gm_read_length split: if_splits option.splits)
qed

lemma pack_segments_ok: "pack_ok st \<Longrightarrow> pack_segments file eh i n st = Inr st' \<Longrightarrow> pack_ok st'"
  by (induction n arbitrary: i st) (auto split: option.splits sum.splits dest: pack_segment_ok)

lemma gm_pack_cases:
  assumes "gm_pack file = Inr (out, name, n, entry, chk)"
  obtains raw st arch where "gm_read file 64 0 = Some raw" "gm_arch (e_machine (read_ehdr raw)) = Some (arch, name)"
    "pack_ok st" "program_base < pk_end st" "n = ucast (pk_end st - program_base)" "entry = e_entry (read_ehdr raw) - program_base"
    "entry < ucast n" "chk = pack_checksum (pk_image st) (unat n)"
    "out = pack_header arch n (ucast entry) chk @ take (unat n) (pk_image st)"
proof -
  let ?start = "\<lparr>pk_image = replicate 65536 0, pk_end = program_base, pk_found = False, pk_exec = False\<rparr>"
  obtain raw where r: "gm_read file 64 0 = Some raw" using assms by (auto simp: gm_pack_def split: option.splits)
  obtain arch nm where a: "gm_arch (e_machine (read_ehdr raw)) = Some (arch, nm)"
    using assms r by (auto simp: gm_pack_def Let_def split: option.splits if_splits)
  obtain st where p: "pack_segments file (read_ehdr raw) 0 (unat (e_phnum (read_ehdr raw))) ?start = Inr st"
    using assms r a by (auto simp: gm_pack_def Let_def split: sum.splits if_splits)
  have "pack_ok ?start" by (simp add: pack_ok_def)
  from pack_segments_ok [OF this p] have ok: "pack_ok st" .
  note R = assms [unfolded gm_pack_def Let_def r option.case a prod.case p sum.case]
  show ?thesis using R r a by (intro that [OF r _ ok, of arch]) (auto simp: not_le split: if_splits)
qed

lemma pack_size:
  assumes "pack_ok st" "program_base < pk_end st" "n = (ucast (pk_end st - program_base) :: u32)"
  shows "unat n = unat (pk_end st - program_base)" "unat n \<le> 65536" "0 < unat n"
proof -
  have d: "unat (pk_end st - program_base) = unat (pk_end st) - 1073741824" "1073741824 < unat (pk_end st)" "unat (pk_end st) \<le> 1073807360"
    using assms(1,2) by (simp_all add: pack_ok_def unat_sub word_le_nat_alt word_less_nat_alt)
  have "unat n = unat (pk_end st - program_base) mod 2 ^ 32" unfolding assms(3) by (simp add: unsigned_ucast_eq take_bit_eq_mod)
  then show "unat n = unat (pk_end st - program_base)" "unat n \<le> 65536" "0 < unat n" using d by simp_all
qed


subsection \<open>The property\<close>

text \<open>C12: An image written for x86-64 passes every test of the kernel's loader: its size is that of the header and of
  the payload, its magic, interface version and architecture are the expected ones, the entry point lies inside the
  payload at the address the ELF file names, and the checksum of the header is that of the payload.\<close>

theorem packed_image_loads:
  assumes "gm_pack file = Inr (out, ''x86_64'', image_size, entry, checksum)"
  shows "header_valid (read_header (take 24 out)) (of_nat (length out)) \<and>
    length out = 24 + unat image_size \<and> h_image_size (read_header (take 24 out)) = image_size \<and>
    gm_image_checksum (drop 24 out) = h_checksum (read_header (take 24 out)) \<and>
    (\<exists>raw. gm_read file 64 0 = Some raw \<and> program_base + ucast (h_entry (read_header (take 24 out))) = e_entry (read_ehdr raw))"
proof -
  obtain raw st arch where C: "gm_read file 64 0 = Some raw" "gm_arch (e_machine (read_ehdr raw)) = Some (arch, ''x86_64'')"
    "pack_ok st" "program_base < pk_end st" "image_size = ucast (pk_end st - program_base)" "entry = e_entry (read_ehdr raw) - program_base"
    "entry < ucast image_size" "checksum = pack_checksum (pk_image st) (unat image_size)"
    "out = pack_header arch image_size (ucast entry) checksum @ take (unat image_size) (pk_image st)"
    by (rule gm_pack_cases [OF assms])
  have arch: "arch = 1" using C(2) by (auto simp: gm_arch_def split: if_splits)
  note n = pack_size [OF C(3-5)]
  have len: "length (take (unat image_size) (pk_image st)) = unat image_size" using C(3) n(2) by (simp add: pack_ok_def)
  have lt: "unat entry < unat image_size" using C(7) by (simp add: word_less_nat_alt)
  have e: "unat (ucast entry :: u32) = unat entry" using lt n(2) by (simp add: unsigned_ucast_eq take_bit_eq_mod)
  have widen: "(ucast (ucast entry :: u32) :: u64) = entry" by (rule word_unat_eq_iff [THEN iffD2]) (simp add: e)
  have h: "read_header (take 24 out) =
      \<lparr>h_magic = 0x31304d47, h_api = 2, h_arch = 1, h_image_size = image_size, h_entry = ucast entry, h_checksum = checksum\<rparr>"
    unfolding C(9) arch by (simp add: pack_header_read)
  have d: "drop 24 out = take (unat image_size) (pk_image st)" unfolding C(9) by (simp add: pack_header_read)
  have l: "length out = 24 + unat image_size" unfolding C(9) using len by (simp add: pack_header_read)
  have "image_size \<noteq> 0" using n(3) by auto
  moreover have "(ucast image_size :: u64) \<le> 65536" using n(2) by (simp add: word_le_nat_alt)
  moreover have "\<not> (image_size \<le> ucast entry)" using e lt by (simp add: word_le_nat_alt)
  moreover have "of_nat (length out) = (24 + ucast image_size :: u64)" unfolding l by simp
  ultimately have "header_valid (read_header (take 24 out)) (of_nat (length out))" unfolding h header_valid_def by simp
  moreover have "gm_image_checksum (drop 24 out) = checksum" unfolding d C(8) pack_checksum_image ..
  moreover have "program_base + ucast (ucast entry :: u32) = e_entry (read_ehdr raw)" by (simp only: widen) (simp add: C(6))
  ultimately show ?thesis using l C(1) unfolding h by simp
qed


text \<open>A program of one instruction.\<close>

definition elf_example :: bytes where
  "elf_example = [0x7f, 69, 76, 70, 2, 1, 1, 0, 0, 0, 0, 0, 0, 0, 0, 0, 2, 0, 62, 0, 1, 0, 0, 0, 0, 0, 0, 0x40, 0, 0, 0, 0,
     64, 0, 0, 0, 0, 0, 0, 0, 0, 0, 0, 0, 0, 0, 0, 0, 0, 0, 0, 0, 64, 0, 56, 0, 1, 0, 0, 0, 0, 0, 0, 0] @
    [1, 0, 0, 0, 5, 0, 0, 0, 120, 0, 0, 0, 0, 0, 0, 0, 0, 0, 0, 0x40, 0, 0, 0, 0, 0, 0, 0, 0, 0, 0, 0, 0,
     1, 0, 0, 0, 0, 0, 0, 0, 1, 0, 0, 0, 0, 0, 0, 0, 0, 0, 0, 0, 0, 0, 0, 0] @ [0xc3]"

lemma elf_example_read:
  "gm_read elf_example 64 0 = Some (take 64 elf_example)"
  "gm_read elf_example 56 64 = Some (take 56 (drop 64 elf_example))"
  "gm_read elf_example 1 120 = Some [0xc3]"
  by (simp_all add: gm_read_def elf_example_def)

lemma elf_example_header:
  "read_ehdr (take 64 elf_example) = \<lparr>e_ident = [0x7f, 69, 76, 70, 2, 1, 1, 0, 0, 0, 0, 0, 0, 0, 0, 0], e_type = 2, e_machine = 62,
     e_version = 1, e_entry = 0x40000000, e_phoff = 64, e_phentsize = 56, e_phnum = 1\<rparr>"
  "read_phdr (take 56 (drop 64 elf_example)) = \<lparr>p_type = 1, p_flags = 5, p_offset = 120, p_vaddr = 0x40000000, p_filesz = 1, p_memsz = 1\<rparr>"
  by (simp_all add: read_ehdr_def read_phdr_def elf_example_def rd16_def rd32_def rd64_def rd16le_def rd32le_def)

lemma elf_example_packs: "\<exists>out entry checksum. gm_pack elf_example = Inr (out, ''x86_64'', 1, entry, checksum)"
  by (simp add: gm_pack_def elf_example_read elf_example_read(3) [unfolded One_nat_def] elf_example_header elf_valid_def gm_arch_def Let_def pack_segment_def segment_outside_def
      numeral_eq_Suc [of num.One])

theorem packed_image_loads_witness:
  "\<exists>out entry checksum. gm_pack elf_example = Inr (out, ''x86_64'', 1, entry, checksum) \<and> length out = 25 \<and>
     header_valid (read_header (take 24 out)) 25"
proof -
  obtain out entry checksum where e: "gm_pack elf_example = Inr (out, ''x86_64'', 1, entry, checksum)" using elf_example_packs by blast
  from packed_image_loads [OF e] e show ?thesis by auto
qed

end
