(* ===== verification/Server_Files.thy ===== *)
theory Server_Files
  imports Core_Numbers "HOL-Library.AList"
begin

section \<open>The host of the store server: files, names and numbers (\<^verbatim>\<open>gmstored.c\<close>)\<close>

text \<open>
  The part of the host system that \<^verbatim>\<open>gmstored\<close> uses. The tree under the store's root directory is a value of type
  \<open>fs_node\<close>, the entries of a directory in the order \<^verbatim>\<open>readdir\<close> gives them; \<^verbatim>\<open>.\<close> and \<^verbatim>\<open>..\<close>, which the listing skips, are
  not entries. A descriptor of a directory or a file is its path from the root. No other process changes the tree.

  Every system call may fail. \<open>env_sys\<close> lists how the next calls on files go, \<open>env_recv\<close>, \<open>env_send\<close> and \<open>env_accept\<close>
  how the next calls on sockets go; with an empty list calls on files succeed and calls on sockets would block. Nothing is
  assumed of these lists, so what is proved holds for every sequence of failures, interruptions and short transfers.
  \<open>env_scan\<close> says where the next listings of the root directory begin. \<^verbatim>\<open>gm_list_collect\<close> scans a \<^verbatim>\<open>dup\<close> of the root's
  descriptor and never rewinds it; the copy shares its position with the original, so that a listing begins where the one before
  has stopped.

  \<open>host_log\<close> is the standard output. \<open>host_accepted\<close> lists the sockets that \<^verbatim>\<open>accept\<close> has returned, \<open>host_refused\<close> those that were closed
  at once without a slot; the sockets that were closed through a slot are in the slot's \<open>c_closed\<close>.
\<close>

datatype fs_node = FS_File bytes | FS_Dir "(cstr \<times> fs_node) list" | FS_Link cstr | FS_Other

datatype sys_result = Sys_Ok | Sys_Intr | Sys_Fail | Sys_Short nat

datatype recv_result = Recv_Data bytes | Recv_Intr | Recv_Again | Recv_Fail

datatype send_result = Send_Some nat | Send_Intr | Send_Again | Send_Fail

datatype accept_result = Accept_Fd nat bool ip4 u16 | Accept_Intr | Accept_Stop

record gm_host =
  host_fs :: fs_node
  env_sys :: "sys_result list"
  env_recv :: "recv_result list"
  env_send :: "send_result list"
  env_accept :: "accept_result list"
  env_scan :: "nat list"
  host_log :: bytes
  host_accepted :: "nat list"
  host_refused :: "nat list"


subsection \<open>The tree\<close>

fun fs_entry :: "cstr \<Rightarrow> fs_node \<Rightarrow> fs_node option" where
  "fs_entry n (FS_Dir es) = map_of es n"
| "fs_entry n _ = None"

fun fs_at :: "cstr list \<Rightarrow> fs_node \<Rightarrow> fs_node option" where
  "fs_at [] t = Some t"
| "fs_at (n # ns) t = (case fs_entry n t of None \<Rightarrow> None | Some u \<Rightarrow> fs_at ns u)"

text \<open>Entering a node at a path whose parent is a directory, and removing it.\<close>

fun fs_put :: "cstr list \<Rightarrow> fs_node \<Rightarrow> fs_node \<Rightarrow> fs_node" where
  "fs_put [] v t = v"
| "fs_put (n # ns) v (FS_Dir es) =
     (if ns = [] then FS_Dir (AList.update n v es)
      else case map_of es n of None \<Rightarrow> FS_Dir es | Some u \<Rightarrow> FS_Dir (AList.update n (fs_put ns v u) es))"
| "fs_put (n # ns) v t = t"

fun fs_del :: "cstr list \<Rightarrow> fs_node \<Rightarrow> fs_node" where
  "fs_del [] t = t"
| "fs_del (n # ns) (FS_Dir es) =
     (if ns = [] then FS_Dir (AList.delete n es)
      else case map_of es n of None \<Rightarrow> FS_Dir es | Some u \<Rightarrow> FS_Dir (AList.update n (fs_del ns u) es))"
| "fs_del (n # ns) t = t"


subsection \<open>System calls on files\<close>

definition sys_next :: "gm_host \<Rightarrow> sys_result \<times> gm_host" where
  "sys_next h = (case env_sys h of [] \<Rightarrow> (Sys_Ok, h) | r # rs \<Rightarrow> (r, h\<lparr>env_sys := rs\<rparr>))"

text \<open>A call whose only outcomes are success and failure.\<close>

definition sys_ok :: "gm_host \<Rightarrow> bool \<times> gm_host" where
  "sys_ok h = (case sys_next h of (r, h1) \<Rightarrow> (r = Sys_Ok, h1))"

text \<open>\<^verbatim>\<open>mkdirat\<close>: false only for an error other than \<^verbatim>\<open>EEXIST\<close>.\<close>

definition sys_mkdirat :: "cstr list \<Rightarrow> cstr \<Rightarrow> gm_host \<Rightarrow> bool \<times> gm_host" where
  "sys_mkdirat dir n h =
     (case sys_ok h of (ok, h1) \<Rightarrow>
        if \<not> ok then (False, h1)
        else if fs_at (dir @ [n]) (host_fs h1) \<noteq> None then (True, h1)
        else (True, h1\<lparr>host_fs := fs_put (dir @ [n]) (FS_Dir []) (host_fs h1)\<rparr>))"

text \<open>\<^verbatim>\<open>openat\<close> with \<^verbatim>\<open>O_RDONLY|O_DIRECTORY|O_NOFOLLOW\<close>.\<close>

definition sys_opendir :: "cstr list \<Rightarrow> cstr \<Rightarrow> gm_host \<Rightarrow> cstr list option \<times> gm_host" where
  "sys_opendir dir n h =
     (case sys_ok h of (ok, h1) \<Rightarrow>
        case fs_at (dir @ [n]) (host_fs h1) of
          Some (FS_Dir es) \<Rightarrow> (if ok then Some (dir @ [n]) else None, h1)
        | _ \<Rightarrow> (None, h1))"

text \<open>\<^verbatim>\<open>openat\<close> with \<^verbatim>\<open>O_RDONLY|O_NOFOLLOW\<close>: a symbolic link is refused.\<close>

definition sys_open_read :: "cstr list \<Rightarrow> gm_host \<Rightarrow> bool \<times> gm_host" where
  "sys_open_read path h =
     (case sys_ok h of (ok, h1) \<Rightarrow>
        case fs_at path (host_fs h1) of
          None \<Rightarrow> (False, h1)
        | Some (FS_Link l) \<Rightarrow> (False, h1)
        | Some t \<Rightarrow> (ok, h1))"

text \<open>
  \<^verbatim>\<open>openat\<close> with \<^verbatim>\<open>O_WRONLY|O_CREAT|O_NOFOLLOW\<close> and \<^verbatim>\<open>O_TRUNC\<close> or \<^verbatim>\<open>O_APPEND\<close>. A special file can be opened; what is
  written to it is not part of the tree.
\<close>

definition sys_open_write :: "cstr list \<Rightarrow> bool \<Rightarrow> gm_host \<Rightarrow> bool \<times> gm_host" where
  "sys_open_write path at_end h =
     (case sys_ok h of (ok, h1) \<Rightarrow>
        if \<not> ok then (False, h1)
        else case fs_at path (host_fs h1) of
          None \<Rightarrow> (True, h1\<lparr>host_fs := fs_put path (FS_File []) (host_fs h1)\<rparr>)
        | Some (FS_File b) \<Rightarrow>
            (True, if at_end then h1 else h1\<lparr>host_fs := fs_put path (FS_File []) (host_fs h1)\<rparr>)
        | Some FS_Other \<Rightarrow> (True, h1)
        | Some _ \<Rightarrow> (False, h1))"

text \<open>The bytes of a successful \<^verbatim>\<open>write\<close> go to the end of the file, which is empty or open for appending.\<close>

definition file_append :: "cstr list \<Rightarrow> bytes \<Rightarrow> gm_host \<Rightarrow> gm_host" where
  "file_append path data h =
     (case fs_at path (host_fs h) of
        Some (FS_File b) \<Rightarrow> h\<lparr>host_fs := fs_put path (FS_File (b @ data)) (host_fs h)\<rparr>
      | _ \<Rightarrow> h)"

datatype io_count = Io_Done nat | Io_Intr | Io_Error

definition sys_write :: "cstr list \<Rightarrow> bytes \<Rightarrow> gm_host \<Rightarrow> io_count \<times> gm_host" where
  "sys_write path data h =
     (case sys_next h of (r, h1) \<Rightarrow>
        case r of
          Sys_Ok \<Rightarrow> (Io_Done (length data), file_append path data h1)
        | Sys_Short n \<Rightarrow> (Io_Done (min n (length data)), file_append path (take n data) h1)
        | Sys_Intr \<Rightarrow> (Io_Intr, h1)
        | Sys_Fail \<Rightarrow> (Io_Error, h1))"

text \<open>\<^verbatim>\<open>read\<close> of at most \<open>count\<close> bytes at an offset of a regular file: the bytes, or an interruption or error.\<close>

definition sys_read :: "cstr list \<Rightarrow> nat \<Rightarrow> nat \<Rightarrow> gm_host \<Rightarrow> (io_count + bytes) \<times> gm_host" where
  "sys_read path offset count h =
     (case sys_next h of (r, h1) \<Rightarrow>
        let data = (case fs_at path (host_fs h1) of Some (FS_File b) \<Rightarrow> take count (drop offset b) | _ \<Rightarrow> []) in
        case r of
          Sys_Ok \<Rightarrow> (Inr data, h1)
        | Sys_Short n \<Rightarrow> (Inr (take n data), h1)
        | Sys_Intr \<Rightarrow> (Inl Io_Intr, h1)
        | Sys_Fail \<Rightarrow> (Inl Io_Error, h1))"


subsection \<open>Names\<close>

definition part_bad :: "cstr \<Rightarrow> bool" where
  "part_bad seg \<longleftrightarrow> length seg = 0 \<or> (length seg = 1 \<and> seg ! 0 = 46) \<or> (length seg = 2 \<and> seg ! 0 = 46 \<and> seg ! 1 = 46)"

text \<open>\<open>name_loop seg p\<close>: the loop at \<open>p\<close>, with \<open>seg\<close> the bytes between \<^verbatim>\<open>start\<close> and \<^verbatim>\<open>p\<close>.\<close>

fun name_loop :: "cstr \<Rightarrow> cstr \<Rightarrow> bool" where
  "name_loop seg [] = (\<not> part_bad seg)"
| "name_loop seg (c # p) =
     (if c = 0 then \<not> part_bad seg
      else if c = 47 then (if part_bad seg then False else name_loop [] p)
      else if c < 33 \<or> c > 126 then False
      else name_loop (seg @ [c]) p)"

definition gm_name_valid :: "cstr option \<Rightarrow> bool" where
  "gm_name_valid name = (case name of None \<Rightarrow> False | Some n \<Rightarrow> if cur n \<noteq> 47 \<or> cur (tl n) = 0 then False else name_loop [] (tl n))"

text \<open>\<^verbatim>\<open>gm_text2\<close>: two strings joined, when they fit.\<close>

definition gm_text2 :: "nat \<Rightarrow> cstr \<Rightarrow> cstr \<Rightarrow> cstr option" where
  "gm_text2 cap a b = (if length a + length b + 1 > cap then None else Some (a @ b))"

text \<open>The directory part of a name is opened one component after the other.\<close>

function open_parent_loop :: "bool \<Rightarrow> cstr list \<Rightarrow> cstr \<Rightarrow> nat \<Rightarrow> gm_host \<Rightarrow> (cstr list \<times> cstr) option \<times> gm_host" where
  "open_parent_loop create current part cap h =
     (let n = takeWhile (\<lambda>c. c \<noteq> 47) part; slash = dropWhile (\<lambda>c. c \<noteq> 47) part in
      if slash = [] then
        (if length part = 0 \<or> length part + 1 > cap then (None, h) else (Some (current, part), h))
      else
        case (if create then sys_mkdirat current n h else (True, h)) of (made, h1) \<Rightarrow>
          if \<not> made then (None, h1)
          else case sys_opendir current n h1 of (next, h2) \<Rightarrow>
            case next of
              None \<Rightarrow> (None, h2)
            | Some dir \<Rightarrow> open_parent_loop create dir (tl slash) cap h2)"
  by pat_completeness auto
termination
proof (relation "measure (\<lambda>(create, current, part, cap, h). length part)")
  fix create current part cap h n slash made and h1 h2 :: gm_host and "next" :: "cstr list option" and dir
  assume s: "slash = dropWhile (\<lambda>c. c \<noteq> (47 :: u8)) part" "slash \<noteq> []"
  have "length slash \<le> length part" unfolding s(1) by (rule length_dropWhile_le)
  then have "length (tl slash) < length part" using s(2) by (cases slash) auto
  then show "((create, dir, tl slash, cap, h2), create, current, part, cap, h) \<in> measure (\<lambda>(create, current, part, cap, h). length part)"
    by simp
qed simp

declare open_parent_loop.simps [simp del]

definition gm_open_parent :: "cstr \<Rightarrow> bool \<Rightarrow> nat \<Rightarrow> gm_host \<Rightarrow> (cstr list \<times> cstr) option \<times> gm_host" where
  "gm_open_parent name create cap h =
     (if \<not> gm_name_valid (Some name) \<or> length name \<ge> 512 then (None, h)
      else case sys_ok h of (ok, h1) \<Rightarrow>
        if \<not> ok then (None, h1) else open_parent_loop create [] (tl name) cap h1)"

text \<open>A regular file opened for reading, with its contents standing for \<^verbatim>\<open>struct stat\<close>.\<close>

definition gm_open_regular :: "cstr \<Rightarrow> gm_host \<Rightarrow> (cstr list \<times> bytes) option \<times> gm_host" where
  "gm_open_regular name h =
     (case gm_open_parent name False 512 h of (parent, h1) \<Rightarrow>
        case parent of
          None \<Rightarrow> (None, h1)
        | Some (dir, leaf) \<Rightarrow>
            case sys_open_read (dir @ [leaf]) h1 of (opened, h2) \<Rightarrow>
              if \<not> opened then (None, h2)
              else case sys_ok h2 of (stat, h3) \<Rightarrow>
                case fs_at (dir @ [leaf]) (host_fs h3) of
                  Some (FS_File b) \<Rightarrow> (if stat then Some (dir @ [leaf], b) else None, h3)
                | _ \<Rightarrow> (None, h3))"


subsection \<open>Numbers\<close>

definition is_space :: "u8 \<Rightarrow> bool" where
  "is_space c \<longleftrightarrow> c = 32 \<or> (9 \<le> c \<and> c \<le> 13)"

text \<open>
  \<^verbatim>\<open>strtoul(text,&end,10)\<close>: leading blanks, one sign, digits. The result is the value and the text at \<^verbatim>\<open>end\<close>; \<^verbatim>\<open>None\<close>
  stands for \<^verbatim>\<open>ERANGE\<close>. Without a digit \<^verbatim>\<open>end\<close> is the start of the text.
\<close>

definition strtoul10 :: "cstr \<Rightarrow> (u64 \<times> cstr) option" where
  "strtoul10 text =
     (let t = dropWhile is_space text;
          neg = (cur t = 45);
          u = (if cur t = 45 \<or> cur t = 43 then tl t else t);
          ds = takeWhile is_digit u in
      if ds = [] then Some (0, text)
      else if dec_val ds \<ge> 2 ^ 64 then None
      else Some (if neg then - of_nat (dec_val ds) else of_nat (dec_val ds), dropWhile is_digit u))"

definition gm_number :: "cstr \<Rightarrow> u64 option" where
  "gm_number text =
     (if cur text = 0 then None
      else case strtoul10 text of
        None \<Rightarrow> None
      | Some (n, end) \<Rightarrow> if cur end \<noteq> 0 then None else Some n)"

end
