(* ===== verification/Store_Server.thy ===== *)
theory Store_Server
  imports Server_Files
begin

section \<open>The store server (\<^verbatim>\<open>gmstored.c\<close>)\<close>

text \<open>
  The per-client state, the commands, the input and output of a client and one round of the poll loop. The buffers of a
  client are the bytes in use: \<open>c_input\<close> holds \<^verbatim>\<open>input_len\<close> bytes of the 4096, \<open>c_output\<close> holds \<^verbatim>\<open>output_len\<close> bytes of the
  16384, of which the first \<open>c_output_pos\<close> have been sent. A closed slot has no descriptor (\<^verbatim>\<open>fd<0\<close>).
  \<open>c_closed\<close> logs the calls of \<^verbatim>\<open>close\<close> on the descriptors of the slot; the code has no such field.
\<close>

datatype pending = PENDING_NONE | PENDING_WRITE | PENDING_APPEND

record gm_client =
  c_fd :: "nat option"
  c_input :: bytes
  c_output :: bytes
  c_output_pos :: nat
  c_pending :: pending
  c_pending_count :: nat
  c_pending_path :: cstr
  c_closed :: "nat list"

subsection \<open>Clients and their output\<close>

definition gm_client_reset :: "gm_client \<Rightarrow> gm_client" where
  "gm_client_reset c = c\<lparr>c_fd := None, c_input := [], c_output := [], c_output_pos := 0, c_pending := PENDING_NONE,
     c_pending_count := 0, c_pending_path := []\<rparr>"

definition gm_client_close :: "gm_client \<Rightarrow> gm_client" where
  "gm_client_close c =
     gm_client_reset (case c_fd c of None \<Rightarrow> c | Some fd \<Rightarrow> c\<lparr>c_closed := c_closed c @ [fd]\<rparr>)"

definition gm_output_add :: "gm_client \<Rightarrow> bytes \<Rightarrow> bool \<times> gm_client" where
  "gm_output_add c data =
     (if length (c_output c) + length data > 16384 then (False, c) else (True, c\<lparr>c_output := c_output c @ data\<rparr>))"

definition gm_output_line :: "gm_client \<Rightarrow> cstr \<Rightarrow> bool \<times> gm_client" where
  "gm_output_line c text =
     (case gm_output_add c text of (ok, c1) \<Rightarrow> if \<not> ok then (False, c1) else gm_output_add c1 [10])"

definition gm_output_error :: "gm_client \<Rightarrow> cstr \<Rightarrow> gm_client" where
  "gm_output_error c text =
     (case gm_output_line (c\<lparr>c_output_pos := 0, c_output := []\<rparr>) text of (ok, c1) \<Rightarrow> if \<not> ok then gm_client_close c1 else c1)"

definition is_open :: "gm_client \<Rightarrow> bool" where
  "is_open c \<longleftrightarrow> c_fd c \<noteq> None"

definition gm_input_consume :: "gm_client \<Rightarrow> nat \<Rightarrow> gm_client" where
  "gm_input_consume c len = (if len \<ge> length (c_input c) then c\<lparr>c_input := []\<rparr> else c\<lparr>c_input := drop len (c_input c)\<rparr>)"


subsection \<open>Listing\<close>

text \<open>
  The entries of a directory from the point \<^verbatim>\<open>readdir\<close> has reached. \<open>list_open\<close> is the start of \<^verbatim>\<open>gm_list_collect\<close>:
  \<^verbatim>\<open>dup\<close> and \<^verbatim>\<open>fdopendir\<close>.
\<close>

definition list_open :: "gm_host \<Rightarrow> bool \<times> gm_host" where
  "list_open h = (case sys_ok h of (dup, h1) \<Rightarrow> if \<not> dup then (False, h1) else sys_ok h1)"

text \<open>
  Reading one entry: nothing when \<^verbatim>\<open>readdir\<close> has no more, otherwise the name to use below \<open>rel\<close>, if the entry is not
  skipped.
\<close>

definition child_name :: "cstr \<Rightarrow> cstr \<Rightarrow> cstr option" where
  "child_name rel n =
     (case gm_text2 512 rel [47] of
        None \<Rightarrow> None
      | Some child \<Rightarrow> if length child + length n + 1 > 512 then None else Some (child @ n))"

definition list_next :: "cstr \<Rightarrow> cstr \<Rightarrow> fs_node \<Rightarrow> gm_host \<Rightarrow> cstr option option \<times> gm_host" where
  "list_next rel n t h =
     (case sys_ok h of (again, h1) \<Rightarrow>
      if \<not> again then (None, h1)
      else case sys_ok h1 of (stat, h2) \<Rightarrow>
        (Some (if \<not> stat \<or> (case t of FS_Link l \<Rightarrow> True | _ \<Rightarrow> False) then None else child_name rel n), h2))"

definition list_enter :: "gm_host \<Rightarrow> bool \<times> gm_host" where
  "list_enter h = (case sys_ok h of (opened, h1) \<Rightarrow> if \<not> opened then (False, h1) else list_open h1)"

definition list_item_line :: "cstr \<Rightarrow> gm_client \<Rightarrow> bool \<times> gm_client" where
  "list_item_line child c =
     (case gm_text2 520 (asc ''ITEM '') child of None \<Rightarrow> (False, c) | Some item \<Rightarrow> gm_output_line c item)"

fun list_entries :: "cstr \<Rightarrow> (cstr \<times> fs_node) list \<Rightarrow> gm_client \<Rightarrow> gm_host \<Rightarrow> bool \<times> gm_client \<times> gm_host" where
  "list_entries rel [] c h = (True, c, h)"
| "list_entries rel ((n, t) # es) c h =
     (case list_next rel n t h of (entry, h1) \<Rightarrow>
        case entry of
          None \<Rightarrow> (True, c, h1)
        | Some None \<Rightarrow> list_entries rel es c h1
        | Some (Some child) \<Rightarrow>
            case t of
              FS_Dir sub \<Rightarrow>
                (case list_enter h1 of (entered, h2) \<Rightarrow>
                 if \<not> entered then (False, c, h2)
                 else case list_entries child sub c h2 of (ok, c1, h3) \<Rightarrow>
                 if \<not> ok then (False, c1, h3) else list_entries rel es c1 h3)
            | FS_File b \<Rightarrow>
                (case list_item_line child c of (ok, c1) \<Rightarrow>
                 if \<not> ok then (False, c1, h1) else list_entries rel es c1 h1)
            | _ \<Rightarrow> list_entries rel es c h1)"

text \<open>
  The position in the root directory at which a listing begins. \<^verbatim>\<open>dup\<close> shares it with \<^verbatim>\<open>rootfd\<close>, and nothing rewinds it: it is
  where the previous listing left it. How far \<^verbatim>\<open>readdir\<close> reads ahead is up to the C library, so the positions are given by
  \<open>env_scan\<close>. A directory below the root is opened anew and read from its start.
\<close>

definition list_start :: "gm_host \<Rightarrow> nat \<times> gm_host" where
  "list_start h = (case env_scan h of [] \<Rightarrow> (0, h) | k # ks \<Rightarrow> (k, h\<lparr>env_scan := ks\<rparr>))"

definition gm_list_collect :: "gm_client \<Rightarrow> gm_host \<Rightarrow> bool \<times> gm_client \<times> gm_host" where
  "gm_list_collect c h =
     (case list_open h of (ok, h1) \<Rightarrow>
        if \<not> ok then (False, c, h1)
        else case host_fs h1 of
          FS_Dir es \<Rightarrow> (case list_start h1 of (k, h2) \<Rightarrow> list_entries [] (drop k es) c h2)
        | _ \<Rightarrow> (False, c, h1))"


subsection \<open>Writing\<close>

function write_loop_file :: "cstr list \<Rightarrow> bytes \<Rightarrow> nat \<Rightarrow> gm_host \<Rightarrow> nat \<times> gm_host" where
  "write_loop_file path data done h =
     (if done < length data then
        case sys_write path (drop done data) h of (r, h1) \<Rightarrow>
          case r of
            Io_Intr \<Rightarrow> write_loop_file path data done h1
          | Io_Error \<Rightarrow> (done, h1)
          | Io_Done n \<Rightarrow> if n = 0 then (done, h1) else write_loop_file path data (done + n) h1
      else (done, h))"
  by pat_completeness auto
termination
proof (relation "(\<lambda>(path, data, done, h). length data - done) <*mlex*> measure (\<lambda>(path, data, done, h). length (env_sys h))")
  fix path and data :: bytes and done' n :: nat and h h1 :: gm_host and r
  assume d: "done' < length data" and w: "(r, h1) = sys_write path (drop done' data) h"
  show "r = Io_Intr \<Longrightarrow> ((path, data, done', h1), path, data, done', h) \<in>
      (\<lambda>(path, data, done, h). length data - done) <*mlex*> measure (\<lambda>(path, data, done, h). length (env_sys h))"
    using w by (auto simp: mlex_prod_def sys_write_def sys_next_def split: list.splits sys_result.splits)
  show "r = Io_Done n \<Longrightarrow> n \<noteq> 0 \<Longrightarrow> ((path, data, done' + n, h1), path, data, done', h) \<in>
      (\<lambda>(path, data, done, h). length data - done) <*mlex*> measure (\<lambda>(path, data, done, h). length (env_sys h))"
    using d by (auto simp: mlex_prod_def)
qed (simp add: wf_mlex)

declare write_loop_file.simps [simp del]

definition gm_pending_write :: "gm_client \<Rightarrow> gm_host \<Rightarrow> bool \<times> gm_client \<times> gm_host" where
  "gm_pending_write c h =
     (if c_pending c = PENDING_NONE then (True, c, h)
      else if length (c_input c) < c_pending_count c then (True, c, h)
      else case gm_open_parent (c_pending_path c) True 512 h of (parent, h1) \<Rightarrow>
        case parent of
          None \<Rightarrow> (let c1 = (gm_output_error c (asc ''ERR path''))\<lparr>c_pending := PENDING_NONE\<rparr> in (is_open c1, c1, h1))
        | Some (dir, leaf) \<Rightarrow>
            let failed = (gm_output_error c (asc ''ERR write''))\<lparr>c_pending := PENDING_NONE\<rparr> in
            case sys_open_write (dir @ [leaf]) (c_pending c = PENDING_APPEND) h1 of (opened, h2) \<Rightarrow>
              if \<not> opened then (is_open failed, failed, h2)
              else case write_loop_file (dir @ [leaf]) (take (c_pending_count c) (c_input c)) 0 h2 of (done, h3) \<Rightarrow>
                case sys_ok h3 of (closed, h4) \<Rightarrow>
                  if \<not> closed \<or> done \<noteq> c_pending_count c then (is_open failed, failed, h4)
                  else
                    let c1 = (gm_input_consume c (c_pending_count c))\<lparr>c_pending := PENDING_NONE, c_pending_count := 0, c_pending_path := []\<rparr> in
                    case gm_output_line c1 (asc ''OK'') of (ok, c2) \<Rightarrow>
                      let c3 = (if \<not> ok then gm_client_close c2 else c2) in (is_open c3, c3, h4))"


subsection \<open>Commands\<close>

definition is_delim :: "u8 \<Rightarrow> bool" where
  "is_delim c \<longleftrightarrow> c = 32 \<or> c = 9"

text \<open>One call of \<^verbatim>\<open>strtok\<close>: the next word and the text after it.\<close>

definition strtok_next :: "cstr \<Rightarrow> cstr option \<times> cstr" where
  "strtok_next s =
     (let t = dropWhile is_delim s in
      if t = [] then (None, []) else (Some (takeWhile (\<lambda>c. \<not> is_delim c) t), tl (dropWhile (\<lambda>c. \<not> is_delim c) t)))"

text \<open>The first four words, and whether there is a fifth.\<close>

fun split_parts :: "nat \<Rightarrow> cstr \<Rightarrow> cstr list \<times> bool" where
  "split_parts 0 s = ([], fst (strtok_next s) \<noteq> None)"
| "split_parts (Suc n) s =
     (case strtok_next s of (token, rest) \<Rightarrow>
        case token of
          None \<Rightarrow> ([], False)
        | Some w \<Rightarrow> case split_parts n rest of (ws, again) \<Rightarrow> (w # ws, again))"

abbreviation answer :: "gm_client \<Rightarrow> string \<Rightarrow> gm_host \<Rightarrow> bool \<times> gm_client \<times> gm_host" where
  "answer c text h \<equiv> (case gm_output_line c (asc text) of (ok, c1) \<Rightarrow> (ok, c1, h))"

definition cmd_list :: "gm_client \<Rightarrow> gm_host \<Rightarrow> bool \<times> gm_client \<times> gm_host" where
  "cmd_list c h =
     (case gm_list_collect (c\<lparr>c_output_pos := 0, c_output := []\<rparr>) h of (ok, c1, h1) \<Rightarrow>
        if \<not> ok then let c2 = gm_output_error c1 (asc ''ERR list'') in (is_open c2, c2, h1)
        else case gm_output_line c1 (asc ''OK END'') of (ok, c2) \<Rightarrow>
          if \<not> ok then let c3 = gm_output_error c2 (asc ''ERR list'') in (is_open c3, c3, h1)
          else (True, c2, h1))"

definition cmd_stat :: "cstr \<Rightarrow> gm_client \<Rightarrow> gm_host \<Rightarrow> bool \<times> gm_client \<times> gm_host" where
  "cmd_stat name c h =
     (case gm_open_regular name h of (file, h1) \<Rightarrow>
        case file of
          None \<Rightarrow> answer c ''ERR missing'' h1
        | Some (path, b) \<Rightarrow>
            case gm_output_line c (asc ''OK '' @ dec_bytes (length b)) of (ok, c1) \<Rightarrow> (ok, c1, h1))"

function read_loop :: "cstr list \<Rightarrow> nat \<Rightarrow> nat \<Rightarrow> gm_host \<Rightarrow> bytes option \<times> gm_host" where
  "read_loop path offset count h =
     (case sys_read path offset count h of (r, h1) \<Rightarrow>
        case r of
          Inr data \<Rightarrow> (Some data, h1)
        | Inl e \<Rightarrow> if e = Io_Intr then read_loop path offset count h1 else (None, h1))"
  by pat_completeness auto
termination
  by (relation "measure (\<lambda>(path, offset, count, h). length (env_sys h))")
    (auto simp: sys_read_def sys_next_def Let_def split: list.splits sys_result.splits)

declare read_loop.simps [simp del]

definition cmd_read :: "cstr \<Rightarrow> cstr \<Rightarrow> cstr \<Rightarrow> gm_client \<Rightarrow> gm_host \<Rightarrow> bool \<times> gm_client \<times> gm_host" where
  "cmd_read name off cnt c h =
     (case (gm_number off, gm_number cnt) of
        (Some offset, Some count) \<Rightarrow>
          if count > 1024 \<or> offset > 0x7fffffffffffffff then answer c ''ERR read'' h
          else case gm_open_regular name h of (file, h1) \<Rightarrow>
            (case file of
               None \<Rightarrow> answer c ''ERR read'' h1
             | Some (path, b) \<Rightarrow>
                 case sys_ok h1 of (seek, h2) \<Rightarrow>
                   if \<not> seek then answer c ''ERR read'' h2
                   else case read_loop path (unat offset) (unat count) h2 of (got, h3) \<Rightarrow>
                     (case got of
                        None \<Rightarrow> answer c ''ERR read'' h3
                      | Some data \<Rightarrow>
                          case gm_output_line c (asc ''OK '' @ dec_bytes (length data)) of (ok, c1) \<Rightarrow>
                            if \<not> ok then (False, c1, h3)
                            else if data = [] then (True, c1, h3)
                            else case gm_output_add c1 data of (ok, c2) \<Rightarrow> (ok, c2, h3)))
      | _ \<Rightarrow> answer c ''ERR read'' h)"

definition cmd_write :: "cstr \<Rightarrow> cstr \<Rightarrow> bool \<Rightarrow> gm_client \<Rightarrow> gm_host \<Rightarrow> bool \<times> gm_client \<times> gm_host" where
  "cmd_write name cnt at_end c h =
     (case gm_number cnt of
        None \<Rightarrow> answer c ''ERR size'' h
      | Some count \<Rightarrow>
          if count > 1024 then answer c ''ERR size'' h
          else if length name + 1 > 512 then answer c ''ERR path'' h
          else gm_pending_write (c\<lparr>c_pending_path := name, c_pending := (if at_end then PENDING_APPEND else PENDING_WRITE),
                                   c_pending_count := unat count\<rparr>) h)"

definition cmd_del :: "cstr \<Rightarrow> gm_client \<Rightarrow> gm_host \<Rightarrow> bool \<times> gm_client \<times> gm_host" where
  "cmd_del name c h =
     (case gm_open_parent name False 512 h of (parent, h1) \<Rightarrow>
        case parent of
          None \<Rightarrow> answer c ''ERR missing'' h1
        | Some (dir, leaf) \<Rightarrow>
            case sys_ok h1 of (stat, h2) \<Rightarrow>
              if \<not> stat \<or> \<not> (case fs_at (dir @ [leaf]) (host_fs h2) of Some (FS_File b) \<Rightarrow> True | _ \<Rightarrow> False)
              then answer c ''ERR missing'' h2
              else case sys_ok h2 of (removed, h3) \<Rightarrow>
                if \<not> removed then answer c ''ERR delete'' h3
                else answer c ''OK'' (h3\<lparr>host_fs := fs_del (dir @ [leaf]) (host_fs h3)\<rparr>))"

definition gm_command :: "cstr \<Rightarrow> gm_client \<Rightarrow> gm_host \<Rightarrow> bool \<times> gm_client \<times> gm_host" where
  "gm_command line c h =
     (case split_parts 4 line of (part, again) \<Rightarrow>
        let parts = length part in
        if again then answer c ''ERR syntax'' h
        else if parts = 0 then (True, c, h)
        else if part ! 0 = asc ''PING'' \<and> parts = 1 then answer c ''OK PONG'' h
        else if part ! 0 = asc ''LIST'' \<and> parts = 1 then cmd_list c h
        else if parts < 2 \<or> \<not> gm_name_valid (Some (part ! 1)) then answer c ''ERR path'' h
        else if part ! 0 = asc ''STAT'' \<and> parts = 2 then cmd_stat (part ! 1) c h
        else if part ! 0 = asc ''READ'' \<and> parts = 4 then cmd_read (part ! 1) (part ! 2) (part ! 3) c h
        else if (part ! 0 = asc ''WRITE'' \<or> part ! 0 = asc ''APPEND'') \<and> parts = 3
        then cmd_write (part ! 1) (part ! 2) (part ! 0 = asc ''APPEND'') c h
        else if part ! 0 = asc ''DEL'' \<and> parts = 2 then cmd_del (part ! 1) c h
        else answer c ''ERR syntax'' h)"


subsection \<open>Input and output of a client\<close>

definition line_end :: "bytes \<Rightarrow> nat" where
  "line_end input = length (takeWhile (\<lambda>c. c \<noteq> 10) input)"

definition gm_process_input :: "gm_client \<Rightarrow> gm_host \<Rightarrow> bool \<times> gm_client \<times> gm_host" where
  "gm_process_input c h =
     (if length (c_output c) \<noteq> c_output_pos c then (True, c, h)
      else if c_pending c \<noteq> PENDING_NONE then gm_pending_write c h
      else
        let nl = line_end (c_input c) in
        if nl = length (c_input c) then
          let c1 = (if length (c_input c) = 4096 then gm_output_error (c\<lparr>c_input := []\<rparr>) (asc ''ERR syntax'') else c) in
          (is_open c1, c1, h)
        else
          let len = (if nl \<noteq> 0 \<and> c_input c ! (nl - 1) = 13 then nl - 1 else nl);
              line = take len (c_input c);
              c1 = gm_input_consume c (nl + 1) in
          if len + 1 > 512 \<or> list_ex (\<lambda>b. b < 32 \<or> b > 126) line then
            let c2 = gm_output_error c1 (asc ''ERR syntax'') in (is_open c2, c2, h)
          else case gm_command line c1 h of (ok, c2, h1) \<Rightarrow>
            if \<not> ok then (False, gm_client_close c2, h1) else (is_open c2, c2, h1))"

definition sys_recv :: "nat \<Rightarrow> gm_host \<Rightarrow> recv_result \<times> gm_host" where
  "sys_recv cap h =
     (case env_recv h of
        [] \<Rightarrow> (Recv_Again, h)
      | r # rs \<Rightarrow> (case r of Recv_Data d \<Rightarrow> Recv_Data (take cap d) | _ \<Rightarrow> r, h\<lparr>env_recv := rs\<rparr>))"

function client_recv :: "gm_client \<Rightarrow> gm_host \<Rightarrow> bool \<times> gm_client \<times> gm_host" where
  "client_recv c h =
     (case sys_recv (4096 - length (c_input c)) h of (r, h1) \<Rightarrow>
        case r of
          Recv_Intr \<Rightarrow> client_recv c h1
        | Recv_Again \<Rightarrow> (True, c, h1)
        | Recv_Fail \<Rightarrow> (False, c, h1)
        | Recv_Data d \<Rightarrow> if d = [] then (False, c, h1) else (True, c\<lparr>c_input := c_input c @ d\<rparr>, h1))"
  by pat_completeness auto
termination
  by (relation "measure (\<lambda>(c, h). length (env_recv h))")
    (auto simp: sys_recv_def split: list.splits recv_result.splits)

declare client_recv.simps [simp del]

definition gm_client_read :: "gm_client \<Rightarrow> gm_host \<Rightarrow> bool \<times> gm_client \<times> gm_host" where
  "gm_client_read c h =
     (if length (c_input c) = 4096 then gm_process_input c h
      else case client_recv c h of (ok, c1, h1) \<Rightarrow> if \<not> ok then (False, c1, h1) else gm_process_input c1 h1)"

definition sys_send :: "gm_host \<Rightarrow> send_result \<times> gm_host" where
  "sys_send h = (case env_send h of [] \<Rightarrow> (Send_Again, h) | r # rs \<Rightarrow> (r, h\<lparr>env_send := rs\<rparr>))"

text \<open>The sending loop: \<open>Some ok\<close> when the function returns \<open>ok\<close> from inside, \<open>None\<close> when everything has been sent.\<close>

function client_send :: "gm_client \<Rightarrow> gm_host \<Rightarrow> bool option \<times> gm_client \<times> gm_host" where
  "client_send c h =
     (if c_output_pos c < length (c_output c) then
        case sys_send h of (r, h1) \<Rightarrow>
          case r of
            Send_Intr \<Rightarrow> client_send c h1
          | Send_Again \<Rightarrow> (Some True, c, h1)
          | Send_Fail \<Rightarrow> (Some False, c, h1)
          | Send_Some n \<Rightarrow>
              if n = 0 then (Some False, c, h1)
              else client_send (c\<lparr>c_output_pos := c_output_pos c + min n (length (c_output c) - c_output_pos c)\<rparr>) h1
      else (None, c, h))"
  by pat_completeness auto
termination
  by (relation "measure (\<lambda>(c, h). length (env_send h))") (auto simp: sys_send_def split: list.splits)

declare client_send.simps [simp del]

definition gm_client_write :: "gm_client \<Rightarrow> gm_host \<Rightarrow> bool \<times> gm_client \<times> gm_host" where
  "gm_client_write c h =
     (case client_send c h of (r, c1, h1) \<Rightarrow>
        case r of
          Some ok \<Rightarrow> (ok, c1, h1)
        | None \<Rightarrow> gm_process_input (c1\<lparr>c_output_pos := 0, c_output := []\<rparr>) h1)"


subsection \<open>The poll loop\<close>

fun free_client :: "gm_client list \<Rightarrow> nat \<Rightarrow> nat option" where
  "free_client [] i = None"
| "free_client (c # cs) i = (if is_open c then free_client cs (i + 1) else Some i)"

definition gm_client_add :: "nat \<Rightarrow> gm_client list \<Rightarrow> bool \<times> gm_client list" where
  "gm_client_add fd clients =
     (case free_client clients 0 of
        None \<Rightarrow> (False, clients)
      | Some i \<Rightarrow>
          case gm_output_line ((gm_client_reset (clients ! i))\<lparr>c_fd := Some fd\<rparr>) (asc ''GMSTORE 2.0'') of (ok, c) \<Rightarrow>
            if \<not> ok then (False, clients[i := gm_client_close c]) else (True, clients[i := c]))"

definition sys_accept :: "gm_host \<Rightarrow> accept_result \<times> gm_host" where
  "sys_accept h = (case env_accept h of [] \<Rightarrow> (Accept_Stop, h) | r # rs \<Rightarrow> (r, h\<lparr>env_accept := rs\<rparr>))"

text \<open>A connection whose socket cannot be made non-blocking, or for which there is no slot, is closed.\<close>

function gm_accept_clients :: "gm_client list \<Rightarrow> gm_host \<Rightarrow> gm_client list \<times> gm_host" where
  "gm_accept_clients clients h =
     (case sys_accept h of (r, h1) \<Rightarrow>
        case r of
          Accept_Intr \<Rightarrow> gm_accept_clients clients h1
        | Accept_Stop \<Rightarrow> (clients, h1)
        | Accept_Fd fd nonblock peer port \<Rightarrow>
            let h2 = h1\<lparr>host_accepted := host_accepted h1 @ [fd]\<rparr> in
            case (if \<not> nonblock then (False, clients) else gm_client_add fd clients) of (ok, clients1) \<Rightarrow>
              gm_accept_clients clients1
                (if ok then h2\<lparr>host_log := host_log h2 @ asc ''connect '' @ print_ip peer @ [58] @ dec_bytes (unat port) @ [10]\<rparr>
                 else h2\<lparr>host_refused := host_refused h2 @ [fd]\<rparr>))"
  by pat_completeness auto
termination
  by (relation "measure (\<lambda>(clients, h). length (env_accept h))") (auto simp: sys_accept_def split: list.splits if_splits)

declare gm_accept_clients.simps [simp del]

text \<open>
  What \<^verbatim>\<open>poll\<close> reports for a descriptor. A closed slot is not polled; an open one is polled for output when it has some,
  for input otherwise.
\<close>

record revents =
  rv_err :: bool
  rv_in :: bool
  rv_out :: bool

definition poll_mask :: "gm_client \<Rightarrow> revents \<Rightarrow> revents" where
  "poll_mask c r =
     (if \<not> is_open c then \<lparr>rv_err = False, rv_in = False, rv_out = False\<rparr>
      else if c_output_pos c < length (c_output c) then r\<lparr>rv_in := False\<rparr> else r\<lparr>rv_out := False\<rparr>)"

definition disconnect :: "gm_client \<Rightarrow> gm_host \<Rightarrow> gm_client \<times> gm_host" where
  "disconnect c h = (gm_client_close c, h\<lparr>host_log := host_log h @ asc ''disconnect'' @ [10]\<rparr>)"

definition client_turn :: "revents \<Rightarrow> gm_client \<Rightarrow> gm_host \<Rightarrow> gm_client \<times> gm_host" where
  "client_turn r c h =
     (if \<not> is_open c then (c, h)
      else if rv_err r then disconnect c h
      else case (if rv_out r then gm_client_write c h else (True, c, h)) of (ok, c1, h1) \<Rightarrow>
        if \<not> ok then disconnect c1 h1
        else case (if is_open c1 \<and> rv_in r then gm_client_read c1 h1 else (True, c1, h1)) of (ok, c2, h2) \<Rightarrow>
          if \<not> ok then disconnect c2 h2 else (c2, h2))"

fun clients_loop :: "revents list \<Rightarrow> gm_client list \<Rightarrow> gm_host \<Rightarrow> gm_client list \<times> gm_host" where
  "clients_loop (r # rs) (c # cs) h =
     (case client_turn r c h of (c1, h1) \<Rightarrow> case clients_loop rs cs h1 of (cs1, h2) \<Rightarrow> (c1 # cs1, h2))"
| "clients_loop _ cs h = (cs, h)"

datatype poll_round = Poll_Intr | Poll_Fail | Poll_Ready bool "revents list"

definition server_round :: "bool \<Rightarrow> revents list \<Rightarrow> gm_client list \<Rightarrow> gm_host \<Rightarrow> gm_client list \<times> gm_host" where
  "server_round ready rs clients h =
     (let masked = map2 poll_mask clients rs in
      case (if ready then gm_accept_clients clients h else (clients, h)) of (clients1, h1) \<Rightarrow>
        clients_loop masked clients1 h1)"

text \<open>The loop of \<^verbatim>\<open>main\<close> over the results of \<^verbatim>\<open>poll\<close>: whether it has ended, the clients and the host.\<close>

fun server_loop :: "poll_round list \<Rightarrow> gm_client list \<Rightarrow> gm_host \<Rightarrow> bool \<times> gm_client list \<times> gm_host" where
  "server_loop [] clients h = (False, clients, h)"
| "server_loop (Poll_Intr # ps) clients h = server_loop ps clients h"
| "server_loop (Poll_Fail # ps) clients h = (True, map gm_client_close clients, h)"
| "server_loop (Poll_Ready ready rs # ps) clients h =
     (case server_round ready rs clients h of (clients1, h1) \<Rightarrow> server_loop ps clients1 h1)"


subsection \<open>Start-up\<close>

record server_args =
  arg_root :: cstr
  arg_host :: cstr
  arg_port :: u64

fun server_options :: "cstr list \<Rightarrow> server_args \<Rightarrow> server_args option" where
  "server_options [] a = Some a"
| "server_options (w # v # ws) a =
     (if w = asc ''--root'' then server_options ws (a\<lparr>arg_root := v\<rparr>)
      else if w = asc ''--host'' then server_options ws (a\<lparr>arg_host := v\<rparr>)
      else if w = asc ''--port'' then
        (case gm_number v of
           None \<Rightarrow> None
         | Some port \<Rightarrow> if port = 0 \<or> port > 65535 then None else server_options ws (a\<lparr>arg_port := port\<rparr>))
      else None)"
| "server_options [w] a = None"

definition server_defaults :: server_args where
  "server_defaults = \<lparr>arg_root = asc ''store'', arg_host = asc ''0.0.0.0'', arg_port = 7070\<rparr>"

text \<open>
  \<^verbatim>\<open>gm_make_dirs\<close>: the directories it asks the system for, each prefix that ends before a slash and then the whole path,
  up to the first failure. The argument \<open>made\<close> says which requests succeed or find the directory there.
\<close>

fun make_dirs_loop :: "(cstr \<Rightarrow> bool) \<Rightarrow> cstr \<Rightarrow> cstr \<Rightarrow> bool \<times> cstr list" where
  "make_dirs_loop made before [] = (made before, [before])"
| "make_dirs_loop made before (c # p) =
     (if c \<noteq> 47 then make_dirs_loop made (before @ [c]) p
      else if \<not> made before then (False, [before])
      else case make_dirs_loop made (before @ [c]) p of (ok, ds) \<Rightarrow> (ok, before # ds))"

definition gm_make_dirs :: "(cstr \<Rightarrow> bool) \<Rightarrow> cstr option \<Rightarrow> bool \<times> cstr list" where
  "gm_make_dirs made path =
     (case path of None \<Rightarrow> (False, []) | Some p \<Rightarrow> if cur p = 0 then (False, []) else make_dirs_loop made [hd p] (tl p))"

definition client_zero :: gm_client where
  "client_zero = \<lparr>c_fd = None, c_input = [], c_output = [], c_output_pos = 0, c_pending = PENDING_NONE, c_pending_count = 0, c_pending_path = [], c_closed = []\<rparr>"

text \<open>The clients when the loop starts.\<close>

definition server_clients :: "gm_client list" where
  "server_clients = map gm_client_reset (replicate 16 client_zero)"

end
