(* ===== verification/Server_Safety.thy ===== *)
theory Server_Safety
  imports Store_Server
begin

section \<open>What the store server keeps\<close>

text \<open>
  Names and the paths they stand for, the files an operation can touch, and the bounds of the client buffers, for every
  sequence of requests and every behaviour of the host.
\<close>

subsection \<open>Names\<close>

definition part_char :: "u8 \<Rightarrow> bool" where
  "part_char c \<longleftrightarrow> 33 \<le> c \<and> c \<le> 126 \<and> c \<noteq> 47"

definition valid_part :: "cstr \<Rightarrow> bool" where
  "valid_part n \<longleftrightarrow> n \<noteq> [] \<and> n \<noteq> [46] \<and> n \<noteq> [46, 46] \<and> list_all part_char n"

text \<open>The components of a path, cut at every slash.\<close>

fun slash_parts :: "cstr \<Rightarrow> cstr list" where
  "slash_parts [] = [[]]"
| "slash_parts (c # p) = (if c = 47 then [] # slash_parts p else (c # hd (slash_parts p)) # tl (slash_parts p))"

lemma slash_parts_not_Nil [simp]: "slash_parts p \<noteq> []"
  by (cases p) auto

lemma slash_parts_first:
  "dropWhile (\<lambda>c. c \<noteq> 47) p = [] \<Longrightarrow> slash_parts p = [p]"
  "dropWhile (\<lambda>c. c \<noteq> 47) p = c # q \<Longrightarrow> slash_parts p = takeWhile (\<lambda>c. c \<noteq> 47) p # slash_parts q"
  by (induction p) (auto split: if_splits)

definition join_parts :: "cstr list \<Rightarrow> cstr" where
  "join_parts ns = concat (map (\<lambda>n. 47 # n) ns)"

lemma join_parts_simps [simp]: "join_parts [] = []" "join_parts (n # ns) = 47 # n @ join_parts ns"
  by (simp_all add: join_parts_def)

lemma part_bad_iff: "part_bad seg \<longleftrightarrow> seg = [] \<or> seg = [46] \<or> seg = [46, 46]"
  by (auto simp: part_bad_def length_Suc_conv numeral_2_eq_2)

lemma part_chars: "list_all part_char n \<Longrightarrow> \<forall>c \<in> set n. c \<noteq> 47"
  by (auto simp: list_all_iff part_char_def)

lemma slash_parts_join:
  "list_all part_char n \<Longrightarrow> list_all (list_all part_char) ns \<Longrightarrow> slash_parts (n @ join_parts ns) = n # ns"
proof (induction ns arbitrary: n)
  case Nil
  then have "dropWhile (\<lambda>c. c \<noteq> 47) n = []" using part_chars by (simp add: dropWhile_eq_Nil_conv)
  then show ?case by (simp add: slash_parts_first)
next
  case (Cons m ns)
  have "dropWhile (\<lambda>c. c \<noteq> 47) (n @ 47 # m @ join_parts ns) = 47 # m @ join_parts ns"
    "takeWhile (\<lambda>c. c \<noteq> 47) (n @ 47 # m @ join_parts ns) = n"
    using part_chars [OF Cons.prems(1)] by (simp_all add: dropWhile_append3 takeWhile_append2)
  then show ?case using Cons slash_parts_first(2) by simp
qed

lemma cut_first_part:
  assumes "list_all part_char seg"
  shows "(\<exists>n ns. seg @ 47 # p = n @ join_parts ns \<and> list_all valid_part (n # ns)) \<longleftrightarrow>
    valid_part seg \<and> (\<exists>n ns. p = n @ join_parts ns \<and> list_all valid_part (n # ns))" (is "?L \<longleftrightarrow> ?R")
proof
  assume ?L
  then obtain n ns where e: "seg @ 47 # p = n @ join_parts ns" "list_all valid_part (n # ns)" by blast
  have tw: "takeWhile (\<lambda>c. c \<noteq> 47) (seg @ 47 # p) = seg" "dropWhile (\<lambda>c. c \<noteq> 47) (seg @ 47 # p) = 47 # p"
    using part_chars [OF assms] by (simp_all add: takeWhile_append2 dropWhile_append3)
  have n: "list_all part_char n" using e(2) by (simp add: valid_part_def)
  show ?R
  proof (cases ns)
    case Nil
    then show ?thesis using e(1) part_chars [OF n] by (metis append_Nil2 in_set_conv_decomp join_parts_simps(1))
  next
    case (Cons m ms)
    then have "seg = n" "p = m @ join_parts ms"
      using tw e(1) part_chars [OF n] by (simp_all add: takeWhile_append2 dropWhile_append3)
    then show ?thesis using e(2) Cons by auto
  qed
next
  assume ?R
  then obtain n ns where "p = n @ join_parts ns" "list_all valid_part (seg # n # ns)" by auto
  then have "seg @ 47 # p = seg @ join_parts (n # ns) \<and> list_all valid_part (seg # n # ns)" by simp
  then show ?L by blast
qed

text \<open>The name test accepts exactly the absolute paths of valid components.\<close>

lemma name_loop_iff:
  assumes "list_all part_char seg" "cstr_ok p"
  shows "name_loop seg p \<longleftrightarrow> (\<exists>n ns. seg @ p = n @ join_parts ns \<and> list_all valid_part (n # ns))"
  using assms
proof (induction seg p rule: name_loop.induct)
  case (1 seg)
  have bad: "part_bad seg \<longleftrightarrow> \<not> valid_part seg" using 1 by (auto simp: part_bad_iff valid_part_def)
  have "ns = []" if "seg = n @ join_parts ns" for n ns
    using that part_chars [OF 1(1)] by (cases ns) auto
  then have "(\<exists>n ns. seg @ [] = n @ join_parts ns \<and> list_all valid_part (n # ns)) \<longleftrightarrow> valid_part seg"
    by (metis append_Nil2 join_parts_simps(1) list.pred_inject)
  with bad show ?case by simp
next
  case (2 seg c p)
  show ?case
  proof (cases "c = 47")
    case True
    note key = cut_first_part [OF 2(3)]
    have "part_bad seg \<longleftrightarrow> \<not> valid_part seg" using 2(3) by (auto simp: part_bad_iff valid_part_def)
    moreover have "name_loop [] p \<longleftrightarrow> (\<exists>n ns. p = n @ join_parts ns \<and> list_all valid_part (n # ns))" if "\<not> part_bad seg"
      using 2(1) [OF _ True that] 2(4) True by simp
    ultimately show ?thesis using True key by auto
  next
    case False
    have c0: "c \<noteq> 0" using 2(4) by simp
    show ?thesis
    proof (cases "c < 33 \<or> c > 126")
      case True
      have "\<not> (seg @ c # p = n @ join_parts ns \<and> list_all valid_part (n # ns))" for n ns
      proof
        assume a: "seg @ c # p = n @ join_parts ns \<and> list_all valid_part (n # ns)"
        have "x = 47 \<or> part_char x" if "x \<in> set (n @ join_parts ns)" for x
          using that a by (auto simp: join_parts_def list_all_iff valid_part_def split: if_splits)
        then have "c = 47 \<or> part_char c" using a by (metis in_set_conv_decomp)
        then show False using False True by (auto simp: part_char_def)
      qed
      then show ?thesis using True False c0 by simp
    next
      case inside: False
      have "part_char c" using inside False by (simp add: part_char_def not_less)
      with 2(3) have "list_all part_char (seg @ [c])" by simp
      then show ?thesis using 2(2) [OF c0 False inside] 2(4) c0 False inside by simp
    qed
  qed
qed

lemma name_valid_parts:
  assumes "cstr_ok name"
  shows "gm_name_valid (Some name) \<longleftrightarrow> (\<exists>ns. ns \<noteq> [] \<and> name = join_parts ns \<and> list_all valid_part ns)"
proof
  assume v: "gm_name_valid (Some name)"
  then obtain p where p: "name = 47 # p" by (cases name) (auto simp: gm_name_valid_def split: if_splits)
  then have "name_loop [] p" using v by (simp add: gm_name_valid_def split: if_splits)
  then obtain n ns where "p = n @ join_parts ns" "list_all valid_part (n # ns)"
    using name_loop_iff [of "[]" p] assms p by auto
  then have "name = join_parts (n # ns)" "list_all valid_part (n # ns)" using p by simp_all
  then show "\<exists>ns. ns \<noteq> [] \<and> name = join_parts ns \<and> list_all valid_part ns" by blast
next
  assume "\<exists>ns. ns \<noteq> [] \<and> name = join_parts ns \<and> list_all valid_part ns"
  then obtain n ns where e: "name = 47 # n @ join_parts ns" "list_all valid_part (n # ns)" by (metis join_parts_simps(2) neq_Nil_conv)
  have "name_loop [] (n @ join_parts ns)" using name_loop_iff [of "[]" "n @ join_parts ns"] assms e by auto
  moreover obtain c m where n: "n = c # m" "part_char c" using e(2) by (cases n) (auto simp: valid_part_def)
  then have "c \<noteq> 0" by (auto simp: part_char_def)
  ultimately show "gm_name_valid (Some name)" using e(1) n(1) by (simp add: gm_name_valid_def)
qed

lemma valid_parts_chars: "list_all valid_part ns \<Longrightarrow> list_all (list_all part_char) ns"
  by (auto simp: list_all_iff valid_part_def)

lemma name_path:
  "list_all valid_part ns \<Longrightarrow> ns \<noteq> [] \<Longrightarrow> slash_parts (tl (join_parts ns)) = ns"
  by (cases ns) (auto simp: valid_part_def intro: slash_parts_join valid_parts_chars)



subsection \<open>The tree under updates\<close>

text \<open>What is at a path when it is not a directory.\<close>

definition leaf_at :: "cstr list \<Rightarrow> fs_node \<Rightarrow> fs_node option" where
  "leaf_at q t = (case fs_at q t of Some (FS_Dir es) \<Rightarrow> None | x \<Rightarrow> x)"

lemma leaf_at_Cons: "leaf_at (n # ns) t = (case fs_entry n t of None \<Rightarrow> None | Some u \<Rightarrow> leaf_at ns u)"
  by (simp add: leaf_at_def split: option.split)

lemma leaf_at_empty: "leaf_at q (FS_Dir []) = None"
  by (cases q) (simp_all add: leaf_at_def)

lemma leaf_at_file: "leaf_at q (FS_File b) = (if q = [] then Some (FS_File b) else None)"
  by (cases q) (simp_all add: leaf_at_def)

lemma map_of_update: "map_of (AList.update k v al) k' = (if k = k' then Some v else map_of al k')"
  by (simp add: update_conv')

lemma map_of_delete: "map_of (AList.delete k al) k' = (if k = k' then None else map_of al k')"
  by (simp add: delete_conv')

lemmas tree_simps = leaf_at_Cons leaf_at_empty leaf_at_file map_of_update map_of_delete

text \<open>Entering a file or an empty directory where there is no directory, and removing a file, touch no other leaf.\<close>

definition not_dir :: "fs_node option \<Rightarrow> bool" where
  "not_dir x \<longleftrightarrow> (case x of Some (FS_Dir es) \<Rightarrow> False | _ \<Rightarrow> True)"

lemma not_dir_below: "not_dir (Some u) \<Longrightarrow> leaf_at (n # ns) u = None"
  by (cases u) (simp_all add: not_dir_def tree_simps)

lemma put_other:
  assumes "p \<noteq> []" "not_dir (fs_at p t)" "v = FS_Dir [] \<or> v = FS_File b" "q \<noteq> p"
  shows "leaf_at q (fs_put p v t) = leaf_at q t"
  using assms
proof (induction p v t arbitrary: q rule: fs_put.induct)
  case (2 n ns v es)
  show ?case
  proof (cases q)
    case Nil
    then show ?thesis by (simp add: leaf_at_def split: option.split)
  next
    case (Cons m ms)
    have below: "leaf_at ms v = (case map_of es n of None \<Rightarrow> None | Some u \<Rightarrow> leaf_at ms u)" if "ns = []" "m = n"
    proof -
      have "ms \<noteq> []" using that Cons 2 by auto
      then obtain k ks where ms: "ms = k # ks" by (cases ms) auto
      have "leaf_at ms v = None" using 2 ms by (auto simp: tree_simps)
      moreover have "leaf_at ms u = None" if "map_of es n = Some u" for u
        using 2 that \<open>ns = []\<close> not_dir_below [of u k ks] ms by simp
      ultimately show ?thesis by (auto split: option.split)
    qed
    show ?thesis using Cons below 2 by (auto simp: tree_simps split: option.split)
  qed
qed auto

lemma put_same:
  assumes "fs_at p t = Some (FS_Dir es)"
  shows "fs_at (p @ [n]) (fs_put (p @ [n]) v t) = Some v"
  using assms
proof (induction p arbitrary: t)
  case Nil
  then show ?case by (simp add: map_of_update)
next
  case (Cons m p)
  then obtain es' u where "t = FS_Dir es'" "map_of es' m = Some u" "fs_at p u = Some (FS_Dir es)"
    by (cases t) (auto split: option.splits)
  then show ?case using Cons.IH by (simp add: map_of_update)
qed

lemma put_absent:
  assumes "fs_at (p @ [n]) t = None"
  shows "leaf_at (p @ [n]) (fs_put (p @ [n]) (FS_Dir []) t) = None"
  using assms
proof (induction p arbitrary: t)
  case Nil
  then show ?case by (cases t) (auto simp: tree_simps)
next
  case (Cons m p)
  show ?case
  proof (cases t)
    case (FS_Dir es)
    then show ?thesis using Cons by (cases "map_of es m") (auto simp: tree_simps)
  qed (use Cons in \<open>auto simp: tree_simps\<close>)
qed

lemma del_other:
  assumes "p \<noteq> []" "not_dir (fs_at p t)" "q \<noteq> p"
  shows "leaf_at q (fs_del p t) = leaf_at q t"
  using assms
proof (induction p t arbitrary: q rule: fs_del.induct)
  case (2 n ns es)
  show ?case
  proof (cases q)
    case Nil
    then show ?thesis by (simp add: leaf_at_def split: option.split)
  next
    case (Cons m ms)
    have below: "leaf_at ms u = None" if "ns = []" "m = n" "map_of es n = Some u" for u
    proof -
      have "ms \<noteq> []" using that Cons 2 by auto
      then obtain k ks where ms: "ms = k # ks" by (cases ms) auto
      show ?thesis using 2 that not_dir_below [of u k ks] ms by simp
    qed
    show ?thesis using Cons below 2 by (auto simp: tree_simps split: option.split)
  qed
qed auto


subsection \<open>What an operation touches\<close>

text \<open>\<open>touches P h h'\<close>: between the two states no leaf outside \<open>P\<close> has changed.\<close>

definition touches :: "cstr list set \<Rightarrow> gm_host \<Rightarrow> gm_host \<Rightarrow> bool" where
  "touches P h h' \<longleftrightarrow> (\<forall>q. q \<notin> P \<longrightarrow> leaf_at q (host_fs h') = leaf_at q (host_fs h))"

lemma touches_refl [simp]: "touches P h h"
  by (simp add: touches_def)

lemma touches_trans [trans]: "touches P h h1 \<Longrightarrow> touches P h1 h2 \<Longrightarrow> touches P h h2"
  by (simp add: touches_def)

lemma touches_mono: "touches {} h h1 \<Longrightarrow> touches P h h1"
  by (simp add: touches_def)

lemma touches_same: "host_fs h1 = host_fs h \<Longrightarrow> touches P h h1"
  by (simp add: touches_def)

lemma sys_next_fs: "sys_next h = (r, h1) \<Longrightarrow> host_fs h1 = host_fs h"
  by (auto simp: sys_next_def split: list.splits)

lemma sys_ok_fs: "sys_ok h = (r, h1) \<Longrightarrow> host_fs h1 = host_fs h"
  by (auto simp: sys_ok_def sys_next_fs split: prod.splits)

lemma mkdirat_touches:
  assumes "sys_mkdirat dir n h = (ok, h1)"
  shows "touches {} h h1"
proof -
  obtain r h0 where r: "sys_ok h = (r, h0)" by fastforce
  have put: "touches {} h0 (h0\<lparr>host_fs := fs_put (dir @ [n]) (FS_Dir []) (host_fs h0)\<rparr>)"
    if a: "fs_at (dir @ [n]) (host_fs h0) = None"
  proof -
    have "leaf_at q (fs_put (dir @ [n]) (FS_Dir []) (host_fs h0)) = leaf_at q (host_fs h0)" for q
    proof (cases "q = dir @ [n]")
      case True
      have "leaf_at (dir @ [n]) (host_fs h0) = None" using a by (simp add: leaf_at_def)
      then show ?thesis using True put_absent [OF a] by simp
    qed (use a in \<open>simp add: put_other not_dir_def\<close>)
    then show ?thesis by (simp add: touches_def)
  qed
  have "touches {} h h0" using sys_ok_fs [OF r] by (rule touches_same)
  then show ?thesis using assms r put touches_trans by (auto simp: sys_mkdirat_def split: if_splits)
qed

lemma opendir_fs: "sys_opendir dir n h = (d, h1) \<Longrightarrow> host_fs h1 = host_fs h"
  by (auto simp: sys_opendir_def sys_ok_fs split: prod.splits option.splits fs_node.splits)

lemma opendir_path: "sys_opendir dir n h = (Some d, h1) \<Longrightarrow> d = dir @ [n]"
  by (auto simp: sys_opendir_def split: prod.splits option.splits fs_node.splits if_splits)

lemma open_parent_loop_touches:
  assumes "open_parent_loop create current part cap h = (r, h1)"
  shows "touches {} h h1 \<and> (\<forall>dir leaf. r = Some (dir, leaf) \<longrightarrow> dir @ [leaf] = current @ slash_parts part)"
  using assms
proof (induction create current part cap h rule: open_parent_loop.induct)
  case (1 create current part cap h)
  let ?n = "takeWhile (\<lambda>c. c \<noteq> 47) part" and ?slash = "dropWhile (\<lambda>c. c \<noteq> 47) part"
  show ?case
  proof (cases "?slash = []")
    case True
    then show ?thesis using 1(2) slash_parts_first(1)
      by (subst (asm) open_parent_loop.simps) (auto simp: Let_def split: if_splits)
  next
    case False
    obtain made h2 where m: "(if create then sys_mkdirat current ?n h else (True, h)) = (made, h2)" by fastforce
    obtain d h3 where d: "sys_opendir current ?n h2 = (d, h3)" by fastforce
    have t2: "touches {} h h2" using m mkdirat_touches by (auto split: if_splits)
    have t3: "touches {} h h3" using touches_trans [OF t2 touches_same] opendir_fs [OF d] by blast
    note E = 1(2) [unfolded open_parent_loop.simps [of create current part cap h] Let_def, simplified False m d prod.case if_False]
    show ?thesis
    proof (cases "made \<and> d \<noteq> None")
      case True
      then obtain dir where dir: "d = Some dir" by auto
      have rec: "open_parent_loop create dir (tl ?slash) cap h3 = (r, h1)" using E True dir by simp
      have parts: "slash_parts part = ?n # slash_parts (tl ?slash)"
        using slash_parts_first(2) [of part] False by (cases ?slash) auto
      have "touches {} h3 h1 \<and> (\<forall>dir' leaf. r = Some (dir', leaf) \<longrightarrow> dir' @ [leaf] = dir @ slash_parts (tl ?slash))"
        using 1(1) [OF refl refl False m [symmetric] _ d [symmetric] dir rec] True by blast
      then show ?thesis using touches_trans [OF t3] opendir_path d dir parts by auto
    next
      case False
      then show ?thesis using E t2 t3 by (auto split: if_splits option.splits)
    qed
  qed
qed

text \<open>The path a valid name stands for.\<close>

definition name_of :: "cstr \<Rightarrow> cstr list" where
  "name_of name = slash_parts (tl name)"

lemma open_parent_touches:
  assumes "gm_open_parent name create cap h = (r, h1)"
  shows "touches {} h h1" "r = Some (dir, leaf) \<Longrightarrow> dir @ [leaf] = name_of name \<and> gm_name_valid (Some name)"
proof -
  obtain ok h0 where k: "sys_ok h = (ok, h0)" by fastforce
  have "touches {} h h0" using sys_ok_fs [OF k] by (rule touches_same)
  then show "touches {} h h1" "r = Some (dir, leaf) \<Longrightarrow> dir @ [leaf] = name_of name \<and> gm_name_valid (Some name)"
    using assms k open_parent_loop_touches touches_trans
    by (auto simp: gm_open_parent_def name_of_def split: if_splits)
qed

lemma open_write_touches:
  assumes "sys_open_write path at_end h = (ok, h1)" "path \<noteq> []"
  shows "touches {path} h h1"
proof -
  obtain k h0 where k: "sys_ok h = (k, h0)" by fastforce
  have put: "touches {path} h0 (h0\<lparr>host_fs := fs_put path (FS_File []) (host_fs h0)\<rparr>)" if "not_dir (fs_at path (host_fs h0))"
    using put_other [OF assms(2) that] by (simp add: touches_def)
  have "touches {path} h h0" using sys_ok_fs [OF k] by (rule touches_same)
  then show ?thesis using assms k put touches_trans
    by (auto simp: sys_open_write_def not_dir_def split: if_splits option.splits fs_node.splits)
qed

lemma file_append_touches: "path \<noteq> [] \<Longrightarrow> touches {path} h (file_append path data h)"
  by (auto simp: file_append_def touches_def not_dir_def intro: put_other split: option.splits fs_node.splits)

lemma sys_write_touches:
  assumes "sys_write path data h = (r, h1)" "path \<noteq> []"
  shows "touches {path} h h1"
proof -
  obtain k h0 where k: "sys_next h = (k, h0)" by fastforce
  have "touches {path} h h0" using sys_next_fs [OF k] by (rule touches_same)
  then show ?thesis using assms k file_append_touches [OF assms(2)] touches_trans
    by (auto simp: sys_write_def split: sys_result.splits)
qed

lemma write_file_touches:
  assumes "write_loop_file path data i h = (n, h1)" "path \<noteq> []"
  shows "touches {path} h h1"
  using assms
proof (induction path data i h rule: write_loop_file.induct)
  case (1 path data i h)
  obtain r h2 where w: "sys_write path (drop i data) h = (r, h2)" by fastforce
  have t: "touches {path} h h2" using sys_write_touches [OF w 1(4)] .
  show ?case
  proof (cases "i < length data")
    case False
    then show ?thesis using 1(3) by (subst (asm) write_loop_file.simps) simp
  next
    case True
    note E = 1(3) [unfolded write_loop_file.simps [of path data i h], simplified True w prod.case if_True]
    show ?thesis
    proof (cases r)
      case (Io_Done k)
      show ?thesis
      proof (cases "k = 0")
        case False
        have "touches {path} h2 h1" using 1(1) [OF True w [symmetric] Io_Done False] E Io_Done False 1(4) by simp
        then show ?thesis using touches_trans [OF t] by blast
      qed (use E Io_Done t in simp)
    next
      case Io_Intr
      have "touches {path} h2 h1" using 1(2) [OF True w [symmetric] Io_Intr] E Io_Intr 1(4) by simp
      then show ?thesis using touches_trans [OF t] by blast
    qed (use E t in simp)
  qed
qed

lemma pending_write_touches:
  assumes "gm_pending_write c h = (ok, c1, h1)"
  shows "touches {} h h1 \<or> gm_name_valid (Some (c_pending_path c)) \<and> touches {name_of (c_pending_path c)} h h1"
proof -
  obtain parent h2 where p: "gm_open_parent (c_pending_path c) True 512 h = (parent, h2)" by fastforce
  note t2 = open_parent_touches(1) [OF p]
  show ?thesis
  proof (cases parent)
    case None
    then show ?thesis using assms p t2 by (auto simp: gm_pending_write_def Let_def split: if_splits)
  next
    case (Some dl)
    obtain dir leaf where dl: "dl = (dir, leaf)" by fastforce
    let ?path = "dir @ [leaf]"
    have path: "?path = name_of (c_pending_path c)" "gm_name_valid (Some (c_pending_path c))"
      using open_parent_touches(2) [OF p] Some dl by auto
    obtain opened h3 where w: "sys_open_write ?path (c_pending c = PENDING_APPEND) h2 = (opened, h3)" by fastforce
    obtain n h4 where l: "write_loop_file ?path (take (c_pending_count c) (c_input c)) 0 h3 = (n, h4)" by fastforce
    obtain closed h5 where k: "sys_ok h4 = (closed, h5)" by fastforce
    have t3: "touches {?path} h h3" using touches_trans [OF touches_mono [OF t2] open_write_touches [OF w]] by simp
    have t4: "touches {?path} h h4" using touches_trans [OF t3 write_file_touches [OF l]] by simp
    have t5: "touches {?path} h h5" using touches_trans [OF t4 touches_same [OF sys_ok_fs [OF k]]] .
    show ?thesis using assms t3 t5 path p Some dl w l k
      by (auto simp: gm_pending_write_def Let_def split: if_splits prod.splits)
  qed
qed

lemma open_regular_touches: "gm_open_regular name h = (r, h1) \<Longrightarrow> touches {} h h1"
proof -
  assume a: "gm_open_regular name h = (r, h1)"
  obtain parent h2 where p: "gm_open_parent name False 512 h = (parent, h2)" by fastforce
  have read: "host_fs h3 = host_fs h2" if "sys_open_read path h2 = (ok, h3)" for path ok h3
    using that by (auto simp: sys_open_read_def sys_ok_fs split: prod.splits option.splits fs_node.splits)
  have "host_fs h1 = host_fs h2"
    using a p read by (auto simp: gm_open_regular_def dest!: sys_ok_fs split: option.splits prod.splits if_splits fs_node.splits)
  then show ?thesis using touches_trans [OF open_parent_touches(1) [OF p]] touches_same by blast
qed

lemma sys_read_fs: "sys_read path offset count h = (r, h1) \<Longrightarrow> host_fs h1 = host_fs h"
  by (auto simp: sys_read_def Let_def sys_next_fs split: prod.splits sys_result.splits)

lemma read_loop_fs: "read_loop path offset count h = (r, h1) \<Longrightarrow> host_fs h1 = host_fs h"
proof (induction path offset count h rule: read_loop.induct)
  case (1 path offset count h)
  obtain x h2 where x: "sys_read path offset count h = (x, h2)" by fastforce
  show ?case using 1 x sys_read_fs [OF x] by (subst (asm) (2) read_loop.simps) (auto split: sum.splits if_splits)
qed

lemma list_open_fs: "list_open h = (ok, h1) \<Longrightarrow> host_fs h1 = host_fs h"
  by (auto simp: list_open_def sys_ok_fs split: prod.splits if_splits)

lemma cmd_read_touches: "cmd_read name off cnt c h = (ok, c1, h1) \<Longrightarrow> touches {} h h1"
proof -
  assume a: "cmd_read name off cnt c h = (ok, c1, h1)"
  obtain found h2 where o: "gm_open_regular name h = (found, h2)" by fastforce
  obtain seek h3 where k: "sys_ok h2 = (seek, h3)" by fastforce
  have t2: "touches {} h h2" using open_regular_touches [OF o] .
  have t3: "touches {} h h3" using touches_trans [OF t2 touches_same [OF sys_ok_fs [OF k]]] .
  have t4: "touches {} h h4" if "read_loop path i n h3 = (r, h4)" for path i n r h4
    using touches_trans [OF t3 touches_same [OF read_loop_fs [OF that]]] .
  show ?thesis using a o k t2 t3
    by (auto simp: cmd_read_def split: option.splits prod.splits if_splits intro: t4)
qed

lemma cmd_stat_touches: "cmd_stat name c h = (ok, c1, h1) \<Longrightarrow> touches {} h h1"
  by (auto simp: cmd_stat_def split: prod.splits option.splits intro: open_regular_touches)

lemma cmd_write_touches:
  "cmd_write name cnt at_end c h = (ok, c1, h1) \<Longrightarrow> touches {} h h1 \<or> gm_name_valid (Some name) \<and> touches {name_of name} h h1"
  by (auto simp: cmd_write_def split: option.splits if_splits prod.splits dest!: pending_write_touches)

lemma cmd_del_touches:
  assumes "cmd_del name c h = (ok, c1, h1)"
  shows "touches {} h h1 \<or> gm_name_valid (Some name) \<and> touches {name_of name} h h1"
proof -
  obtain parent h2 where p: "gm_open_parent name False 512 h = (parent, h2)" by fastforce
  obtain stat h3 where k: "sys_ok h2 = (stat, h3)" by fastforce
  obtain removed h4 where r: "sys_ok h3 = (removed, h4)" by fastforce
  have t: "touches {} h h2" "touches {} h h3" "touches {} h h4"
    using open_parent_touches(1) [OF p] touches_same [OF sys_ok_fs [OF k]] touches_same [OF sys_ok_fs [OF r]] touches_trans by blast+
  have del: "touches {name_of name} h (h4\<lparr>host_fs := fs_del (dir @ [leaf]) (host_fs h4)\<rparr>) \<and> gm_name_valid (Some name)"
    if "parent = Some (dir, leaf)" "fs_at (dir @ [leaf]) (host_fs h3) = Some (FS_File b)" for dir leaf b
  proof -
    have path: "dir @ [leaf] = name_of name" "gm_name_valid (Some name)" using open_parent_touches(2) [OF p] that(1) by auto
    have "not_dir (fs_at (dir @ [leaf]) (host_fs h4))" using that(2) sys_ok_fs [OF r] by (simp add: not_dir_def)
    then have "touches {name_of name} h4 (h4\<lparr>host_fs := fs_del (dir @ [leaf]) (host_fs h4)\<rparr>)"
      using del_other [of "dir @ [leaf]"] by (simp add: touches_def path(1) [symmetric])
    then show ?thesis using touches_trans [OF touches_mono [OF t(3)]] path(2) by blast
  qed
  show ?thesis using assms p k r t del
    by (auto simp: cmd_del_def split: option.splits if_splits prod.splits fs_node.splits)
qed


subsection \<open>The buffers of a client\<close>

definition client_ok :: "gm_client \<Rightarrow> bool" where
  "client_ok c \<longleftrightarrow> length (c_input c) \<le> 4096 \<and> length (c_output c) \<le> 16384 \<and> c_output_pos c \<le> length (c_output c) \<and>
     c_pending_count c \<le> 1024 \<and> length (c_pending_path c) < 512 \<and>
     cstr_ok (c_pending_path c) \<and> (c_pending c \<noteq> PENDING_NONE \<longrightarrow> gm_name_valid (Some (c_pending_path c)))"

lemma client_ok_reset [simp]: "client_ok (gm_client_reset c)" "client_ok (gm_client_close c)" "\<not> is_open (gm_client_close c)"
  by (simp_all add: client_ok_def gm_client_reset_def gm_client_close_def is_open_def)

lemma client_ok_upd [simp]:
  "client_ok c \<Longrightarrow> client_ok (c\<lparr>c_pending := PENDING_NONE\<rparr>)"
  "client_ok c \<Longrightarrow> client_ok (c\<lparr>c_output_pos := 0, c_output := []\<rparr>)"
  "client_ok c \<Longrightarrow> client_ok (c\<lparr>c_input := []\<rparr>)"
  "client_ok c \<Longrightarrow> client_ok (c\<lparr>c_fd := Some fd\<rparr>)"
  "client_ok c \<Longrightarrow> client_ok (gm_input_consume c n)"
  by (auto simp: client_ok_def gm_input_consume_def)

text \<open>Adding to the output changes nothing else and never exceeds the buffer.\<close>

lemma output_add_cases:
  assumes "gm_output_add c data = (ok, c1)"
  obtains "\<not> ok" "c1 = c" "length (c_output c) + length data > 16384"
  | "ok" "c1 = c\<lparr>c_output := c_output c @ data\<rparr>" "length (c_output c) + length data \<le> 16384"
  using assms by (auto simp: gm_output_add_def split: if_splits)

lemma output_add_ok: "client_ok c \<Longrightarrow> gm_output_add c data = (ok, c1) \<Longrightarrow> client_ok c1 \<and> c_fd c1 = c_fd c"
  by (erule output_add_cases) (auto simp: client_ok_def)

lemma output_line_ok:
  assumes "client_ok c" "gm_output_line c msg = (ok, c1)"
  shows "client_ok c1 \<and> c_fd c1 = c_fd c"
proof -
  obtain ok2 c2 where e: "gm_output_add c msg = (ok2, c2)" by fastforce
  show ?thesis using assms(2) e output_add_ok [OF assms(1) e] output_add_ok [of c2 "[10]" ok c1]
    by (cases ok2) (auto simp: gm_output_line_def)
qed

lemma output_error_ok [simp]: "client_ok c \<Longrightarrow> client_ok (gm_output_error c msg)"
proof -
  assume c: "client_ok c"
  obtain ok c1 where e: "gm_output_line (c\<lparr>c_output_pos := 0, c_output := []\<rparr>) msg = (ok, c1)" by fastforce
  show ?thesis using output_line_ok [OF client_ok_upd(2) [OF c] e] e by (simp add: gm_output_error_def)
qed

lemma list_next_fs: "list_next rel n t h = (e, h1) \<Longrightarrow> host_fs h1 = host_fs h"
  by (auto simp: list_next_def dest!: sys_ok_fs split: prod.splits if_splits)

lemma list_enter_fs: "list_enter h = (ok, h1) \<Longrightarrow> host_fs h1 = host_fs h"
  by (auto simp: list_enter_def dest!: sys_ok_fs list_open_fs split: prod.splits if_splits)

lemma list_item_ok: "client_ok c \<Longrightarrow> list_item_line child c = (ok, c1) \<Longrightarrow> client_ok c1"
  by (auto simp: list_item_line_def split: option.splits dest: output_line_ok)

lemma list_entries_ok:
  "client_ok c \<Longrightarrow> list_entries rel es c h = (ok, c1, h1) \<Longrightarrow> client_ok c1 \<and> host_fs h1 = host_fs h"
proof (induction rel es c h arbitrary: ok c1 h1 rule: list_entries.induct)
  case (2 rel n t es c h)
  obtain e h2 where n: "list_next rel n t h = (e, h2)" by fastforce
  note fs = list_next_fs [OF n]
  note E = 2(8) [unfolded list_entries.simps n prod.case]
  consider "e = None" | "e = Some None" | child where "e = Some (Some child)" by (cases e) auto
  then show ?case
  proof cases
    case 1
    then show ?thesis using E fs 2(7) by simp
  next
    case none: 2
    then have "list_entries rel es c h2 = (ok, c1, h1)" using E by simp
    from "2.IH"(1) [OF n [symmetric] none refl 2(7) this] fs show ?thesis by simp
  next
    case (3 child)
    note IH = "2.IH"(2-6) [OF n [symmetric] 3 refl]
    show ?thesis
    proof (cases t)
      case (FS_File b)
      obtain ok2 c2 where w: "list_item_line child c = (ok2, c2)" by fastforce
      note c2 = list_item_ok [OF 2(7) w]
      show ?thesis
      proof (cases ok2)
        case True
        then have "list_entries rel es c2 h2 = (ok, c1, h1)" using E 3 FS_File w by simp
        from IH(1) [OF FS_File w [symmetric] _ c2 this] True fs show ?thesis by simp
      qed (use E 3 FS_File w fs c2 in simp)
    next
      case (FS_Dir sub)
      obtain entered h3 where x: "list_enter h2 = (entered, h3)" by fastforce
      obtain ok2 c2 h4 where r: "list_entries child sub c h3 = (ok2, c2, h4)" by (rule prod_cases3)
      show ?thesis
      proof (cases entered)
        case True
        have c2: "client_ok c2" "host_fs h4 = host_fs h" using IH(2) [OF FS_Dir x [symmetric] _ 2(7) r] True fs list_enter_fs [OF x] by simp_all
        show ?thesis
        proof (cases ok2)
          case ok2: True
          then have "list_entries rel es c2 h4 = (ok, c1, h1)" using E 3 FS_Dir x r True by simp
          from IH(3) [OF FS_Dir x [symmetric] _ r [symmetric] refl _ c2(1) this] True ok2 c2(2) show ?thesis by simp
        qed (use E 3 FS_Dir x r True c2 in simp)
      qed (use E 3 FS_Dir x fs list_enter_fs [OF x] 2(7) in simp)
    next
      case FS_Link
      then have "list_entries rel es c h2 = (ok, c1, h1)" using E 3 by simp
      from IH(4) [OF FS_Link 2(7) this] fs show ?thesis by simp
    next
      case FS_Other
      then have "list_entries rel es c h2 = (ok, c1, h1)" using E 3 by simp
      from IH(5) [OF FS_Other 2(7) this] fs show ?thesis by simp
    qed
  qed
qed simp

end
