(* ===== verification/Server_System.thy ===== *)
theory Server_System
  imports Server_Safety
begin

section \<open>What the store server guarantees\<close>

text \<open>
  The two safety properties of \<^verbatim>\<open>gmstored.c\<close>: the bounds of every buffer of every client, whatever clients send and the
  host does, and the confinement of a request to the one file it names.
\<close>

subsection \<open>Every operation keeps the buffers\<close>

lemma answer_ok: "client_ok c \<Longrightarrow> answer c msg h = (ok, c1, h1) \<Longrightarrow> client_ok c1 \<and> h1 = h"
  using output_line_ok by (auto split: prod.splits)

lemma pending_write_ok:
  assumes "client_ok c" "gm_pending_write c h = (ok, c1, h1)"
  shows "client_ok c1 \<and> (ok \<longrightarrow> is_open c \<longrightarrow> is_open c1)"
proof -
  have failed: "client_ok ((gm_output_error c msg)\<lparr>c_pending := PENDING_NONE\<rparr>)" for msg using assms(1) by simp
  let ?c = "(gm_input_consume c (c_pending_count c))\<lparr>c_pending := PENDING_NONE, c_pending_count := 0, c_pending_path := []\<rparr>"
  have d: "client_ok ?c" using client_ok_upd(5) [OF assms(1), of "c_pending_count c"] by (simp add: client_ok_def)
  obtain k c2 where o: "gm_output_line ?c (asc ''OK'') = (k, c2)" by fastforce
  have c2: "client_ok c2" using output_line_ok [OF d o] by simp
  show ?thesis using assms failed c2 o
    by (auto simp: gm_pending_write_def Let_def split: if_splits prod.splits option.splits)
qed

lemma cmd_list_ok:
  assumes "client_ok c" "cmd_list c h = (ok, c1, h1)"
  shows "client_ok c1 \<and> host_fs h1 = host_fs h"
proof -
  let ?c = "c\<lparr>c_output_pos := 0, c_output := []\<rparr>"
  have c: "client_ok ?c" using assms(1) by simp
  obtain k c2 h2 where l: "gm_list_collect ?c h = (k, c2, h2)" by (rule prod_cases3)
  obtain k3 c3 where e: "gm_output_line c2 (asc ''OK END'') = (k3, c3)" by fastforce
  obtain k4 h3 where o: "list_open h = (k4, h3)" by fastforce
  have "client_ok c2 \<and> host_fs h2 = host_fs h"
  proof (cases "k4 \<and> (\<exists>es. host_fs h3 = FS_Dir es)")
    case True
    then obtain es where es: "host_fs h3 = FS_Dir es" by blast
    obtain j h4 where st: "list_start h3 = (j, h4)" by fastforce
    then have fs: "host_fs h4 = host_fs h3" by (auto simp: list_start_def split: list.splits)
    have "list_entries [] (drop j es) ?c h4 = (k, c2, h2)" using l o True es st by (simp add: gm_list_collect_def)
    from list_entries_ok [OF c this] list_open_fs [OF o] fs show ?thesis by simp
  next
    case False
    then show ?thesis using l o c list_open_fs [OF o] by (auto simp: gm_list_collect_def split: if_splits fs_node.splits)
  qed
  then show ?thesis using assms(2) l e output_line_ok [OF _ e]
    by (auto simp: cmd_list_def Let_def split: if_splits)
qed

text \<open>A listing that begins where the previous one stopped, at the end of the root directory, names no file at all.\<close>

lemma cmd_list_at_end:
  assumes "list_open h = (True, h1)" "host_fs h1 = FS_Dir es" "env_scan h1 = k # ks" "length es \<le> k"
  shows "cmd_list c h = (True, c\<lparr>c_output_pos := 0, c_output := asc ''OK END'' @ [10]\<rparr>, h1\<lparr>env_scan := ks\<rparr>)"
  using assms by (simp add: cmd_list_def gm_list_collect_def list_start_def gm_output_line_def gm_output_add_def)

lemma cmd_stat_ok: "client_ok c \<Longrightarrow> cmd_stat name c h = (ok, c1, h1) \<Longrightarrow> client_ok c1"
  by (auto simp: cmd_stat_def split: prod.splits option.splits dest: output_line_ok)

lemma cmd_read_ok:
  assumes "client_ok c" "cmd_read name off cnt c h = (ok, c1, h1)"
  shows "client_ok c1"
proof -
  have line: "client_ok c2" if "gm_output_line c msg = (k, c2)" for msg k c2 using output_line_ok [OF assms(1) that] by simp
  have add: "client_ok c3" if "client_ok c2" "gm_output_add c2 data = (k, c3)" for data k c2 c3 using output_add_ok [OF that] by simp
  show ?thesis using assms(2)
    by (auto simp: cmd_read_def split: prod.splits option.splits if_splits intro: line add)
qed

lemma cmd_del_ok: "client_ok c \<Longrightarrow> cmd_del name c h = (ok, c1, h1) \<Longrightarrow> client_ok c1"
  by (auto simp: cmd_del_def split: prod.splits option.splits if_splits fs_node.splits dest: output_line_ok)

lemma cmd_write_ok:
  assumes "client_ok c" "gm_name_valid (Some name)" "cstr_ok name" "cmd_write name cnt at_end c h = (ok, c1, h1)"
  shows "client_ok c1"
proof -
  have "client_ok (c\<lparr>c_pending_path := name, c_pending := p, c_pending_count := unat n\<rparr>)" if "n \<le> 1024" "length name + 1 \<le> 512" for n :: u64 and p
    using assms(1-3) that by (simp add: client_ok_def word_le_nat_alt)
  from pending_write_ok [OF this] show ?thesis using assms(1,4)
    by (auto simp: cmd_write_def not_less split: option.splits if_splits prod.splits dest: output_line_ok)
qed

text \<open>The line of the next request, and the name a request is about.\<close>

definition request_line :: "gm_client \<Rightarrow> cstr" where
  "request_line c =
     (let nl = line_end (c_input c) in take (if nl \<noteq> 0 \<and> c_input c ! (nl - 1) = 13 then nl - 1 else nl) (c_input c))"

definition request_name :: "gm_client \<Rightarrow> cstr" where
  "request_name c = (if c_pending c \<noteq> PENDING_NONE then c_pending_path c else fst (split_parts 4 (request_line c)) ! 1)"

definition confined_to :: "cstr \<Rightarrow> gm_host \<Rightarrow> gm_host \<Rightarrow> bool" where
  "confined_to name h h1 \<longleftrightarrow> touches {} h h1 \<or> cstr_ok name \<and> gm_name_valid (Some name) \<and> touches {name_of name} h h1"

lemma confined_refl [simp]: "confined_to name h h" "touches {} h h1 \<Longrightarrow> confined_to name h h1"
  by (simp_all add: confined_to_def)

lemma split_parts_cstr: "cstr_ok s \<Longrightarrow> list_all cstr_ok (fst (split_parts n s))"
proof (induction n arbitrary: s)
  case (Suc n)
  let ?t = "dropWhile is_delim s"
  have t: "cstr_ok ?t" using Suc.prems by (auto simp: cstr_ok_def dest: set_dropWhileD)
  then have "cstr_ok (takeWhile (\<lambda>c. \<not> is_delim c) ?t)" "cstr_ok (tl (dropWhile (\<lambda>c. \<not> is_delim c) ?t))"
    by (auto simp: cstr_ok_def dest: set_takeWhileD set_dropWhileD list.set_sel(2) [rotated])
       (metis list.sel(2) list.set_sel(2) set_dropWhileD)
  then show ?case using Suc.IH by (auto simp: strtok_next_def Let_def split: prod.splits) (metis fst_conv)
qed simp

lemma command_ok:
  assumes "client_ok c" "cstr_ok line" "gm_command line c h = (ok, c1, h1)"
  shows "client_ok c1 \<and> confined_to (fst (split_parts 4 line) ! 1) h h1"
proof -
  obtain part again where s: "split_parts 4 line = (part, again)" by fastforce
  note A = answer_ok [OF assms(1)]
  note D = assms(3) [unfolded gm_command_def s prod.case Let_def]
  have name: "cstr_ok (part ! 1)" if "\<not> (length part < 2 \<or> \<not> gm_name_valid (Some (part ! 1)))"
    using split_parts_cstr [OF assms(2), of 4] s that by (simp add: list_all_length)
  have stat: ?thesis if "cmd_stat (part ! 1) c h = (ok, c1, h1)"
    using cmd_stat_ok [OF assms(1) that] cmd_stat_touches [OF that] by simp
  have read: ?thesis if "cmd_read (part ! 1) (part ! 2) (part ! 3) c h = (ok, c1, h1)"
    using cmd_read_ok [OF assms(1) that] cmd_read_touches [OF that] by simp
  have wr: ?thesis if "gm_name_valid (Some (part ! 1))" "cstr_ok (part ! 1)" "cmd_write (part ! 1) (part ! 2) e c h = (ok, c1, h1)" for e
    using cmd_write_ok [OF assms(1) that] cmd_write_touches [OF that(3)] s that(2) by (auto simp: confined_to_def)
  have del: ?thesis if "cstr_ok (part ! 1)" "cmd_del (part ! 1) c h = (ok, c1, h1)"
    using cmd_del_ok [OF assms(1) that(2)] cmd_del_touches [OF that(2)] s that(1) by (auto simp: confined_to_def)
  have lst: ?thesis if "cmd_list c h = (ok, c1, h1)"
    using cmd_list_ok [OF assms(1) that] touches_same by simp
  have same: ?thesis if "answer c msg h = (ok, c1, h1)" for msg using A [OF that] by simp
  have "(\<exists>msg. answer c msg h = (ok, c1, h1)) \<or> (True, c, h) = (ok, c1, h1) \<or> cmd_list c h = (ok, c1, h1) \<or>
      cmd_stat (part ! 1) c h = (ok, c1, h1) \<or> cmd_read (part ! 1) (part ! 2) (part ! 3) c h = (ok, c1, h1) \<or>
      gm_name_valid (Some (part ! 1)) \<and> cstr_ok (part ! 1) \<and> (\<exists>e. cmd_write (part ! 1) (part ! 2) e c h = (ok, c1, h1)) \<or>
      cstr_ok (part ! 1) \<and> cmd_del (part ! 1) c h = (ok, c1, h1)"
    using D name by (simp only: split: if_split_asm) blast+
  then show ?thesis
    using assms(1) by (elim disjE exE conjE) (erule same, force, erule lst, erule stat, erule read, erule (2) wr, erule (1) del)
qed

lemma process_input_ok:
  assumes "client_ok c" "gm_process_input c h = (ok, c1, h1)"
  shows "client_ok c1 \<and> confined_to (request_name c) h h1"
proof -
  let ?nl = "line_end (c_input c)"
  consider "length (c_output c) \<noteq> c_output_pos c" | "length (c_output c) = c_output_pos c" "c_pending c \<noteq> PENDING_NONE"
    | "length (c_output c) = c_output_pos c" "c_pending c = PENDING_NONE" "?nl = length (c_input c)"
    | "length (c_output c) = c_output_pos c" "c_pending c = PENDING_NONE" "?nl \<noteq> length (c_input c)" by blast
  then show ?thesis
  proof cases
    case 1
    then show ?thesis using assms by (auto simp: gm_process_input_def)
  next
    case 2
    then have "gm_pending_write c h = (ok, c1, h1)" using assms(2) by (simp add: gm_process_input_def)
    from pending_write_ok [OF assms(1) this] pending_write_touches [OF this] show ?thesis
      using 2 assms(1) by (auto simp: confined_to_def request_name_def client_ok_def)
  next
    case 3
    then show ?thesis using assms by (auto simp: gm_process_input_def Let_def)
  next
    case 4
    let ?c = "gm_input_consume c (?nl + 1)"
    have c: "client_ok ?c" using assms(1) by simp
    obtain k c2 h2 where g: "gm_command (request_line c) ?c h = (k, c2, h2)" by (rule prod_cases3)
    have name: "request_name c = fst (split_parts 4 (request_line c)) ! 1" using 4 by (simp add: request_name_def)
    show ?thesis
    proof (cases "(if ?nl \<noteq> 0 \<and> c_input c ! (?nl - 1) = 13 then ?nl - 1 else ?nl) + 1 > 512 \<or> list_ex (\<lambda>b. b < 32 \<or> b > 126) (request_line c)")
      case True
      then show ?thesis using 4 assms(2) c by (auto simp: gm_process_input_def Let_def request_line_def)
    next
      case False
      note E = assms(2) [unfolded gm_process_input_def Let_def]
      have "c1 = c2 \<and> h1 = h2 \<or> c1 = gm_client_close c2 \<and> h1 = h2"
        using E 4 False g by (simp add: request_line_def Let_def split: if_splits)
      moreover have "cstr_ok (request_line c)" using False by (auto simp: cstr_ok_def list_ex_iff)
      ultimately show ?thesis using command_ok [OF c _ g] name by auto
    qed
  qed
qed

lemma client_recv_ok: "client_ok c \<Longrightarrow> client_recv c h = (ok, c1, h1) \<Longrightarrow> client_ok c1 \<and> host_fs h1 = host_fs h \<and> c_fd c1 = c_fd c"
proof (induction c h rule: client_recv.induct)
  case (1 c h)
  obtain r h2 where r: "sys_recv (4096 - length (c_input c)) h = (r, h2)" by fastforce
  have fs: "host_fs h2 = host_fs h" using r by (auto simp: sys_recv_def split: list.splits)
  note E = 1(3) [unfolded client_recv.simps [of c h] r prod.case]
  show ?case
  proof (cases r)
    case (Recv_Data d)
    have "length d \<le> 4096 - length (c_input c)"
      using r Recv_Data by (auto simp: sys_recv_def split: list.splits recv_result.splits)
    then have "client_ok (c\<lparr>c_input := c_input c @ d\<rparr>)" using 1(2) by (auto simp: client_ok_def)
    then show ?thesis using E Recv_Data fs 1(2) by (auto split: if_splits)
  next
    case Recv_Intr
    then show ?thesis using 1(1) [OF r [symmetric] Recv_Intr 1(2)] E fs by simp
  qed (use E fs 1(2) in auto)
qed

lemma client_send_ok: "client_ok c \<Longrightarrow> client_send c h = (r, c1, h1) \<Longrightarrow> client_ok c1 \<and> host_fs h1 = host_fs h \<and> c_fd c1 = c_fd c"
proof (induction c h rule: client_send.induct)
  case (1 c h)
  obtain x h2 where x: "sys_send h = (x, h2)" by fastforce
  have fs: "host_fs h2 = host_fs h" using x by (auto simp: sys_send_def split: list.splits)
  note E = 1(4) [unfolded client_send.simps [of c h] x prod.case]
  show ?case
  proof (cases "c_output_pos c < length (c_output c)")
    case True
    show ?thesis
    proof (cases x)
      case (Send_Some n)
      let ?c = "c\<lparr>c_output_pos := c_output_pos c + min n (length (c_output c) - c_output_pos c)\<rparr>"
      have c: "client_ok ?c" using 1(3) True by (auto simp: client_ok_def)
      show ?thesis
      proof (cases "n = 0")
        case False
        then have "client_send ?c h2 = (r, c1, h1)" using E True Send_Some by simp
        then show ?thesis using 1(1) [OF True x [symmetric] Send_Some False c] fs by simp
      qed (use E True Send_Some fs 1(3) in simp)
    next
      case Send_Intr
      then show ?thesis using 1(2) [OF True x [symmetric] Send_Intr 1(3)] E True fs by simp
    qed (use E True fs 1(3) in simp_all)
  qed (use E 1(3) in simp)
qed


subsection \<open>The poll loop\<close>

lemma client_read_ok:
  assumes "client_ok c" "gm_client_read c h = (ok, c1, h1)"
  shows "client_ok c1"
proof -
  obtain k c2 h2 where r: "client_recv c h = (k, c2, h2)" by (rule prod_cases3)
  have c2: "client_ok c2" using client_recv_ok [OF assms(1) r] by simp
  show ?thesis using assms(2) r c2 process_input_ok [OF assms(1), of h ok c1 h1] process_input_ok [OF c2, of h2 ok c1 h1]
    by (auto simp: gm_client_read_def split: if_splits)
qed

lemma client_write_ok:
  assumes "client_ok c" "gm_client_write c h = (ok, c1, h1)"
  shows "client_ok c1"
proof -
  obtain r c2 h2 where r: "client_send c h = (r, c2, h2)" by (rule prod_cases3)
  have c2: "client_ok c2" using client_send_ok [OF assms(1) r] by simp
  show ?thesis using assms(2) r c2 process_input_ok [OF client_ok_upd(2) [OF c2], of h2 ok c1 h1]
    by (cases r) (auto simp: gm_client_write_def)
qed

lemma client_turn_ok:
  assumes "client_ok c" "client_turn r c h = (c1, h1)"
  shows "client_ok c1"
proof -
  obtain ok2 c2 h2 where w: "(if rv_out r then gm_client_write c h else (True, c, h)) = (ok2, c2, h2)" by (rule prod_cases3)
  obtain ok3 c3 h3 where i: "(if is_open c2 \<and> rv_in r then gm_client_read c2 h2 else (True, c2, h2)) = (ok3, c3, h3)" by (rule prod_cases3)
  have c2: "client_ok c2" using w assms(1) client_write_ok by (auto split: if_splits)
  have "client_ok c3" using i c2 client_read_ok by (auto split: if_splits)
  then show ?thesis using assms w i c2 by (auto simp: client_turn_def disconnect_def split: if_splits)
qed

lemma clients_loop_ok:
  "list_all client_ok cs \<Longrightarrow> clients_loop rs cs h = (cs1, h1) \<Longrightarrow> list_all client_ok cs1 \<and> length cs1 = length cs"
proof (induction rs cs h arbitrary: cs1 h1 rule: clients_loop.induct)
  case (1 r rs c cs h)
  obtain c2 h2 where t: "client_turn r c h = (c2, h2)" by fastforce
  obtain cs3 h3 where l: "clients_loop rs cs h2 = (cs3, h3)" by fastforce
  show ?case using 1(1) [OF t [symmetric] _ l] 1(2,3) t l client_turn_ok [OF _ t] by auto
qed simp_all

lemma client_add_ok:
  assumes "list_all client_ok cs" "gm_client_add fd cs = (ok, cs1)"
  shows "list_all client_ok cs1 \<and> length cs1 = length cs"
proof -
  have "client_ok ((gm_client_reset c)\<lparr>c_fd := Some fd\<rparr>)" for c using client_ok_upd(4) [OF client_ok_reset(1)] .
  from output_line_ok [OF this] show ?thesis using assms
    by (auto simp: gm_client_add_def list_all_iff split: option.splits prod.splits if_splits dest!: set_update_subset_insert [THEN subsetD])
qed

lemma accept_ok:
  "list_all client_ok cs \<Longrightarrow> gm_accept_clients cs h = (cs1, h1) \<Longrightarrow> list_all client_ok cs1 \<and> length cs1 = length cs"
proof (induction cs h rule: gm_accept_clients.induct)
  case (1 cs h)
  obtain r h2 where r: "sys_accept h = (r, h2)" by fastforce
  note E = 1(4) [unfolded gm_accept_clients.simps [of cs h] r prod.case]
  show ?case
  proof (cases r)
    case (Accept_Fd fd nonblock peer port)
    obtain ok cs2 where a: "(if \<not> nonblock then (False, cs) else gm_client_add fd cs) = (ok, cs2)" by fastforce
    have cs2: "list_all client_ok cs2 \<and> length cs2 = length cs" using a client_add_ok [OF 1(3)] 1(3) by (auto split: if_splits)
    let ?h2 = "h2\<lparr>host_accepted := host_accepted h2 @ [fd]\<rparr>"
    have rec: "gm_accept_clients cs2 (if ok then ?h2\<lparr>host_log := host_log ?h2 @ asc ''connect '' @ print_ip peer @ [58] @ dec_bytes (unat port) @ [10]\<rparr>
        else ?h2\<lparr>host_refused := host_refused ?h2 @ [fd]\<rparr>) = (cs1, h1)"
      using E Accept_Fd a unfolding accept_result.case Let_def by simp
    show ?thesis using "1.IH"(1) [OF r [symmetric] Accept_Fd refl a [symmetric]] cs2 rec by (simp only:)
  next
    case Accept_Intr
    then show ?thesis using "1.IH"(2) [OF r [symmetric] Accept_Intr 1(3)] E by simp
  qed (use E 1(3) in simp)
qed

lemma server_round_ok:
  assumes "list_all client_ok cs" "server_round ready rs cs h = (cs1, h1)"
  shows "list_all client_ok cs1 \<and> length cs1 = length cs"
proof -
  obtain cs2 h2 where a: "(if ready then gm_accept_clients cs h else (cs, h)) = (cs2, h2)" by fastforce
  have cs2: "list_all client_ok cs2 \<and> length cs2 = length cs" using a accept_ok [OF assms(1)] assms(1) by (auto split: if_splits)
  have "clients_loop (map2 poll_mask cs rs) cs2 h2 = (cs1, h1)" using assms(2) a by (simp add: server_round_def)
  from clients_loop_ok [OF _ this] cs2 show ?thesis by simp
qed

lemma server_loop_ok:
  "list_all client_ok cs \<Longrightarrow> server_loop ps cs h = (e, cs1, h1) \<Longrightarrow> list_all client_ok cs1 \<and> length cs1 = length cs"
proof (induction ps cs h rule: server_loop.induct)
  case (4 ready rs ps cs h)
  obtain cs2 h2 where r: "server_round ready rs cs h = (cs2, h2)" by fastforce
  show ?case using 4(1) [OF r [symmetric]] 4(2,3) r server_round_ok [OF 4(2) r] by simp
qed (auto simp: list_all_iff)

lemma server_clients_ok: "list_all client_ok server_clients" "length server_clients = 16"
  by (simp_all add: server_clients_def list_all_iff)


subsection \<open>The properties\<close>

text \<open>C14: The server's tables stay well formed. Whatever clients send and however the host's calls go, after any number of
  rounds there are 16 slots, no input, output or path buffer of a slot is overrun, what has been sent is part of the output,
  and a pending write is for a valid name and for at most 1024 bytes, so that its data fits the input buffer.\<close>

theorem server_well_formed:
  "case server_loop rounds server_clients h of (ended, clients, h1) \<Rightarrow>
     length clients = 16 \<and> list_all (\<lambda>c. length (c_input c) \<le> 4096 \<and> length (c_output c) \<le> 16384 \<and> c_output_pos c \<le> length (c_output c) \<and>
       c_pending_count c \<le> 1024 \<and> length (c_pending_path c) < 512 \<and>
       (if c_pending c = PENDING_NONE then True else gm_name_valid (Some (c_pending_path c)))) clients"
proof -
  obtain e cs h1 where l: "server_loop rounds server_clients h = (e, cs, h1)" by (rule prod_cases3)
  from server_loop_ok [OF server_clients_ok(1) l] have "list_all client_ok cs" "length cs = 16" by (simp_all add: server_clients_ok)
  then show ?thesis unfolding l prod.case by (auto elim!: list.pred_mono_strong simp: client_ok_def)
qed

text \<open>C9: A request reaches only the file it names. When a file, link or special file anywhere in the store has changed after
  a client's input was processed, its path is the one of the pending or current request, and every component of that path is
  a non-empty string of printable characters other than dot and dot-dot.\<close>

theorem request_confined:
  assumes "client_ok c" "gm_process_input c h = (ok, c1, h1)" "leaf_at q (host_fs h1) \<noteq> leaf_at q (host_fs h)"
  shows "request_name c = join_parts q \<and> q \<noteq> [] \<and> list_all valid_part q"
proof -
  have "confined_to (request_name c) h h1" using process_input_ok [OF assms(1,2)] by simp
  moreover have "\<not> touches {} h h1" using assms(3) by (auto simp: touches_def)
  ultimately have n: "cstr_ok (request_name c)" "gm_name_valid (Some (request_name c))" "touches {name_of (request_name c)} h h1"
    by (simp_all add: confined_to_def)
  from n(3) assms(3) have q: "name_of (request_name c) = q" unfolding touches_def by (metis singletonD)
  obtain ns where ns: "ns \<noteq> []" "request_name c = join_parts ns" "list_all valid_part ns"
    using name_valid_parts [OF n(1)] n(2) by blast
  then show ?thesis using name_path [OF ns(3,1)] q by (simp add: name_of_def)
qed

end
