(* ===== verification/Store_Protocol.thy ===== *)
theory Store_Protocol
  imports Server_System Store_Client
begin

section \<open>The store protocol: the kernel's requests at the server\<close>

text \<open>
  The two ends of the protocol put together: the bytes the kernel's client sends (\<^verbatim>\<open>tcpstore.c\<close>) processed by the
  server (\<^verbatim>\<open>gmstored.c\<close>). On a host whose calls succeed a write stores exactly the payload and a read returns exactly the
  requested part of the file.
\<close>

subsection \<open>Words and numbers\<close>

definition word :: "cstr \<Rightarrow> bool" where
  "word w \<longleftrightarrow> w \<noteq> [] \<and> list_all (\<lambda>c. 33 \<le> c \<and> c \<le> 126) w"

lemma word_no_delim: "word w \<Longrightarrow> c \<in> set w \<Longrightarrow> \<not> is_delim c"
  by (auto simp: word_def list_all_iff is_delim_def)

lemma strtok_word: "word w \<Longrightarrow> strtok_next (w @ 32 # r) = (Some w, r)" "word w \<Longrightarrow> strtok_next w = (Some w, [])"
proof -
  assume w: "word w"
  then obtain c v where cv: "w = c # v" by (cases w) (auto simp: word_def)
  have d: "dropWhile is_delim (w @ r') = w @ r'" for r' using word_no_delim [OF w] cv by simp
  have sp: "is_delim 32" by (simp add: is_delim_def)
  have t: "takeWhile (\<lambda>c. \<not> is_delim c) (w @ 32 # r) = w" "dropWhile (\<lambda>c. \<not> is_delim c) (w @ 32 # r) = 32 # r"
    using word_no_delim [OF w] sp by (simp_all add: takeWhile_append2 dropWhile_append3)
  have u: "takeWhile (\<lambda>c. \<not> is_delim c) w = w" "dropWhile (\<lambda>c. \<not> is_delim c) w = []"
    using word_no_delim [OF w] by (simp_all add: takeWhile_eq_all_conv dropWhile_eq_Nil_conv)
  show "strtok_next (w @ 32 # r) = (Some w, r)" using d [of "32 # r"] t by (simp add: strtok_next_def)
  show "strtok_next w = (Some w, [])" using d [of "[]"] u cv by (simp add: strtok_next_def Let_def)
qed

lemma strtok_end: "strtok_next [] = (None, [])"
  by (simp add: strtok_next_def)

lemma split_words:
  assumes "word a" "word b" "word c"
  shows "split_parts 4 (a @ 32 # b @ 32 # c) = ([a, b, c], False)"
    "word d \<Longrightarrow> split_parts 4 (a @ 32 # b @ 32 # c @ 32 # d) = ([a, b, c, d], False)"
proof -
  have four: "(4 :: nat) = Suc (Suc (Suc (Suc 0)))" by simp
  show "split_parts 4 (a @ 32 # b @ 32 # c) = ([a, b, c], False)"
    "word d \<Longrightarrow> split_parts 4 (a @ 32 # b @ 32 # c @ 32 # d) = ([a, b, c, d], False)"
    unfolding four using assms by (simp_all add: strtok_word strtok_end)
qed

lemma digit_range: "is_digit c \<Longrightarrow> 33 \<le> c \<and> c \<le> 126"
  by (auto simp: is_digit_unat word_le_nat_alt)

lemma word_dec [simp]: "word (dec_bytes n)"
  using dec_bytes_digits digit_range by (auto simp: word_def list_all_iff)

lemma gm_number_dec:
  assumes "n < 2 ^ 64"
  shows "gm_number (dec_bytes n) = Some (of_nat n)"
proof -
  obtain c r where d: "dec_bytes n = c # r" by (cases "dec_bytes n") auto
  have c: "is_digit c" using dec_bytes_digits [of c n] d by simp
  then have ne: "c \<noteq> 0" "c \<noteq> 45" "c \<noteq> 43" "\<not> is_space c" by (auto simp: is_digit_unat is_space_def word_le_nat_alt)
  have t: "takeWhile is_digit (dec_bytes n) = dec_bytes n" "dropWhile is_digit (dec_bytes n) = []"
    using takeWhile_dec_bytes [of "[]" n] by simp_all
  have "dropWhile is_space (dec_bytes n) = dec_bytes n" "cur (dec_bytes n) = c" using d ne by simp_all
  then show ?thesis using assms ne by (simp add: gm_number_def strtoul10_def Let_def t)
qed

lemma store_number_dec: "n < 2 ^ 64 \<Longrightarrow> gm_store_number (dec_bytes n) = Some (of_nat n)"
  using takeWhile_dec_bytes [of "[]" n] by (subst store_number_spec) (simp only: append_Nil2 cur_simps dot_not_digit not_False_eq_True, simp)

text \<open>A path of valid components is a word.\<close>

lemma valid_name_word:
  assumes "cstr_ok p" "gm_name_valid (Some p)"
  shows "word p"
proof -
  obtain ns where ns: "ns \<noteq> []" "p = join_parts ns" "list_all valid_part ns" using name_valid_parts [OF assms(1)] assms(2) by blast
  have chars: "c = 47 \<or> part_char c" if "c \<in> set p" for c
    using that ns(3) unfolding ns(2) by (auto simp: join_parts_def list_all_iff valid_part_def split: if_splits)
  have "33 \<le> c \<and> c \<le> 126" if "c \<in> set p" for c using chars [OF that] by (auto simp: part_char_def)
  moreover have "p \<noteq> []" using ns(1,2) by (cases ns) auto
  ultimately show ?thesis by (simp add: word_def list_all_iff)
qed


subsection \<open>A line in the input\<close>

text \<open>An open client with nothing to send and no write pending takes the first line of its input as a command.\<close>

definition idle :: "gm_client \<Rightarrow> bool" where
  "idle c \<longleftrightarrow> is_open c \<and> c_output c = [] \<and> c_output_pos c = 0 \<and> c_pending c = PENDING_NONE"

definition printable :: "cstr \<Rightarrow> bool" where
  "printable l \<longleftrightarrow> l \<noteq> [] \<and> list_all (\<lambda>c. 32 \<le> c \<and> c \<le> 126) l"

lemma word_printable:
  "word w \<Longrightarrow> printable w" "printable a \<Longrightarrow> printable b \<Longrightarrow> printable (a @ 32 # b)"
  by (auto simp: printable_def word_def list_all_iff word_le_nat_alt)

lemma process_line:
  assumes "idle c" "c_input c = line @ 10 # rest" "printable line" "length line < 512"
  shows "gm_process_input c h =
    (case gm_command line (c\<lparr>c_input := rest\<rparr>) h of (ok, c1, h1) \<Rightarrow> if \<not> ok then (False, gm_client_close c1, h1) else (is_open c1, c1, h1))"
proof -
  have chars: "b \<noteq> 10 \<and> b \<noteq> 13 \<and> \<not> (b < 32 \<or> b > 126)" if "b \<in> set line" for b
    using assms(3) that by (auto simp: printable_def list_all_iff)
  have nl: "line_end (c_input c) = length line" using chars assms(2) by (simp add: line_end_def takeWhile_append2)
  have ne: "line \<noteq> []" using assms(3) by (simp add: printable_def)
  then have "line ! (length line - 1) \<noteq> 13" using chars [of "line ! (length line - 1)"] by simp
  then have cr: "\<not> (c_input c ! (length line - 1) = 13)" using assms(2) ne by (simp add: nth_append)
  have consume: "gm_input_consume c (length line + 1) = c\<lparr>c_input := rest\<rparr>"
    using assms(2) by (auto simp: gm_input_consume_def)
  have "\<not> list_ex (\<lambda>b. b < 32 \<or> b > 126) line" using chars by (auto simp: list_ex_iff)
  then show ?thesis using assms nl cr consume unfolding gm_process_input_def idle_def by (simp add: Let_def)
qed


subsection \<open>A host whose calls succeed\<close>

lemma calm_sys [simp]: "env_sys h = [] \<Longrightarrow> sys_next h = (Sys_Ok, h)" "env_sys h = [] \<Longrightarrow> sys_ok h = (True, h)"
  by (simp_all add: sys_next_def sys_ok_def)

lemma fs_at_append: "fs_at (p @ q) t = (case fs_at p t of None \<Rightarrow> None | Some u \<Rightarrow> fs_at q u)"
  by (induction p arbitrary: t) (auto split: option.split)

text \<open>A file can be written at a path: what there is of its directories are directories, and it is absent or a file.\<close>

fun writable :: "cstr list \<Rightarrow> fs_node \<Rightarrow> bool" where
  "writable [] t = False"
| "writable (n # ns) t =
     (case t of
        FS_Dir es \<Rightarrow>
          (case map_of es n of
             None \<Rightarrow> True
           | Some u \<Rightarrow> if ns = [] then (case u of FS_File b \<Rightarrow> True | _ \<Rightarrow> False) else writable ns u)
      | _ \<Rightarrow> False)"

lemma writable_empty: "ns \<noteq> [] \<Longrightarrow> writable ns (FS_Dir [])"
  by (cases ns) simp_all

lemma open_parent_created:
  assumes "env_sys h = []" "fs_at current (host_fs h) = Some t" "writable (slash_parts part) t"
    and "list_all (\<lambda>n. n \<noteq> []) (slash_parts part)" "length part + 1 \<le> cap"
  shows "\<exists>dir leaf es h1. open_parent_loop True current part cap h = (Some (dir, leaf), h1) \<and> env_sys h1 = [] \<and>
    fs_at dir (host_fs h1) = Some (FS_Dir es) \<and> writable [leaf] (FS_Dir es)"
  using assms
proof (induction True current part cap h arbitrary: t rule: open_parent_loop.induct)
  case (1 current part cap h)
  let ?n = "takeWhile (\<lambda>c. c \<noteq> 47) part" and ?slash = "dropWhile (\<lambda>c. c \<noteq> 47) part"
  obtain es where es: "t = FS_Dir es" using 1(4) by (cases t; cases "slash_parts part") auto
  show ?case
  proof (cases "?slash = []")
    case True
    then have "slash_parts part = [part]" by (rule slash_parts_first)
    then show ?thesis using 1 es True by (subst open_parent_loop.simps) simp
  next
    case False
    then obtain c q where cq: "?slash = c # q" by (cases ?slash) auto
    have parts: "slash_parts part = ?n # slash_parts q" using slash_parts_first(2) [OF cq] .
    have len: "length q < length part" using cq length_dropWhile_le [of "\<lambda>c. c \<noteq> 47" part] by simp
    let ?p = "current @ [?n]"
    obtain h2 u where m: "sys_mkdirat current ?n h = (True, h2)" "env_sys h2 = []" "fs_at ?p (host_fs h2) = Some u"
        "writable (slash_parts q) u"
    proof (cases "map_of es ?n")
      case None
      then have "fs_at ?p (host_fs h) = None" using 1(3) es by (simp add: fs_at_append)
      then show ?thesis using that [of "h\<lparr>host_fs := fs_put ?p (FS_Dir []) (host_fs h)\<rparr>" "FS_Dir []"] 1(2,3) es
        by (simp add: sys_mkdirat_def put_same writable_empty)
    next
      case (Some u)
      then have "fs_at ?p (host_fs h) = Some u" using 1(3) es by (simp add: fs_at_append)
      then show ?thesis using that [of h u] 1(2,4) es parts Some by (simp add: sys_mkdirat_def)
    qed
    obtain es2 where es2: "u = FS_Dir es2" using m(4) by (cases u; cases "slash_parts q") auto
    have d: "sys_opendir current ?n h2 = (Some ?p, h2)" using m es2 by (simp add: sys_opendir_def)
    have "\<exists>dir leaf es h1. open_parent_loop True ?p (tl ?slash) cap h2 = (Some (dir, leaf), h1) \<and> env_sys h1 = [] \<and>
        fs_at dir (host_fs h1) = Some (FS_Dir es) \<and> writable [leaf] (FS_Dir es)"
      using 1(1) [OF refl refl False _ _ d [symmetric] refl, of True] m 1(5,6) parts cq len by simp
    then show ?thesis by (subst open_parent_loop.simps) (simp only: Let_def False m(1) d prod.case option.case if_True if_False simp_thms)
  qed
qed


text \<open>Opening the directories of a file that is there.\<close>

lemma open_parent_found:
  assumes "env_sys h = []" "fs_at current (host_fs h) = Some t" "fs_at (slash_parts part) t = Some (FS_File b)"
    and "list_all (\<lambda>n. n \<noteq> []) (slash_parts part)" "length part + 1 \<le> cap"
  shows "\<exists>dir leaf. open_parent_loop False current part cap h = (Some (dir, leaf), h) \<and> fs_at (dir @ [leaf]) (host_fs h) = Some (FS_File b)"
  using assms
proof (induction False current part cap h arbitrary: t rule: open_parent_loop.induct)
  case (1 current part cap h)
  let ?n = "takeWhile (\<lambda>c. c \<noteq> 47) part" and ?slash = "dropWhile (\<lambda>c. c \<noteq> 47) part"
  show ?case
  proof (cases "?slash = []")
    case True
    then have "slash_parts part = [part]" by (rule slash_parts_first)
    then show ?thesis using 1 True by (subst open_parent_loop.simps) (simp add: fs_at_append)
  next
    case False
    then obtain c q where cq: "?slash = c # q" by (cases ?slash) auto
    have parts: "slash_parts part = ?n # slash_parts q" using slash_parts_first(2) [OF cq] .
    have len: "length q < length part" using cq length_dropWhile_le [of "\<lambda>c. c \<noteq> 47" part] by simp
    let ?p = "current @ [?n]"
    obtain u where u: "fs_entry ?n t = Some u" "fs_at (slash_parts q) u = Some (FS_File b)" using 1(4) parts by (auto split: option.splits)
    have p: "fs_at ?p (host_fs h) = Some u" using 1(3) u(1) by (simp add: fs_at_append)
    obtain es where es: "u = FS_Dir es" using u(2) by (cases u; cases "slash_parts q") auto
    have d: "sys_opendir current ?n h = (Some ?p, h)" using 1(2) p es by (simp add: sys_opendir_def)
    have "\<exists>dir leaf. open_parent_loop False ?p (tl ?slash) cap h = (Some (dir, leaf), h) \<and> fs_at (dir @ [leaf]) (host_fs h) = Some (FS_File b)"
      using 1(1) [OF refl refl False _ _ d [symmetric] refl, of True] 1(2) p u(2) 1(5,6) parts cq len by simp
    then show ?thesis by (subst open_parent_loop.simps) (simp only: Let_def False d prod.case option.case if_True if_False simp_thms)
  qed
qed

text \<open>What is stored at a path, with nothing stored standing for the empty file.\<close>

definition stored :: "cstr list \<Rightarrow> fs_node \<Rightarrow> bytes" where
  "stored p t = (case fs_at p t of Some (FS_File b) \<Rightarrow> b | _ \<Rightarrow> [])"

lemma stored_leaf: "leaf_at p t = leaf_at p u \<Longrightarrow> stored p t = stored p u"
  by (auto simp: stored_def leaf_at_def split: option.splits fs_node.splits)

lemma write_all:
  assumes "env_sys h = []"
  shows "write_loop_file path data 0 h = (length data, if data = [] then h else file_append path data h)"
proof -
  have calm: "env_sys (file_append path data h) = []" using assms by (simp add: file_append_def split: option.splits fs_node.splits)
  show ?thesis
  proof (cases "data = []")
    case False
    then have "write_loop_file path data 0 h = write_loop_file path data (length data) (file_append path data h)"
      using assms by (subst write_loop_file.simps) (simp add: sys_write_def)
    also have "\<dots> = (length data, file_append path data h)" by (subst write_loop_file.simps) simp
    finally show ?thesis using False by simp
  qed (simp add: write_loop_file.simps)
qed

lemma append_stored:
  assumes "fs_at dir (host_fs h) = Some (FS_Dir es)" "fs_at (dir @ [leaf]) (host_fs h) = Some (FS_File b)"
  shows "fs_at (dir @ [leaf]) (host_fs (file_append (dir @ [leaf]) data h)) = Some (FS_File (b @ data))"
  using assms by (simp add: file_append_def put_same)

lemma put_dir:
  "fs_at dir t = Some (FS_Dir es) \<Longrightarrow> \<exists>es'. fs_at dir (fs_put (dir @ [leaf]) v t) = Some (FS_Dir es')"
proof (induction dir arbitrary: t)
  case Nil
  then show ?case by simp
next
  case (Cons m p)
  then obtain es' u where "t = FS_Dir es'" "map_of es' m = Some u" "fs_at p u = Some (FS_Dir es)"
    by (cases t) (auto split: option.splits)
  then show ?case using Cons.IH by (simp add: map_of_update)
qed

lemma write_stored:
  assumes "env_sys h = []" "fs_at dir (host_fs h) = Some (FS_Dir es)" "writable [leaf] (FS_Dir es)"
  shows "\<exists>h1 h2. sys_open_write (dir @ [leaf]) at_end h = (True, h1) \<and> write_loop_file (dir @ [leaf]) data 0 h1 = (length data, h2) \<and>
    env_sys h2 = [] \<and> fs_at (dir @ [leaf]) (host_fs h2) = Some (FS_File ((if at_end then stored (dir @ [leaf]) (host_fs h) else []) @ data))"
proof -
  let ?p = "dir @ [leaf]"
  let ?old = "if at_end then stored ?p (host_fs h) else []"
  obtain h1 es1 where w: "sys_open_write ?p at_end h = (True, h1)" "env_sys h1 = []" "fs_at dir (host_fs h1) = Some (FS_Dir es1)"
      "fs_at ?p (host_fs h1) = Some (FS_File ?old)"
  proof (cases "map_of es leaf")
    case None
    then have a: "fs_at ?p (host_fs h) = None" using assms(2) by (simp add: fs_at_append)
    obtain es' where "fs_at dir (fs_put ?p (FS_File []) (host_fs h)) = Some (FS_Dir es')" using put_dir [OF assms(2)] by blast
    then show ?thesis using that [of "h\<lparr>host_fs := fs_put ?p (FS_File []) (host_fs h)\<rparr>" es'] assms a
      by (simp add: sys_open_write_def put_same stored_def)
  next
    case (Some u)
    then obtain b where b: "u = FS_File b" using assms(3) by (auto split: fs_node.splits)
    then have a: "fs_at ?p (host_fs h) = Some (FS_File b)" using assms(2) Some by (simp add: fs_at_append)
    obtain es' where d: "fs_at dir (fs_put ?p (FS_File []) (host_fs h)) = Some (FS_Dir es')" using put_dir [OF assms(2)] by blast
    show ?thesis
    proof (cases at_end)
      case True
      then show ?thesis using that [of h es] assms a by (simp add: sys_open_write_def stored_def)
    next
      case False
      then show ?thesis using that [of "h\<lparr>host_fs := fs_put ?p (FS_File []) (host_fs h)\<rparr>" es'] assms a d
        by (simp add: sys_open_write_def put_same)
    qed
  qed
  let ?h2 = "if data = [] then h1 else file_append ?p data h1"
  have "env_sys ?h2 = []" using w(2) by (simp add: file_append_def split: option.splits fs_node.splits)
  moreover have "fs_at ?p (host_fs ?h2) = Some (FS_File (?old @ data))" using append_stored [OF w(3,4)] w(4) by simp
  ultimately show ?thesis using w(1) write_all [OF w(2)] by blast
qed


subsection \<open>Requests of the kernel at the server\<close>

lemma name_components:
  assumes "cstr_ok p" "gm_name_valid (Some p)"
  shows "list_all (\<lambda>n. n \<noteq> []) (slash_parts (tl p))" "p \<noteq> []"
proof -
  obtain ns where ns: "ns \<noteq> []" "p = join_parts ns" "list_all valid_part ns" using name_valid_parts [OF assms(1)] assms(2) by blast
  then show "list_all (\<lambda>n. n \<noteq> []) (slash_parts (tl p))" using name_path [OF ns(3,1)] by (auto simp: list_all_iff valid_part_def)
  show "p \<noteq> []" using ns by (cases ns) auto
qed

text \<open>A pending write whose data is there.\<close>

lemma pending_write_stores:
  assumes "env_sys h = []" "is_open c" "c_output c = []" "c_output_pos c = 0" "c_pending c \<noteq> PENDING_NONE"
    and "c_input c = data @ rest" "c_pending_count c = length data" "cstr_ok (c_pending_path c)"
    and "gm_name_valid (Some (c_pending_path c))" "length (c_pending_path c) < 500"
    and "writable (name_of (c_pending_path c)) (host_fs h)"
  shows "\<exists>c1 h1. gm_pending_write c h = (True, c1, h1) \<and> idle (c1\<lparr>c_output := []\<rparr>) \<and> c_output c1 = asc ''OK'' @ [10] \<and> c_input c1 = rest \<and>
    env_sys h1 = [] \<and> fs_at (name_of (c_pending_path c)) (host_fs h1) =
      Some (FS_File ((if c_pending c = PENDING_APPEND then stored (name_of (c_pending_path c)) (host_fs h) else []) @ data))"
proof -
  let ?name = "c_pending_path c"
  have "length (tl ?name) + 1 \<le> 512" using assms(10) by simp
  then obtain dir leaf es h2 where p: "open_parent_loop True [] (tl ?name) 512 h = (Some (dir, leaf), h2)" "env_sys h2 = []"
      "fs_at dir (host_fs h2) = Some (FS_Dir es)" "writable [leaf] (FS_Dir es)"
    using open_parent_created [of h "[]" "host_fs h" "tl ?name" 512] assms(1,11) name_components(1) [OF assms(8,9)]
    by (auto simp: name_of_def)
  have parent: "gm_open_parent ?name True 512 h = (Some (dir, leaf), h2)" using p(1) assms(1,9,10) by (simp add: gm_open_parent_def)
  have path: "dir @ [leaf] = name_of ?name" using open_parent_touches(2) [OF parent] by blast
  have same: "stored (name_of ?name) (host_fs h2) = stored (name_of ?name) (host_fs h)"
    by (rule stored_leaf) (use open_parent_touches(1) [OF parent] in \<open>simp add: touches_def\<close>)
  obtain h3 h4 where w: "sys_open_write (dir @ [leaf]) (c_pending c = PENDING_APPEND) h2 = (True, h3)"
      "write_loop_file (dir @ [leaf]) data 0 h3 = (length data, h4)" "env_sys h4 = []"
      "fs_at (dir @ [leaf]) (host_fs h4) = Some (FS_File ((if c_pending c = PENDING_APPEND then stored (dir @ [leaf]) (host_fs h2) else []) @ data))"
    using write_stored [OF p(2-4), of "c_pending c = PENDING_APPEND" data] by blast
  let ?c1 = "(gm_input_consume c (length data))\<lparr>c_pending := PENDING_NONE, c_pending_count := 0, c_pending_path := []\<rparr>"
  have c1: "c_input ?c1 = rest" "c_output ?c1 = []" "c_output_pos ?c1 = 0" "is_open ?c1"
    using assms(2-4,6) by (auto simp: gm_input_consume_def is_open_def)
  have out: "gm_output_line ?c1 (asc ''OK'') = (True, ?c1\<lparr>c_output := asc ''OK'' @ [10]\<rparr>)"
    using c1(2) by (simp add: gm_output_line_def gm_output_add_def)
  have "gm_pending_write c h = (True, ?c1\<lparr>c_output := asc ''OK'' @ [10]\<rparr>, h4)"
    using assms(5-7) parent w(1-3) out c1(4) by (simp add: gm_pending_write_def is_open_def Let_def)
  moreover have "idle (?c1\<lparr>c_output := asc ''OK'' @ [10], c_output := []\<rparr>)" using c1 by (simp add: idle_def is_open_def)
  ultimately show ?thesis using w(3,4) c1 path same by auto
qed

lemma server_write:
  assumes "env_sys h = []" "idle c" "cstr_ok p" "gm_name_valid (Some p)" "length p < 450" "length data = unat len" "len \<le> 1024"
    and "writable (name_of p) (host_fs h)" "c_input c = write_head (Some p) len app @ data @ rest"
  shows "\<exists>c1 h1. gm_process_input c h = (True, c1, h1) \<and> idle (c1\<lparr>c_output := []\<rparr>) \<and> c_output c1 = asc ''OK'' @ [10] \<and> c_input c1 = rest \<and>
    env_sys h1 = [] \<and> fs_at (name_of p) (host_fs h1) = Some (FS_File ((if app then stored (name_of p) (host_fs h) else []) @ data))"
proof -
  let ?op = "if app then asc ''APPEND'' else asc ''WRITE''"
  let ?line = "?op @ 32 # p @ 32 # dec_bytes (unat len)"
  have words: "word ?op" "word p" by (simp add: word_def) (rule valid_name_word [OF assms(3,4)])
  have input: "c_input c = ?line @ 10 # data @ rest" using assms(9) store_line_words(4) [OF assms(3)] by simp
  have print: "printable ?line" using words by (intro word_printable) simp_all
  have short: "length ?line < 512" using assms(5) dec_bytes_u16 [of len] by simp
  let ?c = "c\<lparr>c_input := data @ rest, c_pending_path := p, c_pending := (if app then PENDING_APPEND else PENDING_WRITE), c_pending_count := unat len\<rparr>"
  have n: "gm_number (dec_bytes (unat len)) = Some (of_nat (unat len))" using gm_number_dec unat_bounds(2) [of len] by simp
  have small: "\<not> (of_nat (unat len) :: u64) > 1024" "unat (of_nat (unat len) :: u64) = unat len"
    using assms(7) unat_bounds(2) [of len] by (simp_all add: word_le_nat_alt not_less unat_of_nat)
  have cmd: "gm_command ?line (c\<lparr>c_input := data @ rest\<rparr>) h = gm_pending_write ?c h"
    using split_words(1) [OF words, of "dec_bytes (unat len)"] assms(4,5) n small by (simp add: gm_command_def Let_def cmd_write_def)
  have "\<exists>c1 h1. gm_pending_write ?c h = (True, c1, h1) \<and> idle (c1\<lparr>c_output := []\<rparr>) \<and> c_output c1 = asc ''OK'' @ [10] \<and> c_input c1 = rest \<and>
    env_sys h1 = [] \<and> fs_at (name_of p) (host_fs h1) = Some (FS_File ((if app then stored (name_of p) (host_fs h) else []) @ data))"
    using pending_write_stores [of h ?c data rest] assms(1-8) by (auto simp: idle_def is_open_def)
  then obtain c1 h1 where r: "gm_pending_write ?c h = (True, c1, h1)" "idle (c1\<lparr>c_output := []\<rparr>)" "c_output c1 = asc ''OK'' @ [10]" "c_input c1 = rest"
    "env_sys h1 = []" "fs_at (name_of p) (host_fs h1) = Some (FS_File ((if app then stored (name_of p) (host_fs h) else []) @ data))" by blast
  have "gm_process_input c h = (True, c1, h1)"
    using process_line [OF assms(2) input print short, of h] cmd r(1,2) by (simp add: idle_def is_open_def)
  then show ?thesis using r by blast
qed

lemma server_read:
  assumes "env_sys h = []" "idle c" "cstr_ok p" "gm_name_valid (Some p)" "length p < 450" "len \<le> 1024" "offset \<le> 0x7fffffffffffffff"
    and "fs_at (name_of p) (host_fs h) = Some (FS_File b)" "c_input c = read_request (Some p) offset len @ rest"
  shows "\<exists>c1. gm_process_input c h = (True, c1, h) \<and> c_input c1 = rest \<and>
    c_output c1 = asc ''OK '' @ dec_bytes (length (take (unat len) (drop (unat offset) b))) @ [10] @ take (unat len) (drop (unat offset) b)"
proof -
  let ?line = "asc ''READ'' @ 32 # p @ 32 # dec_bytes (unat offset) @ 32 # dec_bytes (unat len)"
  let ?d = "take (unat len) (drop (unat offset) b)"
  have words: "word (asc ''READ'')" "word p" by (simp add: word_def) (rule valid_name_word [OF assms(3,4)])
  have input: "c_input c = ?line @ 10 # rest" using assms(9) store_line_words(3) [OF assms(3)] by simp
  have print: "printable ?line" using words by (intro word_printable) simp_all
  have short: "length ?line < 512" using assms(5) dec_bytes_u16 [of len] length_dec_bytes_u64 [of offset] by simp
  have n: "gm_number (dec_bytes (unat len)) = Some (of_nat (unat len))" "gm_number (dec_bytes (unat offset)) = Some offset"
    using gm_number_dec unat_bounds(2) [of len] unat_bounds(4) [of offset] by simp_all
  have small: "\<not> (of_nat (unat len) :: u64) > 1024" "unat (of_nat (unat len) :: u64) = unat len" "unat len \<le> 1024"
    using assms(6) unat_bounds(2) [of len] by (simp_all add: word_le_nat_alt not_less unat_of_nat)
  have "length (tl p) + 1 \<le> 512" using assms(5) by simp
  then obtain dir leaf where p: "open_parent_loop False [] (tl p) 512 h = (Some (dir, leaf), h)" "fs_at (dir @ [leaf]) (host_fs h) = Some (FS_File b)"
    using open_parent_found [of h "[]" "host_fs h" "tl p" b 512] assms(1,8) name_components(1) [OF assms(3,4)] by (auto simp: name_of_def)
  have opened: "gm_open_regular p h = (Some (dir @ [leaf], b), h)"
    using p assms(1,4,5) by (simp add: gm_open_regular_def gm_open_parent_def sys_open_read_def)
  have read: "read_loop (dir @ [leaf]) (unat offset) (unat len) h = (Some ?d, h)"
    using assms(1) p(2) by (subst read_loop.simps) (simp add: sys_read_def)
  let ?c = "c\<lparr>c_input := rest\<rparr>" and ?head = "asc ''OK '' @ dec_bytes (length ?d) @ [10]"
  have c: "c_output ?c = []" "is_open ?c" using assms(2) by (simp_all add: idle_def is_open_def)
  have bound: "length (dec_bytes (length ?d)) \<le> 5" using length_dec_bytes [of "length ?d" 4] small(3) by simp
  have "length ?d \<le> 1024" using small(3) by simp
  then have out: "cmd_read p (dec_bytes (unat offset)) (dec_bytes (unat len)) ?c h = (True, ?c\<lparr>c_output := ?head @ ?d\<rparr>, h)"
    using opened read n small assms(1,7) c(1) bound
    by (auto simp: cmd_read_def gm_output_line_def gm_output_add_def not_less)
  have cmd: "gm_command ?line ?c h = (True, ?c\<lparr>c_output := ?head @ ?d\<rparr>, h)"
    using split_words(2) [OF words word_dec word_dec, of "unat offset" "unat len"] assms(4) out by (simp add: gm_command_def Let_def)
  have "gm_process_input c h = (True, ?c\<lparr>c_output := ?head @ ?d\<rparr>, h)"
    using process_line [OF assms(2) input print short, of h] cmd c(2) by (simp add: is_open_def)
  then show ?thesis by auto
qed


subsection \<open>The property\<close>

text \<open>C6: Client and server agree on the protocol. A write or append request as the kernel sends it, with its data, stores
  exactly the data (after the old contents for an append) and is answered with \<^verbatim>\<open>OK\<close>; a read request as the kernel sends it, from
  any client, is then answered with the length and the bytes of the requested part of the file, and the kernel's own parser
  reads that length back. The host's calls succeed and the path can hold a file.\<close>

theorem store_round_trip:
  assumes "env_sys h = []" "cstr_ok p" "gm_name_valid (Some p)" "length p < 450" "writable (name_of p) (host_fs h)"
    and "length data = unat len" "len \<le> 1024" "idle c" "c_input c = write_head (Some p) len app @ data"
    and "offset \<le> 0x7fffffffffffffff" "count \<le> 1024" "idle d" "c_input d = read_request (Some p) offset count"
  shows "\<exists>c1 h1 d1. gm_process_input c h = (True, c1, h1) \<and> c_output c1 = asc ''OK'' @ [10] \<and> c_input c1 = [] \<and>
    gm_process_input d h1 = (True, d1, h1) \<and> c_input d1 = [] \<and>
    (let x = take (unat count) (drop (unat offset) ((if app then stored (name_of p) (host_fs h) else []) @ data)) in
      c_output d1 = asc ''OK '' @ dec_bytes (length x) @ [10] @ x \<and>
      gm_store_number (drop 3 (asc ''OK '' @ dec_bytes (length x))) = Some (of_nat (length x)))"
proof -
  let ?b = "(if app then stored (name_of p) (host_fs h) else []) @ data"
  let ?x = "take (unat count) (drop (unat offset) ?b)"
  obtain c1 h1 where w: "gm_process_input c h = (True, c1, h1)" "c_output c1 = asc ''OK'' @ [10]" "c_input c1 = []" "env_sys h1 = []"
      "fs_at (name_of p) (host_fs h1) = Some (FS_File ?b)"
    using server_write [OF assms(1,8,2-4,6,7,5), of app "[]"] assms(9) by auto
  obtain d1 where r: "gm_process_input d h1 = (True, d1, h1)" "c_input d1 = []" "c_output d1 = asc ''OK '' @ dec_bytes (length ?x) @ [10] @ ?x"
    using server_read [OF w(4) assms(12,2-4,11,10) w(5), of "[]"] assms(13) by auto
  have "length ?x \<le> unat count" by simp
  then have "length ?x < 2 ^ 64" using unat_bounds(2) [of count] by simp
  from store_number_dec [OF this] have "gm_store_number (drop 3 (asc ''OK '' @ dec_bytes (length ?x))) = Some (of_nat (length ?x))" by simp
  with w r show ?thesis unfolding Let_def by blast
qed


subsection \<open>Witnesses\<close>

definition host_example :: gm_host where
  "host_example = \<lparr>host_fs = FS_Dir [(asc ''b'', FS_File [9])], env_sys = [], env_recv = [], env_send = [], env_accept = [], env_scan = [], host_log = [], host_accepted = [], host_refused = []\<rparr>"

definition client_example :: "bytes \<Rightarrow> gm_client" where
  "client_example input = client_zero\<lparr>c_fd := Some 5, c_input := input\<rparr>"

lemma client_example_idle: "idle (client_example input)"
  by (simp add: idle_def client_example_def client_zero_def is_open_def)

lemma name_example: "gm_name_valid (Some (asc ''/a''))" "name_of (asc ''/a'') = [asc ''a'']" "cstr_ok (asc ''/a'')"
  by (simp_all add: gm_name_valid_def part_bad_def name_of_def)

theorem store_round_trip_witness:
  "\<exists>c1 h1 d1. gm_process_input (client_example (write_head (Some (asc ''/a'')) 3 False @ [7, 8, 9])) host_example = (True, c1, h1) \<and>
     gm_process_input (client_example (read_request (Some (asc ''/a'')) 1 64)) h1 = (True, d1, h1) \<and>
     c_output d1 = asc ''OK 2'' @ [10, 8, 9]"
proof -
  let ?c = "client_example (write_head (Some (asc ''/a'')) 3 False @ [7, 8, 9])" and ?d = "client_example (read_request (Some (asc ''/a'')) 1 64)"
  have "\<exists>c1 h1 d1. gm_process_input ?c host_example = (True, c1, h1) \<and> c_output c1 = asc ''OK'' @ [10] \<and> c_input c1 = [] \<and>
    gm_process_input ?d h1 = (True, d1, h1) \<and> c_input d1 = [] \<and>
    (let x = take (unat (64 :: u16)) (drop (unat (1 :: u64)) ((if False then stored (name_of (asc ''/a'')) (host_fs host_example) else []) @ [7, 8, 9])) in
      c_output d1 = asc ''OK '' @ dec_bytes (length x) @ [10] @ x \<and>
      gm_store_number (drop 3 (asc ''OK '' @ dec_bytes (length x))) = Some (of_nat (length x)))"
    by (rule store_round_trip [OF _ name_example(3,1) _ _ _ _ client_example_idle _ _ _ client_example_idle])
       (simp_all add: host_example_def name_of_def client_example_def)
  then show ?thesis by (auto simp: Let_def dec_bytes.simps)
qed

theorem request_confined_witness:
  "\<exists>c1 h1. gm_process_input (client_example (write_head (Some (asc ''/a'')) 3 False @ [7, 8, 9])) host_example = (True, c1, h1) \<and>
     leaf_at [asc ''a''] (host_fs h1) = Some (FS_File [7, 8, 9]) \<and>
     request_name (client_example (write_head (Some (asc ''/a'')) 3 False @ [7, 8, 9])) = asc ''/a''"
proof -
  let ?c = "client_example (write_head (Some (asc ''/a'')) 3 False @ [7, 8, 9])"
  have "\<exists>c1 h1. gm_process_input ?c host_example = (True, c1, h1) \<and> idle (c1\<lparr>c_output := []\<rparr>) \<and> c_output c1 = asc ''OK'' @ [10] \<and> c_input c1 = [] \<and>
    env_sys h1 = [] \<and> fs_at (name_of (asc ''/a'')) (host_fs h1) =
      Some (FS_File ((if False then stored (name_of (asc ''/a'')) (host_fs host_example) else []) @ [7, 8, 9]))"
    by (rule server_write [OF _ client_example_idle name_example(3,1)]) (simp_all add: host_example_def name_of_def client_example_def)
  then obtain c1 h1 where w: "gm_process_input ?c host_example = (True, c1, h1)" "fs_at [asc ''a''] (host_fs h1) = Some (FS_File [7, 8, 9])"
    unfolding name_example(2) by auto
  have leaf: "leaf_at [asc ''a''] (host_fs h1) = Some (FS_File [7, 8, 9])" using w(2) by (simp add: leaf_at_def)
  have old: "leaf_at [asc ''a''] (host_fs host_example) = None" by (simp add: leaf_at_def host_example_def)
  have "client_ok ?c" using store_line_words(4) [OF name_example(3), of 3 False]
    by (simp add: client_ok_def client_example_def client_zero_def dec_bytes.simps)
  from request_confined [OF this w(1), of "[asc ''a'']"] leaf old w(1) show ?thesis by simp
qed


subsection \<open>Findings\<close>

text \<open>A write that cannot open its file is answered with an error, but its data stays in the input and is read as commands.\<close>

lemma failed_write_leaves_data:
  assumes "is_open c" "c_pending c \<noteq> PENDING_NONE" "c_pending_count c \<le> length (c_input c)"
    and "gm_open_parent (c_pending_path c) True 512 h = (None, h1)"
  shows "\<exists>c1. gm_pending_write c h = (True, c1, h1) \<and> c_output c1 = asc ''ERR path'' @ [10] \<and> c_pending c1 = PENDING_NONE \<and> c_input c1 = c_input c"
  using assms by (simp add: gm_pending_write_def gm_output_error_def gm_output_line_def gm_output_add_def is_open_def Let_def)

text \<open>After a blank line the rest of the input is left alone although it may hold a whole command, and there is no output whose
  end would make the server look again.\<close>

lemma blank_line_stalls:
  assumes "idle c" "c_input c = 10 # rest"
  shows "gm_process_input c h = (True, c\<lparr>c_input := rest\<rparr>, h)"
proof -
  have "split_parts 4 [] = ([], False)" using strtok_end by (simp add: numeral_eq_Suc)
  then show ?thesis using assms
    by (simp add: gm_process_input_def idle_def line_end_def Let_def gm_command_def gm_input_consume_def is_open_def)
qed

end
