(* ===== verification/Server_Conns.thy ===== *)
theory Server_Conns
  imports Server_System "HOL-Library.Multiset"
begin

section \<open>The sockets of the store server\<close>

text \<open>
  Every socket that \<^verbatim>\<open>accept\<close> returns is refused and closed at once, held by exactly one slot, or was closed through the slot that
  held it. Sockets are counted as multisets, so that none is lost and none is closed twice.
\<close>

definition conns :: "gm_host \<Rightarrow> nat list \<times> nat list" where
  "conns h = (host_accepted h, host_refused h)"

definition slot_fds :: "gm_client \<Rightarrow> nat multiset" where
  "slot_fds c = mset (c_closed c) + (case c_fd c of None \<Rightarrow> {#} | Some fd \<Rightarrow> {#fd#})"


subsection \<open>Calls on files leave the sockets alone\<close>

lemma conns_upd [simp]: "conns (h\<lparr>host_fs := t\<rparr>) = conns h" "conns (h\<lparr>host_log := l\<rparr>) = conns h" "conns (h\<lparr>env_sys := r\<rparr>) = conns h"
    "conns (h\<lparr>env_recv := a\<rparr>) = conns h" "conns (h\<lparr>env_send := b\<rparr>) = conns h" "conns (h\<lparr>env_accept := d\<rparr>) = conns h" "conns (h\<lparr>env_scan := k\<rparr>) = conns h"
  by (simp_all add: conns_def)

lemma conns_next [simp]: "conns (snd (sys_next h)) = conns h"
  by (simp add: sys_next_def split: list.split)

lemma conns_ok [simp]: "conns (snd (sys_ok h)) = conns h"
  by (simp add: sys_ok_def case_prod_beta)

lemma conns_open [simp]: "conns (snd (sys_mkdirat dir n h)) = conns h" "conns (snd (sys_opendir dir n h)) = conns h"
    "conns (snd (sys_open_read path h)) = conns h" "conns (snd (sys_open_write path e h)) = conns h" "conns (file_append path d h) = conns h"
  by (simp_all add: sys_mkdirat_def sys_opendir_def sys_open_read_def sys_open_write_def file_append_def case_prod_beta split: option.split fs_node.split)

lemma conns_io [simp]: "conns (snd (sys_write path d h)) = conns h" "conns (snd (sys_read path off n h)) = conns h"
  by (simp_all add: sys_write_def sys_read_def Let_def case_prod_beta split: sys_result.split)

lemma conns_parent_loop [simp]: "conns (snd (open_parent_loop create dir part cap h)) = conns h"
proof (induction create dir part cap h rule: open_parent_loop.induct)
  case (1 create dir part cap h)
  let ?n = "takeWhile (\<lambda>c. c \<noteq> 47) part"
  obtain made h1 where m: "(if create then sys_mkdirat dir ?n h else (True, h)) = (made, h1)" by fastforce
  obtain sub h2 where o: "sys_opendir dir ?n h1 = (sub, h2)" by fastforce
  have "conns (snd (if create then sys_mkdirat dir ?n h else (True, h))) = conns h" by simp
  then have c: "conns h1 = conns h" "conns h2 = conns h1" using conns_open(2) [of dir ?n h1] o unfolding m by simp_all
  show ?case
    using 1 [OF refl refl _ m [symmetric] _ o [symmetric]] m o c by (subst open_parent_loop.simps) (simp add: Let_def split: option.split)
qed

lemma conns_parent [simp]: "conns (snd (gm_open_parent name create cap h)) = conns h"
  by (simp add: gm_open_parent_def case_prod_beta)

lemma conns_regular [simp]: "conns (snd (gm_open_regular name h)) = conns h"
  by (simp add: gm_open_regular_def case_prod_beta split: option.split fs_node.split)

lemma conns_write_loop [simp]: "conns (snd (write_loop_file path data n h)) = conns h"
proof (induction path data n h rule: write_loop_file.induct)
  case (1 path data n h)
  obtain r h1 where w: "sys_write path (drop n data) h = (r, h1)" by fastforce
  then have "conns h1 = conns h" using conns_io(1) [of path "drop n data" h] by simp
  then show ?case using 1 [OF _ w [symmetric]] w by (subst write_loop_file.simps) (simp split: io_count.split)
qed

lemma conns_read_loop [simp]: "conns (snd (read_loop path off n h)) = conns h"
proof (induction path off n h rule: read_loop.induct)
  case (1 path off n h)
  obtain r h1 where w: "sys_read path off n h = (r, h1)" by fastforce
  then have "conns h1 = conns h" using conns_io(2) [of path off n h] by simp
  then show ?case using 1 [OF w [symmetric]] w by (subst read_loop.simps) (simp split: sum.split)
qed

lemma conns_list [simp]: "conns (snd (list_open h)) = conns h" "conns (snd (list_next rel n t h)) = conns h" "conns (snd (list_start h)) = conns h"
  by (simp_all add: list_open_def list_next_def list_start_def case_prod_beta split: list.split)

lemma conns_enter [simp]: "conns (snd (list_enter h)) = conns h"
  by (simp add: list_enter_def case_prod_beta)

lemma conns_net [simp]: "conns (snd (sys_recv n h)) = conns h" "conns (snd (sys_send h)) = conns h" "conns (snd (sys_accept h)) = conns h"
  by (simp_all add: sys_recv_def sys_send_def sys_accept_def split: list.split)


subsection \<open>A slot keeps its socket until it closes it\<close>

lemma slot_fds_upd [simp]: "slot_fds (c\<lparr>c_input := a\<rparr>) = slot_fds c" "slot_fds (c\<lparr>c_output := b\<rparr>) = slot_fds c" "slot_fds (c\<lparr>c_output_pos := n\<rparr>) = slot_fds c"
    "slot_fds (c\<lparr>c_pending := p\<rparr>) = slot_fds c" "slot_fds (c\<lparr>c_pending_count := k\<rparr>) = slot_fds c" "slot_fds (c\<lparr>c_pending_path := q\<rparr>) = slot_fds c"
  by (simp_all add: slot_fds_def)

lemma slot_fds_close [simp]: "slot_fds (gm_client_close c) = slot_fds c"
  by (simp add: slot_fds_def gm_client_close_def gm_client_reset_def split: option.split)

lemma slot_fds_add [simp]: "slot_fds (snd (gm_output_add c d)) = slot_fds c" "slot_fds (gm_input_consume c n) = slot_fds c"
  by (simp_all add: gm_output_add_def gm_input_consume_def)

lemma slot_fds_line [simp]: "slot_fds (snd (gm_output_line c t)) = slot_fds c"
  by (simp add: gm_output_line_def case_prod_beta)

lemma slot_fds_error [simp]: "slot_fds (gm_output_error c t) = slot_fds c" "slot_fds (snd (list_item_line child c)) = slot_fds c"
  by (simp_all add: gm_output_error_def list_item_line_def case_prod_beta split: option.split)

text \<open>\<open>same_fds c h r\<close>: the operation on slot \<open>c\<close> that ended with \<open>r\<close> has lost no socket and closed none twice.\<close>

definition same_fds :: "gm_client \<Rightarrow> gm_host \<Rightarrow> 'r \<times> gm_client \<times> gm_host \<Rightarrow> bool" where
  "same_fds c h r \<longleftrightarrow> slot_fds (fst (snd r)) = slot_fds c \<and> conns (snd (snd r)) = conns h"

lemma same_fds_pair [simp]: "same_fds c h (ok, c1, h1) \<longleftrightarrow> slot_fds c1 = slot_fds c \<and> conns h1 = conns h"
  by (simp add: same_fds_def)

text \<open>Induction over the entries of a directory and of the directories in it.\<close>

lemma entries_induct [case_names Nil Cons]:
  fixes P :: "(cstr \<times> fs_node) list \<Rightarrow> bool"
  assumes "P []" and "\<And>n t es. (\<And>sub. t = FS_Dir sub \<Longrightarrow> P sub) \<Longrightarrow> P es \<Longrightarrow> P ((n, t) # es)"
  shows "P es"
proof (induction "size_list (size_prod (\<lambda>_. 0) size) es" arbitrary: es rule: less_induct)
  case less
  show ?case
  proof (cases es)
    case (Cons e es')
    obtain n t where e: "e = (n, t)" by fastforce
    show ?thesis unfolding Cons e by (rule assms(2); rule less) (simp_all add: Cons e)
  qed (simp add: assms(1))
qed

lemma list_fds: "same_fds c h (list_entries rel es c h)"
proof (induction es arbitrary: rel c h rule: entries_induct)
  case (Cons n t es)
  then show ?case by (auto simp: same_fds_def case_prod_beta split: option.split fs_node.split)
qed simp

lemma cmd_list_fds: "same_fds c h (cmd_list c h)"
proof -
  have "same_fds c1 h1 (gm_list_collect c1 h1)" for c1 h1
    using list_fds unfolding gm_list_collect_def by (auto simp: same_fds_def case_prod_beta split: fs_node.split)
  then show ?thesis by (auto simp: cmd_list_def same_fds_def Let_def case_prod_beta)
qed

lemma pending_fds: "same_fds c h (gm_pending_write c h)"
  by (simp add: gm_pending_write_def Let_def case_prod_beta split: option.split)

lemma cmd_fds: "same_fds c h (cmd_stat name c h)" "same_fds c h (cmd_read name off cnt c h)" "same_fds c h (cmd_del name c h)"
  by (simp_all add: cmd_stat_def cmd_read_def cmd_del_def case_prod_beta split: option.split)

lemma cmd_write_fds: "same_fds c h (cmd_write name cnt e c h)"
  using pending_fds by (auto simp: cmd_write_def same_fds_def case_prod_beta split: option.split)

lemma gm_command_fds: "same_fds c h (gm_command line c h)"
  by (simp add: gm_command_def Let_def case_prod_beta cmd_list_fds cmd_fds cmd_write_fds)

lemma process_fds: "same_fds c h (gm_process_input c h)"
proof -
  have "slot_fds (fst (snd (gm_command l (gm_input_consume c n) h))) = slot_fds c" "conns (snd (snd (gm_command l (gm_input_consume c n) h))) = conns h" for l n
    using gm_command_fds [of "gm_input_consume c n" h l] by (simp_all add: same_fds_def)
  then show ?thesis using pending_fds [of c h] by (simp add: gm_process_input_def Let_def case_prod_beta same_fds_def)
qed

lemma recv_fds: "same_fds c h (client_recv c h)"
proof (induction c h rule: client_recv.induct)
  case (1 c h)
  obtain r h1 where w: "sys_recv (4096 - length (c_input c)) h = (r, h1)" by fastforce
  then have "conns h1 = conns h" using conns_net(1) [of "4096 - length (c_input c)" h] by simp
  then show ?case using 1 [OF w [symmetric]] w by (subst client_recv.simps) (simp add: same_fds_def split: recv_result.split)
qed

lemma send_fds: "same_fds c h (client_send c h)"
proof (induction c h rule: client_send.induct)
  case (1 c h)
  obtain r h1 where w: "sys_send h = (r, h1)" by fastforce
  then have c: "conns h1 = conns h" using conns_net(2) [of h] by simp
  show ?case
  proof (cases "c_output_pos c < length (c_output c)")
    case False then show ?thesis by (subst client_send.simps) simp
  next
    case True
    note IH = 1(1) [OF True w [symmetric]] and IH2 = 1(2) [OF True w [symmetric]]
    show ?thesis
    proof (cases r)
      case (Send_Some n)
      show ?thesis using IH [OF Send_Some] Send_Some True w c by (subst client_send.simps) (cases "n = 0"; simp add: same_fds_def)
    next
      case Send_Intr
      show ?thesis using IH2 [OF Send_Intr] Send_Intr True w c by (subst client_send.simps) (simp add: same_fds_def)
    qed (use True w c in \<open>subst client_send.simps, simp\<close>)+
  qed
qed

lemma same_fds_trans: "same_fds c h r \<Longrightarrow> same_fds (fst (snd r)) (snd (snd r)) q \<Longrightarrow> same_fds c h q"
  by (simp add: same_fds_def)

lemma read_fds: "same_fds c h (gm_client_read c h)"
  using recv_fds [of c h] process_fds [of c h] same_fds_trans [OF recv_fds process_fds, of c h] by (simp add: gm_client_read_def case_prod_beta same_fds_def)

lemma write_fds: "same_fds c h (gm_client_write c h)"
  using send_fds [of c h] process_fds [of "(fst (snd (client_send c h)))\<lparr>c_output_pos := 0, c_output := []\<rparr>" "snd (snd (client_send c h))"]
  by (simp add: gm_client_write_def case_prod_beta same_fds_def split: option.split)

lemma turn_fds: "slot_fds (fst (client_turn r c h)) = slot_fds c" "conns (snd (client_turn r c h)) = conns h"
proof -
  let ?w = "if rv_out r then gm_client_write c h else (True, c, h)"
  let ?q = "if is_open (fst (snd ?w)) \<and> rv_in r then gm_client_read (fst (snd ?w)) (snd (snd ?w)) else (True, snd ?w)"
  have "same_fds c h ?w" by (simp add: write_fds)
  moreover have "same_fds (fst (snd ?w)) (snd (snd ?w)) ?q" by (simp add: read_fds same_fds_def [of _ _ "(True, _)"])
  ultimately show "slot_fds (fst (client_turn r c h)) = slot_fds c" "conns (snd (client_turn r c h)) = conns h"
    by (auto simp: client_turn_def disconnect_def case_prod_beta same_fds_def)
qed


subsection \<open>The loop\<close>

definition held :: "gm_client list \<Rightarrow> nat multiset" where
  "held cs = sum_list (map slot_fds cs)"

definition sockets_balance :: "gm_client list \<Rightarrow> gm_host \<Rightarrow> bool" where
  "sockets_balance cs h \<longleftrightarrow> mset (host_accepted h) = mset (host_refused h) + held cs"

lemma balance_conns: "held cs1 = held cs \<Longrightarrow> conns h1 = conns h \<Longrightarrow> sockets_balance cs1 h1 \<longleftrightarrow> sockets_balance cs h"
  by (simp add: sockets_balance_def conns_def)

lemma held_set: "i < length cs \<Longrightarrow> slot_fds c = add_mset fd (slot_fds (cs ! i)) \<Longrightarrow> held (cs[i := c]) = add_mset fd (held cs)"
  by (induction cs arbitrary: i) (auto simp: held_def split: nat.split)

lemma free_client_closed: "free_client cs i = Some j \<Longrightarrow> i \<le> j \<and> j - i < length cs \<and> \<not> is_open (cs ! (j - i))"
proof (induction cs arbitrary: i)
  case (Cons c cs)
  show ?case
  proof (cases "is_open c")
    case True
    with Cons.prems Cons.IH [of "i + 1"] have "i + 1 \<le> j" "j - (i + 1) < length cs" "\<not> is_open (cs ! (j - (i + 1)))" by simp_all
    then show ?thesis by (simp add: nth_Cons')
  next
    case False then show ?thesis using Cons.prems by simp
  qed
qed simp

lemma slot_fds_open: "\<not> is_open c \<Longrightarrow> slot_fds ((gm_client_reset c)\<lparr>c_fd := Some fd\<rparr>) = add_mset fd (slot_fds c)"
  by (simp add: slot_fds_def gm_client_reset_def is_open_def)

lemma add_fds: "gm_client_add fd cs = (ok, cs1) \<Longrightarrow> held cs1 = (if ok then add_mset fd (held cs) else held cs)"
proof -
  assume e: "gm_client_add fd cs = (ok, cs1)"
  show ?thesis
  proof (cases "free_client cs 0")
    case None then show ?thesis using e by (simp add: gm_client_add_def)
  next
    case (Some i)
    let ?c = "(gm_client_reset (cs ! i))\<lparr>c_fd := Some fd\<rparr>"
    have i: "i < length cs" "\<not> is_open (cs ! i)" using free_client_closed [OF Some] by simp_all
    have fits: "fst (gm_output_line ?c (asc ''GMSTORE 2.0''))"
      by (simp add: gm_output_line_def gm_output_add_def gm_client_reset_def)
    have "slot_fds (snd (gm_output_line ?c (asc ''GMSTORE 2.0''))) = add_mset fd (slot_fds (cs ! i))"
      by (simp add: slot_fds_open [OF i(2)])
    then show ?thesis using held_set [OF i(1)] e Some fits by (auto simp: gm_client_add_def case_prod_beta)
  qed
qed

lemma accept_balance: "sockets_balance cs h \<Longrightarrow> case gm_accept_clients cs h of (cs1, h1) \<Rightarrow> sockets_balance cs1 h1"
proof (induction cs h rule: gm_accept_clients.induct)
  case (1 cs h)
  obtain r h1 where r: "sys_accept h = (r, h1)" by fastforce
  have c: "conns h1 = conns h" using conns_net(3) [of h] r by simp
  have b: "sockets_balance cs h1" using 1(3) balance_conns [OF refl c] by simp
  show ?case
  proof (cases r)
    case Accept_Intr then show ?thesis using 1(2) [OF r [symmetric] Accept_Intr b] r by (subst gm_accept_clients.simps) simp
  next
    case Accept_Stop then show ?thesis using r b by (subst gm_accept_clients.simps) simp
  next
    case (Accept_Fd fd nonblock peer port)
    let ?h2 = "h1\<lparr>host_accepted := host_accepted h1 @ [fd]\<rparr>"
    obtain ok cs2 where a: "(if \<not> nonblock then (False, cs) else gm_client_add fd cs) = (ok, cs2)" by fastforce
    let ?h3 = "if ok then ?h2\<lparr>host_log := host_log ?h2 @ asc ''connect '' @ print_ip peer @ [58] @ dec_bytes (unat port) @ [10]\<rparr>
        else ?h2\<lparr>host_refused := host_refused ?h2 @ [fd]\<rparr>"
    have "held cs2 = (if ok then add_mset fd (held cs) else held cs)" using a add_fds by (auto split: if_splits)
    then have "sockets_balance cs2 ?h3" using b by (simp add: sockets_balance_def)
    then have "case gm_accept_clients cs2 ?h3 of (cs1, h1) \<Rightarrow> sockets_balance cs1 h1"
      using 1(1) [OF r [symmetric] Accept_Fd refl a [symmetric]] by (simp only:)
    moreover have "gm_accept_clients cs h = gm_accept_clients cs2 ?h3"
      by (subst gm_accept_clients.simps) (simp only: r Accept_Fd a Let_def case_prod_conv accept_result.case)
    ultimately show ?thesis by simp
  qed
qed

lemma clients_loop_fds: "case clients_loop rs cs h of (cs1, h1) \<Rightarrow> held cs1 = held cs \<and> conns h1 = conns h"
proof (induction rs cs h rule: clients_loop.induct)
  case (1 r rs c cs h)
  obtain c1 h1 where t: "client_turn r c h = (c1, h1)" by fastforce
  then show ?case using 1 [OF t [symmetric]] turn_fds [of r c h] by (auto simp: held_def case_prod_beta)
qed simp_all

lemma round_balance: "sockets_balance cs h \<Longrightarrow> case server_round ready rs cs h of (cs1, h1) \<Rightarrow> sockets_balance cs1 h1"
proof -
  assume b: "sockets_balance cs h"
  obtain cs1 h1 where a: "(if ready then gm_accept_clients cs h else (cs, h)) = (cs1, h1)" by fastforce
  obtain cs2 h2 where l: "clients_loop (map2 poll_mask cs rs) cs1 h1 = (cs2, h2)" by fastforce
  have "sockets_balance cs1 h1" using a b accept_balance [OF b] by (auto split: if_splits)
  moreover have "server_round ready rs cs h = clients_loop (map2 poll_mask cs rs) cs1 h1" using a by (simp add: server_round_def Let_def)
  moreover have "held cs2 = held cs1" "conns h2 = conns h1"
    using clients_loop_fds [where rs = "map2 poll_mask cs rs" and cs = cs1 and h = h1] l by simp_all
  ultimately show ?thesis using balance_conns [of cs2 cs1 h2 h1] l by simp
qed

lemma loop_balance: "sockets_balance cs h \<Longrightarrow> case server_loop rounds cs h of (ended, cs1, h1) \<Rightarrow> sockets_balance cs1 h1"
proof (induction rounds cs h rule: server_loop.induct)
  case (3 ps cs h)
  have "held (map gm_client_close cs) = held cs" by (simp add: held_def comp_def)
  then show ?case using 3 by (simp add: sockets_balance_def)
next
  case (4 ready rs ps cs h)
  obtain cs1 h1 where s: "server_round ready rs cs h = (cs1, h1)" by fastforce
  then show ?case using 4(1) [OF s [symmetric]] round_balance [OF 4(2), of ready rs] by simp
qed simp_all

end
