(* ===== verification/Server_Main.thy ===== *)
theory Server_Main
  imports Server_Conns
begin

unbundle bit_operations_syntax

section \<open>The store server: \<^verbatim>\<open>main\<close> (\<^verbatim>\<open>gmstored.c\<close>)\<close>

text \<open>
  The start-up of the server and its end. What the host answers to the calls of the start-up is a value of \<open>start_sys\<close>, of
  which nothing is assumed. The descriptors that are opened and closed are logged as events. \<^verbatim>\<open>realpath\<close> writes its answer into
  the array \<^verbatim>\<open>resolved\<close> of 512 bytes that the program passes; an answer that does not fit is \<open>Panic\<close>.
\<close>

record start_sys =
  se_made :: "cstr \<Rightarrow> bool"
  se_realpath :: "cstr \<Rightarrow> cstr option"
  se_open_root :: "cstr \<Rightarrow> nat option"
  se_socket :: "nat option"
  se_reuse :: bool
  se_getfl :: "u32 option"
  se_setfl :: "u32 \<Rightarrow> bool"
  se_pton :: "cstr \<Rightarrow> ip4 option"
  se_bind :: "ip4 \<Rightarrow> u16 \<Rightarrow> bool"
  se_listen :: bool

datatype fd_event = Opened nat | Closed nat

record server_up =
  up_args :: server_args
  up_root :: cstr
  up_rootfd :: nat
  up_fd :: nat
  up_addr :: ip4
  up_port :: u16

datatype start_result = Start_Failed string "fd_event list" | Started server_up "fd_event list"

definition gm_nonblock :: "start_sys \<Rightarrow> bool" where
  "gm_nonblock e = (case se_getfl e of None \<Rightarrow> False | Some flags \<Rightarrow> se_setfl e (flags OR 0x800))"

text \<open>The directory: the path given, created, resolved and opened.\<close>

definition server_root :: "start_sys \<Rightarrow> cstr \<Rightarrow> (string + cstr \<times> nat) outcome" where
  "server_root e root_arg =
     (if length root_arg + 1 > 512 then Ok (Inl ''gmstored: root path too long'')
      else if \<not> fst (gm_make_dirs (se_made e) (Some root_arg)) then Ok (Inl ''gmstored: root'')
      else case se_realpath e root_arg of
        None \<Rightarrow> Ok (Inl ''gmstored: realpath'')
      | Some resolved \<Rightarrow>
          if length resolved + 1 > 512 then Panic ''resolved''
          else if length resolved + 1 > 512 then Ok (Inl ''gmstored: resolved root path too long'')
          else case se_open_root e resolved of
            None \<Rightarrow> Ok (Inl ''gmstored: open root'')
          | Some rootfd \<Rightarrow> Ok (Inr (resolved, rootfd)))"

text \<open>The listening socket. \<open>ev\<close> are the descriptors opened so far; each way to fail closes what is open in its own block.\<close>

definition server_listen :: "start_sys \<Rightarrow> server_args \<Rightarrow> cstr \<Rightarrow> nat \<Rightarrow> fd_event list \<Rightarrow> start_result" where
  "server_listen e a root rootfd ev0 =
     (case se_socket e of
        None \<Rightarrow> Start_Failed ''gmstored: socket'' (ev0 @ [Closed rootfd])
      | Some server \<Rightarrow>
          let ev = ev0 @ [Opened server] in
          if \<not> se_reuse e \<or> \<not> gm_nonblock e
          then Start_Failed ''gmstored: socket setup'' (ev @ [Closed server, Closed rootfd])
          else case se_pton e (arg_host a) of
            None \<Rightarrow> Start_Failed ''gmstored: invalid IPv4 address'' (ev @ [Closed server, Closed rootfd])
          | Some addr \<Rightarrow>
              if \<not> se_bind e addr (ucast (arg_port a))
              then Start_Failed ''gmstored: bind'' (ev @ [Closed server, Closed rootfd])
              else if \<not> se_listen e
              then Start_Failed ''gmstored: listen'' (ev @ [Closed server, Closed rootfd])
              else Started \<lparr>up_args = a, up_root = root, up_rootfd = rootfd, up_fd = server, up_addr = addr, up_port = ucast (arg_port a)\<rparr> ev)"

definition server_start :: "start_sys \<Rightarrow> cstr list \<Rightarrow> start_result outcome" where
  "server_start e argv =
     (case server_options argv server_defaults of
        None \<Rightarrow> Ok (Start_Failed ''usage'' [])
      | Some a \<Rightarrow>
          and_then (server_root e (arg_root a)) (\<lambda>r.
            Ok (case r of Inl m \<Rightarrow> Start_Failed m [] | Inr (root, rootfd) \<Rightarrow> server_listen e a root rootfd [Opened rootfd])))"

text \<open>The line printed when the server is ready.\<close>

definition server_banner :: "server_up \<Rightarrow> bytes" where
  "server_banner u = asc ''GMSTORE 2.0 '' @ arg_host (up_args u) @ [58] @ dec_bytes (unat (arg_port (up_args u))) @
     asc '' root='' @ up_root u @ asc '' clients=16'' @ [10]"

text \<open>\<^verbatim>\<open>main\<close>: the exit code when it has ended, the events, the clients and the host.\<close>

definition gmstored_main :: "start_sys \<Rightarrow> cstr list \<Rightarrow> poll_round list \<Rightarrow> gm_host \<Rightarrow> (nat option \<times> fd_event list \<times> gm_client list \<times> gm_host) outcome" where
  "gmstored_main e argv rounds h =
     and_then (server_start e argv) (\<lambda>r.
       case r of
         Start_Failed m ev \<Rightarrow> Ok (Some 1, ev, [], h)
       | Started u ev \<Rightarrow>
           (case server_loop rounds server_clients (h\<lparr>host_log := host_log h @ server_banner u\<rparr>) of (ended, clients, h) \<Rightarrow>
              if ended then Ok (Some 1, ev @ [Closed (up_fd u), Closed (up_rootfd u)], clients, h)
              else Ok (None, ev, clients, h)))"


subsection \<open>What start-up promises\<close>

text \<open>The descriptors that are open after a list of events, or nothing when one is closed that is not open.\<close>

fun fds_after :: "fd_event list \<Rightarrow> nat list \<Rightarrow> nat list option" where
  "fds_after [] fds = Some fds"
| "fds_after (Opened n # es) fds = fds_after es (n # fds)"
| "fds_after (Closed n # es) fds = (if n \<in> set fds then fds_after es (remove1 n fds) else None)"

lemma server_options_port:
  "server_options ws a = Some b \<Longrightarrow> 0 < arg_port a \<Longrightarrow> arg_port a \<le> 65535 \<Longrightarrow> 0 < arg_port b \<and> arg_port b \<le> 65535"
proof (induction ws a rule: server_options.induct)
  case (2 w v ws a)
  then show ?case by (auto split: if_splits option.splits simp: word_neq_0_conv not_less)
qed auto

lemma server_root_cases:
  "(\<exists>m. server_root e p = Ok (Inl m)) \<or> (\<exists>root fd. server_root e p = Ok (Inr (root, fd)) \<and> se_open_root e root = Some fd) \<or>
   (\<exists>m r. server_root e p = Panic m \<and> se_realpath e p = Some r \<and> 512 \<le> length r)"
  by (cases "se_realpath e p") (auto simp: server_root_def split: option.split)

lemma server_listen_cases:
  "(\<exists>m ev. server_listen e a root fd [Opened fd] = Start_Failed m ev \<and> fds_after ev [] = Some []) \<or>
   (\<exists>s addr. server_listen e a root fd [Opened fd] = Started \<lparr>up_args = a, up_root = root, up_rootfd = fd, up_fd = s, up_addr = addr, up_port = ucast (arg_port a)\<rparr> [Opened fd, Opened s] \<and>
      se_socket e = Some s \<and> se_pton e (arg_host a) = Some addr \<and> se_bind e addr (ucast (arg_port a)) \<and> se_listen e \<and> gm_nonblock e)"
  by (simp add: server_listen_def Let_def split: option.split)

definition started_ok :: "start_sys \<Rightarrow> server_up \<Rightarrow> bool" where
  "started_ok e u \<longleftrightarrow> se_open_root e (up_root u) = Some (up_rootfd u) \<and> se_socket e = Some (up_fd u) \<and>
     gm_nonblock e \<and> se_pton e (arg_host (up_args u)) = Some (up_addr u) \<and> se_bind e (up_addr u) (up_port u) \<and> se_listen e \<and>
     1 \<le> unat (up_port u) \<and> unat (up_port u) = unat (arg_port (up_args u))"

lemma server_start_cases:
  "(\<exists>m ev. server_start e argv = Ok (Start_Failed m ev) \<and> fds_after ev [] = Some []) \<or>
   (\<exists>u. server_start e argv = Ok (Started u [Opened (up_rootfd u), Opened (up_fd u)]) \<and> started_ok e u) \<or>
   (\<exists>m a r. server_start e argv = Panic m \<and> server_options argv server_defaults = Some a \<and> se_realpath e (arg_root a) = Some r \<and> 512 \<le> length r)"
proof (cases "server_options argv server_defaults")
  case None
  then show ?thesis by (simp add: server_start_def)
next
  case (Some a)
  have "0 < arg_port a \<and> arg_port a \<le> 65535" by (rule server_options_port [OF Some]) (simp_all add: server_defaults_def)
  then have p: "1 \<le> unat (arg_port a)" "unat (arg_port a) \<le> 65535" by (simp_all add: word_less_nat_alt word_le_nat_alt)
  then have q: "unat (ucast (arg_port a) :: u16) = unat (arg_port a)" by (simp add: unsigned_ucast_eq unsigned_take_bit_eq take_bit_nat_def)
  consider (failed) m where "server_root e (arg_root a) = Ok (Inl m)"
    | (opened) root fd where "server_root e (arg_root a) = Ok (Inr (root, fd))" "se_open_root e root = Some fd"
    | (overrun) m r where "server_root e (arg_root a) = Panic m" "se_realpath e (arg_root a) = Some r" "512 \<le> length r"
    using server_root_cases [of e "arg_root a"] by blast
  then show ?thesis
  proof cases
    case failed then show ?thesis using Some by (simp add: server_start_def)
  next
    case opened
    then have "server_start e argv = Ok (server_listen e a root fd [Opened fd])" using Some by (simp add: server_start_def)
    then show ?thesis using server_listen_cases [of e a root fd] opened(2) p q by (fastforce simp: started_ok_def)
  next
    case overrun then show ?thesis using Some by (simp add: server_start_def)
  qed
qed

lemma server_loop_closes: "server_loop ps cs h = (True, cs1, h1) \<Longrightarrow> list_all (\<lambda>c. \<not> is_open c) cs1"
  by (induction ps cs h rule: server_loop.induct) (auto simp: list_all_iff gm_client_close_def gm_client_reset_def is_open_def split: prod.splits)

lemma closed_fds: "list_all (\<lambda>c. \<not> is_open c) cs \<Longrightarrow> held cs = sum_list (map (mset \<circ> c_closed) cs)"
  by (induction cs) (simp_all add: held_def slot_fds_def is_open_def)

lemma server_clients_held: "held server_clients = {#}"
  by (simp add: held_def server_clients_def slot_fds_def gm_client_reset_def client_zero_def numeral_eq_Suc)

text \<open>C36: The server starts completely or not at all, and gives back every descriptor. Start-up fails with every descriptor it opened
  closed exactly once, or ends with exactly the root directory and a non-blocking listening socket open, bound to the address given
  and to a port from 1 to 65535; the only other outcome is the overrun of \<^verbatim>\<open>resolved\<close>, and only when \<^verbatim>\<open>realpath\<close> resolves the root
  given to 512 bytes or more. While \<^verbatim>\<open>main\<close> runs, every socket it has accepted was refused and closed, was closed through its slot
  or is held by one slot. When \<^verbatim>\<open>main\<close> ends, its exit code is 1, its two descriptors are closed exactly once, no slot is open,
  and every socket ever accepted has been closed exactly once.\<close>

theorem server_starts_clean:
  assumes "host_accepted h = []" "host_refused h = []"
  shows "(case server_start e argv of
       Panic m \<Rightarrow> \<exists>a r. server_options argv server_defaults = Some a \<and> se_realpath e (arg_root a) = Some r \<and> 512 \<le> length r
     | Ok (Start_Failed m ev) \<Rightarrow> fds_after ev [] = Some []
     | Ok (Started u ev) \<Rightarrow> fds_after ev [] = Some [up_fd u, up_rootfd u] \<and> se_open_root e (up_root u) = Some (up_rootfd u) \<and> se_socket e = Some (up_fd u) \<and>
         gm_nonblock e \<and> se_pton e (arg_host (up_args u)) = Some (up_addr u) \<and> se_bind e (up_addr u) (up_port u) \<and> se_listen e \<and>
         1 \<le> unat (up_port u) \<and> unat (up_port u) = unat (arg_port (up_args u))) \<and>
    (case gmstored_main e argv rounds h of
       Panic m \<Rightarrow> server_start e argv = Panic m
     | Ok (None, ev, clients, h') \<Rightarrow> (\<exists>u. server_start e argv = Ok (Started u ev)) \<and>
         mset (host_accepted h') = mset (host_refused h') + sum_list (map slot_fds clients)
     | Ok (Some c, ev, clients, h') \<Rightarrow> c = 1 \<and> fds_after ev [] = Some [] \<and> list_all (\<lambda>c. \<not> is_open c) clients \<and>
         mset (host_accepted h') = mset (host_refused h') + sum_list (map (mset \<circ> c_closed) clients))"
  using server_start_cases [of e argv]
proof (elim disjE exE conjE)
  fix u
  assume s: "server_start e argv = Ok (Started u [Opened (up_rootfd u), Opened (up_fd u)])" "started_ok e u"
  let ?h = "h\<lparr>host_log := host_log h @ server_banner u\<rparr>"
  obtain b cs h1 where l: "server_loop rounds server_clients ?h = (b, cs, h1)" by (rule prod_cases3)
  have "sockets_balance server_clients ?h" by (simp add: sockets_balance_def server_clients_held assms)
  from loop_balance [OF this, of rounds] l have m: "mset (host_accepted h1) = mset (host_refused h1) + held cs" by (simp add: sockets_balance_def)
  show ?thesis
  proof (cases b)
    case True
    with l have "list_all (\<lambda>c. \<not> is_open c) cs" by (simp add: server_loop_closes)
    then show ?thesis using s l True m by (simp add: started_ok_def gmstored_main_def closed_fds)
  next
    case False then show ?thesis using s l m by (simp add: started_ok_def gmstored_main_def held_def)
  qed
qed (simp_all add: gmstored_main_def assms)

definition start_example :: start_sys where
  "start_example = \<lparr>se_made = \<lambda>_. True, se_realpath = \<lambda>_. Some (asc ''/srv/store''), se_open_root = \<lambda>_. Some 3, se_socket = Some 4, se_reuse = True,
     se_getfl = Some 2, se_setfl = \<lambda>f. f = 0x802, se_pton = \<lambda>_. Some (127, 0, 0, 1), se_bind = \<lambda>_ port. port = 8080, se_listen = True\<rparr>"

definition host_two :: gm_host where
  "host_two = \<lparr>host_fs = FS_Dir [], env_sys = [], env_recv = [], env_send = [], env_accept = [Accept_Fd 5 True (10, 0, 2, 2) 1024, Accept_Fd 6 False (10, 0, 2, 2) 1025], env_scan = [], host_log = [], host_accepted = [], host_refused = []\<rparr>"

theorem server_starts_clean_witness:
  "(\<exists>u. server_start start_example [asc ''--port'', asc ''8080''] = Ok (Started u [Opened 3, Opened 4])) \<and>
   (\<exists>ev clients h'. gmstored_main start_example [asc ''--port'', asc ''8080''] [Poll_Ready True [], Poll_Fail] host_two = Ok (Some 1, ev, clients, h') \<and>
      host_accepted h' = [5, 6] \<and> fds_after ev [] = Some [] \<and> list_all (\<lambda>c. \<not> is_open c) clients \<and>
      mset (host_accepted h') = mset (host_refused h') + sum_list (map (mset \<circ> c_closed) clients))"
proof -
  let ?argv = "[asc ''--port'', asc ''8080'']" and ?ps = "[Poll_Ready True [], Poll_Fail]"
  have n: "gm_number [56, 48, 56, 48] = Some 8080" by (simp add: gm_number_def strtoul10_def Let_def dec_val_def dec_step_def is_digit_def is_space_def)
  have s: "server_start start_example ?argv =
      Ok (Started \<lparr>up_args = server_defaults\<lparr>arg_port := 8080\<rparr>, up_root = asc ''/srv/store'', up_rootfd = 3, up_fd = 4, up_addr = (127, 0, 0, 1), up_port = 8080\<rparr> [Opened 3, Opened 4])"
    by (simp add: server_start_def n server_root_def server_listen_def start_example_def gm_nonblock_def server_defaults_def gm_make_dirs_def)
  have f: "free_client server_clients 0 = Some 0" by (simp add: server_clients_def gm_client_reset_def is_open_def numeral_eq_Suc)
  have "fst (gm_client_add 5 server_clients)"
    by (simp add: gm_client_add_def f gm_output_line_def gm_output_add_def gm_client_reset_def)
  then obtain cs where a: "gm_client_add 5 server_clients = (True, cs)" by (metis prod.collapse)
  have "\<exists>ev clients h'. gmstored_main start_example ?argv ?ps host_two = Ok (Some 1, ev, clients, h') \<and> host_accepted h' = [5, 6]"
    unfolding gmstored_main_def s
    by (simp add: server_round_def host_two_def gm_accept_clients.simps sys_accept_def a)
  then obtain ev clients h' where g: "gmstored_main start_example ?argv ?ps host_two = Ok (Some 1, ev, clients, h')" "host_accepted h' = [5, 6]" by blast
  show ?thesis using server_starts_clean [of host_two start_example ?argv ?ps] s g by (simp add: host_two_def)
qed

text \<open>The test of the length comes after \<^verbatim>\<open>realpath\<close> has written: a root whose resolved path has 512 bytes or more overruns the array.\<close>

lemma resolved_root_overruns:
  assumes "server_options argv server_defaults = Some a" "length (arg_root a) < 512" "fst (gm_make_dirs (se_made e) (Some (arg_root a)))"
    and "se_realpath e (arg_root a) = Some r" "512 \<le> length r"
  shows "server_start e argv = Panic ''resolved''"
  using assms by (simp add: server_start_def server_root_def)

end
