(* ===== verification/Programs_Run.thy ===== *)
theory Programs_Run
  imports Programs_Loader
begin

unbundle bit_operations_syntax

section \<open>Scheduling, services and traps (\<^verbatim>\<open>programs.c\<close>, third part)\<close>

text \<open>
  How a running program gets into the kernel and what the kernel does there: the timer
  (\<^verbatim>\<open>gm_program_preempt\<close>), a fault (\<^verbatim>\<open>gm_program_fault\<close>) and the service interrupt (\<^verbatim>\<open>gm_program_service\<close>).
  The trap handlers of \<^verbatim>\<open>isr.asm\<close> hand over the saved registers as a frame and, when the handler returns
  nonzero, go back to the caller of \<^verbatim>\<open>gm_program_schedule\<close>; otherwise they resume the interrupted code with the
  frame, which a service may have changed.
\<close>

subsection \<open>The end of a program\<close>

text \<open>The result is a C \<^verbatim>\<open>int\<close>. Negating it and widening it to 64 bits is done at these widths.\<close>

definition gm_program_result :: "nat \<Rightarrow> 'a gm_programs_scheme \<Rightarrow> 'a gm_programs_scheme" where
  "gm_program_result slot s =
     (let result = app_result (gm_apps s ! slot);
          s = gm_say ''app '' s; s = gm_print_u64 (of_nat slot) s; s = gm_say '' returned '' s;
          s = (if sint result < 0 then gm_print_u64 (scast (- result)) (gm_say ''-'' s) else gm_print_u64 (scast result) s) in
      gm_write (Some [10]) s)"

definition gm_program_finish :: "nat \<Rightarrow> u32 \<Rightarrow> 'a gm_programs_scheme \<Rightarrow> 'a gm_programs_scheme outcome" where
  "gm_program_finish slot result s =
     and_then (gm_resource_reclaim slot (app_upd slot (\<lambda>a. a\<lparr>app_result := result\<rparr>) s)) (\<lambda>s1.
       Ok (gm_program_result slot (gm_program_kernel (app_upd slot (\<lambda>a. a\<lparr>app_state := APP_FREE\<rparr>) s1))))"


subsection \<open>The scheduler\<close>

text \<open>
  The slot to run next, if any is ready; the state in which it runs. Control is then in the program until the
  next trap.
\<close>

fun schedule_scan :: "nat \<Rightarrow> nat \<Rightarrow> 'a gm_programs_scheme \<Rightarrow> nat option" where
  "schedule_scan i 0 s = None"
| "schedule_scan i (Suc n) s =
     (let slot = (gm_program_next s + i) mod 4 in
      if app_state (gm_apps s ! slot) \<noteq> APP_READY then schedule_scan (i + 1) n s else Some slot)"

definition gm_program_schedule :: "'a gm_programs_scheme \<Rightarrow> nat option \<times> 'a gm_programs_scheme" where
  "gm_program_schedule s = (case schedule_scan 0 4 s of
     None \<Rightarrow> (None, s)
   | Some slot \<Rightarrow>
       (Some slot, app_upd slot (\<lambda>a. a\<lparr>app_state := APP_RUNNING\<rparr>)
          (gm_program_activate slot (s\<lparr>gm_program_next := (slot + 1) mod 4\<rparr>))))"

definition gm_program_yield :: "service_frame \<Rightarrow> 'a gm_programs_scheme \<Rightarrow> 'a gm_programs_scheme" where
  "gm_program_yield frame s =
     gm_program_kernel (app_upd (gm_program_current s) (\<lambda>a. a\<lparr>app_context := frame, app_state := APP_READY\<rparr>) s)"


subsection \<open>The services\<close>

text \<open>
  One definition per service. Each returns the value for \<^verbatim>\<open>rax\<close> and the state; all of them end in
  \<^verbatim>\<open>gm_program_yield\<close>. Services that use the TCP or UDP resource check first that the caller owns it.
\<close>

definition bool_rax :: "bool \<Rightarrow> u64" where
  "bool_rax b = (if b then 1 else 0)"

definition svc_write :: "service_frame \<Rightarrow> 'a gm_programs_scheme \<Rightarrow> u64 \<times> 'a gm_programs_scheme" where
  "svc_write frame s = (case gm_user_string (f_rdi frame) 1024 s of
     None \<Rightarrow> (0, s)
   | Some len \<Rightarrow> (1, gm_write (Some (user_bytes (f_rdi frame) len s)) s))"

definition svc_gateway :: "service_frame \<Rightarrow> 'a gm_programs_scheme \<Rightarrow> u64 \<times> 'a gm_programs_scheme" where
  "svc_gateway frame s =
     (if \<not> gm_user_range (f_rdi frame) 4 then (0, s)
      else (1, user_put (f_rdi frame) (ip_bytes (cfg_gateway (gm_config s))) s))"

definition svc_ping :: "service_frame \<Rightarrow> 'a gm_programs_scheme \<Rightarrow> u64 \<times> 'a gm_programs_scheme" where
  "svc_ping frame s =
     (if \<not> gm_user_range (f_rdi frame) 4 then (0, s)
      else case gm_ping (ip_at (user_bytes (f_rdi frame) 4 s) 0) (if f_rsi frame > 500 then 500 else f_rsi frame) s of
        (ok, s1) \<Rightarrow> (bool_rax ok, s1))"

definition svc_udp :: "service_frame \<Rightarrow> 'a gm_programs_scheme \<Rightarrow> (u64 \<times> 'a gm_programs_scheme) outcome" where
  "svc_udp frame s =
     and_then (gm_resource_owned (gm_program_current s) 2 s) (\<lambda>owned.
       if \<not> owned \<or> f_rsi frame = 0 \<or> f_rsi frame > 65535 \<or> f_rcx frame > 1024 \<or> f_r9 frame > 1024 \<or>
           \<not> gm_user_range (f_rdi frame) 4 \<or> (f_rcx frame \<noteq> 0 \<and> \<not> gm_user_range (f_rdx frame) (f_rcx frame)) \<or>
           (f_r9 frame \<noteq> 0 \<and> \<not> gm_user_range (f_r8 frame) (f_r9 frame)) then Ok (0, s)
       else case gm_udp_exchange (ip_at (user_bytes (f_rdi frame) 4 s) 0) (ucast (f_rsi frame))
              (user_bytes (f_rdx frame) (unat (f_rcx frame)) s) (unat (f_r9 frame)) 300 s of
         (out, s1) \<Rightarrow> Ok (of_nat (length out), user_put (f_r8 frame) out s1))"

definition svc_stat :: "service_frame \<Rightarrow> 'a gm_programs_scheme \<Rightarrow> (u64 \<times> 'a gm_programs_scheme) outcome" where
  "svc_stat frame s =
     and_then (gm_resource_owned (gm_program_current s) 1 s) (\<lambda>owned.
       if \<not> owned then Ok (0, s)
       else case gm_user_string (f_rdi frame) 191 s of
         None \<Rightarrow> Ok (0, s)
       | Some len \<Rightarrow>
           if \<not> gm_user_range (f_rsi frame) 8 then Ok (0, s)
           else case store_up s of (up, s1) \<Rightarrow>
             if \<not> up then Ok (0, s1)
             else case gm_store_size (Some (user_bytes (f_rdi frame) len s1)) True s1 of (sz, s2) \<Rightarrow>
               (case sz of None \<Rightarrow> Ok (0, s2) | Some n \<Rightarrow> Ok (1, user_put (f_rsi frame) (le64 n) s2)))"

definition svc_store_read :: "service_frame \<Rightarrow> 'a gm_programs_scheme \<Rightarrow> (u64 \<times> 'a gm_programs_scheme) outcome" where
  "svc_store_read frame s =
     and_then (gm_resource_owned (gm_program_current s) 1 s) (\<lambda>owned.
       if \<not> owned then Ok (0, s)
       else case store_up s of (up, s1) \<Rightarrow>
         if \<not> up then Ok (0, s1)
         else case gm_user_string (f_rdi frame) 191 s1 of
           None \<Rightarrow> Ok (0, s1)
         | Some len \<Rightarrow>
             if f_rcx frame > 1024 \<or> \<not> gm_user_range (f_rdx frame) (f_rcx frame) then Ok (0, s1)
             else case gm_store_read (Some (user_bytes (f_rdi frame) len s1)) (f_rsi frame) True (ucast (f_rcx frame)) True s1 of
               (ok, out, s2) \<Rightarrow> Ok (if ok then of_nat (length out) else 0, user_put (f_rdx frame) out s2))"

definition svc_store_write :: "service_frame \<Rightarrow> 'a gm_programs_scheme \<Rightarrow> (u64 \<times> 'a gm_programs_scheme) outcome" where
  "svc_store_write frame s =
     and_then (gm_resource_owned (gm_program_current s) 1 s) (\<lambda>owned.
       if \<not> owned then Ok (0, s)
       else case store_up s of (up, s1) \<Rightarrow>
         if \<not> up then Ok (0, s1)
         else case gm_user_string (f_rdi frame) 191 s1 of
           None \<Rightarrow> Ok (0, s1)
         | Some len \<Rightarrow>
             if f_rdx frame > 1024 \<or> \<not> gm_user_range (f_rsi frame) (f_rdx frame) then Ok (0, s1)
             else case gm_store_write (Some (user_bytes (f_rdi frame) len s1)) (Some (user_bytes (f_rsi frame) (unat (f_rdx frame)) s1))
                  (ucast (f_rdx frame)) (f_rax frame = 8) s1 of
               (ok, s2) \<Rightarrow> Ok (bool_rax ok, s2))"

text \<open>The services that answer and yield.\<close>

definition svc_simple :: "service_frame \<Rightarrow> 'a gm_programs_scheme \<Rightarrow> (u64 \<times> 'a gm_programs_scheme) outcome" where
  "svc_simple frame s =
     (if f_rax frame = 1 then Ok (svc_write frame s)
      else if f_rax frame = 2 then Ok (1, gm_print_u64 (f_rdi frame) s)
      else if f_rax frame = 3 then Ok (gm_ticks s)
      else if f_rax frame = 4 then Ok (svc_gateway frame s)
      else if f_rax frame = 5 then Ok (svc_ping frame s)
      else if f_rax frame = 12 then svc_udp frame s
      else if f_rax frame = 10 then
        and_then (gm_resource_release_app (gm_program_current s) (unat (ucast (f_rdi frame) :: u32)) s)
          (\<lambda>(released, s1). Ok (bool_rax released, s1))
      else if f_rax frame = 11 then svc_stat frame s
      else if f_rax frame = 6 then svc_store_read frame s
      else if f_rax frame = 7 \<or> f_rax frame = 8 then svc_store_write frame s
      else Ok (0, s))"

definition gm_program_service :: "service_frame \<Rightarrow> 'a gm_programs_scheme \<Rightarrow> (bool \<times> service_frame \<times> 'a gm_programs_scheme) outcome" where
  "gm_program_service frame s =
     (let slot = gm_program_current s in
      if app_state (gm_apps s ! slot) \<noteq> APP_RUNNING \<or> f_cs frame AND 3 \<noteq> 3 then Ok (False, frame, s)
      else if runtime_ticks (gm_apps s ! slot) \<ge> 1000 then
        and_then (gm_program_finish slot (- 200) (gm_write (Some (asc ''program timeout'' @ [10])) s)) (\<lambda>s1. Ok (True, frame, s1))
      else if f_rax frame = 0 then
        and_then (gm_program_finish slot (ucast (f_rdi frame)) s) (\<lambda>s1. Ok (True, frame, s1))
      else if f_rax frame = 9 then
        and_then (gm_resource_acquire_service slot (unat (ucast (f_rdi frame) :: u32)) frame s) (\<lambda>(blocked, frame1, s1).
          if blocked then Ok (True, frame1, s1) else Ok (True, frame1, gm_program_yield frame1 s1))
      else
        and_then (svc_simple frame s) (\<lambda>(rax, s1).
          let frame1 = frame\<lparr>f_rax := rax\<rparr> in Ok (True, frame1, gm_program_yield frame1 s1)))"


subsection \<open>Faults and preemption\<close>

definition gm_program_fault :: "u64 \<Rightarrow> u64 \<Rightarrow> u64 \<Rightarrow> 'a gm_programs_scheme \<Rightarrow> (bool \<times> 'a gm_programs_scheme) outcome" where
  "gm_program_fault vector code cs s =
     (let slot = gm_program_current s in
      if app_state (gm_apps s ! slot) \<noteq> APP_RUNNING \<or> cs AND 3 \<noteq> 3 then Ok (False, s)
      else
        let result = - 100 - ucast vector;
            s = gm_program_kernel s;
            s = gm_say ''program fault vector='' s; s = gm_print_u64 vector s; s = gm_say '' code='' s; s = gm_print_hex code s;
            s = gm_write (Some [10]) s;
            s = app_upd slot (\<lambda>a. a\<lparr>app_result := result\<rparr>) s in
        and_then (gm_resource_reclaim slot s) (\<lambda>s1.
          Ok (True, gm_program_result slot (app_upd slot (\<lambda>a. a\<lparr>app_state := APP_FREE\<rparr>) s1))))"

definition gm_program_preempt :: "service_frame \<Rightarrow> 'a gm_programs_scheme \<Rightarrow> (bool \<times> 'a gm_programs_scheme) outcome" where
  "gm_program_preempt frame s =
     (let slot = gm_program_current s in
      if app_state (gm_apps s ! slot) \<noteq> APP_RUNNING \<or> f_cs frame AND 3 \<noteq> 3 then Ok (False, s)
      else
        let s1 = app_upd slot (\<lambda>a. a\<lparr>runtime_ticks := runtime_ticks a + 1\<rparr>) s in
        if runtime_ticks (gm_apps s1 ! slot) \<ge> 1000 then
          let s2 = gm_write (Some (asc ''program timeout'' @ [10])) (gm_program_kernel s1);
              s3 = app_upd slot (\<lambda>a. a\<lparr>app_result := - 200\<rparr>) s2 in
          and_then (gm_resource_reclaim slot s3) (\<lambda>s4.
            Ok (True, gm_program_result slot (app_upd slot (\<lambda>a. a\<lparr>app_state := APP_FREE\<rparr>) s4)))
        else Ok (True, gm_program_kernel (app_upd slot (\<lambda>a. a\<lparr>app_context := frame, app_state := APP_READY\<rparr>) s1)))"

text \<open>
  \<^verbatim>\<open>gm_fault_dispatch\<close> of \<^verbatim>\<open>core.c\<close>: a fault of a program ends the program, any other fault is a panic whose
  message tells page faults and protection faults from the rest.
\<close>

definition gm_fault_dispatch :: "u64 \<Rightarrow> u64 \<Rightarrow> u64 \<Rightarrow> 'a gm_programs_scheme \<Rightarrow> 'a gm_programs_scheme outcome" where
  "gm_fault_dispatch vector code cs s =
     and_then (gm_program_fault vector code cs s) (\<lambda>(handled, s1).
       if handled then Ok s1
       else if vector = 14 then Panic ''page fault''
       else if vector = 13 then Panic ''general protection''
       else Panic ''cpu exception'')"


subsection \<open>Periodic launches\<close>

fun find_periodic :: "gm_periodic list \<Rightarrow> nat \<Rightarrow> nat option" where
  "find_periodic [] i = None"
| "find_periodic (p # ps) i = (if \<not> periodic_active p then Some i else find_periodic ps (i + 1))"

definition per_upd :: "nat \<Rightarrow> (gm_periodic \<Rightarrow> gm_periodic) \<Rightarrow> 'a gm_programs_scheme \<Rightarrow> 'a gm_programs_scheme" where
  "per_upd i f s = s\<lparr>gm_periodics := (gm_periodics s)[i := f (gm_periodics s ! i)]\<rparr>"

definition gm_periodic_add :: "u64 \<Rightarrow> u32 \<Rightarrow> cstr option \<Rightarrow> cstr option \<Rightarrow> 'a gm_programs_scheme \<Rightarrow> bool \<times> 'a gm_programs_scheme" where
  "gm_periodic_add seconds count name args s =
     (if seconds = 0 \<or> count = 0 \<or> seconds > (- 1) div 100 then (False, s)
      else case gm_program_path name of
        None \<Rightarrow> (False, s)
      | Some path \<Rightarrow>
          let arg_len = gm_strlen args in
          if arg_len \<ge> 256 then (False, s)
          else (case find_periodic (gm_periodics s) 0 of
              None \<Rightarrow> (False, s)
            | Some i \<Rightarrow>
                let interval = seconds * 100 in
                case gm_ticks s of (now, s1) \<Rightarrow>
                  if now > (- 1) - interval then (False, s1)
                  else
                    let s2 = per_upd i (\<lambda>_. \<lparr>interval_ticks = interval, next_tick = now + interval, remaining = count, periodic_slot = 4,
                               periodic_active = True, periodic_name = path,
                               periodic_args = (case args of None \<Rightarrow> [] | Some a \<Rightarrow> take arg_len a)\<rparr>) s1;
                        s2 = gm_say ''periodic '' s2; s2 = gm_print_u64 (of_nat i) s2; s2 = gm_say '' scheduled every='' s2;
                        s2 = gm_print_u64 seconds s2; s2 = gm_say ''s count='' s2; s2 = gm_print_u64 (ucast count) s2;
                        s2 = gm_say '' app='' s2; s2 = gm_write (Some path) s2; s2 = gm_write (Some [10]) s2 in
                    (True, s2)))"

definition gm_periodic_cancel :: "nat \<Rightarrow> 'a gm_programs_scheme \<Rightarrow> bool \<times> 'a gm_programs_scheme" where
  "gm_periodic_cancel i s =
     (if i \<ge> 4 \<or> \<not> periodic_active (gm_periodics s ! i) then (False, s)
      else
        let s = per_upd i (\<lambda>p. p\<lparr>periodic_active := False\<rparr>) s;
            s = gm_say ''periodic '' s; s = gm_print_u64 (of_nat i) s; s = gm_write (Some (asc '' cancelled'' @ [10])) s in
        (True, s))"

fun periodics_status_loop :: "nat \<Rightarrow> gm_periodic list \<Rightarrow> u64 \<Rightarrow> bool \<Rightarrow> 'a gm_programs_scheme \<Rightarrow> bool \<times> 'a gm_programs_scheme" where
  "periodics_status_loop i [] now found s = (found, s)"
| "periodics_status_loop i (p # ps) now found s =
     (if \<not> periodic_active p then periodics_status_loop (i + 1) ps now found s
      else
        let due = (if next_tick p > now then (next_tick p - now + 100 - 1) div 100 else 0);
            s = gm_say ''periodic '' s; s = gm_print_u64 (of_nat i) s; s = gm_say '' every='' s;
            s = gm_print_u64 (interval_ticks p div 100) s; s = gm_say ''s remaining='' s; s = gm_print_u64 (ucast (remaining p)) s;
            s = gm_say '' due='' s; s = gm_print_u64 due s; s = gm_say ''s running='' s;
            s = (if periodic_slot p < 4 then gm_print_u64 (of_nat (periodic_slot p)) (gm_say ''app'' s) else gm_say ''-'' s);
            s = gm_say '' app='' s; s = gm_write (Some (periodic_name p)) s;
            s = (if cur (periodic_args p) \<noteq> 0 then gm_write (Some (periodic_args p)) (gm_say '' args='' s) else s);
            s = gm_write (Some [10]) s in
        periodics_status_loop (i + 1) ps now True s)"

definition gm_periodics_status :: "'a gm_programs_scheme \<Rightarrow> 'a gm_programs_scheme" where
  "gm_periodics_status s =
     (case gm_ticks s of (now, s1) \<Rightarrow>
      case periodics_status_loop 0 (gm_periodics s1) now False s1 of (found, s2) \<Rightarrow>
        if \<not> found then gm_write (Some (asc ''no periodics'' @ [10])) s2 else s2)"

text \<open>One entry of the periodic table: a launch that is still running, one that has just ended, one that is due.\<close>

definition periodic_launch :: "nat \<Rightarrow> u64 \<Rightarrow> 'a gm_programs_scheme \<Rightarrow> 'a gm_programs_scheme" where
  "periodic_launch i now s =
     (let p = gm_periodics s ! i in
      if now < next_tick p then s
      else case gm_program_start_path (periodic_name p) (Some (periodic_args p)) (i + 1) False s of (rc, s1) \<Rightarrow>
        (case rc of
           START_BUSY \<Rightarrow> s1
         | START_ERROR \<Rightarrow>
             let s1 = per_upd i (\<lambda>p. p\<lparr>next_tick := now + interval_ticks p\<rparr>) s1;
                 s1 = gm_say ''periodic '' s1; s1 = gm_print_u64 (of_nat i) s1 in
             gm_write (Some (asc '' launch error'' @ [10])) s1
         | START_OK slot \<Rightarrow>
             per_upd i (\<lambda>p. p\<lparr>periodic_slot := slot, remaining := remaining p - 1, next_tick := now + interval_ticks p\<rparr>) s1))"

definition periodic_step :: "nat \<Rightarrow> u64 \<Rightarrow> 'a gm_programs_scheme \<Rightarrow> 'a gm_programs_scheme" where
  "periodic_step i now s =
     (let p = gm_periodics s ! i in
      if \<not> periodic_active p then s
      else if periodic_slot p < 4 then
        if periodic_id (gm_apps s ! periodic_slot p) = i + 1 \<and> app_state (gm_apps s ! periodic_slot p) \<noteq> APP_FREE then s
        else
          let s1 = per_upd i (\<lambda>p. p\<lparr>periodic_slot := 4\<rparr>) s in
          if remaining p = 0 then
            let s1 = per_upd i (\<lambda>p. p\<lparr>periodic_active := False\<rparr>) s1;
                s1 = gm_say ''periodic '' s1; s1 = gm_print_u64 (of_nat i) s1 in
            gm_write (Some (asc '' complete'' @ [10])) s1
          else periodic_launch i now s1
      else periodic_launch i now s)"

fun periodic_loop :: "nat \<Rightarrow> nat \<Rightarrow> u64 \<Rightarrow> 'a gm_programs_scheme \<Rightarrow> 'a gm_programs_scheme" where
  "periodic_loop i 0 now s = s"
| "periodic_loop i (Suc n) now s = periodic_loop (i + 1) n now (periodic_step i now s)"

definition gm_periodic_poll :: "'a gm_programs_scheme \<Rightarrow> 'a gm_programs_scheme" where
  "gm_periodic_poll s = (case gm_ticks s of (now, s1) \<Rightarrow> periodic_loop 0 4 now s1)"

end
