(* ===== verification/Programs_Safety.thy ===== *)
theory Programs_Safety
  imports Programs_Run
begin

unbundle bit_operations_syntax

section \<open>Programs cannot break the kernel\<close>

text \<open>
  The invariant of the program layer and what every entry into the kernel does to it. A service changes, apart
  from the network stack and the console, only the bytes of the caller's own user range and the slot of the
  caller; no trap of a running program reaches a panic.
\<close>

subsection \<open>Frames\<close>

lemma net_ok_prog_upd [simp]:
  "net_ok (s\<lparr>gm_apps := a\<rparr>) = net_ok s" "net_ok (s\<lparr>gm_resources := b\<rparr>) = net_ok s"
  "net_ok (s\<lparr>gm_resource_epochs := c\<rparr>) = net_ok s" "net_ok (s\<lparr>gm_mem := d\<rparr>) = net_ok s"
  "net_ok (s\<lparr>gm_program_current := n\<rparr>) = net_ok s" "net_ok (s\<lparr>gm_program_next := n\<rparr>) = net_ok s"
  "net_ok (s\<lparr>gm_periodics := e\<rparr>) = net_ok s" "net_ok (s\<lparr>user_mem := f\<rparr>) = net_ok s"
  by (simp_all add: net_ok_def driver_ok_def virtio_ok_def tcp_ok_def ring_ok_def)

lemma net_ok_clock_upd [simp]: "net_ok (s\<lparr>gm_tick_count := n\<rparr>) = net_ok s" "net_ok (s\<lparr>env_ticks := ds\<rparr>) = net_ok s"
    "net_ok (s\<lparr>gm_console := cs\<rparr>) = net_ok s"
  by (simp_all add: net_ok_def driver_ok_def virtio_ok_def tcp_ok_def ring_ok_def)

lemma net_ok_console [simp]:
  "net_ok (gm_write p s) = net_ok s" "net_ok (gm_print_u64 n s) = net_ok s" "net_ok (gm_print_hex n s) = net_ok s"
  by (simp_all add: console_simps)

lemma net_ok_upd [simp]:
  "net_ok (app_upd i f s) = net_ok s" "net_ok (res_upd k g s) = net_ok s" "net_ok (per_upd i h s) = net_ok s"
  "net_ok (gm_program_kernel s) = net_ok s" "net_ok (gm_program_activate i s) = net_ok s" "net_ok (user_put a bs s) = net_ok s"
  by (simp_all add: app_upd_def res_upd_def per_upd_def gm_program_kernel_def gm_program_activate_def user_put_def Let_def)

lemma net_ok_res_frame: "res_frame s t \<Longrightarrow> net_ok t = net_ok s"
  unfolding res_frame_def by (elim conjE, erule ssubst) simp

text \<open>The addresses a program may use.\<close>

definition user_addr :: "u64 \<Rightarrow> bool" where
  "user_addr x \<longleftrightarrow> program_base \<le> x \<and> x < program_guard \<or> program_stack \<le> x \<and> x < program_end"

definition confined :: "'a gm_programs_scheme \<Rightarrow> 'a gm_programs_scheme \<Rightarrow> bool" where
  "confined s t \<longleftrightarrow> (\<forall>c x. user_mem t c x \<noteq> user_mem s c x \<longrightarrow> c = cpu_cr3 (gm_mem s) \<and> user_addr x)"

text \<open>Everything of the program layer but the contents of user memory.\<close>

definition prog_view where
  "prog_view s = (gm_apps s, gm_resources s, gm_resource_epochs s, gm_periodics s, gm_program_kernel_cr3 s, gm_program_next s,
     gm_program_current s, gm_mem s, gm_programs.more s)"

definition prog_same :: "'a gm_programs_scheme \<Rightarrow> 'a gm_programs_scheme \<Rightarrow> bool" where
  "prog_same s t \<longleftrightarrow> prog_view t = prog_view s \<and> confined s t \<and> (net_ok s \<longrightarrow> net_ok t)"

lemma prog_same_sel:
  assumes "prog_same s t"
  shows "gm_apps t = gm_apps s" "gm_resources t = gm_resources s" "gm_resource_epochs t = gm_resource_epochs s"
    "gm_periodics t = gm_periodics s" "gm_program_kernel_cr3 t = gm_program_kernel_cr3 s" "gm_program_next t = gm_program_next s"
    "gm_program_current t = gm_program_current s" "gm_mem t = gm_mem s"
  using assms by (simp_all add: prog_same_def prog_view_def)

lemma prog_same_refl [simp]: "prog_same s s"
  by (simp add: prog_same_def confined_def)

lemma confined_trans: "confined s t \<Longrightarrow> confined t u \<Longrightarrow> gm_mem t = gm_mem s \<Longrightarrow> confined s u"
  unfolding confined_def by metis

lemma prog_same_trans: "prog_same s t \<Longrightarrow> prog_same t u \<Longrightarrow> prog_same s u"
  using confined_trans [of s t u] by (simp add: prog_same_def prog_view_def)

lemma more_view:
  assumes "gm_tcp.more t = gm_tcp.more s"
  shows "prog_view t = prog_view s \<and> user_mem t = user_mem s"
  using assms unfolding prog_view_def by (cases s; cases t) simp

lemma prog_same_upper: "upper t = upper s \<Longrightarrow> (net_ok s \<Longrightarrow> net_ok t) \<Longrightarrow> prog_same s t"
  using more_view [of t s] by (simp add: prog_same_def confined_def upper_def)

lemma prog_same_console [simp]:
  "prog_same s (gm_write p s)" "prog_same s (gm_print_u64 n s)" "prog_same s (gm_print_hex n s)"
  by (simp_all add: prog_same_def prog_view_def confined_def console_simps)

lemma prog_same_ticks: "gm_ticks s = (now, t) \<Longrightarrow> prog_same s t"
  using net_ok_ticks upper_view [OF poll_view_ticks] by (intro prog_same_upper) blast+

text \<open>A checked user range lies inside the mapped part of the user range.\<close>

lemma unat_add_le: "unat (a :: u64) + unat b < 18446744073709551616 \<Longrightarrow> unat (a + b) = unat a + unat b"
  by (simp add: unat_word_ariths)

lemma user_range_cases:
  assumes "gm_user_range a len"
  shows "program_base \<le> a" "a < program_end" "len \<le> 0x16000"
    "a + len \<le> program_guard \<or> program_stack \<le> a \<and> a + len \<le> program_end"
  using assms by (auto simp: gm_user_range_def Let_def not_less not_le split: if_splits)

lemma user_range_addr:
  assumes "gm_user_range a len" "unat (x - a) < unat len"
  shows "user_addr x"
proof -
  note C = user_range_cases [OF assms(1), unfolded word_le_nat_alt word_less_nat_alt]
  have n: "unat (program_base) = 1073741824" "unat program_end = 1073831936" "unat program_guard = 1073811456" "unat program_stack = 1073815552"
     "unat (0x16000 :: u64) = 90112"
    by simp_all
  have al: "unat (a + len) = unat a + unat len" using C(2,3) n by (intro unat_add_le) linarith
  have "unat (a + (x - a)) = unat a + unat (x - a)" using C(2,3) n assms(2) by (intro unat_add_le) linarith
  then have x: "unat x = unat a + unat (x - a)" by simp
  show ?thesis using x C al assms(2) unfolding user_addr_def word_le_nat_alt word_less_nat_alt n by linarith
qed

lemma prog_same_put:
  assumes "gm_user_range a len" "length bs \<le> unat len"
  shows "prog_same s (user_put a bs s)"
proof -
  have "user_addr x" if "unat (x - a) < length bs" for x using user_range_addr [OF assms(1)] assms(2) that by simp
  then show ?thesis by (auto simp: prog_same_def prog_view_def confined_def user_put_def Let_def)
qed

lemma prog_same_put_nil: "prog_same s (user_put a [] s)"
  by (simp add: prog_same_def prog_view_def confined_def user_put_def Let_def)



subsection \<open>Services keep the program layer\<close>

lemma net_ok_ping [simp]: "net_ok (s\<lparr>gm_ping_seq := a\<rparr>) = net_ok s" "net_ok (s\<lparr>gm_ping_reply := b\<rparr>) = net_ok s"
    "upper (s\<lparr>gm_ping_seq := a\<rparr>) = upper s" "upper (s\<lparr>gm_ping_reply := b\<rparr>) = upper s"
  by (simp_all add: net_ok_def driver_ok_def virtio_ok_def tcp_ok_def ring_ok_def upper_def)

lemma ping_result:
  assumes "gm_ping dst timeout s = (r, t)"
  shows "upper t = upper s" "net_ok s \<Longrightarrow> net_ok t"
proof -
  obtain ready s1 where p: "gm_net_prepare dst timeout s = (ready, s1)" by fastforce
  let ?s3 = "s1\<lparr>gm_ping_seq := gm_ping_seq s1 + 1, gm_ping_reply := 0\<rparr>"
  obtain ok s4 where c: "gm_ipv4_send dst 1 (ping_packet (gm_ping_seq s1 + 1)) ?s3 = (ok, s4)" by fastforce
  obtain start s5 where t5: "gm_ticks s4 = (start, s5)" by fastforce
  have cases: "t = s \<or> t = s1 \<or> t = s4 \<or> ping_loop start timeout s5 = (r, t)"
    using assms by (auto simp: gm_ping_def p c t5 Let_def split: if_splits)
  have u1: "upper s1 = upper s" using upper_view [OF prepare_view [OF p]] .
  have "s4 = snd (gm_ipv4_send dst 1 (ping_packet (gm_ping_seq s1 + 1)) ?s3)" using c by simp
  then have u4: "upper s4 = upper s" using u1 by (simp add: upper_net [OF snd_frame(3)])
  have u5: "upper s5 = upper s" using upper_view [OF poll_view_ticks [OF t5]] u4 by simp
  show "upper t = upper s" using cases u1 u4 u5 calm.ping_reply [OF refl, of start timeout s5 r t] upper_view by metis
  show "net_ok t" if "net_ok s"
  proof -
    have "net_ok s1" using stack.prepare [OF that p] .
    moreover then have "net_ok s4" using ipv4_send_ok [of ?s3] c by (metis net_ok_ping(1,2) snd_conv)
    moreover then have "net_ok s5" using net_ok_ticks [OF _ t5] by blast
    ultimately show ?thesis using cases that stack.ping_reply by blast
  qed
qed

lemma ping_same: "gm_ping dst timeout s = (r, t) \<Longrightarrow> prog_same s t"
  by (rule prog_same_upper [OF ping_result])

lemma udp_same: "gm_udp_exchange dst port tx n timeout s = (out, t) \<Longrightarrow> prog_same s t"
  by (rule prog_same_upper [OF udp_exchange_result(2,1)])

lemma store_same:
  "gm_store_connect s = (b, t) \<Longrightarrow> prog_same s t"
  "gm_store_size path out s = (r, t) \<Longrightarrow> prog_same s t"
  "gm_store_read path offset data len got s = (b, bs, t) \<Longrightarrow> prog_same s t"
  "gm_store_write path d len app s = (b, t) \<Longrightarrow> prog_same s t"
proof -
  show "prog_same s t" if "gm_store_connect s = (b, t)"
    using prog_same_upper [OF above.connect_store [OF refl that] stack.connect_store [OF _ that]] .
  show "prog_same s t" if "gm_store_size path out s = (r, t)"
    using prog_same_upper [OF above.size_store [OF refl that] stack.size_store [OF _ that]] .
  show "prog_same s t" if "gm_store_read path offset data len got s = (b, bs, t)"
    using prog_same_upper [OF above.read_store [OF refl that] stack.read_store [OF _ that]] .
  show "prog_same s t" if "gm_store_write path d len app s = (b, t)"
    using prog_same_upper [OF above.write_store [OF refl that] stack.write_store [OF _ that]] .
qed

lemma store_up_same: "store_up s = (b, t) \<Longrightarrow> prog_same s t"
  using store_same(1) [of s b t] by (auto simp: store_up_def split: if_splits)

text \<open>Whether a slot owns a resource is always answered.\<close>

lemma resource_owned_ok:
  assumes "res_ok s" "i < 4"
  shows "gm_resource_owned i r s = Ok (r \<noteq> 0 \<and> r \<le> 2 \<and> owned_resource (gm_apps s ! i) = r)"
proof (cases "r = 0 \<or> r > 2 \<or> owned_resource (gm_apps s ! i) \<noteq> r")
  case True
  then show ?thesis by (auto simp: gm_resource_owned_def gm_resource_get_def)
next
  case False
  then obtain k where k: "r = k + 1" "k < 2" by (cases r) auto
  note V = res_ok_view [OF assms(1)]
  have "fst (fst (lock_view s) ! k) = i + 1"
    using lock_okD(7) [OF V(5) k(2) assms(2)] V(4) [OF assms(2)] False k by (simp add: app_view_def)
  then show ?thesis using V(3) [OF k(2)] False k by (simp add: gm_resource_owned_def gm_resource_get_def res_view_def)
qed

lemma svc_write_same: "svc_write frame s = (v, t) \<Longrightarrow> prog_same s t"
  by (auto simp: svc_write_def split: option.splits)

lemma svc_gateway_same: "svc_gateway frame s = (v, t) \<Longrightarrow> prog_same s t"
  by (auto simp: svc_gateway_def split: if_splits intro!: prog_same_put [of _ 4])

lemma svc_ping_same: "svc_ping frame s = (v, t) \<Longrightarrow> prog_same s t"
  by (auto simp: svc_ping_def split: if_splits prod.splits dest: ping_same)

text \<open>A service that answers: it does not panic and changes nothing but the caller's memory.\<close>

definition answers :: "'a gm_programs_scheme \<Rightarrow> (u64 \<times> 'a gm_programs_scheme) outcome \<Rightarrow> bool" where
  "answers s r \<longleftrightarrow> (\<exists>v t. r = Ok (v, t) \<and> prog_same s t)"

lemma answersI: "prog_same s t \<Longrightarrow> answers s (Ok (v, t))"
  by (auto simp: answers_def)

lemma svc_udp_answers:
  assumes "res_ok s" "gm_program_current s < 4"
  shows "answers s (svc_udp frame s)"
proof -
  let ?x = "gm_udp_exchange (ip_at (user_bytes (f_rdi frame) 4 s) 0) (ucast (f_rsi frame))
      (user_bytes (f_rdx frame) (unat (f_rcx frame)) s) (unat (f_r9 frame)) 300 s"
  obtain out s1 where x: "?x = (out, s1)" by fastforce
  have len: "length out \<le> unat (f_r9 frame)" using udp_exchange_result(3) [OF x] .
  have "prog_same s1 (user_put (f_r8 frame) out s1)" if "f_r9 frame = 0 \<or> gm_user_range (f_r8 frame) (f_r9 frame)"
  proof (cases "f_r9 frame = 0")
    case True
    then show ?thesis using len by (simp add: prog_same_put_nil)
  next
    case False
    then show ?thesis using that len prog_same_put by blast
  qed
  then show ?thesis
    using prog_same_trans [OF udp_same [OF x]]
    by (auto simp: svc_udp_def resource_owned_ok [OF assms] x intro!: answersI)
qed

lemma svc_stat_answers:
  assumes "res_ok s" "gm_program_current s < 4"
  shows "answers s (svc_stat frame s)"
proof -
  obtain up s1 where u: "store_up s = (up, s1)" by fastforce
  obtain len where "gm_user_string (f_rdi frame) 191 s = None \<or> gm_user_string (f_rdi frame) 191 s = Some len" by (metis not_None_eq)
  moreover obtain sz s2 where z: "gm_store_size (Some (user_bytes (f_rdi frame) len s1)) True s1 = (sz, s2)" by fastforce
  moreover have p: "prog_same s s1" "prog_same s1 s2" using store_up_same [OF u] store_same(2) [OF z] .
  moreover have "prog_same s2 (user_put (f_rsi frame) (le64 n) s2)" if "gm_user_range (f_rsi frame) 8" for n
    by (rule prog_same_put [OF that]) (simp add: le64_def)
  ultimately show ?thesis
    using prog_same_trans
    by (auto simp: svc_stat_def resource_owned_ok [OF assms] u split: option.splits intro!: answersI) blast+
qed

lemma svc_store_read_answers:
  assumes "res_ok s" "gm_program_current s < 4"
  shows "answers s (svc_store_read frame s)"
proof -
  obtain up s1 where u: "store_up s = (up, s1)" by fastforce
  obtain len where "gm_user_string (f_rdi frame) 191 s1 = None \<or> gm_user_string (f_rdi frame) 191 s1 = Some len" by (metis not_None_eq)
  moreover obtain b out s2 where z: "gm_store_read (Some (user_bytes (f_rdi frame) len s1)) (f_rsi frame) True
      (ucast (f_rcx frame)) True s1 = (b, out, s2)" by (rule prod_cases3)
  moreover have p: "prog_same s s1" "prog_same s s2" using store_up_same [OF u] store_same(3) [OF z] prog_same_trans by blast+
  moreover have "prog_same s (user_put (f_rdx frame) out s2)" if "gm_user_range (f_rdx frame) (f_rcx frame)" "\<not> f_rcx frame > 1024"
  proof -
    have "unat (f_rcx frame) \<le> 1024" using that(2) by (simp add: word_less_nat_alt)
    then have "unat (ucast (f_rcx frame) :: u16) = unat (f_rcx frame)" by (simp add: unsigned_ucast_eq take_bit_nat_eq_self_iff)
    then have "length out \<le> unat (f_rcx frame)" using store_read_bound [OF z] by simp
    then show ?thesis using prog_same_trans [OF p(2) prog_same_put [OF that(1)]] by blast
  qed
  ultimately show ?thesis
    by (auto simp: svc_store_read_def resource_owned_ok [OF assms] u intro!: answersI)
qed

lemma svc_store_write_answers:
  assumes "res_ok s" "gm_program_current s < 4"
  shows "answers s (svc_store_write frame s)"
proof -
  obtain up s1 where u: "store_up s = (up, s1)" by fastforce
  obtain len where "gm_user_string (f_rdi frame) 191 s1 = None \<or> gm_user_string (f_rdi frame) 191 s1 = Some len" by (metis not_None_eq)
  moreover obtain b s2 where z: "gm_store_write (Some (user_bytes (f_rdi frame) len s1))
      (Some (user_bytes (f_rsi frame) (unat (f_rdx frame)) s1)) (ucast (f_rdx frame)) (f_rax frame = 8) s1 = (b, s2)" by fastforce
  moreover have p: "prog_same s s1" "prog_same s s2" using store_up_same [OF u] store_same(4) [OF z] prog_same_trans by blast+
  ultimately show ?thesis
    by (auto simp: svc_store_write_def resource_owned_ok [OF assms] u intro!: answersI)
qed



subsection \<open>The invariant\<close>

definition app_layout :: "gm_app_slot \<Rightarrow> bool" where
  "app_layout a \<longleftrightarrow> app_image a = program_base \<and> app_arg a = program_arg \<and> app_stack a = program_stack"

definition prog_shape :: "'a gm_programs_scheme \<Rightarrow> bool" where
  "prog_shape s \<longleftrightarrow> list_all app_layout (gm_apps s) \<and> distinct (gm_program_kernel_cr3 s # map app_cr3 (gm_apps s)) \<and>
     length (gm_periodics s) = 4 \<and> gm_program_next s < 4 \<and> gm_program_current s < 4"

definition prog_ok :: "'a gm_programs_scheme \<Rightarrow> bool" where
  "prog_ok s \<longleftrightarrow> net_ok s \<and> res_ok s \<and> prog_shape s"

abbreviation slot_state :: "'a gm_programs_scheme \<Rightarrow> nat \<Rightarrow> app_state" where
  "slot_state s i \<equiv> app_state (gm_apps s ! i)"

text \<open>In the kernel no program runs and the kernel's own tables are active; in a program it is the current one.\<close>

definition kernel_ok :: "'a gm_programs_scheme \<Rightarrow> bool" where
  "kernel_ok s \<longleftrightarrow> prog_ok s \<and> (\<forall>i < 4. slot_state s i \<noteq> APP_RUNNING) \<and> cpu_cr3 (gm_mem s) = gm_program_kernel_cr3 s"

definition user_ok :: "'a gm_programs_scheme \<Rightarrow> bool" where
  "user_ok s \<longleftrightarrow> prog_ok s \<and> (\<forall>i < 4. slot_state s i = APP_RUNNING \<longleftrightarrow> i = gm_program_current s) \<and>
     cpu_cr3 (gm_mem s) = app_cr3 (gm_apps s ! gm_program_current s)"

lemma lock_view_same: "prog_same s t \<Longrightarrow> lock_view t = lock_view s"
  by (simp add: lock_view_def prog_same_sel)

lemma res_ok_same: "prog_same s t \<Longrightarrow> res_ok t = res_ok s"
  by (simp add: res_ok_def lock_view_same prog_same_sel)

lemma prog_ok_same: "prog_same s t \<Longrightarrow> prog_ok s \<Longrightarrow> prog_ok t"
  using prog_same_sel [of s t] by (auto simp: prog_ok_def res_ok_same prog_shape_def prog_same_def)

lemma user_ok_same: "prog_same s t \<Longrightarrow> user_ok s \<Longrightarrow> user_ok t"
  using prog_ok_same [of s t] by (auto simp: user_ok_def prog_same_sel)

lemma kernel_ok_same: "prog_same s t \<Longrightarrow> kernel_ok s \<Longrightarrow> kernel_ok t"
  using prog_ok_same [of s t] by (auto simp: kernel_ok_def prog_same_sel)

lemma fixed_shape:
  assumes "map app_fixed as = map app_fixed bs"
  shows "list_all app_layout as = list_all app_layout bs" "map app_cr3 as = map app_cr3 bs"
proof -
  have l: "length as = length bs" using assms by (metis length_map)
  have n: "app_fixed (as ! i) = app_fixed (bs ! i)" if "i < length as" for i
    using assms that l by (metis nth_map)
  show "list_all app_layout as = list_all app_layout bs"
    using n l by (auto simp: list_all_length app_fixed_def app_layout_def)
  show "map app_cr3 as = map app_cr3 bs"
    using n l by (intro nth_equalityI) (auto simp: app_fixed_def)
qed

lemma frame_sel:
  assumes "res_frame s t"
  shows "gm_program_kernel_cr3 t = gm_program_kernel_cr3 s" "gm_program_current t = gm_program_current s" "gm_mem t = gm_mem s"
    "user_mem t = user_mem s" "gm_periodics t = gm_periodics s" "gm_program_next t = gm_program_next s"
proof -
  have e: "t = s\<lparr>gm_tick_count := gm_tick_count t, env_ticks := env_ticks t, gm_apps := gm_apps t,
      gm_resources := gm_resources t, gm_resource_epochs := gm_resource_epochs t\<rparr>"
    using assms unfolding res_frame_def by (elim conjE)
  show "gm_program_kernel_cr3 t = gm_program_kernel_cr3 s" "gm_program_current t = gm_program_current s" "gm_mem t = gm_mem s"
    "user_mem t = user_mem s" "gm_periodics t = gm_periodics s" "gm_program_next t = gm_program_next s"
    by (subst e, simp)+
qed

lemma shape_frame: "res_frame s t \<Longrightarrow> prog_shape t = prog_shape s"
  using frame_sel [of s t] fixed_shape [of "gm_apps t" "gm_apps s"] by (auto simp: prog_shape_def res_frame_def)

text \<open>Changing the state of a slot that neither waits before nor after.\<close>

lemma res_ok_state:
  assumes "res_ok s" "i < 4" "slot_state s i \<noteq> APP_BLOCKED" "st \<noteq> APP_BLOCKED"
    and "st = APP_FREE \<longrightarrow> owned_resource (gm_apps s ! i) = 0"
    and "app_view (f (gm_apps s ! i)) = (st, owned_resource (gm_apps s ! i), waiting_resource (gm_apps s ! i))"
  shows "res_ok (app_upd i f s)"
proof -
  note V = res_ok_view [OF assms(1)]
  have v: "lock_view (app_upd i f s) = spec_state i st (lock_view s)"
    using assms(6) V(4) [OF assms(2)] by (simp add: lock_view_upd app_view_def split: prod.splits)
      (cases "lock_view s"; simp add: app_view_def)
  have "lock_ok (spec_state i st (fst (lock_view s), snd (lock_view s)))"
    using assms V(4) [OF assms(2)] by (intro spec_state_ok [OF V(5)]) (simp_all add: app_view_def)
  then show ?thesis using assms(1) v by (simp add: res_ok_def)
qed

definition app_place :: "gm_app_slot \<Rightarrow> u64 \<times> u64 \<times> u64 \<times> u64" where
  "app_place a = (app_cr3 a, app_image a, app_arg a, app_stack a)"

lemma shape_app_upd: "app_place (f (gm_apps s ! i)) = app_place (gm_apps s ! i) \<Longrightarrow> prog_shape (app_upd i f s) = prog_shape s"
proof (cases "i < length (gm_apps s)")
  case True
  assume a: "app_place (f (gm_apps s ! i)) = app_place (gm_apps s ! i)"
  then have "map app_cr3 ((gm_apps s)[i := f (gm_apps s ! i)]) = map app_cr3 (gm_apps s)"
    using True by (intro nth_equalityI) (auto simp: nth_list_update app_place_def)
  moreover have "list_all app_layout ((gm_apps s)[i := f (gm_apps s ! i)]) = list_all app_layout (gm_apps s)"
  proof -
    have "app_layout ((gm_apps s)[i := f (gm_apps s ! i)] ! x) = app_layout (gm_apps s ! x)" if "x < length (gm_apps s)" for x
      using a that True by (auto simp: nth_list_update app_place_def app_layout_def)
    then show ?thesis by (simp add: list_all_length)
  qed
  ultimately show ?thesis by (simp add: prog_shape_def app_upd_def)
qed (simp add: app_upd_def not_less list_update_beyond prog_shape_def)

lemma shape_kernel [simp]: "prog_shape (gm_program_kernel s) = prog_shape s"
  by (simp add: prog_shape_def gm_program_kernel_def)

lemma res_ok_kernel [simp]: "res_ok (gm_program_kernel s) = res_ok s"
  by (simp add: res_ok_def lock_view_def gm_program_kernel_def)

lemma app_upd_sel [simp]:
  "gm_program_kernel_cr3 (app_upd i f s) = gm_program_kernel_cr3 s" "gm_program_current (app_upd i f s) = gm_program_current s"
  "gm_mem (app_upd i f s) = gm_mem s" "user_mem (app_upd i f s) = user_mem s" "gm_apps (app_upd i f s) = (gm_apps s)[i := f (gm_apps s ! i)]"
  by (simp_all add: app_upd_def)

lemma kernel_sel [simp]:
  "gm_apps (gm_program_kernel s) = gm_apps s" "gm_program_kernel_cr3 (gm_program_kernel s) = gm_program_kernel_cr3 s"
  "cpu_cr3 (gm_mem (gm_program_kernel s)) = gm_program_kernel_cr3 s" "user_mem (gm_program_kernel s) = user_mem s"
  "gm_program_current (gm_program_kernel s) = gm_program_current s"
  by (simp_all add: gm_program_kernel_def gm_address_space_switch_def)


lemma periodics_frame [simp]: "gm_periodics (app_upd i f s) = gm_periodics s" "gm_periodics (gm_program_kernel s) = gm_periodics s"
  by (simp_all add: app_upd_def gm_program_kernel_def)

subsection \<open>Ending a program\<close>

lemma spec_reclaim_facts:
  assumes "lock_ok v" "i < 4"
  shows "fst (snd (snd (spec_reclaim i v) ! i)) = 0" "fst (snd (spec_reclaim i v) ! i) = fst (snd v ! i)"
    "x < 4 \<Longrightarrow> x \<noteq> i \<Longrightarrow> fst (snd (spec_reclaim i v) ! x) = APP_RUNNING \<Longrightarrow> fst (snd v ! x) = APP_RUNNING"
proof -
  obtain L W where v: "v = (L, W)" by fastforce
  note D = lock_okD [OF assms(1) [unfolded v]]
  have *: "fst (snd (snd (spec_reclaim i v) ! i)) = 0 \<and> fst (snd (spec_reclaim i v) ! i) = fst (snd v ! i) \<and>
      (x < 4 \<longrightarrow> x \<noteq> i \<longrightarrow> fst (snd (spec_reclaim i v) ! x) = APP_RUNNING \<longrightarrow> fst (snd v ! x) = APP_RUNNING)"
  proof (cases "fst (snd (W ! i))")
    case 0
    then show ?thesis by (simp add: v spec_reclaim_def)
  next
    case (Suc k)
    then have k: "k < 2" using D(9) [OF assms(2)] by simp
    have w: "snd (snd (W ! i)) = 0" using D(12) [OF assms(2)] Suc by (cases "snd (snd (W ! i)) = 0") auto
    then have ni: "i \<notin> set (snd (L ! k))" using D(8) [OF k assms(2)] by simp
    obtain own q where L: "L ! k = (own, q)" by fastforce
    obtain st where W: "W ! i = (st, Suc k, 0)" using Suc w by (metis prod.collapse)
    show ?thesis
    proof (cases q)
      case Nil
      then show ?thesis using Suc L W assms(2) D(2) by (simp add: v spec_reclaim_def)
    next
      case (Cons j q')
      then have "j \<noteq> i" "j < 4" using ni L D(4) [OF k] by auto
      then show ?thesis using Cons Suc L W assms(2) D(2) by (auto simp: v spec_reclaim_def nth_list_update)
    qed
  qed
  then show "fst (snd (snd (spec_reclaim i v) ! i)) = 0" "fst (snd (spec_reclaim i v) ! i) = fst (snd v ! i)"
    "x < 4 \<Longrightarrow> x \<noteq> i \<Longrightarrow> fst (snd (spec_reclaim i v) ! x) = APP_RUNNING \<Longrightarrow> fst (snd v ! x) = APP_RUNNING" by blast+
qed

text \<open>The common end of \<^verbatim>\<open>gm_program_finish\<close>, \<^verbatim>\<open>gm_program_fault\<close> and the time-out of \<^verbatim>\<open>gm_program_preempt\<close>.\<close>

lemma program_ends:
  assumes ok: "prog_ok s" and i: "i < 4" and run: "\<forall>x < 4. slot_state s x = APP_RUNNING \<longleftrightarrow> x = i"
  shows "\<exists>t. gm_resource_reclaim i s = Ok t \<and> res_frame s t \<and> prog_ok (app_upd i (\<lambda>a. a\<lparr>app_state := APP_FREE\<rparr>) t) \<and>
    (\<forall>x < 4. slot_state (app_upd i (\<lambda>a. a\<lparr>app_state := APP_FREE\<rparr>) t) x \<noteq> APP_RUNNING)"
proof -
  have r: "res_ok s" using ok by (simp add: prog_ok_def)
  obtain t where t: "gm_resource_reclaim i s = Ok t" "res_ok t" "res_frame s t" "lock_view t = spec_reclaim i (lock_view s)"
    using reclaim_refines [OF r i] by blast
  have lok: "lock_ok (lock_view s)" using r by (simp add: res_ok_def)
  note F = spec_reclaim_facts [OF lok i]
  note V = res_ok_view [OF r] and V' = res_ok_view [OF t(2)]
  have own: "owned_resource (gm_apps t ! i) = 0" using F(1) V'(4) [OF i] t(4) by (simp add: app_view_def)
  have st: "slot_state t i = APP_RUNNING" using F(2) V'(4) [OF i] V(4) [OF i] t(4) run i by (simp add: app_view_def)
  have rest: "slot_state t x \<noteq> APP_RUNNING" if "x < 4" "x \<noteq> i" for x
    using F(3) [OF that] V'(4) [OF that(1)] V(4) [OF that(1)] t(4) run that by (auto simp: app_view_def)
  let ?u = "app_upd i (\<lambda>a. a\<lparr>app_state := APP_FREE\<rparr>) t"
  have "res_ok ?u" using own st by (intro res_ok_state [OF t(2) i, of APP_FREE]) (simp_all add: app_view_def)
  moreover have "prog_shape ?u" using ok shape_frame [OF t(3)] by (simp add: prog_ok_def shape_app_upd app_place_def)
  moreover have "net_ok ?u" using ok net_ok_res_frame [OF t(3)] by (simp add: prog_ok_def)
  moreover have "\<forall>x < 4. slot_state ?u x \<noteq> APP_RUNNING" using rest V'(2) i by (auto simp: nth_list_update)
  ultimately show ?thesis using t(1,3) by (intro exI [of _ t]) (simp add: prog_ok_def)
qed

lemma program_result_same: "prog_same s (gm_program_result i s)"
  unfolding gm_program_result_def Let_def by (auto intro!: prog_same_trans [OF _ prog_same_console(1)]
    prog_same_trans [OF _ prog_same_console(2)] simp del: prog_same_console)

lemma user_okD:
  assumes "user_ok s"
  shows "prog_ok s" "net_ok s" "res_ok s" "prog_shape s" "gm_program_current s < 4" "length (gm_apps s) = 4"
    "\<forall>x < 4. slot_state s x = APP_RUNNING \<longleftrightarrow> x = gm_program_current s" "slot_state s (gm_program_current s) = APP_RUNNING"
  using assms res_ok_view(2) by (auto simp: user_ok_def prog_ok_def prog_shape_def)

text \<open>Changes of a slot that its locks and its place do not notice.\<close>

lemma res_ok_app_upd:
  assumes "app_view (f (gm_apps s ! i)) = app_view (gm_apps s ! i)"
  shows "res_ok (app_upd i f s) = res_ok s"
proof (cases "i < length (gm_apps s)")
  case True
  then have "map app_view ((gm_apps s)[i := f (gm_apps s ! i)]) = map app_view (gm_apps s)"
    using assms by (intro nth_equalityI) (auto simp: nth_list_update)
  then show ?thesis by (simp add: res_ok_def lock_view_def app_upd_def)
qed (simp add: res_ok_def lock_view_def app_upd_def not_less list_update_beyond)

lemma prog_ok_app_upd:
  "app_view (f (gm_apps s ! i)) = app_view (gm_apps s ! i) \<Longrightarrow> app_place (f (gm_apps s ! i)) = app_place (gm_apps s ! i) \<Longrightarrow>
   prog_ok s \<Longrightarrow> prog_ok (app_upd i f s)"
  by (simp add: prog_ok_def res_ok_app_upd shape_app_upd)

lemma prog_ok_kernel [simp]: "prog_ok (gm_program_kernel s) = prog_ok s"
  by (simp add: prog_ok_def)

lemma finish_ok:
  assumes "user_ok s" "i = gm_program_current s"
  shows "\<exists>t. gm_program_finish i result s = Ok t \<and> kernel_ok t \<and> user_mem t = user_mem s \<and> gm_periodics t = gm_periodics s"
proof -
  note U = user_okD [OF assms(1)]
  let ?s = "app_upd i (\<lambda>a. a\<lparr>app_result := result\<rparr>) s"
  have ok: "prog_ok ?s" using prog_ok_app_upd [OF _ _ U(1)] by (simp add: app_view_def app_place_def)
  have run: "\<forall>x < 4. slot_state ?s x = APP_RUNNING \<longleftrightarrow> x = i" using U(5-8) assms(2) by (auto simp: nth_list_update)
  have i: "i < 4" using U(5) assms(2) by simp
  obtain t where t: "gm_resource_reclaim i ?s = Ok t" "res_frame ?s t" "prog_ok (app_upd i (\<lambda>a. a\<lparr>app_state := APP_FREE\<rparr>) t)"
      "\<forall>x < 4. slot_state (app_upd i (\<lambda>a. a\<lparr>app_state := APP_FREE\<rparr>) t) x \<noteq> APP_RUNNING"
    using program_ends [OF ok i run] by blast
  let ?u = "gm_program_kernel (app_upd i (\<lambda>a. a\<lparr>app_state := APP_FREE\<rparr>) t)"
  have "kernel_ok ?u" using t(3,4) by (simp add: kernel_ok_def)
  then have "kernel_ok (gm_program_result i ?u)" using kernel_ok_same program_result_same by blast
  moreover have "user_mem (gm_program_result i ?u) = user_mem s" "gm_periodics (gm_program_result i ?u) = gm_periodics s"
    using frame_sel [OF t(2)] by (simp_all add: gm_program_result_def Let_def console_simps)
  moreover have "gm_program_finish i result s = Ok (gm_program_result i ?u)" by (simp add: gm_program_finish_def t(1))
  ultimately show ?thesis by blast
qed

lemma yield_ok:
  assumes "user_ok s"
  shows "kernel_ok (gm_program_yield frame s)"
proof -
  note U = user_okD [OF assms]
  let ?i = "gm_program_current s"
  let ?u = "app_upd ?i (\<lambda>a. a\<lparr>app_context := frame, app_state := APP_READY\<rparr>) s"
  have "res_ok ?u" using U(8) by (intro res_ok_state [OF U(3,5), of APP_READY]) (simp_all add: app_view_def)
  moreover have "prog_shape ?u" using U(4) by (simp add: shape_app_upd app_place_def)
  moreover have "\<forall>x < 4. slot_state ?u x \<noteq> APP_RUNNING" using U(5-7) by (auto simp: nth_list_update)
  ultimately show ?thesis using U(2) by (simp add: gm_program_yield_def kernel_ok_def prog_ok_def)
qed

text \<open>A resource operation that leaves the caller running.\<close>

lemma user_ok_frame:
  assumes "user_ok s" "res_frame s t" "res_ok t" "i = gm_program_current s"
    and "slot_state t i = APP_RUNNING" "\<And>x. x < 4 \<Longrightarrow> x \<noteq> i \<Longrightarrow> slot_state t x = APP_RUNNING \<Longrightarrow> slot_state s x = APP_RUNNING"
  shows "user_ok t"
proof -
  note U = user_okD [OF assms(1)]
  have len: "length (gm_apps t) = 4" using res_ok_view(2) [OF assms(3)] .
  have "map app_fixed (gm_apps t) = map app_fixed (gm_apps s)" using assms(2) by (simp add: res_frame_def)
  then have "map app_cr3 (gm_apps t) = map app_cr3 (gm_apps s)" by (rule fixed_shape(2))
  then have cr3: "app_cr3 (gm_apps t ! i) = app_cr3 (gm_apps s ! i)" using U(5,6) len assms(4) by (metis nth_map)
  have "prog_ok t" using U(2,4) assms(3) net_ok_res_frame [OF assms(2)] shape_frame [OF assms(2)] by (simp add: prog_ok_def)
  moreover have "\<forall>x < 4. slot_state t x = APP_RUNNING \<longleftrightarrow> x = i" using assms(4-6) U(7) by auto
  ultimately show ?thesis using assms(1,4) frame_sel [OF assms(2)] cr3 by (simp add: user_ok_def)
qed

lemma release_user_ok:
  assumes "user_ok s" "i = gm_program_current s"
  shows "\<exists>b t. gm_resource_release_app i r s = Ok (b, t) \<and> user_ok t \<and> user_mem t = user_mem s \<and>
    gm_program_current t = gm_program_current s \<and> gm_mem t = gm_mem s \<and> gm_periodics t = gm_periodics s"
proof (cases "gm_resource_get r = None \<or> owned_resource (gm_apps s ! i) \<noteq> r")
  case True
  then show ?thesis using release_refused assms(1) by blast
next
  case False
  note U = user_okD [OF assms(1)]
  obtain k where k: "r = k + 1" "k < 2" using False by (auto simp: gm_resource_get_def split: if_splits) (metis Suc_pred less_2_cases_iff less_Suc_eq_le not_less numeral_2_eq_2)
  have i: "i < 4" using U(5) assms(2) by simp
  have own: "owned_resource (gm_apps s ! i) = k + 1" using False k by simp
  obtain t where t: "gm_resource_release_app i (k + 1) s = Ok (True, t)" "res_ok t" "res_frame s t" "lock_view t = spec_release i k (lock_view s)"
    using release_refines [OF U(3) i k(2) own] by blast
  note V = res_ok_view [OF U(3)] and V' = res_ok_view [OF t(2)]
  have lok: "lock_ok (lock_view s)" using U(3) by (simp add: res_ok_def)
  have rec: "spec_reclaim i (lock_view s) = lock_view t" using own V(4) [OF i] t(4) by (simp add: spec_reclaim_def app_view_def)
  note F = spec_reclaim_facts [OF lok i, unfolded rec]
  have st: "slot_state t i = APP_RUNNING" using F(2) V(4) [OF i] V'(4) [OF i] U(8) assms(2) by (simp add: app_view_def)
  have "slot_state s x = APP_RUNNING" if "x < 4" "x \<noteq> i" "slot_state t x = APP_RUNNING" for x
    using F(3) [OF that(1,2)] V(4) [OF that(1)] V'(4) [OF that(1)] that(3) by (simp add: app_view_def)
  then have "user_ok t" using user_ok_frame [OF assms(1) t(3,2) assms(2) st] by blast
  then show ?thesis using t(1) k(1) frame_sel [OF t(3)] by auto
qed



subsection \<open>Every trap of a running program is handled\<close>

lemma resource_cases:
  obtains "gm_resource_get r = None" | k where "r = k + 1" "k < 2"
  by (cases "gm_resource_get r") (auto simp: gm_resource_get_def split: if_splits, metis Suc_pred not_gr_zero less_Suc_eq_le not_less numeral_2_eq_2)

lemma acquire_handled:
  assumes "user_ok s" "i = gm_program_current s"
  shows "\<exists>b f t. gm_resource_acquire_service i r frame s = Ok (b, f, t) \<and> user_mem t = user_mem s \<and> gm_periodics t = gm_periodics s \<and> (if b then kernel_ok t else user_ok t)"
proof -
  note U = user_okD [OF assms(1)]
  have i: "i < 4" using U(5) assms(2) by simp
  have refuse: ?thesis if "gm_resource_acquire_service i r frame s = Ok (False, frame\<lparr>f_rax := 0\<rparr>, s)"
    using that assms(1) by auto
  show ?thesis
  proof (cases "gm_resource_get r = None \<or> owned_resource (gm_apps s ! i) \<noteq> 0 \<or> waiting_resource (gm_apps s ! i) \<noteq> 0")
    case True
    then show ?thesis by (intro refuse) (auto simp: gm_resource_acquire_service_def Let_def split: option.splits)
  next
    case False
    then obtain k where k: "r = k + 1" "k < 2" by (cases rule: resource_cases [of r]) auto
    have run: "slot_state s i = APP_RUNNING" using U(8) assms(2) by simp
    obtain b f t where t: "gm_resource_acquire_service i (k + 1) frame s = Ok (b, f, t)" "res_ok t"
        "lock_view t = spec_acquire i k (lock_view s)" "b \<longleftrightarrow> res_owner (gm_resources s ! k) \<noteq> 0"
        "res_frame (if b then gm_program_kernel s else s) t"
      using acquire_refines [OF U(3) i k(2) run] False by blast
    note V = res_ok_view [OF U(3)] and V' = res_ok_view [OF t(2)]
    have mem: "user_mem t = user_mem s" "gm_periodics t = gm_periodics s" using frame_sel [OF t(5)] by (simp_all split: if_splits)
    have wv: "snd (lock_view t) ! x = (if x = i then (if b then (APP_BLOCKED, 0, k + 1) else (APP_RUNNING, k + 1, 0)) else snd (lock_view s) ! x)"
      if "x < 4" for x
      using t(3,4) V(3) [OF k(2)] V(4) [OF i] run False that V(2) i
      by (cases "lock_view s") (auto simp: res_view_def app_view_def nth_list_update lock_view_def split: if_splits)
    have other: "slot_state t x = slot_state s x" if "x < 4" "x \<noteq> i" for x
      using wv [OF that(1)] V(4) [OF that(1)] V'(4) [OF that(1)] that(2) by (simp add: app_view_def)
    show ?thesis
    proof (cases b)
      case True
      have "slot_state t i = APP_BLOCKED" using wv [OF i] V'(4) [OF i] True by (simp add: app_view_def)
      then have nr: "\<forall>x < 4. slot_state t x \<noteq> APP_RUNNING" using other U(7) assms(2) by (metis app_state.distinct(11))
      have "prog_ok t" using U(2,4) t(2) net_ok_res_frame [OF t(5)] shape_frame [OF t(5)] True by (simp add: prog_ok_def)
      then have "kernel_ok t" using nr frame_sel [OF t(5)] True by (simp add: kernel_ok_def)
      then show ?thesis using t(1) k(1) mem True by auto
    next
      case False
      have "slot_state t i = APP_RUNNING" using wv [OF i] V'(4) [OF i] False by (simp add: app_view_def)
      then have "user_ok t" using user_ok_frame [OF assms(1) _ t(2) assms(2)] t(5) False other by simp
      then show ?thesis using t(1) k(1) mem False by auto
    qed
  qed
qed

lemma svc_simple_answers:
  assumes "user_ok s"
  shows "\<exists>v t. svc_simple frame s = Ok (v, t) \<and> user_ok t \<and> confined s t \<and> gm_periodics t = gm_periodics s"
proof -
  note U = user_okD [OF assms]
  have fin: "\<exists>v t. r = Ok (v, t) \<and> user_ok t \<and> confined s t \<and> gm_periodics t = gm_periodics s" if "answers s r" for r
    using that user_ok_same [OF _ assms] by (auto simp: answers_def prog_same_def prog_view_def)
  have A: "answers s (Ok (svc_write frame s))" "answers s (Ok (svc_gateway frame s))" "answers s (Ok (svc_ping frame s))"
    "answers s (Ok (gm_ticks s))"
    by (metis answersI svc_write_same surj_pair, metis answersI svc_gateway_same surj_pair, metis answersI svc_ping_same surj_pair,
        metis answersI prog_same_ticks surj_pair)
  have B: "answers s (Ok (1, gm_print_u64 (f_rdi frame) s))" "answers s (Ok (0, s))" by (simp_all add: answersI)
  note C = svc_udp_answers [OF U(3,5)] svc_stat_answers [OF U(3,5)] svc_store_read_answers [OF U(3,5)] svc_store_write_answers [OF U(3,5)]
  show ?thesis
  proof (cases "f_rax frame = 10")
    case True
    obtain b t where t: "gm_resource_release_app (gm_program_current s) (unat (ucast (f_rdi frame) :: u32)) s = Ok (b, t)"
        "user_ok t" "user_mem t = user_mem s" "gm_periodics t = gm_periodics s"
      using release_user_ok [OF assms refl] by blast
    then show ?thesis using True by (auto simp: svc_simple_def confined_def)
  next
    case False
    from False have "answers s (svc_simple frame s)" unfolding svc_simple_def using A B C by simp
    then show ?thesis by (rule fin)
  qed
qed

lemma yield_mem [simp]: "user_mem (gm_program_yield frame s) = user_mem s" "gm_periodics (gm_program_yield frame s) = gm_periodics s"
  by (simp_all add: gm_program_yield_def)

lemma service_handled:
  assumes "user_ok s" "f_cs frame AND 3 = 3"
  shows "\<exists>f t. gm_program_service frame s = Ok (True, f, t) \<and> kernel_ok t \<and> confined s t \<and> gm_periodics t = gm_periodics s"
proof -
  note U = user_okD [OF assms(1)]
  let ?i = "gm_program_current s"
  have same: "confined s t" if "user_mem t = user_mem s" for t using that by (simp add: confined_def)
  let ?w = "gm_write (Some (asc ''program timeout'' @ [10])) s"
  have w: "user_ok ?w" using user_ok_same [OF prog_same_console(1) assms(1)] .
  have w': "gm_program_current ?w = ?i" "user_mem ?w = user_mem s" "gm_periodics ?w = gm_periodics s" by (simp_all add: console_simps)
  obtain t1 where t1: "gm_program_finish ?i (- 200) ?w = Ok t1" "kernel_ok t1" "user_mem t1 = user_mem s" "gm_periodics t1 = gm_periodics s"
    using finish_ok [OF w, of ?i] w' by auto
  obtain t2 where t2: "gm_program_finish ?i (ucast (f_rdi frame)) s = Ok t2" "kernel_ok t2" "user_mem t2 = user_mem s" "gm_periodics t2 = gm_periodics s"
    using finish_ok [OF assms(1) refl] by blast
  obtain b f t3 where t3: "gm_resource_acquire_service ?i (unat (ucast (f_rdi frame) :: u32)) frame s = Ok (b, f, t3)"
      "user_mem t3 = user_mem s" "gm_periodics t3 = gm_periodics s" "if b then kernel_ok t3 else user_ok t3"
    using acquire_handled [OF assms(1) refl] by blast
  obtain v t4 where t4: "svc_simple frame s = Ok (v, t4)" "user_ok t4" "confined s t4" "gm_periodics t4 = gm_periodics s"
    using svc_simple_answers [OF assms(1)] by blast
  have y: "confined s (gm_program_yield g t4)" for g using t4(3) by (simp add: confined_def)
  consider (late) "runtime_ticks (gm_apps s ! ?i) \<ge> 1000" | (quit) "\<not> runtime_ticks (gm_apps s ! ?i) \<ge> 1000" "f_rax frame = 0"
    | (acq) "\<not> runtime_ticks (gm_apps s ! ?i) \<ge> 1000" "f_rax frame = 9"
    | (svc) "\<not> runtime_ticks (gm_apps s ! ?i) \<ge> 1000" "f_rax frame \<noteq> 0" "f_rax frame \<noteq> 9"
    by blast
  then show ?thesis
  proof cases
    case late
    then show ?thesis using U(8) assms(2) t1 same by (simp add: gm_program_service_def Let_def)
  next
    case quit
    then show ?thesis using U(8) assms(2) t2 same by (simp add: gm_program_service_def Let_def del: not_le)
  next
    case acq
    then show ?thesis using U(8) assms(2) t3 same yield_ok by (cases b) (auto simp: gm_program_service_def Let_def simp del: not_le)
  next
    case svc
    then show ?thesis using U(8) assms(2) t4 y yield_ok by (auto simp: gm_program_service_def Let_def simp del: not_le)
  qed
qed

text \<open>The end of a program inside a trap that has already switched to the kernel's tables.\<close>

lemma trap_ends:
  assumes ok: "prog_ok w" and i: "i < 4" and run: "\<forall>x < 4. slot_state w x = APP_RUNNING \<longleftrightarrow> x = i"
    and cr3: "cpu_cr3 (gm_mem w) = gm_program_kernel_cr3 w"
  shows "\<exists>t. and_then (gm_resource_reclaim i (app_upd i (\<lambda>a. a\<lparr>app_result := result\<rparr>) w))
      (\<lambda>s1. Ok (True, gm_program_result i (app_upd i (\<lambda>a. a\<lparr>app_state := APP_FREE\<rparr>) s1))) = Ok (True, t) \<and>
    kernel_ok t \<and> user_mem t = user_mem w \<and> gm_periodics t = gm_periodics w"
proof -
  let ?s = "app_upd i (\<lambda>a. a\<lparr>app_result := result\<rparr>) w"
  have len: "length (gm_apps w) = 4" using ok by (simp add: prog_ok_def res_ok_view(2))
  have oks: "prog_ok ?s" using prog_ok_app_upd [OF _ _ ok] by (simp add: app_view_def app_place_def)
  have runs: "\<forall>x < 4. slot_state ?s x = APP_RUNNING \<longleftrightarrow> x = i" using run i len by (auto simp: nth_list_update)
  obtain t where t: "gm_resource_reclaim i ?s = Ok t" "res_frame ?s t" "prog_ok (app_upd i (\<lambda>a. a\<lparr>app_state := APP_FREE\<rparr>) t)"
      "\<forall>x < 4. slot_state (app_upd i (\<lambda>a. a\<lparr>app_state := APP_FREE\<rparr>) t) x \<noteq> APP_RUNNING"
    using program_ends [OF oks i runs] by blast
  let ?u = "app_upd i (\<lambda>a. a\<lparr>app_state := APP_FREE\<rparr>) t"
  have "kernel_ok ?u" using t(3,4) frame_sel [OF t(2)] cr3 by (simp add: kernel_ok_def)
  then have "kernel_ok (gm_program_result i ?u)" using kernel_ok_same program_result_same by blast
  moreover have "user_mem (gm_program_result i ?u) = user_mem w" "gm_periodics (gm_program_result i ?u) = gm_periodics w"
    using frame_sel [OF t(2)] by (simp_all add: gm_program_result_def Let_def console_simps)
  ultimately show ?thesis by (simp add: t(1))
qed

lemma fault_handled:
  assumes "user_ok s" "cs AND 3 = 3"
  shows "\<exists>t. gm_program_fault vector code cs s = Ok (True, t) \<and> kernel_ok t \<and> user_mem t = user_mem s \<and> gm_periodics t = gm_periodics s"
proof -
  note U = user_okD [OF assms(1)]
  let ?w = "gm_write (Some [10]) (gm_print_hex code (gm_say '' code='' (gm_print_u64 vector (gm_say ''program fault vector='' (gm_program_kernel s)))))"
  have same: "prog_same (gm_program_kernel s) ?w" by (intro prog_same_trans [OF _ prog_same_console(1)]
      prog_same_trans [OF _ prog_same_console(2)] prog_same_trans [OF _ prog_same_console(3)] prog_same_refl)
  have w: "prog_ok ?w" "\<forall>x < 4. slot_state ?w x = APP_RUNNING \<longleftrightarrow> x = gm_program_current s"
      "cpu_cr3 (gm_mem ?w) = gm_program_kernel_cr3 ?w"
    using prog_ok_same [OF same] U(1,7) prog_same_sel [OF same] by simp_all
  have "user_mem ?w = user_mem s" "gm_periodics ?w = gm_periodics s" by (simp_all add: console_simps)
  then show ?thesis
    using trap_ends [OF w(1) U(5) w(2,3), of "- 100 - ucast vector"] U(8) assms(2) by (simp add: gm_program_fault_def Let_def)
qed

lemma preempt_handled:
  assumes "user_ok s" "f_cs frame AND 3 = 3"
  shows "\<exists>t. gm_program_preempt frame s = Ok (True, t) \<and> kernel_ok t \<and> user_mem t = user_mem s \<and> gm_periodics t = gm_periodics s"
proof -
  note U = user_okD [OF assms(1)]
  let ?i = "gm_program_current s"
  let ?s1 = "app_upd ?i (\<lambda>a. a\<lparr>runtime_ticks := runtime_ticks a + 1\<rparr>) s"
  have ok1: "prog_ok ?s1" using prog_ok_app_upd [OF _ _ U(1)] by (simp add: app_view_def app_place_def)
  have run1: "\<forall>x < 4. slot_state ?s1 x = APP_RUNNING \<longleftrightarrow> x = ?i" using U(5-8) by (auto simp: nth_list_update)
  show ?thesis
  proof (cases "runtime_ticks (gm_apps ?s1 ! ?i) \<ge> 1000")
    case True
    let ?w = "gm_write (Some (asc ''program timeout'' @ [10])) (gm_program_kernel ?s1)"
    have same: "prog_same (gm_program_kernel ?s1) ?w" by (rule prog_same_console)
    have w: "prog_ok ?w" "\<forall>x < 4. slot_state ?w x = APP_RUNNING \<longleftrightarrow> x = ?i" "cpu_cr3 (gm_mem ?w) = gm_program_kernel_cr3 ?w"
      using prog_ok_same [OF same] ok1 run1 prog_same_sel [OF same] by simp_all
    have "user_mem ?w = user_mem s" "gm_periodics ?w = gm_periodics s" by (simp_all add: console_simps)
    then show ?thesis
      using trap_ends [OF w(1) U(5) w(2,3), of "- 200"] U(8) assms(2) True by (simp add: gm_program_preempt_def Let_def)
  next
    case False
    let ?u = "app_upd ?i (\<lambda>a. a\<lparr>app_context := frame, app_state := APP_READY\<rparr>) ?s1"
    have r1: "res_ok ?s1" using ok1 by (simp add: prog_ok_def)
    have "res_ok ?u" using U(5,6,8) by (intro res_ok_state [OF r1 U(5), of APP_READY]) (simp_all add: app_view_def)
    moreover have "prog_shape ?u" using ok1 by (simp add: shape_app_upd app_place_def prog_ok_def)
    moreover have "\<forall>x < 4. slot_state ?u x \<noteq> APP_RUNNING" using run1 U(5,6) by (auto simp: nth_list_update)
    ultimately have "kernel_ok (gm_program_kernel ?u)" using U(2) by (simp add: kernel_ok_def prog_ok_def)
    then show ?thesis using U(8) assms(2) False by (auto simp: gm_program_preempt_def Let_def)
  qed
qed


subsection \<open>The scheduler takes turns\<close>

lemma schedule_scan_Some:
  "schedule_scan i n s = Some slot \<Longrightarrow> \<exists>d. i \<le> d \<and> d < i + n \<and> slot = (gm_program_next s + d) mod 4 \<and>
     slot_state s slot = APP_READY \<and> (\<forall>e. i \<le> e \<and> e < d \<longrightarrow> slot_state s ((gm_program_next s + e) mod 4) \<noteq> APP_READY)"
proof (induction n arbitrary: i)
  case (Suc n)
  show ?case
  proof (cases "slot_state s ((gm_program_next s + i) mod 4) = APP_READY")
    case True
    then show ?thesis using Suc.prems by (intro exI [of _ i]) (auto simp: Let_def)
  next
    case False
    then obtain d where d: "i + 1 \<le> d" "d < i + 1 + n" "slot = (gm_program_next s + d) mod 4" "slot_state s slot = APP_READY"
        "\<forall>e. i + 1 \<le> e \<and> e < d \<longrightarrow> slot_state s ((gm_program_next s + e) mod 4) \<noteq> APP_READY"
      using Suc.IH [of "i + 1"] Suc.prems by (auto simp: Let_def)
    then show ?thesis using False by (intro exI [of _ d]) (metis Suc_eq_plus1 add_Suc_right add_Suc_shift le_SucI le_antisym not_less_eq_eq)
  qed
qed simp

lemma schedule_scan_None:
  "schedule_scan i n s = None \<Longrightarrow> i \<le> d \<Longrightarrow> d < i + n \<Longrightarrow> slot_state s ((gm_program_next s + d) mod 4) \<noteq> APP_READY"
proof (induction n arbitrary: i)
  case (Suc n)
  then show ?case by (cases "d = i") (auto simp: Let_def split: if_splits)
qed simp

lemma schedule_user_ok:
  assumes "kernel_ok s" "gm_program_schedule s = (Some i, t)"
  shows "user_ok t \<and> gm_program_current t = i \<and> i < 4 \<and> slot_state s i = APP_READY \<and> gm_program_next t = (i + 1) mod 4 \<and> user_mem t = user_mem s"
proof -
  have K: "prog_ok s" "net_ok s" "res_ok s" "prog_shape s" "\<forall>x < 4. slot_state s x \<noteq> APP_RUNNING"
    using assms(1) by (auto simp: kernel_ok_def prog_ok_def)
  have len: "length (gm_apps s) = 4" using res_ok_view(2) [OF K(3)] .
  have scan: "schedule_scan 0 4 s = Some i" and t: "t = app_upd i (\<lambda>a. a\<lparr>app_state := APP_RUNNING\<rparr>)
      (gm_program_activate i (s\<lparr>gm_program_next := (i + 1) mod 4\<rparr>))"
    using assms(2) by (auto simp: gm_program_schedule_def split: option.splits)
  obtain d where d: "i = (gm_program_next s + d) mod 4" "slot_state s i = APP_READY" using schedule_scan_Some [OF scan] by blast
  have i: "i < 4" using d(1) by simp
  let ?s1 = "gm_program_activate i (s\<lparr>gm_program_next := (i + 1) mod 4\<rparr>)"
  have r1: "res_ok ?s1" using K(3) by (simp add: gm_program_activate_def res_ok_def lock_view_def)
  have "res_ok t" unfolding t using d(2)
    by (intro res_ok_state [OF r1 i, of APP_RUNNING]) (simp_all add: app_view_def gm_program_activate_def)
  moreover have "prog_shape ?s1" using K(4) i by (simp add: prog_shape_def gm_program_activate_def)
  then have "prog_shape t" unfolding t by (simp add: shape_app_upd app_place_def)
  moreover have "net_ok t" unfolding t using K(2) by simp
  moreover have "\<forall>x < 4. slot_state t x = APP_RUNNING \<longleftrightarrow> x = i"
    unfolding t using K(5) len i by (auto simp: nth_list_update gm_program_activate_def)
  ultimately show ?thesis using d(2) i len
    by (auto simp: user_ok_def prog_ok_def t gm_program_activate_def gm_address_space_switch_def app_upd_def)
qed



subsection \<open>Loading and starting\<close>

lemma range_low:
  assumes "program_base \<le> a" "unat a + n \<le> 1073811456" "0 < n"
  shows "gm_user_range a (of_nat n)" "unat (of_nat n :: u64) = n"
proof -
  have n: "unat program_base = 1073741824" "unat program_end = 1073831936" "unat program_guard = 1073811456" "unat (90112 :: u64) = 90112" by simp_all
  have b: "1073741824 \<le> unat a" using assms(1) unfolding word_le_nat_alt n .
  show un: "unat (of_nat n :: u64) = n" using assms(2) by (simp add: unat_of_nat)
  have s: "unat (a + of_nat n) = unat a + n" using assms(2) un unat_add_le [of a "of_nat n"] by simp
  show "gm_user_range a (of_nat n)"
    using assms b s un by (simp add: gm_user_range_def Let_def word_less_nat_alt word_le_nat_alt)
qed

lemma range_stack:
  assumes "program_stack \<le> a" "unat a + n \<le> 1073831936" "0 < n"
  shows "gm_user_range a (of_nat n)" "unat (of_nat n :: u64) = n"
proof -
  have b: "1073815552 \<le> unat a" using assms(1) by (simp add: word_le_nat_alt)
  show un: "unat (of_nat n :: u64) = n" using assms(2) by (simp add: unat_of_nat)
  have s: "unat (a + of_nat n) = unat a + n" using assms(2) un unat_add_le [of a "of_nat n"] by simp
  show "gm_user_range a (of_nat n)"
    using assms b s un by (simp add: gm_user_range_def Let_def word_less_nat_alt word_le_nat_alt)
qed

lemma put_low:
  assumes "program_base \<le> a" "unat a + length bs \<le> 1073811456"
  shows "prog_same s (user_put a bs s)"
proof (cases "bs = []")
  case False
  then show ?thesis by (intro prog_same_put [OF range_low(1) [OF assms]]) (simp_all add: range_low(2) [OF assms])
qed (simp add: prog_same_put_nil)

lemma put_stack:
  assumes "program_stack \<le> a" "unat a + length bs \<le> 1073831936"
  shows "prog_same s (user_put a bs s)"
proof (cases "bs = []")
  case False
  then show ?thesis by (intro prog_same_put [OF range_stack(1) [OF assms]]) (simp_all add: range_stack(2) [OF assms])
qed (simp add: prog_same_put_nil)

lemma user_put_sel [simp]: "gm_apps (user_put a bs s) = gm_apps s" "gm_program_current (user_put a bs s) = gm_program_current s"
    "gm_mem (user_put a bs s) = gm_mem s"
  by (simp_all add: user_put_def Let_def)

lemma clear_same: "app_layout (gm_apps s ! gm_program_current s) \<Longrightarrow> prog_same s (gm_program_clear s)"
  unfolding gm_program_clear_def Let_def app_layout_def
  by (intro prog_same_trans [OF _ put_stack] prog_same_trans [OF _ put_low] put_low) simp_all

lemma read_u16:
  assumes "gm_store_read path offset True (of_nat want) True s = (ok, out, t)" "want \<le> 1024"
  shows "length out \<le> want"
proof -
  have "unat (of_nat want :: u16) = want" using assms(2) by (simp add: unat_of_nat)
  then show ?thesis using store_read_bound [OF assms(1)] by simp
qed

lemma load_blocks_same:
  assumes "app_layout (gm_apps s ! gm_program_current s)" "unat offset + remain \<le> 65536" "load_blocks path offset remain s = (b, t)"
  shows "prog_same s t"
  using assms
proof (induction path offset remain s rule: load_blocks.induct)
  case (1 path offset remain s)
  let ?w = "if remain > 1024 then 1024 else remain"
  obtain ok out s1 where r: "gm_store_read (Some path) (24 + offset) True (of_nat ?w) True s = (ok, out, s1)" by (rule prod_cases3)
  let ?s2 = "user_put (app_image (gm_apps s1 ! gm_program_current s1) + offset) out s1"
  have len: "length out \<le> ?w" using read_u16 [OF r] by simp
  have p1: "prog_same s s1" using store_same(3) [OF r] .
  have image: "app_image (gm_apps s1 ! gm_program_current s1) = program_base" using 1(2) prog_same_sel [OF p1] by (simp add: app_layout_def)
  have n: "unat (program_base + offset) = 1073741824 + unat offset" using 1(3) unat_add_le [of program_base offset] by simp
  have "program_base \<le> program_base + offset" using n by (simp add: word_le_nat_alt)
  moreover have "unat (program_base + offset) + length out \<le> 1073811456" using n len 1(3) by (simp split: if_splits)
  ultimately have p2: "prog_same s1 ?s2" unfolding image by (rule put_low)
  have p: "prog_same s ?s2" using prog_same_trans [OF p1 p2] .
  have lay: "app_layout (gm_apps ?s2 ! gm_program_current ?s2)" using 1(2) prog_same_sel [OF p] by simp
  show ?case
  proof (cases "remain = 0 \<or> \<not> ok \<or> length out \<noteq> ?w")
    case True
    then show ?thesis using 1(4) p
      by (subst (asm) load_blocks.simps, simp only: Let_def r prod.case) (auto split: if_splits)
  next
    case False
    have rec: "load_blocks path (offset + of_nat ?w) (remain - ?w) ?s2 = (b, t)"
      using 1(4) False by (subst (asm) load_blocks.simps, simp only: Let_def r prod.case) (auto split: if_splits)
    have "unat (offset + of_nat ?w) = unat offset + ?w"
      using 1(3) unat_add_le [of offset "of_nat ?w"] by (simp add: unat_of_nat split: if_splits)
    then have le: "unat (offset + of_nat ?w) + (remain - ?w) \<le> 65536" using 1(3) by (simp split: if_splits)
    have "prog_same ?s2 t" using False lay le rec by (intro 1(1) [OF _ refl r [symmetric] _ refl]) auto
    then show ?thesis using prog_same_trans [OF p] by blast
  qed
qed

lemma load_same:
  assumes "app_layout (gm_apps s ! gm_program_current s)" "gm_program_load path s = (h, t)"
  shows "prog_same s t"
proof -
  obtain up s1 where u: "store_up s = (up, s1)" by fastforce
  obtain sz s2 where z: "gm_store_size (Some path) True s1 = (sz, s2)" by fastforce
  obtain ok raw s3 where r: "gm_store_read (Some path) 0 True 24 True s2 = (ok, raw, s3)" by (rule prod_cases3)
  let ?s4 = "gm_program_clear s3"
  let ?n = "unat (h_image_size (read_header raw))"
  obtain b s5 where l: "load_blocks path 0 ?n ?s4 = (b, s5)" by fastforce
  have p: "prog_same s s1" "prog_same s s2" "prog_same s s3"
    using store_up_same [OF u] store_same(2) [OF z] store_same(3) [OF r] prog_same_trans by blast+
  have "app_layout (gm_apps s3 ! gm_program_current s3)" using assms(1) prog_same_sel [OF p(3)] by simp
  then have p4: "prog_same s ?s4" using prog_same_trans [OF p(3) clear_same] by blast
  have lay: "app_layout (gm_apps ?s4 ! gm_program_current ?s4)" using assms(1) prog_same_sel [OF p4] by simp
  have "?n \<le> 65536" if "header_valid (read_header raw) fs" for fs
    using that by (auto simp: header_valid_def not_less word_le_nat_alt)
  then have p5: "prog_same s s5" if "header_valid (read_header raw) fs" for fs
    using that load_blocks_same [OF lay _ l] prog_same_trans [OF p4] by simp
  show ?thesis using assms(2) p p4 p5
    by (auto simp: gm_program_load_def u z r l Let_def split: if_splits option.splits)
qed

lemma say_if_same [simp]: "prog_same s (say_if report m s)"
  by (simp add: say_if_def)

lemma say_if_mem [simp]: "user_mem (say_if report m s) = user_mem s"
  by (simp add: say_if_def console_simps)

lemma find_free_Some: "find_free apps k = Some i \<Longrightarrow> k \<le> i \<and> i < k + length apps \<and> app_state (apps ! (i - k)) = APP_FREE"
  by (induction apps k rule: find_free.induct) (auto split: if_splits simp: nth_Cons' Suc_diff_Suc)

text \<open>While the kernel prepares a slot, the address space of that slot is active.\<close>

definition loading_ok :: "nat \<Rightarrow> 'a gm_programs_scheme \<Rightarrow> bool" where
  "loading_ok i s \<longleftrightarrow> prog_ok s \<and> (\<forall>x < 4. slot_state s x \<noteq> APP_RUNNING) \<and> i < 4 \<and> gm_program_current s = i \<and>
     cpu_cr3 (gm_mem s) = app_cr3 (gm_apps s ! i) \<and> slot_state s i = APP_FREE"

lemma loading_same: "prog_same s t \<Longrightarrow> loading_ok i s \<Longrightarrow> loading_ok i t"
  using prog_ok_same [of s t] by (auto simp: loading_ok_def prog_same_sel)

lemma loading_start:
  assumes "kernel_ok s" "find_free (gm_apps s) 0 = Some i"
  shows "loading_ok i (gm_program_activate i s)"
proof -
  have K: "prog_ok s" "res_ok s" "prog_shape s" "net_ok s" using assms(1) by (auto simp: kernel_ok_def prog_ok_def)
  have i: "i < 4" "slot_state s i = APP_FREE" using find_free_Some [OF assms(2)] res_ok_view(2) [OF K(2)] by auto
  let ?t = "gm_program_activate i s"
  have "res_ok ?t" using K(2) by (simp add: res_ok_def lock_view_def gm_program_activate_def)
  moreover have "prog_shape ?t" using K(3) i(1) by (simp add: prog_shape_def gm_program_activate_def)
  ultimately show ?thesis using assms(1) K(4) i
    by (auto simp: loading_ok_def prog_ok_def kernel_ok_def gm_program_activate_def gm_address_space_switch_def)
qed

lemma loading_kernel: "loading_ok i s \<Longrightarrow> kernel_ok (gm_program_kernel s)"
  by (simp add: loading_ok_def kernel_ok_def)

lemma loading_layout: "loading_ok i s \<Longrightarrow> app_layout (gm_apps s ! i)"
  using res_ok_view(2) [of s] by (auto simp: loading_ok_def prog_ok_def prog_shape_def list_all_length)

text \<open>The slot becomes ready only with its argument, stack and entry point in place.\<close>

definition fill_args :: "cstr option \<Rightarrow> nat \<Rightarrow> nat \<Rightarrow> 'a gm_programs_scheme \<Rightarrow> 'a gm_programs_scheme" where
  "fill_args args arg_len slot s =
     (let arg = app_arg (gm_apps s ! slot);
          s2 = (if arg_len \<noteq> 0 then user_put arg (case args of None \<Rightarrow> [] | Some a \<Rightarrow> take arg_len a) s else s);
          s3 = user_put (arg + of_nat arg_len) [0] s2 in
      gm_program_return_stub (program_stack + 16384 - 8) s3)"

lemma stub_same: "prog_same s (gm_program_return_stub (program_stack + 16384 - 8) s)"
  unfolding gm_program_return_stub_def Let_def
  by (intro prog_same_trans [OF put_low put_stack]) (simp_all add: return_code_def le64_def)

lemma fill_same:
  assumes "app_layout (gm_apps s ! slot)" "arg_len < 4080"
  shows "prog_same s (fill_args args arg_len slot s)"
proof -
  have arg: "app_arg (gm_apps s ! slot) = program_arg" using assms(1) by (simp add: app_layout_def)
  have len: "length (case args of None \<Rightarrow> [] | Some a \<Rightarrow> take arg_len a) \<le> arg_len" by (cases args) auto
  let ?s2 = "if arg_len \<noteq> 0 then user_put program_arg (case args of None \<Rightarrow> [] | Some a \<Rightarrow> take arg_len a) s else s"
  have p2: "prog_same s ?s2" using len assms(2) by (auto intro!: put_low)
  have n: "unat (program_arg + of_nat arg_len) = 1073807360 + arg_len"
    using assms(2) unat_add_le [of program_arg "of_nat arg_len"] by (simp add: unat_of_nat)
  have "prog_same ?s2 (user_put (program_arg + of_nat arg_len) [0] ?s2)"
    using n assms(2) by (intro put_low) (simp_all add: word_le_nat_alt)
  then have "prog_same s (gm_program_return_stub (program_stack + 16384 - 8) (user_put (program_arg + of_nat arg_len) [0] ?s2))"
    using prog_same_trans p2 stub_same by blast
  then show ?thesis unfolding fill_args_def arg Let_def .
qed

lemma start_path_split:
  assumes "find_free (gm_apps s) 0 = Some i" "gm_program_load path (gm_program_activate i s) = (Some header, s1)"
    and "gm_strlen args < 4096 - 16"
  shows "gm_program_start_path path args pid report s =
    (START_OK i, gm_write (Some [10]) (gm_write (Some path) (gm_say '' '' (gm_print_u64 (of_nat i) (gm_say ''started slot ''
      (gm_program_kernel (app_upd i (\<lambda>a. a\<lparr>app_context := start_context (of_nat (gm_strlen args)) (h_entry header) (program_stack + 16384 - 8),
         runtime_ticks := 0, app_result := -1, owned_resource := 0, waiting_resource := 0, periodic_id := pid, app_state := APP_READY\<rparr>)
         (fill_args args (gm_strlen args) i s1))))))))"
  using assms(3) unfolding gm_program_start_path_def assms(1) option.case assms(2) prod.case Let_def fill_args_def by simp

lemma distinct_cr3:
  "prog_shape s \<Longrightarrow> i < length (gm_apps s) \<Longrightarrow> j < length (gm_apps s) \<Longrightarrow> app_cr3 (gm_apps s ! i) = app_cr3 (gm_apps s ! j) \<Longrightarrow> i = j"
  using nth_eq_iff_index_eq [of "map app_cr3 (gm_apps s)" i j] by (simp add: prog_shape_def)

lemma start_path_ok:
  assumes "kernel_ok s" "gm_program_start_path path args pid report s = (rc, t)"
  shows "kernel_ok t \<and> (\<forall>j < 4. slot_state s j \<noteq> APP_FREE \<longrightarrow> user_mem t (app_cr3 (gm_apps s ! j)) = user_mem s (app_cr3 (gm_apps s ! j))) \<and>
    gm_periodics t = gm_periodics s \<and> (\<forall>i. rc = START_OK i \<longrightarrow> i < 4 \<and> slot_state s i = APP_FREE \<and> slot_state t i = APP_READY \<and> periodic_id (gm_apps t ! i) = pid)"
proof (cases "find_free (gm_apps s) 0")
  case None
  then have "rc = START_BUSY" "prog_same s t" "user_mem t = user_mem s"
    using assms(2) by (auto simp: gm_program_start_path_def)
  then show ?thesis using kernel_ok_same [OF _ assms(1)] prog_same_sel by auto
next
  case (Some i)
  have L0: "loading_ok i (gm_program_activate i s)" using loading_start [OF assms(1) Some] .
  obtain h s1 where l: "gm_program_load path (gm_program_activate i s) = (h, s1)" by fastforce
  have p1: "prog_same (gm_program_activate i s) s1"
    using load_same [OF _ l] loading_layout [OF L0] L0 by (simp add: loading_ok_def)
  have L1: "loading_ok i s1" using loading_same [OF p1 L0] .
  have K: "res_ok s" "prog_shape s" using assms(1) by (auto simp: kernel_ok_def prog_ok_def)
  have len: "length (gm_apps s) = 4" using res_ok_view(2) [OF K(1)] .
  have i: "i < 4" "slot_state s i = APP_FREE" using L0 by (auto simp: loading_ok_def gm_program_activate_def)
  have conf: "user_mem u (app_cr3 (gm_apps s ! j)) = user_mem s (app_cr3 (gm_apps s ! j))"
    if "confined (gm_program_activate i s) u" "j < 4" "slot_state s j \<noteq> APP_FREE" for u j
  proof -
    have "app_cr3 (gm_apps s ! j) \<noteq> app_cr3 (gm_apps s ! i)"
      using distinct_cr3 [OF K(2)] len i that(2,3) by metis
    then show ?thesis using that(1)
      by (auto simp: confined_def gm_program_activate_def gm_address_space_switch_def intro!: ext)
  qed
  show ?thesis
  proof (cases "h = None \<or> gm_strlen args \<ge> 4096 - 16")
    case True
    let ?u = "gm_program_kernel s1"
    have rc: "rc = START_ERROR" and t: "prog_same ?u t" "user_mem t = user_mem s1"
      using assms(2) Some l True by (auto simp: gm_program_start_path_def Let_def split: option.splits)
    have "kernel_ok t" using kernel_ok_same [OF t(1) loading_kernel [OF L1]] .
    moreover have "confined (gm_program_activate i s) t" using p1 t(2) by (simp add: prog_same_def confined_def)
    moreover have "gm_periodics t = gm_periodics s"
      using prog_same_sel(4) [OF t(1)] prog_same_sel(4) [OF p1] by (simp add: gm_program_kernel_def gm_program_activate_def)
    ultimately show ?thesis using rc conf by auto
  next
    case False
    then obtain header where h: "h = Some header" and al: "gm_strlen args < 4096 - 16" by auto
    let ?s4 = "fill_args args (gm_strlen args) i s1"
    let ?s5 = "app_upd i (\<lambda>a. a\<lparr>app_context := start_context (of_nat (gm_strlen args)) (h_entry header) (program_stack + 16384 - 8),
         runtime_ticks := 0, app_result := -1, owned_resource := 0, waiting_resource := 0, periodic_id := pid, app_state := APP_READY\<rparr>) ?s4"
    have p4: "prog_same s1 ?s4" using fill_same [OF loading_layout [OF L1], of "gm_strlen args" args] al by simp
    have L4: "loading_ok i ?s4" using loading_same [OF p4 L1] .
    note V = res_ok_view [of ?s4]
    have R4: "res_ok ?s4" "net_ok ?s4" "prog_shape ?s4" using L4 by (auto simp: loading_ok_def prog_ok_def)
    have own: "owned_resource (gm_apps ?s4 ! i) = 0" "waiting_resource (gm_apps ?s4 ! i) = 0"
      using lock_okD(13,11) [OF V(5) [OF R4(1)] i(1)] V(4) [OF R4(1) i(1)] L4 by (auto simp: app_view_def loading_ok_def)
    have len4: "length (gm_apps ?s4) = 4" using V(2) [OF R4(1)] .
    have r5: "res_ok ?s5" using own L4 by (intro res_ok_state [OF R4(1) i(1), of APP_READY]) (simp_all add: app_view_def loading_ok_def)
    have s5: "prog_shape ?s5" "net_ok ?s5" using R4 by (simp_all add: shape_app_upd app_place_def)
    have n5: "\<forall>x < 4. slot_state ?s5 x \<noteq> APP_RUNNING" using L4 len4 i(1) by (auto simp: loading_ok_def nth_list_update)
    let ?u = "gm_program_kernel ?s5"
    have "kernel_ok ?u" using r5 s5 n5 by (simp add: kernel_ok_def prog_ok_def)
    moreover have rc: "rc = START_OK i" and t: "t = gm_write (Some [10]) (gm_write (Some path) (gm_say '' '' (gm_print_u64 (of_nat i) (gm_say ''started slot '' ?u))))"
      using assms(2) start_path_split [OF Some l [unfolded h] al, of pid report] by simp_all
    have tu: "prog_same ?u t" unfolding t by (intro prog_same_trans [OF _ prog_same_console(1)] prog_same_trans [OF _ prog_same_console(2)] prog_same_refl)
    ultimately have k: "kernel_ok t" using kernel_ok_same by blast
    have "user_mem t = user_mem ?s4" unfolding t by (simp add: console_simps)
    moreover have "confined (gm_program_activate i s) ?s4" using prog_same_trans [OF p1 p4] by (simp add: prog_same_def)
    ultimately have c: "confined (gm_program_activate i s) t" by (simp add: confined_def)
    have per: "gm_periodics t = gm_periodics s"
      using prog_same_sel(4) [OF tu] prog_same_sel(4) [OF p4] prog_same_sel(4) [OF p1]
      by (simp add: gm_program_kernel_def gm_program_activate_def app_upd_def)
    have "gm_apps t ! i = gm_apps ?s5 ! i" using prog_same_sel(1) [OF tu] by simp
    then have "slot_state t i = APP_READY" "periodic_id (gm_apps t ! i) = pid" using len4 i(1) by simp_all
    then show ?thesis using k conf [OF c] rc i per by auto
  qed
qed

end
