(* ===== verification/Programs_Init.thy ===== *)
theory Programs_Init
  imports Programs_Safety
begin

unbundle bit_operations_syntax

section \<open>Setting up the program slots (\<^verbatim>\<open>gm_programs_init\<close>)\<close>

text \<open>
  The four address spaces are created and filled with pages by \<^verbatim>\<open>core.c\<close> (theory \<open>Core_Memory\<close>), the slots are
  reset, and \<^verbatim>\<open>gm_program_isolation_check\<close> probes that two of the spaces do not share their first page.
\<close>

definition app_zero :: gm_app_slot where
  "app_zero = \<lparr>resume_rsp = 0, app_result = 0, app_state = APP_FREE, runtime_ticks = 0, app_cr3 = 0, app_image = 0, app_arg = 0,
     app_stack = 0, app_context = frame_zero, owned_resource = 0, waiting_resource = 0, periodic_id = 0\<rparr>"

definition resource_zero :: gm_resource where
  "resource_zero = \<lparr>res_owner = 0, res_wait = replicate 4 0, wait_head = 0, wait_len = 0, acquired_tick = 0, total_ticks = 0,
     acquisitions = 0, max_hold = 0, res_recent = replicate 60 0\<rparr>"

definition periodic_zero :: gm_periodic where
  "periodic_zero = \<lparr>interval_ticks = 0, next_tick = 0, remaining = 0, periodic_slot = 0, periodic_active = False,
     periodic_name = [], periodic_args = []\<rparr>"

text \<open>A 64-bit access to user memory, as \<^verbatim>\<open>*probe\<close> makes it.\<close>

definition user_word :: "u64 \<Rightarrow> 'a gm_programs_scheme \<Rightarrow> u64" where
  "user_word a s = foldr (\<lambda>b w. ucast b OR push_bit 8 w) (user_bytes a 8 s) 0"

definition gm_program_isolation_check :: "'a gm_programs_scheme \<Rightarrow> 'a gm_programs_scheme outcome" where
  "gm_program_isolation_check s =
     (let s1 = user_put program_base (le64 0x1122334455667788) (gm_program_activate 0 s);
          s2 = gm_program_activate 1 s1 in
      if user_word program_base s2 \<noteq> 0 then Panic ''program isolation''
      else
        let s3 = user_put program_base (le64 0x8877665544332211) s2;
            s4 = gm_program_activate 0 s3 in
        if user_word program_base s4 \<noteq> 0x1122334455667788 then Panic ''program isolation''
        else
          let s5 = gm_program_activate 1 s4 in
          if user_word program_base s5 \<noteq> 0x8877665544332211 then Panic ''program isolation''
          else
            let s6 = gm_program_clear s5; s7 = gm_program_clear (gm_program_activate 0 s6) in
            Ok ((gm_program_kernel s7)\<lparr>gm_program_current := 0\<rparr>))"

lemma page_step: "virt < program_end \<Longrightarrow> 1073831936 - unat (virt + 4096) < 1073831936 - unat virt"
proof -
  assume "virt < program_end"
  then have lt: "unat virt < 1073831936" by (simp add: word_less_nat_alt)
  then have "unat (virt + 4096) = unat virt + 4096" by (simp add: unat_word_ariths)
  then show ?thesis using lt by linarith
qed

text \<open>The loop that gives an address space its pages, all but the guard page.\<close>

function map_program_pages :: "u64 \<Rightarrow> u64 \<Rightarrow> gm_memory \<Rightarrow> gm_memory outcome" where
  "map_program_pages cr3 virt m =
     (if virt < program_end then
        if virt = program_guard then map_program_pages cr3 (virt + 4096) m
        else
          and_then (gm_page_alloc m) (\<lambda>(phys, m1).
          and_then (gm_map_user_page_in cr3 virt phys 2 m1) (\<lambda>(mapped, m2).
            if \<not> mapped then Panic ''program map'' else map_program_pages cr3 (virt + 4096) m2))
      else Ok m)"
  by pat_completeness auto
termination
  by (relation "measure (\<lambda>(cr3, virt, m). unat program_end - unat virt)") (auto simp: page_step)

declare map_program_pages.simps [simp del]

definition init_slot :: "nat \<Rightarrow> 'a gm_programs_scheme \<Rightarrow> 'a gm_programs_scheme outcome" where
  "init_slot i s =
     and_then (gm_address_space_create (gm_mem s)) (\<lambda>(cr3, m1).
     and_then (map_program_pages cr3 program_base m1) (\<lambda>m2.
       let s1 = app_upd i (\<lambda>a. a\<lparr>app_cr3 := cr3, app_image := program_base, app_arg := program_arg, app_stack := program_stack\<rparr>)
                  (s\<lparr>gm_mem := m2\<rparr>);
           s2 = gm_program_clear (gm_program_activate i s1) in
       Ok (gm_program_kernel (app_upd i (\<lambda>a. a\<lparr>app_state := APP_FREE, app_result := 0, runtime_ticks := 0, resume_rsp := 0,
             owned_resource := 0, waiting_resource := 0, periodic_id := 0, app_context := frame_zero\<rparr>) s2))))"

fun init_slots :: "nat \<Rightarrow> nat \<Rightarrow> 'a gm_programs_scheme \<Rightarrow> 'a gm_programs_scheme outcome" where
  "init_slots i 0 s = Ok s"
| "init_slots i (Suc n) s = and_then (init_slot i s) (init_slots (i + 1) n)"

definition gm_programs_init :: "'a gm_programs_scheme \<Rightarrow> 'a gm_programs_scheme outcome" where
  "gm_programs_init s =
     (let s1 = s\<lparr>gm_program_kernel_cr3 := gm_address_space_current (gm_mem s), gm_apps := replicate 4 app_zero,
                 gm_resources := replicate 2 resource_zero, gm_periodics := replicate 4 periodic_zero,
                 gm_resource_epochs := replicate 60 0\<rparr> in
      and_then (init_slots 0 4 s1) (\<lambda>s2. gm_program_isolation_check (s2\<lparr>gm_program_current := 0, gm_program_next := 0\<rparr>)))"

end
