(* ===== verification/Programs_System.thy ===== *)
theory Programs_System
  imports Programs_Init
begin

unbundle bit_operations_syntax

section \<open>What the program layer guarantees\<close>

text \<open>
  The properties of \<^verbatim>\<open>programs.c\<close> that span its parts: traps, the scheduler, the loader, the resources and the
  periodic launches, with a concrete machine that satisfies their hypotheses.
\<close>

subsection \<open>Loading\<close>

lemma user_put_get: "user_get x (user_put a bs s) = (if unat (x - a) < length bs then bs ! unat (x - a) else user_get x s)"
  by (simp add: user_get_def user_put_def Let_def)

lemma in_block: "unat (x - a) < n \<Longrightarrow> unat a + n < 18446744073709551616 \<Longrightarrow> unat a \<le> unat x \<and> unat x < unat a + n" for a x :: u64
  by (auto simp: unat_sub_if_size word_size split: if_splits)

lemma in_block_iff: "unat a + n < 18446744073709551616 \<Longrightarrow> unat (x - a) < n \<longleftrightarrow> unat a \<le> unat x \<and> unat x < unat a + n" for a x :: u64
  using in_block [of x a n] by (auto simp: unat_sub_if_size word_size)

text \<open>Clearing leaves zeros in the whole user range, and the blocks of the image go below its size.\<close>

lemma clear_zero:
  assumes "app_layout (gm_apps s ! gm_program_current s)" "user_addr x"
  shows "user_get x (gm_program_clear s) = 0"
proof -
  have n: "unat x < 1073807360 \<and> unat x \<ge> 1073741824 \<or> unat x < 1073811456 \<and> unat x \<ge> 1073807360 \<or> unat x < 1073831936 \<and> unat x \<ge> 1073815552"
    using assms(2) by (auto simp: user_addr_def word_le_nat_alt word_less_nat_alt)
  then show ?thesis using assms(1)
    by (auto simp: gm_program_clear_def Let_def user_put_get app_layout_def in_block_iff)
qed

lemma load_blocks_above:
  assumes "app_layout (gm_apps s ! gm_program_current s)" "unat offset + remain \<le> 65536" "load_blocks path offset remain s = (b, t)"
    and "unat x \<ge> 1073741824 + unat offset + remain"
  shows "user_get x t = user_get x s"
  using assms
proof (induction path offset remain s rule: load_blocks.induct)
  case (1 path offset remain s)
  let ?w = "if remain > 1024 then 1024 else remain"
  obtain ok out s1 where r: "gm_store_read (Some path) (24 + offset) True (of_nat ?w) True s = (ok, out, s1)" by (rule prod_cases3)
  let ?a = "app_image (gm_apps s1 ! gm_program_current s1) + offset"
  let ?s2 = "user_put ?a out s1"
  have len: "length out \<le> ?w" using read_u16 [OF r] by simp
  have p1: "prog_same s s1" using store_same(3) [OF r] .
  have "upper s1 = upper s" using above.read_store [OF refl r] .
  then have mem: "user_get x s1 = user_get x s" using more_view [of s1 s] prog_same_sel(8) [OF p1] by (simp add: upper_def user_get_def)
  have image: "app_image (gm_apps s1 ! gm_program_current s1) = program_base" using 1(2) prog_same_sel [OF p1] by (simp add: app_layout_def)
  have n: "unat ?a = 1073741824 + unat offset" using 1(3) unat_add_le [of program_base offset] image by simp
  have keep: "user_get x ?s2 = user_get x s"
    using mem n len 1(3,5) by (simp add: user_put_get in_block_iff split: if_splits)
  have lay: "app_layout (gm_apps ?s2 ! gm_program_current ?s2)" using 1(2) prog_same_sel [OF p1] by simp
  show ?case
  proof (cases "remain = 0 \<or> \<not> ok \<or> length out \<noteq> ?w")
    case True
    then show ?thesis using 1(4) keep
      by (subst (asm) load_blocks.simps, simp only: Let_def r prod.case) (auto split: if_splits)
  next
    case False
    have rec: "load_blocks path (offset + of_nat ?w) (remain - ?w) ?s2 = (b, t)"
      using 1(4) False by (subst (asm) load_blocks.simps, simp only: Let_def r prod.case) (auto split: if_splits)
    have off: "unat (offset + of_nat ?w) = unat offset + ?w"
      using 1(3) unat_add_le [of offset "of_nat ?w"] by (simp add: unat_of_nat split: if_splits)
    have "user_get x t = user_get x ?s2"
      using False lay off rec 1(3,5) by (intro 1(1) [OF _ refl r [symmetric] _ refl]) (auto split: if_splits)
    then show ?thesis using keep by simp
  qed
qed

lemma load_success:
  assumes "app_layout (gm_apps s ! gm_program_current s)" "gm_program_load path s = (Some h, t)"
  shows "header_valid h (24 + ucast (h_image_size h))"
    "gm_image_checksum (user_bytes program_base (unat (h_image_size h)) t) = h_checksum h"
    "user_addr x \<Longrightarrow> unat x \<ge> 1073741824 + unat (h_image_size h) \<Longrightarrow> user_get x t = 0"
proof -
  obtain up s1 where u: "store_up s = (up, s1)" by fastforce
  obtain sz s2 where z: "gm_store_size (Some path) True s1 = (sz, s2)" by fastforce
  obtain ok raw s3 where r: "gm_store_read (Some path) 0 True 24 True s2 = (ok, raw, s3)" by (rule prod_cases3)
  let ?s4 = "gm_program_clear s3"
  let ?n = "unat (h_image_size (read_header raw))"
  obtain b s5 where l: "load_blocks path 0 ?n ?s4 = (b, s5)" by fastforce
  have p: "prog_same s s1" "prog_same s s2" "prog_same s s3"
    using store_up_same [OF u] store_same(2) [OF z] store_same(3) [OF r] prog_same_trans by blast+
  have lay3: "app_layout (gm_apps s3 ! gm_program_current s3)" using assms(1) prog_same_sel [OF p(3)] by simp
  have p4: "prog_same s ?s4" using prog_same_trans [OF p(3) clear_same] lay3 by blast
  have lay: "app_layout (gm_apps ?s4 ! gm_program_current ?s4)" using assms(1) prog_same_sel [OF p4] by simp
  have H: "h = read_header raw" "t = s5" and V: "\<exists>fs. header_valid h fs"
    and C: "gm_image_checksum (user_bytes (app_image (gm_apps s5 ! gm_program_current s5)) ?n s5) = h_checksum h"
    using assms(2) by (auto simp: gm_program_load_def u z r l Let_def split: if_splits option.splits)
  show valid: "header_valid h (24 + ucast (h_image_size h))" using V by (auto simp: header_valid_def)
  then have n: "?n \<le> 65536" unfolding H(1) by (auto simp: header_valid_def not_less word_le_nat_alt)
  have p5: "prog_same ?s4 s5" using load_blocks_same [OF lay _ l] n by simp
  show "gm_image_checksum (user_bytes program_base (unat (h_image_size h)) t) = h_checksum h"
    using C lay prog_same_sel [OF p5] H by (simp add: app_layout_def)
  show "user_get x t = 0" if "user_addr x" "unat x \<ge> 1073741824 + unat (h_image_size h)"
    using load_blocks_above [OF lay _ l] n that clear_zero [OF lay3 that(1)] H by simp
qed



subsection \<open>Turns\<close>

text \<open>How many slots the scheduler looks at before slot \<open>j\<close>.\<close>

definition turns_before :: "'a gm_programs_scheme \<Rightarrow> nat \<Rightarrow> nat" where
  "turns_before s j = (j + 4 - gm_program_next s) mod 4"

lemma turn_slot: "n < 4 \<Longrightarrow> j < 4 \<Longrightarrow> (n + (j + 4 - n) mod 4) mod 4 = (j :: nat)"
proof -
  assume "n < 4" "j < 4"
  then have "n \<in> {0, 1, 2, 3}" "j \<in> {0, 1, 2, 3}" by auto
  then show ?thesis by (elim insertE emptyE) simp_all
qed

lemma turn_less:
  assumes "n < 4" "j < 4" "d < (j + 4 - n) mod 4" "i = (n + d) mod (4 :: nat)"
  shows "(j + 4 - (i + 1) mod 4) mod 4 < (j + 4 - n) mod 4"
proof -
  have "n \<in> {0, 1, 2, 3}" "j \<in> {0, 1, 2, 3}" "d \<in> {0, 1, 2}" using assms(1,2,3) by (auto dest: less_le_trans [OF _ less_imp_le])
  then show ?thesis using assms(3,4) by (elim insertE emptyE) simp_all
qed

lemma schedule_turn:
  assumes "kernel_ok s" "j < 4" "slot_state s j = APP_READY"
  shows "\<exists>i t. gm_program_schedule s = (Some i, t) \<and> (i = j \<or> turns_before t j < turns_before s j)"
proof -
  have n: "gm_program_next s < 4" using assms(1) by (simp add: kernel_ok_def prog_ok_def prog_shape_def)
  let ?e = "turns_before s j"
  have e: "?e < 4" "(gm_program_next s + ?e) mod 4 = j" using turn_slot [OF n assms(2)] by (simp_all add: turns_before_def)
  show ?thesis
  proof (cases "schedule_scan 0 4 s")
    case None
    then show ?thesis using schedule_scan_None [OF None, of ?e] e assms(3) by simp
  next
    case (Some i)
    obtain d where d: "d < 4" "i = (gm_program_next s + d) mod 4" "\<forall>x. 0 \<le> x \<and> x < d \<longrightarrow> slot_state s ((gm_program_next s + x) mod 4) \<noteq> APP_READY"
      using schedule_scan_Some [OF Some] by auto
    have le: "d \<le> ?e" using d(3) e assms(3) by (metis le0 not_less)
    obtain t where t: "gm_program_schedule s = (Some i, t)" using Some by (simp add: gm_program_schedule_def)
    have nt: "gm_program_next t = (i + 1) mod 4" using schedule_user_ok [OF assms(1) t] by blast
    show ?thesis
    proof (cases "d = ?e")
      case True
      then show ?thesis using t d(2) e(2) by auto
    next
      case False
      then have "turns_before t j < turns_before s j"
        using turn_less [OF n assms(2), of d i] le d(2) nt by (simp add: turns_before_def)
      then show ?thesis using t by blast
    qed
  qed
qed


subsection \<open>Periodic launches\<close>

text \<open>An entry that is not running has launches left.\<close>

definition per_ok :: "'a gm_programs_scheme \<Rightarrow> bool" where
  "per_ok s \<longleftrightarrow> list_all (\<lambda>p. periodic_active p \<and> \<not> periodic_slot p < 4 \<longrightarrow> remaining p \<noteq> 0) (gm_periodics s)"

lemma per_ok_same: "gm_periodics t = gm_periodics s \<Longrightarrow> per_ok t = per_ok s"
  by (simp add: per_ok_def)

lemma per_upd_sel [simp]: "gm_periodics (per_upd i f s) = (gm_periodics s)[i := f (gm_periodics s ! i)]"
    "gm_apps (per_upd i f s) = gm_apps s"
  by (simp_all add: per_upd_def)

lemma kernel_ok_per_upd [simp]: "kernel_ok (per_upd i f s) = kernel_ok s"
proof -
  have "lock_view (per_upd i f s) = lock_view s" by (simp add: lock_view_def per_upd_def)
  then show ?thesis by (simp add: kernel_ok_def prog_ok_def res_ok_def prog_shape_def per_upd_def)
qed

lemma per_ok_upd:
  assumes "per_ok s" "periodic_active (f (gm_periodics s ! i)) \<and> \<not> periodic_slot (f (gm_periodics s ! i)) < 4 \<longrightarrow> remaining (f (gm_periodics s ! i)) \<noteq> 0"
  shows "per_ok (per_upd i f s)"
proof (cases "i < length (gm_periodics s)")
  case True
  then show ?thesis using assms by (simp add: per_ok_def list_all_length nth_list_update)
qed (use assms in \<open>simp add: per_ok_def list_update_beyond not_less\<close>)

lemma console_periodics [simp]:
  "gm_periodics (gm_write p s) = gm_periodics s" "gm_periodics (gm_print_u64 n s) = gm_periodics s"
  "gm_apps (gm_write p s) = gm_apps s" "gm_apps (gm_print_u64 n s) = gm_apps s"
  by (simp_all add: console_simps)

lemma kernel_ok_console [simp]: "kernel_ok s \<Longrightarrow> kernel_ok (gm_write p s)" "kernel_ok s \<Longrightarrow> kernel_ok (gm_print_u64 n s)"
  using kernel_ok_same prog_same_console by blast+

lemma per_ok_console [simp]: "per_ok (gm_write p s) = per_ok s" "per_ok (gm_print_u64 n s) = per_ok s"
  by (simp_all add: per_ok_def)

text \<open>Starting a program, exactly: which slot is chosen and what becomes of the tables of the kernel.\<close>

lemma find_free_None: "find_free apps k = None \<longleftrightarrow> (\<forall>a \<in> set apps. app_state a \<noteq> APP_FREE)"
  by (induction apps k rule: find_free.induct) auto

lemma find_free_first: "find_free apps k = Some i \<Longrightarrow> j < i - k \<Longrightarrow> app_state (apps ! j) \<noteq> APP_FREE"
proof (induction apps k arbitrary: j rule: find_free.induct)
  case (2 app apps k)
  then show ?case using find_free_Some [of apps "k + 1" i] by (cases j) (auto split: if_splits)
qed simp

definition started_app :: "nat \<Rightarrow> u64 \<Rightarrow> u32 \<Rightarrow> gm_app_slot \<Rightarrow> gm_app_slot" where
  "started_app pid arg_len entry a = a\<lparr>app_context := frame_zero\<lparr>f_rdi := program_arg, f_rsi := arg_len, f_rip := program_base + ucast entry,
       f_cs := 0x23, f_rflags := 0x202, f_rsp := program_end - 8, f_ss := 0x1b\<rparr>,
     runtime_ticks := 0, app_result := -1, owned_resource := 0, waiting_resource := 0, periodic_id := pid, app_state := APP_READY\<rparr>"

definition tables where
  "tables s = (gm_resources s, gm_resource_epochs s, gm_periodics s, gm_program_next s, gm_program_kernel_cr3 s)"

lemma tables_same: "prog_same s t \<Longrightarrow> tables t = tables s"
  by (simp add: tables_def prog_same_sel)

lemma tables_upd [simp]: "tables (gm_program_activate i s) = tables s" "tables (gm_program_kernel s) = tables s" "tables (app_upd i f s) = tables s"
  by (simp_all add: tables_def gm_program_activate_def gm_program_kernel_def app_upd_def)

lemma apps_switch [simp]: "gm_apps (gm_program_activate i s) = gm_apps s" "gm_apps (gm_program_kernel s) = gm_apps s"
    "user_mem (gm_program_activate i s) = user_mem s" "user_mem (gm_program_kernel s) = user_mem s"
  by (simp_all add: gm_program_activate_def gm_program_kernel_def)

text \<open>What a start leaves behind, by its result: only the first free slot, its record and its memory, can have changed.\<close>

definition start_frame :: "nat \<Rightarrow> u64 \<Rightarrow> start_rc \<Rightarrow> 'a gm_programs_scheme \<Rightarrow> 'a gm_programs_scheme \<Rightarrow> bool" where
  "start_frame pid arg_len rc s t \<longleftrightarrow> tables t = tables s \<and>
     (case rc of
        START_BUSY \<Rightarrow> find_free (gm_apps s) 0 = None \<and> gm_apps t = gm_apps s
      | START_ERROR \<Rightarrow> find_free (gm_apps s) 0 \<noteq> None \<and> gm_apps t = gm_apps s
      | START_OK i \<Rightarrow> find_free (gm_apps s) 0 = Some i \<and>
          (\<exists>entry < 65536. gm_apps t = (gm_apps s)[i := started_app pid arg_len entry (gm_apps s ! i)])) \<and>
     (\<forall>c x. user_mem t c x \<noteq> user_mem s c x \<longrightarrow> (\<exists>i. find_free (gm_apps s) 0 = Some i \<and> c = app_cr3 (gm_apps s ! i) \<and> user_addr x))"

lemma load_frame:
  assumes "kernel_ok s" "find_free (gm_apps s) 0 = Some i" "gm_program_load path (gm_program_activate i s) = (h, s1)"
  shows "prog_same (gm_program_activate i s) s1" "loading_ok i s1" "\<And>header. h = Some header \<Longrightarrow> h_entry header < 65536"
proof -
  let ?a = "gm_program_activate i s"
  have L0: "loading_ok i ?a" using loading_start [OF assms(1,2)] .
  have lay: "app_layout (gm_apps ?a ! gm_program_current ?a)" using loading_layout [OF L0] L0 by (simp add: loading_ok_def)
  show p1: "prog_same ?a s1" using load_same [OF lay assms(3)] .
  show "loading_ok i s1" using loading_same [OF p1 L0] .
  fix header
  assume "h = Some header"
  then have "header_valid header (24 + ucast (h_image_size header))" using load_success(1) [OF lay] assms(3) by simp
  then show "h_entry header < 65536" by (auto simp: header_valid_def not_less not_le word_le_nat_alt word_less_nat_alt)
qed

lemma activate_confined:
  "confined (gm_program_activate i s) t \<Longrightarrow> user_mem t c x \<noteq> user_mem s c x \<Longrightarrow> c = app_cr3 (gm_apps s ! i) \<and> user_addr x"
  by (auto simp: confined_def gm_program_activate_def gm_address_space_switch_def)

lemma start_frame_done:
  assumes "kernel_ok s" "find_free (gm_apps s) 0 = Some i" "gm_program_load path (gm_program_activate i s) = (Some header, s1)"
    and "gm_strlen args < 4096 - 16" "gm_program_start_path path args pid report s = (rc, t)"
  shows "start_frame pid (of_nat (gm_strlen args)) rc s t"
proof -
  note L = load_frame [OF assms(1-3)]
  let ?s4 = "fill_args args (gm_strlen args) i s1"
  let ?u = "gm_program_kernel (app_upd i (\<lambda>a. a\<lparr>app_context := start_context (of_nat (gm_strlen args)) (h_entry header) (program_stack + 16384 - 8),
       runtime_ticks := 0, app_result := -1, owned_resource := 0, waiting_resource := 0, periodic_id := pid, app_state := APP_READY\<rparr>) ?s4)"
  have p4: "prog_same s1 ?s4" using fill_same [OF loading_layout [OF L(2)], of "gm_strlen args" args] assms(4) by simp
  have rc: "rc = START_OK i" and t: "t = gm_write (Some [10]) (gm_write (Some path) (gm_say '' '' (gm_print_u64 (of_nat i) (gm_say ''started slot '' ?u))))"
    using assms(5) start_path_split [OF assms(2-4), of pid report] by simp_all
  have tu: "prog_same ?u t" unfolding t by (intro prog_same_trans [OF _ prog_same_console(1)] prog_same_trans [OF _ prog_same_console(2)] prog_same_refl)
  have tab: "tables t = tables s" using tables_same [OF tu] tables_same [OF p4] tables_same [OF L(1)] by simp
  have "gm_apps ?s4 = gm_apps s" using prog_same_sel(1) [OF p4] prog_same_sel(1) [OF L(1)] by simp
  then have "gm_apps t = (gm_apps s)[i := started_app pid (of_nat (gm_strlen args)) (h_entry header) (gm_apps s ! i)]"
    using prog_same_sel(1) [OF tu] by (simp add: app_upd_def started_app_def start_context_def)
  moreover have "user_mem t = user_mem ?s4" unfolding t by (simp add: console_simps)
  then have "confined (gm_program_activate i s) t" using prog_same_trans [OF L(1) p4] by (simp add: prog_same_def confined_def)
  ultimately show ?thesis using rc assms(2) tab L(3) unfolding start_frame_def by (auto dest: activate_confined)
qed

lemma start_path_frame:
  assumes "kernel_ok s" "gm_program_start_path path args pid report s = (rc, t)"
  shows "start_frame pid (of_nat (gm_strlen args)) rc s t"
proof (cases "find_free (gm_apps s) 0")
  case None
  then have "rc = START_BUSY" "prog_same s t" "user_mem t = user_mem s"
    using assms(2) by (auto simp: gm_program_start_path_def)
  then show ?thesis using None by (simp add: start_frame_def tables_same prog_same_sel)
next
  case (Some i)
  obtain h s1 where l: "gm_program_load path (gm_program_activate i s) = (h, s1)" by fastforce
  note L = load_frame [OF assms(1) Some l]
  show ?thesis
  proof (cases "h = None \<or> gm_strlen args \<ge> 4096 - 16")
    case True
    have rc: "rc = START_ERROR" and t: "prog_same (gm_program_kernel s1) t" "user_mem t = user_mem s1"
      using assms(2) Some l True by (auto simp: gm_program_start_path_def Let_def split: option.splits)
    have "confined (gm_program_activate i s) t" using L(1) t(2) by (simp add: prog_same_def confined_def)
    then show ?thesis using rc Some tables_same [OF t(1)] tables_same [OF L(1)] prog_same_sel(1) [OF t(1)] prog_same_sel(1) [OF L(1)]
      by (auto simp: start_frame_def dest: activate_confined)
  next
    case False
    then obtain header where "h = Some header" "gm_strlen args < 4096 - 16" by auto
    then show ?thesis using start_frame_done [OF assms(1) Some] l assms(2) by simp
  qed
qed

lemma apps_length: "kernel_ok s \<Longrightarrow> length (gm_apps s) = 4"
  using res_ok_view(2) by (auto simp: kernel_ok_def prog_ok_def)

text \<open>
  What one look at an entry does. An entry runs while the slot it points to still belongs to it. The program table changes
  just when a program is launched; a launch needs an entry that is active, not running, due and not used up, takes a
  free slot for this entry alone and is counted; every other look counts nothing.
\<close>

definition entry_runs :: "nat \<Rightarrow> 'a gm_programs_scheme \<Rightarrow> bool" where
  "entry_runs i s \<longleftrightarrow> (let k = periodic_slot (gm_periodics s ! i) in
     k < 4 \<and> periodic_id (gm_apps s ! k) = i + 1 \<and> slot_state s k \<noteq> APP_FREE)"

definition entry_launched :: "nat \<Rightarrow> u64 \<Rightarrow> 'a gm_programs_scheme \<Rightarrow> 'a gm_programs_scheme \<Rightarrow> bool" where
  "entry_launched i now s t \<longleftrightarrow> (let p = gm_periodics s ! i; q = gm_periodics t ! i; k = periodic_slot q in
     periodic_active p \<and> \<not> entry_runs i s \<and> next_tick p \<le> now \<and> remaining p \<noteq> 0 \<and>
     q = p\<lparr>periodic_slot := k, remaining := remaining p - 1, next_tick := now + interval_ticks p\<rparr> \<and>
     k < 4 \<and> slot_state s k = APP_FREE \<and> slot_state t k = APP_READY \<and> periodic_id (gm_apps t ! k) = i + 1 \<and>
     (\<forall>j. j \<noteq> k \<longrightarrow> gm_apps t ! j = gm_apps s ! j))"

text \<open>The entry after a look that launched nothing.\<close>

definition entry_passed :: "nat \<Rightarrow> u64 \<Rightarrow> 'a gm_programs_scheme \<Rightarrow> gm_periodic" where
  "entry_passed i now s = (let p = gm_periodics s ! i; p' = (if periodic_slot p < 4 then p\<lparr>periodic_slot := 4\<rparr> else p) in
     if \<not> periodic_active p \<or> entry_runs i s then p
     else if remaining p = 0 then p'\<lparr>periodic_active := False\<rparr>
     else if next_tick p \<le> now \<and> (\<exists>a \<in> set (gm_apps s). app_state a = APP_FREE) then p'\<lparr>next_tick := now + interval_ticks p\<rparr>
     else p')"

lemma entry_passed_remaining: "remaining (entry_passed i now s) = remaining (gm_periodics s ! i)"
  by (simp add: entry_passed_def Let_def)

lemma entry_launchedD:
  assumes "entry_launched i now s t"
  defines "p \<equiv> gm_periodics s ! i" and "q \<equiv> gm_periodics t ! i"
  shows "periodic_active p" "\<not> entry_runs i s" "next_tick p \<le> now" "unat (remaining p) = unat (remaining q) + 1"
    "periodic_active q" "next_tick q = now + interval_ticks p" "interval_ticks q = interval_ticks p"
    "periodic_name q = periodic_name p" "periodic_args q = periodic_args p"
    "periodic_slot q < 4" "slot_state s (periodic_slot q) = APP_FREE" "slot_state t (periodic_slot q) = APP_READY"
    "periodic_id (gm_apps t ! periodic_slot q) = i + 1" "\<And>j. j \<noteq> periodic_slot q \<Longrightarrow> gm_apps t ! j = gm_apps s ! j"
proof -
  note L = assms(1) [unfolded entry_launched_def Let_def, folded p_def q_def]
  obtain k where q: "q = p\<lparr>periodic_slot := k, remaining := remaining p - 1, next_tick := now + interval_ticks p\<rparr>" using L by blast
  show "periodic_active p" "\<not> entry_runs i s" "next_tick p \<le> now" "periodic_slot q < 4" "slot_state s (periodic_slot q) = APP_FREE"
    "slot_state t (periodic_slot q) = APP_READY" "periodic_id (gm_apps t ! periodic_slot q) = i + 1"
    "\<And>j. j \<noteq> periodic_slot q \<Longrightarrow> gm_apps t ! j = gm_apps s ! j" using L by blast+
  show "periodic_active q" "next_tick q = now + interval_ticks p" "interval_ticks q = interval_ticks p"
    "periodic_name q = periodic_name p" "periodic_args q = periodic_args p" using L unfolding q by simp_all
  have "remaining p \<noteq> 0" using L by blast
  then show "unat (remaining p) = unat (remaining q) + 1" unfolding q by (simp add: unat_minus_one unat_gt_0 Suc_le_eq)
qed

lemma launch_ok:
  assumes "kernel_ok s" "per_ok s" "i < 4" "periodic_active (gm_periodics s ! i)" "remaining (gm_periodics s ! i) \<noteq> 0"
    and "\<not> periodic_slot (gm_periodics s ! i) < 4" and t_def: "t = periodic_launch i now s"
  shows "kernel_ok t \<and> per_ok t \<and> (\<forall>j. j \<noteq> i \<longrightarrow> gm_periodics t ! j = gm_periodics s ! j) \<and>
    (gm_apps t = gm_apps s \<and> gm_periodics t ! i = entry_passed i now s \<or> gm_apps t \<noteq> gm_apps s \<and> entry_launched i now s t)"
proof (cases "now < next_tick (gm_periodics s ! i)")
  case True
  then show ?thesis using assms by (auto simp: periodic_launch_def entry_passed_def Let_def)
next
  case False
  let ?p = "gm_periodics s ! i"
  obtain rc s1 where c: "gm_program_start_path (periodic_name ?p) (Some (periodic_args ?p)) (i + 1) False s = (rc, s1)" by fastforce
  note S = start_path_ok [OF assms(1) c] and F = start_path_frame [OF assms(1) c]
  have k: "kernel_ok s1" "gm_periodics s1 = gm_periodics s" using S by blast+
  have p1: "per_ok s1" using assms(2) k(2) by (simp add: per_ok_def)
  have len: "length (gm_periodics s) = 4" using assms(1) by (simp add: kernel_ok_def prog_ok_def prog_shape_def)
  have nr: "\<not> entry_runs i s" using assms(6) by (simp add: entry_runs_def Let_def)
  show ?thesis
  proof (cases rc)
    case START_BUSY
    then show ?thesis using False c k p1 F nr assms(5,6) by (auto simp: t_def periodic_launch_def Let_def start_frame_def entry_passed_def find_free_None)
  next
    case START_ERROR
    have "per_ok (per_upd i (\<lambda>p. p\<lparr>next_tick := now + interval_ticks p\<rparr>) s1)"
      using assms(5) k(2) by (intro per_ok_upd [OF p1]) simp
    then show ?thesis using START_ERROR False c k len assms(3-6) F nr
      by (auto simp: t_def periodic_launch_def Let_def start_frame_def entry_passed_def find_free_None)
  next
    case (START_OK slot)
    have sl: "slot < 4" "slot_state s slot = APP_FREE" "slot_state s1 slot = APP_READY" "periodic_id (gm_apps s1 ! slot) = i + 1" using S START_OK by auto
    have fr: "\<forall>j. j \<noteq> slot \<longrightarrow> gm_apps s1 ! j = gm_apps s ! j" using F START_OK by (auto simp: start_frame_def)
    have "per_ok (per_upd i (\<lambda>p. p\<lparr>periodic_slot := slot, remaining := remaining p - 1, next_tick := now + interval_ticks p\<rparr>) s1)"
      using sl(1) by (intro per_ok_upd [OF p1]) simp
    moreover have "gm_apps s1 \<noteq> gm_apps s" using sl(2,3) by auto
    ultimately show ?thesis using START_OK False c k len assms(3-5) sl fr nr by (simp add: t_def periodic_launch_def Let_def entry_launched_def)
  qed
qed

lemma entry_again:
  assumes "i < length (gm_periodics s)" "periodic_slot (gm_periodics s ! i) < 4" "\<not> entry_runs i s" "periodic_active (gm_periodics s ! i)"
    and s1_def: "s1 = per_upd i (\<lambda>p. p\<lparr>periodic_slot := 4\<rparr>) s"
  shows "entry_passed i now s1 = entry_passed i now s" "entry_launched i now s1 t \<Longrightarrow> entry_launched i now s t"
proof -
  have nr: "\<not> entry_runs i s1" using assms(1) by (simp add: s1_def entry_runs_def Let_def)
  show "entry_passed i now s1 = entry_passed i now s" using nr assms(1-4) by (auto simp: entry_passed_def Let_def s1_def)
  assume "entry_launched i now s1 t"
  then show "entry_launched i now s t" using assms(1,3) by (simp add: entry_launched_def Let_def s1_def)
qed

lemma periodic_step_ok:
  assumes "kernel_ok s" "per_ok s" "i < 4" and t_def: "t = periodic_step i now s"
  shows "kernel_ok t \<and> per_ok t \<and> (\<forall>j. j \<noteq> i \<longrightarrow> gm_periodics t ! j = gm_periodics s ! j) \<and>
    (gm_apps t = gm_apps s \<and> gm_periodics t ! i = entry_passed i now s \<or> gm_apps t \<noteq> gm_apps s \<and> entry_launched i now s t)"
proof -
  let ?p = "gm_periodics s ! i"
  let ?s1 = "per_upd i (\<lambda>p. p\<lparr>periodic_slot := 4\<rparr>) s"
  have len: "length (gm_periodics s) = 4" using assms(1) by (simp add: kernel_ok_def prog_ok_def prog_shape_def)
  have runs: "entry_runs i s \<longleftrightarrow> periodic_slot ?p < 4 \<and> periodic_id (gm_apps s ! periodic_slot ?p) = i + 1 \<and> slot_state s (periodic_slot ?p) \<noteq> APP_FREE"
    by (simp add: entry_runs_def Let_def)
  consider (idle) "\<not> periodic_active ?p \<or> entry_runs i s"
    | (over) "periodic_active ?p" "periodic_slot ?p < 4" "\<not> entry_runs i s" "remaining ?p = 0"
    | (again) "periodic_active ?p" "periodic_slot ?p < 4" "\<not> entry_runs i s" "remaining ?p \<noteq> 0"
    | (first) "periodic_active ?p" "\<not> periodic_slot ?p < 4"
    by blast
  then show ?thesis
  proof cases
    case idle
    then show ?thesis using assms runs by (auto simp: periodic_step_def entry_passed_def Let_def)
  next
    case over
    have t: "t = gm_write (Some (asc '' complete'' @ [10])) (gm_print_u64 (of_nat i) (gm_say ''periodic '' (per_upd i (\<lambda>p. p\<lparr>periodic_active := False\<rparr>) ?s1)))"
      using over runs unfolding t_def periodic_step_def Let_def by auto
    have "per_ok (per_upd i (\<lambda>p. p\<lparr>periodic_active := False\<rparr>) ?s1)"
      using assms(2) len assms(3) by (auto simp: per_ok_def list_all_length nth_list_update)
    then show ?thesis using assms(1,3) len over unfolding t by (simp add: entry_passed_def Let_def)
  next
    case again
    have t: "t = periodic_launch i now ?s1" using again runs unfolding t_def periodic_step_def Let_def by auto
    have "per_ok ?s1" using again(4) by (intro per_ok_upd [OF assms(2)]) simp
    then show ?thesis using launch_ok [OF _ _ assms(3) _ _ _ t] entry_again(1) [OF _ again(2,3,1) refl, of now] entry_again(2) [OF _ again(2,3,1) refl, of now t] again assms(1,3) len by auto
  next
    case first
    have t: "t = periodic_launch i now s" using first unfolding t_def periodic_step_def Let_def by simp
    have r: "remaining ?p \<noteq> 0" using assms(2,3) len first by (simp add: per_ok_def list_all_length)
    show ?thesis using launch_ok [OF assms(1-3) first(1) r first(2) t] .
  qed
qed

lemma periodic_loop_ok: "kernel_ok s \<Longrightarrow> per_ok s \<Longrightarrow> i + n \<le> 4 \<Longrightarrow> kernel_ok (periodic_loop i n now s) \<and> per_ok (periodic_loop i n now s)"
proof (induction n arbitrary: i s)
  case (Suc n)
  have "i < 4" using Suc.prems(3) by simp
  from periodic_step_ok [OF Suc.prems(1,2) this refl, of now] have "kernel_ok (periodic_step i now s)" "per_ok (periodic_step i now s)" by blast+
  then show ?case using Suc.IH [of "periodic_step i now s" "i + 1"] Suc.prems(3) by simp
qed simp

lemma periodic_poll_ok: "kernel_ok s \<Longrightarrow> per_ok s \<Longrightarrow> kernel_ok (gm_periodic_poll s) \<and> per_ok (gm_periodic_poll s)"
proof -
  assume a: "kernel_ok s" "per_ok s"
  obtain now s1 where t: "gm_ticks s = (now, s1)" by fastforce
  have "kernel_ok s1" "gm_periodics s1 = gm_periodics s" using kernel_ok_same [OF prog_same_ticks [OF t] a(1)] prog_same_sel(4) [OF prog_same_ticks [OF t]] .
  then show ?thesis using periodic_loop_ok [of s1 0 4 now] a(2) by (simp add: gm_periodic_poll_def t per_ok_def)
qed



subsection \<open>A machine with a ready program\<close>

definition app_example :: "app_state \<Rightarrow> u64 \<Rightarrow> gm_app_slot" where
  "app_example st cr3 = app_zero\<lparr>app_state := st, app_cr3 := cr3, app_image := program_base, app_arg := program_arg, app_stack := program_stack\<rparr>"

definition mem_example :: gm_memory where
  "mem_example = \<lparr>gm_hhdm = 0xffff800000000000, gm_page_next = 0x2000000, gm_page_end = 0x8000000, cpu_cr3 = 0x1000, phys_mem = (\<lambda>_. 0)\<rparr>"

definition programs_example :: gm_programs where
  "programs_example = gm_tcp.extend tcp_example
     (gm_programs.fields [app_example APP_READY 0x2000000, app_example APP_FREE 0x2001000, app_example APP_FREE 0x2002000, app_example APP_FREE 0x2003000]
        (replicate 2 resource_zero) (replicate 4 periodic_zero) (replicate 60 0) 0x1000 1 0 mem_example (\<lambda>_ _. 0))"

lemma net_ok_extend: "net_ok (gm_tcp.extend s x) = net_ok s"
  by (simp add: net_ok_def driver_ok_def virtio_ok_def tcp_ok_def ring_ok_def gm_tcp.extend_def)

lemma programs_example_sel [simp]:
  "gm_apps programs_example = [app_example APP_READY 0x2000000, app_example APP_FREE 0x2001000, app_example APP_FREE 0x2002000, app_example APP_FREE 0x2003000]"
  "gm_resources programs_example = replicate 2 resource_zero" "gm_periodics programs_example = replicate 4 periodic_zero"
  "gm_resource_epochs programs_example = replicate 60 0" "gm_program_kernel_cr3 programs_example = 0x1000"
  "gm_program_next programs_example = 1" "gm_program_current programs_example = 0" "gm_mem programs_example = mem_example"
  by (simp_all add: programs_example_def gm_tcp.extend_def gm_programs.fields_def)

lemma kernel_ok_example: "kernel_ok programs_example" "per_ok programs_example"
proof -
  have "net_ok programs_example" using net_ok_example by (simp add: programs_example_def net_ok_extend)
  moreover have "res_ok programs_example"
    by (simp add: res_ok_def lock_view_def lock_ok_def numeral_2_eq_2 res_view_def app_view_def resource_zero_def app_example_def app_zero_def
        wait_queue_def res_shape_def all_less_4 less_Suc_eq nth_Cons')
  moreover have "prog_shape programs_example"
    by (simp add: prog_shape_def app_layout_def app_example_def app_zero_def)
  ultimately show "kernel_ok programs_example"
    by (simp add: kernel_ok_def prog_ok_def all_less_4 app_example_def app_zero_def mem_example_def nth_Cons')
  show "per_ok programs_example" by (simp add: per_ok_def periodic_zero_def list_all_length)
qed

definition user_example :: gm_programs where
  "user_example = snd (gm_program_schedule programs_example)"

lemma scan_example: "schedule_scan 0 4 programs_example = Some 0"
proof -
  have four: "(4 :: nat) = Suc (Suc (Suc (Suc 0)))" by simp
  show ?thesis by (subst four) (simp add: Let_def app_example_def app_zero_def nth_Cons')
qed

lemma schedule_example: "gm_program_schedule programs_example = (Some 0, user_example)"
  using scan_example by (simp add: user_example_def gm_program_schedule_def)

lemma user_ok_example: "user_ok user_example" "gm_program_current user_example = 0"
  using schedule_user_ok [OF kernel_ok_example(1) schedule_example] by simp_all

lemma user_example_owned: "owned_resource (gm_apps user_example ! 0) = 0"
  using scan_example by (simp add: user_example_def gm_program_schedule_def app_upd_def gm_program_activate_def app_example_def app_zero_def)


subsection \<open>The properties\<close>

text \<open>C2: Whatever a running program does, the kernel handles it. For every register frame a program can bring into a
  service call, a timer interrupt or a fault, the handler returns without a panic to a state in which the kernel's
  invariants hold and no program is running; a service may change bytes only inside the caller's own user range, and
  the other two change no user memory at all.\<close>

theorem traps_handled:
  assumes "user_ok s" "f_cs frame AND 3 = 3"
  shows "(\<exists>f t. gm_program_service frame s = Ok (True, f, t) \<and> kernel_ok t \<and> confined s t) \<and>
    (\<exists>t. gm_program_preempt frame s = Ok (True, t) \<and> kernel_ok t \<and> user_mem t = user_mem s) \<and>
    (\<exists>t. gm_fault_dispatch vector code (f_cs frame) s = Ok t \<and> kernel_ok t \<and> user_mem t = user_mem s)"
  using service_handled [OF assms] preempt_handled [OF assms] fault_handled [OF assms, of vector code]
  by (auto simp: gm_fault_dispatch_def)

text \<open>C13: The scheduler is fair: a slot that stays ready is chosen within four consecutive choices, whatever the
  programs in between do, as long as they leave \<^verbatim>\<open>gm_program_next\<close> alone.\<close>

theorem scheduler_fair:
  fixes S :: "nat \<Rightarrow> 'a gm_programs_scheme"
  assumes "j < 4" "\<forall>n < 4. kernel_ok (S n) \<and> slot_state (S n) j = APP_READY"
    and "\<forall>n < 3. gm_program_next (S (n + 1)) = gm_program_next (snd (gm_program_schedule (S n)))"
  shows "\<exists>n < 4. fst (gm_program_schedule (S n)) = Some j"
proof (rule ccontr)
  assume no: "\<not> ?thesis"
  have step: "turns_before (snd (gm_program_schedule (S n))) j < turns_before (S n) j" if n: "n < 4" for n
    using schedule_turn [of "S n" j] assms(1,2) n no by (metis fst_conv snd_conv)
  have "turns_before (S (n + 1)) j < turns_before (S n) j" if "n < 3" for n
    using step [of n] assms(3) that by (simp add: turns_before_def)
  from this [of 0] this [of 1] this [of 2] step [of 3] have "4 \<le> turns_before (S 0) j" by (simp add: eval_nat_numeral)
  then show False by (simp add: turns_before_def)
qed

text \<open>C8: What the loader accepts: the header is that of an image for this machine whose entry point lies inside it, the
  bytes now in the program's memory have the checksum of the header, and the rest of the user range is zero, so that
  nothing of the slot's previous program is left. Whether it accepts or not, loading changes no program's state, no
  resource and no memory but the user range of the slot.\<close>

theorem loader_sound:
  assumes "app_layout (gm_apps s ! gm_program_current s)"
  shows "case gm_program_load path s of
      (None, t) \<Rightarrow> prog_same s t
    | (Some h, t) \<Rightarrow> prog_same s t \<and>
        h_magic h = 0x31304d47 \<and> h_api h = 2 \<and> h_arch h = 1 \<and> 0 < h_image_size h \<and> h_image_size h \<le> 65536 \<and>
        h_entry h < h_image_size h \<and>
        gm_image_checksum (user_bytes program_base (unat (h_image_size h)) t) = h_checksum h \<and>
        (\<forall>x. user_addr x \<and> unat x \<ge> unat program_base + unat (h_image_size h) \<longrightarrow> user_get x t = 0)"
proof -
  obtain r t where e: "gm_program_load path s = (r, t)" by fastforce
  have "prog_same s t" using load_same [OF assms e] .
  then show ?thesis using e load_success [OF assms, of path]
    by (auto simp: header_valid_def word_le_nat_alt word_less_nat_alt not_less not_le word_gt_0 split: option.splits)
qed

text \<open>C34: Starting a program touches only a free slot. It keeps the kernel's invariants and leaves the resources, the periodic
  entries and the scheduler's position as they are. Only the memory of the first free slot can change, and in it only
  user addresses. The table of the slots stays as it is unless the start succeeds, and then only the record of the first
  free slot changes: it is ready, with its counters reset, no resource, the given periodic id, and a context that enters
  user mode inside the image with the argument and the top of the stack. The start is refused as busy just when no
  slot is free.\<close>

theorem start_isolated:
  assumes "kernel_ok s" "gm_program_start_path path args pid report s = (rc, t)"
  shows "kernel_ok t \<and> gm_resources t = gm_resources s \<and> gm_resource_epochs t = gm_resource_epochs s \<and> gm_periodics t = gm_periodics s \<and>
    gm_program_next t = gm_program_next s \<and> (rc = START_BUSY \<longleftrightarrow> (\<forall>j < 4. slot_state s j \<noteq> APP_FREE)) \<and>
    (\<forall>c x. user_mem t c x \<noteq> user_mem s c x \<longrightarrow>
       user_addr x \<and> (\<exists>i < 4. c = app_cr3 (gm_apps s ! i) \<and> slot_state s i = APP_FREE \<and> (\<forall>j < i. slot_state s j \<noteq> APP_FREE))) \<and>
    (\<forall>j < 4. slot_state s j \<noteq> APP_FREE \<longrightarrow> user_mem t (app_cr3 (gm_apps s ! j)) = user_mem s (app_cr3 (gm_apps s ! j))) \<and>
    ((\<forall>i. rc \<noteq> START_OK i) \<longrightarrow> gm_apps t = gm_apps s) \<and>
    (\<forall>i. rc = START_OK i \<longrightarrow> i < 4 \<and> slot_state s i = APP_FREE \<and> (\<forall>j < i. slot_state s j \<noteq> APP_FREE) \<and>
       (\<exists>entry < 65536. gm_apps t = (gm_apps s)[i := (gm_apps s ! i)\<lparr>
          app_context := frame_zero\<lparr>f_rdi := program_arg, f_rsi := of_nat (gm_strlen args), f_rip := program_base + ucast (entry :: u32),
            f_cs := 0x23, f_rflags := 0x202, f_rsp := program_end - 8, f_ss := 0x1b\<rparr>,
          runtime_ticks := 0, app_result := -1, owned_resource := 0, waiting_resource := 0, periodic_id := pid, app_state := APP_READY\<rparr>]))"
proof -
  note S = start_path_ok [OF assms] and F = start_path_frame [OF assms]
  have "tables t = tables s" using F by (simp add: start_frame_def)
  then have tab: "gm_resources t = gm_resources s" "gm_resource_epochs t = gm_resource_epochs s" "gm_program_next t = gm_program_next s"
    by (simp_all add: tables_def)
  have free: "find_free (gm_apps s) 0 = None \<longleftrightarrow> (\<forall>j < 4. slot_state s j \<noteq> APP_FREE)"
    using apps_length [OF assms(1)] by (simp add: find_free_None all_set_conv_all_nth)
  have first: "i < 4 \<and> slot_state s i = APP_FREE \<and> (\<forall>j < i. slot_state s j \<noteq> APP_FREE)" if "find_free (gm_apps s) 0 = Some i" for i
    using find_free_Some [OF that] find_free_first [OF that] apps_length [OF assms(1)] by simp
  have mem: "user_addr x \<and> (\<exists>i < 4. c = app_cr3 (gm_apps s ! i) \<and> slot_state s i = APP_FREE \<and> (\<forall>j < i. slot_state s j \<noteq> APP_FREE))"
    if "user_mem t c x \<noteq> user_mem s c x" for c x
    using F first that unfolding start_frame_def by blast
  have busy: "rc = START_BUSY \<longleftrightarrow> (\<forall>j < 4. slot_state s j \<noteq> APP_FREE)"
    using F unfolding free [symmetric] by (cases rc) (auto simp: start_frame_def)
  have kept: "(\<forall>i. rc \<noteq> START_OK i) \<longrightarrow> gm_apps t = gm_apps s" using F by (cases rc) (auto simp: start_frame_def)
  have fin: "i < 4 \<and> slot_state s i = APP_FREE \<and> (\<forall>j < i. slot_state s j \<noteq> APP_FREE) \<and>
      (\<exists>entry < 65536. gm_apps t = (gm_apps s)[i := started_app pid (of_nat (gm_strlen args)) entry (gm_apps s ! i)])" if "rc = START_OK i" for i
    using F first that by (simp add: start_frame_def)
  show ?thesis using S tab mem busy kept fin [unfolded started_app_def] by blast
qed

text \<open>C4: The resource manager refines a FIFO lock manager. Acquiring takes a free resource or joins the end of the
  queue, releasing hands the resource to the head of the queue; neither can panic, both keep the invariant, and a
  resource never has two owners.\<close>

theorem resources_refine_fifo:
  assumes "res_ok s" "i < 4" "k < 2" "slot_state s i = APP_RUNNING"
  shows "(owned_resource (gm_apps s ! i) = 0 \<longrightarrow>
      (\<exists>b f t. gm_resource_acquire_service i (k + 1) frame s = Ok (b, f, t) \<and> res_ok t \<and> lock_view t = spec_acquire i k (lock_view s))) \<and>
    (owned_resource (gm_apps s ! i) = k + 1 \<longrightarrow>
      (\<exists>t. gm_resource_release_app i (k + 1) s = Ok (True, t) \<and> res_ok t \<and> lock_view t = spec_release i k (lock_view s))) \<and>
    (\<forall>j < 4. owned_resource (gm_apps s ! i) = k + 1 \<and> owned_resource (gm_apps s ! j) = k + 1 \<longrightarrow> j = i)"
proof -
  note V = res_ok_view [OF assms(1)]
  have "j = i" if "j < 4" "owned_resource (gm_apps s ! i) = k + 1" "owned_resource (gm_apps s ! j) = k + 1" for j
    using lock_okD(7) [OF V(5) assms(3) that(1)] lock_okD(7) [OF V(5) assms(3,2)] V(4) [OF that(1)] V(4) [OF assms(2)] that(2,3)
    by (simp add: app_view_def)
  then show ?thesis using acquire_refines [OF assms, of frame] release_refines [OF assms(1-3)] by blast
qed

text \<open>The range test of the services is exact: it accepts a range just when it starts at a user address and all of it
  lies in the image and argument pages or all of it lies in the stack. No wrap-around of the addition gets past it.\<close>

theorem user_range_exact:
  "gm_user_range addr len \<longleftrightarrow>
     unat program_base \<le> unat addr \<and> unat addr < unat program_guard \<and> unat addr + unat len \<le> unat program_guard \<or>
     unat program_stack \<le> unat addr \<and> unat addr < unat program_end \<and> unat addr + unat len \<le> unat program_end"
  (is "_ \<longleftrightarrow> ?low \<or> ?high")
proof
  assume a: "gm_user_range addr len"
  note C = user_range_cases [OF a, unfolded word_le_nat_alt word_less_nat_alt]
  have s: "unat (addr + len) = unat addr + unat len" using C(2,3) by (intro unat_add_le) simp
  have "addr < program_guard \<or> addr \<ge> program_stack" using a by (auto simp: gm_user_range_def Let_def split: if_splits)
  then show "?low \<or> ?high" using C s by (auto simp: word_le_nat_alt word_less_nat_alt)
next
  assume r: "?low \<or> ?high"
  have "unat (addr + len) = unat addr + unat len" using r by (intro unat_add_le) auto
  then show "gm_user_range addr len" using r by (auto simp: gm_user_range_def Let_def word_le_nat_alt word_less_nat_alt)
qed

text \<open>C35: Periodic launches are exact. A look at an entry touches no other entry. When it launches a program, the entry was
  active, due and not running; the program takes one slot that was free, for this entry, and no other slot changes; the
  launch is counted, by a counter that does not wrap, and the next one is due one interval later. When it launches nothing,
  nothing is counted and the entry is as \<open>entry_passed\<close> says: unchanged while it is inactive, running or not yet due or while no slot
  is free, closed when it is used up, and due one interval later when the start failed.\<close>

theorem periodic_launches:
  assumes "kernel_ok s" "per_ok s" "i < 4"
  shows "let t = periodic_step i now s; p = gm_periodics s ! i; q = gm_periodics t ! i in
    kernel_ok t \<and> per_ok t \<and> (\<forall>j. j \<noteq> i \<longrightarrow> gm_periodics t ! j = gm_periodics s ! j) \<and>
    (gm_apps t \<noteq> gm_apps s \<longrightarrow>
       periodic_active p \<and> \<not> entry_runs i s \<and> next_tick p \<le> now \<and> unat (remaining p) = unat (remaining q) + 1 \<and>
       periodic_active q \<and> next_tick q = now + interval_ticks p \<and> interval_ticks q = interval_ticks p \<and>
       periodic_name q = periodic_name p \<and> periodic_args q = periodic_args p \<and>
       periodic_slot q < 4 \<and> slot_state s (periodic_slot q) = APP_FREE \<and> slot_state t (periodic_slot q) = APP_READY \<and>
       periodic_id (gm_apps t ! periodic_slot q) = i + 1 \<and> (\<forall>j. j \<noteq> periodic_slot q \<longrightarrow> gm_apps t ! j = gm_apps s ! j)) \<and>
    (gm_apps t = gm_apps s \<longrightarrow> q = entry_passed i now s \<and> remaining q = remaining p)"
  using periodic_step_ok [OF assms refl, of now] entry_launchedD [of i now s] entry_passed_remaining [of i now s] by (auto simp: Let_def)

text \<open>The accounting of a released resource always finishes: with a clock more than one bucket away from 2^64, the
  loop over the touched buckets of the ten-minute window reaches the current tick within its 61 rounds.\<close>

theorem accounting_terminates:
  assumes "unat now + 1000 < 2 ^ 64" "start \<le> now" "now - start \<le> 60000"
  shows "fst (account_loop 61 k start now s) = now"
  using account_loop_ends assms by simp


subsection \<open>Witnesses\<close>

definition frame_example :: service_frame where
  "frame_example = frame_zero\<lparr>f_cs := 0x23\<rparr>"

theorem traps_handled_witness:
  "(\<exists>f t. gm_program_service frame_example user_example = Ok (True, f, t) \<and> kernel_ok t) \<and>
   (\<exists>t. gm_program_preempt frame_example user_example = Ok (True, t) \<and> kernel_ok t) \<and>
   (\<exists>t. gm_fault_dispatch 14 4 0x23 user_example = Ok t \<and> kernel_ok t)"
proof -
  have cs: "f_cs frame_example AND 3 = 3" "f_cs frame_example = 0x23" by (simp_all add: frame_example_def frame_zero_def)
  show ?thesis using traps_handled [OF user_ok_example(1) cs(1), of 14 4] cs(2) by auto
qed

theorem scheduler_fair_witness: "fst (gm_program_schedule programs_example) = Some 0"
proof -
  have next1: "gm_program_next user_example = 1" using schedule_user_ok [OF kernel_ok_example(1) schedule_example] by simp
  have "\<exists>n < 4. fst (gm_program_schedule ((\<lambda>n :: nat. programs_example) n)) = Some 0"
    by (rule scheduler_fair) (simp_all add: kernel_ok_example schedule_example next1 app_example_def)
  then show ?thesis by blast
qed

theorem loader_sound_witness:
  "app_layout (gm_apps user_example ! 0) \<and>
   (case gm_program_load (asc ''/programs/x86_64/a.gm'') programs_example of
      (None, t) \<Rightarrow> prog_same programs_example t
    | (Some h, t) \<Rightarrow> h_magic h = 0x31304d47 \<and> h_entry h < h_image_size h)"
proof -
  have lay: "app_layout (gm_apps programs_example ! gm_program_current programs_example)"
    by (simp add: app_layout_def app_example_def app_zero_def)
  have "app_layout (gm_apps user_example ! 0)" 
    using scan_example by (simp add: user_example_def gm_program_schedule_def app_upd_def gm_program_activate_def app_example_def app_zero_def app_layout_def)
  then show ?thesis using loader_sound [OF lay, of "asc ''/programs/x86_64/a.gm''"] by (auto split: option.splits)
qed

theorem start_isolated_witness:
  "\<exists>rc t. gm_program_start_path (asc ''a'') None 0 False programs_example = (rc, t) \<and> kernel_ok t \<and>
     user_mem t 0x2000000 = user_mem programs_example 0x2000000 \<and> gm_apps t ! 0 = gm_apps programs_example ! 0 \<and>
     (rc = START_OK 1 \<or> rc = START_ERROR)"
proof -
  obtain rc t where e: "gm_program_start_path (asc ''a'') None 0 False programs_example = (rc, t)" by fastforce
  note T = start_isolated [OF kernel_ok_example(1) e]
  have k: "kernel_ok t" and busy: "rc = START_BUSY \<longleftrightarrow> (\<forall>j < 4. slot_state programs_example j \<noteq> APP_FREE)"
    and mem: "\<forall>j < 4. slot_state programs_example j \<noteq> APP_FREE \<longrightarrow>
      user_mem t (app_cr3 (gm_apps programs_example ! j)) = user_mem programs_example (app_cr3 (gm_apps programs_example ! j))"
    and kept: "(\<forall>i. rc \<noteq> START_OK i) \<longrightarrow> gm_apps t = gm_apps programs_example"
    and fin: "\<forall>i. rc = START_OK i \<longrightarrow> slot_state programs_example i = APP_FREE \<and> (\<forall>j < i. slot_state programs_example j \<noteq> APP_FREE) \<and>
      (\<exists>a. gm_apps t = (gm_apps programs_example)[i := a])"
    using T by blast+
  have st: "slot_state programs_example 0 = APP_READY" "slot_state programs_example 1 = APP_FREE" by (simp_all add: app_example_def)
  have m: "user_mem t 0x2000000 = user_mem programs_example 0x2000000" using mem [rule_format, of 0] by (simp add: app_example_def app_zero_def)
  have nb: "rc \<noteq> START_BUSY" using busy st(2) by (metis one_less_numeral_iff semiring_norm(76))
  have ok: "i = 1 \<and> gm_apps t ! 0 = gm_apps programs_example ! 0" if "rc = START_OK i" for i
  proof -
    have f: "slot_state programs_example i = APP_FREE" "\<forall>j < i. slot_state programs_example j \<noteq> APP_FREE" using fin that by blast+
    then have "i \<noteq> 0" "\<not> 1 < i" using st by (metis app_state.distinct(1), blast)
    then have "i = 1" by simp
    then show ?thesis using fin that by (metis nth_list_update_neq zero_neq_one)
  qed
  show ?thesis
  proof (cases rc)
    case START_ERROR
    then show ?thesis using e k m kept by simp
  next
    case (START_OK i)
    then show ?thesis using e k m ok [OF START_OK] by blast
  qed (use nb in simp)
qed

theorem resources_refine_fifo_witness:
  "\<exists>b f t. gm_resource_acquire_service 0 1 frame_example user_example = Ok (b, f, t) \<and> res_ok t \<and>
     lock_view t = spec_acquire 0 0 (lock_view user_example)"
proof -
  have "res_ok user_example" "slot_state user_example 0 = APP_RUNNING"
    using user_ok_example by (simp_all add: user_ok_def prog_ok_def)
  from resources_refine_fifo [OF this(1) _ _ this(2), of 0 frame_example] show ?thesis
    using user_example_owned by simp
qed

text \<open>An entry that is active and due, beside a slot that is free: the program is launched or the start fails, and in both cases
  the entry is due again one interval later.\<close>

definition periodic_example :: gm_programs where
  "periodic_example = per_upd 2 (\<lambda>_. \<lparr>interval_ticks = 500, next_tick = 10, remaining = 2, periodic_slot = 4, periodic_active = True,
     periodic_name = asc ''/programs/x86_64/a.gm'', periodic_args = []\<rparr>) programs_example"

theorem periodic_launches_witness:
  "kernel_ok (periodic_step 2 50 periodic_example) \<and> next_tick (gm_periodics (periodic_step 2 50 periodic_example) ! 2) = 550 \<and>
   gm_periodics (periodic_step 2 50 periodic_example) ! 1 = periodic_zero"
proof -
  have k: "kernel_ok periodic_example" "per_ok periodic_example"
    using kernel_ok_example(1) per_ok_upd [OF kernel_ok_example(2)] by (simp_all add: periodic_example_def)
  have p: "gm_periodics periodic_example ! 2 = \<lparr>interval_ticks = 500, next_tick = 10, remaining = 2, periodic_slot = 4, periodic_active = True,
     periodic_name = asc ''/programs/x86_64/a.gm'', periodic_args = []\<rparr>" "gm_periodics periodic_example ! 1 = periodic_zero"
     "\<exists>a \<in> set (gm_apps periodic_example). app_state a = APP_FREE"
    by (simp_all add: periodic_example_def app_example_def)
  have "next_tick (entry_passed 2 50 periodic_example) = 550" using p by (simp add: entry_passed_def entry_runs_def Let_def)
  then show ?thesis using periodic_launches [OF k, of 2 50] p(1,2) unfolding Let_def
    by (cases "gm_apps (periodic_step 2 50 periodic_example) = gm_apps periodic_example") simp_all
qed

theorem accounting_terminates_witness:
  "fst (account_loop 61 0 100 60100 programs_example) = 60100"
  by (rule accounting_terminates) simp_all


subsection \<open>Findings\<close>

text \<open>A program that exits with the most negative result is reported with a value outside the range of results.\<close>

lemma program_result_min:
  assumes "app_result (gm_apps s ! 1) = 0x80000000"
  shows "gm_console (gm_program_result 1 s) =
    gm_console s @ asc ''app '' @ print_u64 1 @ asc '' returned -'' @ print_u64 18446744071562067968 @ [13, 10]"
proof -
  have "sint (0x80000000 :: u32) < 0" by simp
  moreover have "(- 2147483648 :: u64) = 18446744071562067968" by simp
  then have "print_u64 (- 2147483648) = print_u64 18446744071562067968" by (rule arg_cong)
  ultimately show ?thesis using assms by (simp add: gm_program_result_def Let_def console_simps)
qed

end
