(* ===== verification/Kernel_Config.thy ===== *)
theory Kernel_Config
  imports Net_Base
begin

unbundle bit_operations_syntax

section \<open>The boot configuration (\<^verbatim>\<open>kernel.c\<close>, first part)\<close>

text \<open>
  The network configuration that \<^verbatim>\<open>gm_load_config\<close> takes from the kernel's command line. The command line
  comes from the boot loader and is an argument: \<open>None\<close> when the loader gave no answer to the request.
  \<^verbatim>\<open>gm_config\<close> is the record of \<open>Net_Base\<close>; the operations return the new record.
\<close>

definition gm_defaults :: "gm_config \<Rightarrow> gm_config" where
  "gm_defaults c = c\<lparr>cfg_ip := gm_copy_ip (cfg_ip c) (10, 0, 2, 15), cfg_mask := gm_copy_ip (cfg_mask c) (255, 255, 255, 0),
     cfg_gateway := gm_copy_ip (cfg_gateway c) (10, 0, 2, 2), cfg_store_ip := gm_copy_ip (cfg_store_ip c) (10, 0, 2, 2),
     cfg_store_port := 7070\<rparr>"

definition is_blank :: "u8 \<Rightarrow> bool" where
  "is_blank c \<longleftrightarrow> c = 32 \<or> c = 9"

definition in_word :: "u8 \<Rightarrow> bool" where
  "in_word c \<longleftrightarrow> c \<noteq> 0 \<and> \<not> is_blank c"

lemma skip_word_less:
  assumes "cur (dropWhile is_blank s) \<noteq> 0"
  shows "length (dropWhile in_word (dropWhile is_blank s)) < length s"
proof (cases "dropWhile is_blank s")
  case (Cons c r)
  then have "\<not> is_blank c" by (metis dropWhile_eq_Cons_conv)
  then have "in_word c" using assms Cons by (simp add: in_word_def)
  then have "length (dropWhile in_word (c # r)) \<le> length r" by (simp add: length_dropWhile_le)
  moreover have "length (c # r) \<le> length s" using Cons length_dropWhile_le [of is_blank s] by simp
  ultimately show ?thesis unfolding Cons by simp
next
  case Nil
  then show ?thesis using assms unfolding Nil by simp
qed

text \<open>The scan of \<^verbatim>\<open>gm_arg\<close> over the words of the command line, for the word that starts with \<open>name=\<close>.\<close>

function arg_scan :: "cstr \<Rightarrow> cstr \<Rightarrow> cstr option" where
  "arg_scan name s =
     (let s1 = dropWhile is_blank s; n = gm_strlen (Some name) in
      if cur s1 = 0 then None
      else if gm_starts (Some s1) (Some name) \<and> cur (drop n s1) = 61 then Some (drop (n + 1) s1)
      else arg_scan name (dropWhile in_word s1))"
  by pat_completeness auto
termination
  by (relation "measure (\<lambda>(name, s). length s)") (auto simp: skip_word_less)

declare arg_scan.simps [simp del]

definition gm_arg :: "cstr option \<Rightarrow> cstr \<Rightarrow> cstr option" where
  "gm_arg cmdline name = (case cmdline of None \<Rightarrow> None | Some s \<Rightarrow> arg_scan name s)"

text \<open>The digits of the prefix length, then the four bytes of the mask.\<close>

fun prefix_digits :: "cstr \<Rightarrow> u32 \<Rightarrow> nat \<Rightarrow> (u32 \<times> nat \<times> cstr) option" where
  "prefix_digits [] prefix digits = Some (prefix, digits, [])"
| "prefix_digits (c # s) prefix digits =
     (if is_digit c then
        let prefix' = prefix * 10 + ucast (c - 48) in
        if prefix' > 32 then None else prefix_digits s prefix' (digits + 1)
      else Some (prefix, digits, c # s))"

definition mask_byte :: "u32 \<Rightarrow> u8 \<times> u32" where
  "mask_byte prefix =
     (if prefix \<ge> 8 then (255, prefix - 8)
      else if prefix \<noteq> 0 then (ucast (push_bit (unat (8 - prefix)) (0xff :: u32)), 0)
      else (0, prefix))"

definition prefix_mask :: "u32 \<Rightarrow> ip4" where
  "prefix_mask p0 =
     (case mask_byte p0 of (a, p1) \<Rightarrow> case mask_byte p1 of (b, p2) \<Rightarrow>
      case mask_byte p2 of (c, p3) \<Rightarrow> case mask_byte p3 of (d, p4) \<Rightarrow> (a, b, c, d))"

definition gm_parse_prefix :: "cstr \<Rightarrow> (ip4 \<times> cstr) option" where
  "gm_parse_prefix s = (case prefix_digits s 0 0 of
     None \<Rightarrow> None
   | Some (prefix, digits, rest) \<Rightarrow> if digits = 0 then None else Some (prefix_mask prefix, rest))"

definition gm_config_net :: "cstr option \<Rightarrow> gm_config \<Rightarrow> gm_config" where
  "gm_config_net arg c = (case arg of None \<Rightarrow> c | Some s \<Rightarrow>
     (case gm_parse_ipv4 (Some s) of None \<Rightarrow> c | Some (ip, s) \<Rightarrow>
      if cur s \<noteq> 47 then c
      else (case gm_parse_prefix (tl s) of None \<Rightarrow> c | Some (netmask, s) \<Rightarrow>
        if cur s \<noteq> 44 then c
        else (case gm_parse_ipv4 (Some (tl s)) of None \<Rightarrow> c | Some (gateway, s) \<Rightarrow>
          if cur s \<noteq> 0 \<and> cur s \<noteq> 32 \<and> cur s \<noteq> 9 then c
          else c\<lparr>cfg_ip := gm_copy_ip (cfg_ip c) ip, cfg_mask := gm_copy_ip (cfg_mask c) netmask,
                 cfg_gateway := gm_copy_ip (cfg_gateway c) gateway\<rparr>))))"

definition gm_config_store :: "cstr option \<Rightarrow> gm_config \<Rightarrow> gm_config" where
  "gm_config_store arg c = (case arg of None \<Rightarrow> c | Some s \<Rightarrow>
     (case gm_parse_ipv4 (Some s) of None \<Rightarrow> c | Some (ip, s) \<Rightarrow>
      if cur s \<noteq> 58 then c
      else
        let s = tl s in
        (case gm_parse_u64 s of (port, ok) \<Rightarrow>
          if \<not> ok \<or> port = 0 \<or> port > 65535 then c
          else
            let s = dropWhile is_digit s in
            if cur s \<noteq> 0 \<and> cur s \<noteq> 32 \<and> cur s \<noteq> 9 then c
            else c\<lparr>cfg_store_ip := gm_copy_ip (cfg_store_ip c) ip, cfg_store_port := ucast port\<rparr>)))"

definition gm_load_config :: "cstr option \<Rightarrow> gm_config \<Rightarrow> gm_config" where
  "gm_load_config cmdline c =
     (let c1 = gm_config_net (gm_arg cmdline (asc ''gmker.net'')) (gm_defaults c) in
      gm_config_store (gm_arg cmdline (asc ''gmker.store'')) c1)"


subsection \<open>The mask\<close>

text \<open>The mask of a prefix length \<open>p\<close>: the leading \<open>p\<close> of the 32 bits.\<close>

definition ip_word :: "ip4 \<Rightarrow> u32" where
  "ip_word ip = (case ip of (a, b, c, d) \<Rightarrow> rd32be a b c d)"

lemma upto_32: "(p :: nat) \<le> 32 \<Longrightarrow> p \<in> set [0..<33]"
  by simp

lemma prefix_mask_word: "p \<le> 32 \<Longrightarrow> ip_word (prefix_mask (of_nat p)) = NOT (mask (32 - p))"
proof -
  assume "p \<le> 32"
  have "list_all (\<lambda>p. ip_word (prefix_mask (of_nat p)) = NOT (mask (32 - p))) [0..<33]"
    by code_simp
  then show ?thesis using upto_32 [OF \<open>p \<le> 32\<close>] by (simp only: list_all_iff)
qed

lemma prefix_step:
  assumes "v \<le> 32"
  shows "(of_nat v :: u32) * 10 + ucast (c - 48) = of_nat (dec_step v c)"
    and "((of_nat v :: u32) * 10 + ucast (c - 48) > 32) \<longleftrightarrow> dec_step v c > 32"
proof -
  show e: "(of_nat v :: u32) * 10 + ucast (c - 48) = of_nat (dec_step v c)"
    using assms octet_digit_step(1) [of v c] by simp
  have "dec_step v c < 2 ^ 32" using assms unat_bounds(1) [of "c - 48"] by (simp add: dec_step_def)
  then show "((of_nat v :: u32) * 10 + ucast (c - 48) > 32) \<longleftrightarrow> dec_step v c > 32"
    unfolding e by (simp add: word_less_nat_alt unat_of_nat)
qed

lemma prefix_digits_small:
  "prefix_digits s (of_nat v) k = Some (p, d, r) \<Longrightarrow> v \<le> 32 \<Longrightarrow> \<exists>n \<le> 32. p = of_nat n"
proof (induction s arbitrary: v k)
  case (Cons c s)
  then show ?case using prefix_step [OF Cons.prems(2), of c]
    by (auto simp: Let_def not_less split: if_splits)
qed auto

lemma dec_step_mono: "v \<le> dec_step v c"
  by (simp add: dec_step_def)

lemma foldl_dec_mono: "v \<le> foldl dec_step v ds"
  by (induction ds arbitrary: v) (auto intro: le_trans [OF dec_step_mono])

lemma prefix_digits_spec:
  assumes "foldl dec_step v ds \<le> 32" "list_all is_digit ds" "\<not> is_digit (cur r)"
  shows "prefix_digits (ds @ r) (of_nat v) k = Some (of_nat (foldl dec_step v ds), k + length ds, r)"
  using assms
proof (induction ds arbitrary: v k)
  case Nil
  then show ?case by (cases r) auto
next
  case (Cons c ds)
  have v: "dec_step v c \<le> 32" "v \<le> 32"
    using Cons.prems(1) foldl_dec_mono [of "dec_step v c" ds] dec_step_mono [of v c] by simp_all
  show ?case using Cons.IH [of "dec_step v c" "k + 1"] Cons.prems prefix_step [OF v(2), of c] v(1)
    by (simp add: Let_def)
qed

lemma parse_prefix_print:
  assumes "p \<le> 32" "\<not> is_digit (cur r)"
  shows "gm_parse_prefix (dec_bytes p @ r) = Some (prefix_mask (of_nat p), r)"
proof -
  have d: "list_all is_digit (dec_bytes p)" using dec_bytes_digits by (auto simp: list_all_iff)
  have f: "foldl dec_step 0 (dec_bytes p) = p" using dec_val_dec_bytes [of p] by (simp add: dec_val_def)
  have "prefix_digits (dec_bytes p @ r) 0 0 = Some (of_nat p, length (dec_bytes p), r)"
    using prefix_digits_spec [OF _ d assms(2), of 0 0] assms(1) by (simp add: f)
  moreover have "dec_bytes p \<noteq> []" by (simp add: dec_bytes.simps)
  ultimately show ?thesis by (simp add: gm_parse_prefix_def)
qed


subsection \<open>Finding a word of the command line\<close>

lemma starts_in_word: "starts_loop (w @ 32 # r) p \<Longrightarrow> 32 \<notin> set p \<Longrightarrow> cstr_ok p \<Longrightarrow> \<exists>q. w = p @ q"
proof (induction p arbitrary: w)
  case (Cons a p)
  show ?case
  proof (cases w)
    case Nil
    then show ?thesis using Cons.prems by (auto split: if_splits)
  next
    case W: (Cons b v)
    then show ?thesis using Cons.IH [of v] Cons.prems by (auto split: if_splits)
  qed
qed simp

lemma arg_scan_skip:
  assumes "w \<noteq> []" "list_all in_word w" "\<nexists>q. w = name @ q" "32 \<notin> set name" "cstr_ok name"
  shows "arg_scan name (w @ 32 # r) = arg_scan name (32 # r)"
proof -
  have d: "dropWhile is_blank (w @ 32 # r) = w @ 32 # r" "cur (w @ 32 # r) \<noteq> 0"
    using assms(1,2) by (cases w; simp add: in_word_def)+
  have n: "\<not> gm_starts (Some (w @ 32 # r)) (Some name)"
    using starts_in_word [of w r name] assms(3-5) by (auto simp: gm_starts_def)
  have e: "dropWhile in_word (w @ 32 # r) = 32 # r"
    using assms(2) by (induction w) (auto simp: in_word_def is_blank_def)
  show ?thesis by (subst arg_scan.simps) (simp add: Let_def d n e)
qed

lemma arg_scan_blank: "arg_scan name (32 # r) = arg_scan name r"
  by (subst (1 2) arg_scan.simps) (simp add: is_blank_def)

lemma starts_append: "cstr_ok p \<Longrightarrow> starts_loop (p @ r) p"
  by (induction p) auto

lemma arg_scan_here:
  assumes "name \<noteq> []" "list_all in_word name"
  shows "arg_scan name (name @ 61 # r) = Some r"
proof -
  have ok: "cstr_ok name" using assms(2) by (induction name) (auto simp: in_word_def)
  have d: "dropWhile is_blank (name @ 61 # r) = name @ 61 # r" "cur (name @ 61 # r) \<noteq> 0"
    using assms by (cases name; simp add: in_word_def)+
  have n: "gm_strlen (Some name) = length name" using strlen_loop_length [OF ok, of 0] by (simp add: gm_strlen_def)
  show ?thesis by (subst arg_scan.simps) (simp add: Let_def d n gm_starts_def starts_append [OF ok])
qed

text \<open>Words of the command line that are not the kernel's.\<close>

definition other_word :: "cstr \<Rightarrow> bool" where
  "other_word w \<longleftrightarrow> w \<noteq> [] \<and> list_all in_word w \<and> take 6 w \<noteq> asc ''gmker.''"

fun put_words :: "cstr list \<Rightarrow> cstr \<Rightarrow> cstr" where
  "put_words [] r = r"
| "put_words (w # ws) r = w @ 32 # put_words ws r"

lemma arg_scan_words:
  assumes "list_all other_word ws" "name = asc ''gmker.'' @ x" "32 \<notin> set x" "cstr_ok x"
  shows "arg_scan name (put_words ws r) = arg_scan name r"
  using assms(1)
proof (induction ws)
  case (Cons w ws)
  have "\<nexists>q. w = name @ q" using Cons.prems assms(2) by (auto simp: other_word_def)
  then have "arg_scan name (w @ 32 # put_words ws r) = arg_scan name (32 # put_words ws r)"
    using Cons.prems assms(2-4) by (intro arg_scan_skip) (auto simp: other_word_def)
  then show ?case using Cons by (simp add: arg_scan_blank)
qed simp

lemma digit_in_word: "is_digit c \<Longrightarrow> in_word c"
  by (auto simp: is_digit_def in_word_def is_blank_def)

lemma dec_in_word: "list_all in_word (dec_bytes n)"
  using dec_bytes_digits digit_in_word by (auto simp: list_all_iff)

lemma ip_in_word: "list_all in_word (print_ip ip)"
  by (cases ip) (simp add: print_u64_dec dec_in_word in_word_def is_blank_def)


subsection \<open>The configuration is read back\<close>

definition net_word :: "ip4 \<Rightarrow> nat \<Rightarrow> ip4 \<Rightarrow> cstr" where
  "net_word ip p gw = asc ''gmker.net='' @ print_ip ip @ 47 # dec_bytes p @ 44 # print_ip gw"

definition store_word :: "ip4 \<Rightarrow> nat \<Rightarrow> cstr" where
  "store_word ip port = asc ''gmker.store='' @ print_ip ip @ 58 # dec_bytes port"

lemma config_net_print:
  assumes "p \<le> 32" "r = [] \<or> is_blank (cur r)"
  shows "gm_config_net (Some (print_ip ip @ 47 # dec_bytes p @ 44 # print_ip gw @ r)) c =
    c\<lparr>cfg_ip := ip, cfg_mask := prefix_mask (of_nat p), cfg_gateway := gw\<rparr>"
proof -
  have r: "\<not> is_digit (cur r)" "cur r = 0 \<or> cur r = 32 \<or> cur r = 9" using assms(2) by (auto simp: is_digit_def is_blank_def)
  have "gm_parse_ipv4 (Some (print_ip ip @ 47 # dec_bytes p @ 44 # print_ip gw @ r)) =
      Some (ip, 47 # dec_bytes p @ 44 # print_ip gw @ r)" by (rule gm_parse_ipv4_print) (simp add: is_digit_def)
  moreover have "gm_parse_prefix (dec_bytes p @ 44 # print_ip gw @ r) = Some (prefix_mask (of_nat p), 44 # print_ip gw @ r)"
    by (rule parse_prefix_print [OF assms(1)]) (simp add: is_digit_def)
  ultimately show ?thesis using gm_parse_ipv4_print [OF r(1), of gw] r(2) by (auto simp: gm_config_net_def)
qed

lemma config_store_print:
  assumes "0 < port" "port \<le> 65535" "r = [] \<or> is_blank (cur r)"
  shows "gm_config_store (Some (print_ip ip @ 58 # dec_bytes port @ r)) c =
    c\<lparr>cfg_store_ip := ip, cfg_store_port := of_nat port\<rparr>"
proof -
  have r: "\<not> is_digit (cur r)" "cur r = 0 \<or> cur r = 32 \<or> cur r = 9" using assms(3) by (auto simp: is_digit_def is_blank_def)
  have "gm_parse_ipv4 (Some (print_ip ip @ 58 # dec_bytes port @ r)) = Some (ip, 58 # dec_bytes port @ r)"
    by (rule gm_parse_ipv4_print) (simp add: is_digit_def)
  moreover have "dec_bytes port \<noteq> []" by (simp add: dec_bytes.simps)
  then have "gm_parse_u64 (dec_bytes port @ r) = (of_nat port, True)"
    using assms(2) takeWhile_dec_bytes(1) [OF r(1), of port] by (simp add: gm_parse_u64_spec Let_def)
  moreover have "(of_nat port :: u64) \<noteq> 0" "\<not> (of_nat port :: u64) > 65535" "(ucast (of_nat port :: u64) :: u16) = of_nat port"
    using assms(1,2) by (simp_all add: word_unat_eq_iff word_less_nat_alt unat_of_nat unsigned_ucast_eq take_bit_nat_eq_self)
  ultimately show ?thesis using takeWhile_dec_bytes(2) [OF r(1), of port] r(2) by (auto simp: gm_config_store_def Let_def)
qed

lemma parse_prefix_mask: "gm_parse_prefix t = Some (m, r) \<Longrightarrow> \<exists>p \<le> 32. m = prefix_mask (of_nat p)"
  using prefix_digits_small [of t 0 0] by (auto simp: gm_parse_prefix_def split: option.splits if_splits)

lemma config_net_range:
  "\<exists>p \<le> 32. cfg_mask c = prefix_mask (of_nat p) \<Longrightarrow> \<exists>p \<le> 32. cfg_mask (gm_config_net arg c) = prefix_mask (of_nat p)"
  "cfg_store_port (gm_config_net arg c) = cfg_store_port c"
  by (auto simp: gm_config_net_def split: option.splits dest: parse_prefix_mask)

lemma config_store_range:
  "cfg_store_port c \<noteq> 0 \<Longrightarrow> cfg_store_port (gm_config_store arg c) \<noteq> 0" "cfg_mask (gm_config_store arg c) = cfg_mask c"
proof -
  have "(ucast port :: u16) \<noteq> 0" if "port \<noteq> 0" "port \<le> 65535" for port :: u64
    using that by (simp add: word_unat_eq_iff word_le_nat_alt unsigned_ucast_eq take_bit_nat_eq_self)
  then show "cfg_store_port c \<noteq> 0 \<Longrightarrow> cfg_store_port (gm_config_store arg c) \<noteq> 0" "cfg_mask (gm_config_store arg c) = cfg_mask c"
    by (auto simp: gm_config_store_def Let_def not_less split: option.splits prod.splits)
qed

lemma load_config_range:
  "\<exists>n \<le> 32. cfg_mask (gm_load_config cmdline c) = prefix_mask (of_nat n) \<and> cfg_store_port (gm_load_config cmdline c) \<noteq> 0"
proof -
  let ?a = "gm_arg cmdline (asc ''gmker.net'')" and ?b = "gm_arg cmdline (asc ''gmker.store'')"
  let ?c = "gm_config_net ?a (gm_defaults c)"
  have d: "cfg_mask (gm_defaults c) = prefix_mask (of_nat 24)" "cfg_store_port (gm_defaults c) \<noteq> 0"
    by (simp_all add: gm_defaults_def prefix_mask_def mask_byte_def)
  have "\<exists>n \<le> 32. cfg_mask ?c = prefix_mask (of_nat n)" using d(1) by (intro config_net_range(1)) (auto intro: exI [of _ 24])
  then show ?thesis using config_store_range config_net_range(2) d(2) by (simp add: gm_load_config_def Let_def)
qed

lemma arg_scan_net: "arg_scan (asc ''gmker.net'') (net_word ip p gw @ r) = Some (print_ip ip @ 47 # dec_bytes p @ 44 # print_ip gw @ r)"
  using arg_scan_here [of "asc ''gmker.net''"] by (simp add: net_word_def in_word_def is_blank_def)

lemma net_in_word: "list_all in_word (net_word ip p gw)"
  by (simp add: net_word_def ip_in_word dec_in_word) (simp add: in_word_def is_blank_def)

lemma arg_scan_store:
  "arg_scan (asc ''gmker.store'') (net_word ip p gw @ 32 # store_word st port) = Some (print_ip st @ 58 # dec_bytes port)"
proof -
  have "arg_scan (asc ''gmker.store'') (net_word ip p gw @ 32 # store_word st port) = arg_scan (asc ''gmker.store'') (32 # store_word st port)"
    by (rule arg_scan_skip) (simp_all add: net_in_word, simp_all add: net_word_def)
  then show ?thesis using arg_scan_here [of "asc ''gmker.store''"] by (simp add: arg_scan_blank store_word_def in_word_def is_blank_def)
qed

text \<open>C37: The command line configures the kernel as it says. Whatever the command line is, the mask that results is
  the mask of a prefix length and the store port is not zero. A command line with the words
  \<^verbatim>\<open>gmker.net=IP/PREFIX,GATEWAY\<close> and \<^verbatim>\<open>gmker.store=IP:PORT\<close>, after any other words, sets the five fields to just these values,
  with the leading \<open>PREFIX\<close> bits of the mask set.\<close>

theorem boot_config:
  assumes "list_all other_word ws" "p \<le> 32" "0 < port" "port \<le> 65535"
  shows "(\<exists>n \<le> 32. ip_word (cfg_mask (gm_load_config cmdline c)) = NOT (mask (32 - n))) \<and> cfg_store_port (gm_load_config cmdline c) \<noteq> 0 \<and>
    (let c' = gm_load_config (Some (put_words ws (net_word ip p gw @ 32 # store_word st port))) c in
     cfg_ip c' = ip \<and> ip_word (cfg_mask c') = NOT (mask (32 - p)) \<and> cfg_gateway c' = gw \<and>
     cfg_store_ip c' = st \<and> cfg_store_port c' = of_nat port)"
proof -
  let ?line = "net_word ip p gw @ 32 # store_word st port"
  obtain n where n: "n \<le> 32" "cfg_mask (gm_load_config cmdline c) = prefix_mask (of_nat n)" "cfg_store_port (gm_load_config cmdline c) \<noteq> 0"
    using load_config_range by blast
  have net: "arg_scan (asc ''gmker.net'') (put_words ws ?line) = Some (print_ip ip @ 47 # dec_bytes p @ 44 # print_ip gw @ 32 # store_word st port)"
    using arg_scan_words [OF assms(1), of "asc ''gmker.net''" "asc ''net''" ?line] arg_scan_net [of ip p gw "32 # store_word st port"] by simp
  have store: "arg_scan (asc ''gmker.store'') (put_words ws ?line) = Some (print_ip st @ 58 # dec_bytes port)"
    using arg_scan_words [OF assms(1), of "asc ''gmker.store''" "asc ''store''" ?line] arg_scan_store [of ip p gw st port] by simp
  have "gm_load_config (Some (put_words ws ?line)) c = (gm_defaults c)\<lparr>cfg_ip := ip, cfg_mask := prefix_mask (of_nat p),
      cfg_gateway := gw, cfg_store_ip := st, cfg_store_port := of_nat port\<rparr>"
    using config_net_print [OF assms(2), of "32 # store_word st port" ip gw "gm_defaults c"]
      config_store_print [OF assms(3,4), of "[]" st] unfolding gm_load_config_def gm_arg_def Let_def option.case net store
    by (simp add: is_blank_def)
  then show ?thesis using n prefix_mask_word assms(2) by (auto simp: Let_def)
qed

theorem boot_config_witness:
  "let c' = gm_load_config (Some (put_words [asc ''quiet''] (net_word (192, 168, 1, 9) 20 (192, 168, 1, 1) @ 32 # store_word (10, 1, 2, 3) 7071))) (gm_config net_blank) in
   cfg_ip c' = (192, 168, 1, 9) \<and> ip_word (cfg_mask c') = NOT (mask 12) \<and> cfg_store_port c' = 7071"
proof -
  have "list_all other_word [asc ''quiet'']" by (simp add: other_word_def in_word_def is_blank_def)
  from boot_config [OF this, of 20 7071 None "gm_config net_blank"] show ?thesis by (simp add: Let_def)
qed

end
