(* ===== verification/Shell.thy ===== *)
theory Shell
  imports Programs_System Kernel_Config
begin

unbundle bit_operations_syntax

section \<open>The command shell (\<^verbatim>\<open>shell.c\<close>)\<close>

text \<open>
  The line editor and the commands of the serial console. The static variables of \<^verbatim>\<open>shell.c\<close>, which no other file
  touches, are the record \<open>gm_shell\<close> beside the state of the rest of the kernel. \<open>env_serial\<close> lists what the successive reads of the
  serial line status will find: a byte, or nothing (\<open>None\<close>); once the list is used up nothing arrives any more.

  \<^verbatim>\<open>gm_word\<close> cuts a word out of the line by writing a NUL behind it and moving the caller's pointer. Here it
  returns the word and the rest of the line: the buffer is not read again before \<^verbatim>\<open>gm_line_len\<close> is back at 0 and
  its bytes are written anew. \<^verbatim>\<open>gm_command\<close> of the source is \<open>shell_command\<close>, since the server has a function of
  that name too.

  A command ends in one of three ways. It returns (\<open>Ran\<close>), it powers the machine off (\<open>Shut\<close>), or it does not
  return: \<^verbatim>\<open>store ls\<close>, \<^verbatim>\<open>store cat\<close> and \<^verbatim>\<open>programs\<close> go on for as long as the server sends (\<open>None\<close>).
\<close>

record gm_shell =
  gm_line :: bytes
  gm_line_len :: nat
  env_serial :: "u8 option list"

datatype 's ran = Ran 's | Shut 's

subsection \<open>Words of a line\<close>

definition gm_word :: "cstr \<Rightarrow> cstr option \<times> cstr" where
  "gm_word s =
     (let s1 = dropWhile is_blank s in
      if cur s1 = 0 then (None, s1)
      else
        let start = takeWhile in_word s1; s2 = dropWhile in_word s1 in
        (Some start, if cur s2 \<noteq> 0 then tl s2 else s2))"

definition gm_rest :: "cstr \<Rightarrow> cstr option" where
  "gm_rest s = (let s1 = dropWhile is_blank s in if cur s1 \<noteq> 0 then Some s1 else None)"

definition gm_result :: "bool \<Rightarrow> 'a gm_machine_scheme \<Rightarrow> 'a gm_machine_scheme" where
  "gm_result ok s = gm_write (Some (if ok then asc ''ok'' @ [10] else asc ''error'' @ [10])) s"

fun decimal_loop :: "cstr \<Rightarrow> u64 \<Rightarrow> u64 option" where
  "decimal_loop [] number = Some number"
| "decimal_loop (c # s) number =
     (if c = 0 then Some number
      else if c < 48 \<or> c > 57 then None
      else
        let digit = ucast (c - 48) in
        if number > (- 1 - digit) div 10 then None else decimal_loop s (number * 10 + digit))"

definition gm_decimal :: "cstr option \<Rightarrow> u64 option" where
  "gm_decimal t = (case t of None \<Rightarrow> None | Some s \<Rightarrow> if cur s = 0 then None else decimal_loop s 0)"


subsection \<open>Commands\<close>

definition gm_every_command :: "cstr \<Rightarrow> 'a gm_programs_scheme \<Rightarrow> 'a gm_programs_scheme" where
  "gm_every_command args s =
     (case gm_word args of (seconds_text, args) \<Rightarrow> case gm_word args of (count_text, args) \<Rightarrow> case gm_word args of (name, args) \<Rightarrow>
      case (seconds_text, count_text, name, gm_decimal seconds_text, gm_decimal count_text) of
        (Some _, Some _, Some n, Some seconds, Some count) \<Rightarrow>
          if seconds = 0 \<or> count = 0 \<or> count > 0xffffffff
          then gm_write (Some (asc ''usage: every SECONDS COUNT NAME [ARGS]'' @ [10])) s
          else (case gm_periodic_add seconds (ucast count) (Some n) (gm_rest args) s of (ok, s1) \<Rightarrow>
            if \<not> ok then gm_write (Some (asc ''every error'' @ [10])) s1 else s1)
      | _ \<Rightarrow> gm_write (Some (asc ''usage: every SECONDS COUNT NAME [ARGS]'' @ [10])) s)"

definition gm_cancel_command :: "cstr \<Rightarrow> 'a gm_programs_scheme \<Rightarrow> 'a gm_programs_scheme" where
  "gm_cancel_command args s =
     (case gm_word args of (id_text, args) \<Rightarrow>
      case (id_text, gm_rest args, gm_decimal id_text) of
        (Some _, None, Some n) \<Rightarrow>
          if n > 0xffffffff then gm_write (Some (asc ''usage: cancel ID'' @ [10])) s
          else (case gm_periodic_cancel (unat (ucast n :: u32)) s of (ok, s1) \<Rightarrow>
            if \<not> ok then gm_write (Some (asc ''cancel error'' @ [10])) s1 else s1)
      | _ \<Rightarrow> gm_write (Some (asc ''usage: cancel ID'' @ [10])) s)"

definition help_lines :: "string list" where
  "help_lines = [
     ''help                 commands'', ''version              kernel version'', ''uptime               timer ticks'',
     ''mem                  free physical memory'', ''net                  network status'', ''arp                  ARP table'',
     ''ping IP              ICMP echo'', ''tcp                  TCP client status'', ''programs             GMSTORE gm programs'',
     ''apps                 application slots'', ''resources            resource ownership/accounting'',
     ''run NAME [ARGS]      load and run GMSTORE program'', ''every SEC N NAME [A]  run program periodically'',
     ''periodics            periodic launch status'', ''cancel ID            cancel future periodic launches'',
     ''store status         GMSTORE status'', ''store connect        connect GMSTORE'', ''store ping           ping GMSTORE'',
     ''store ls             list files'', ''store stat PATH      file size'', ''store cat PATH       print file'',
     ''store write PATH TXT replace file'', ''store append PATH TXT append file'', ''store rm PATH        delete file'',
     ''shutdown             exit QEMU'']"

definition gm_help :: "'a gm_machine_scheme \<Rightarrow> 'a gm_machine_scheme" where
  "gm_help s = fold (\<lambda>l s. gm_write (Some (asc l @ [10])) s) help_lines s"

text \<open>The answer of a client call, reported.\<close>

abbreviation report :: "bool \<times> 'a gm_machine_scheme \<Rightarrow> 'a gm_machine_scheme" where
  "report r \<equiv> gm_result (fst r) (snd r)"

definition store_text :: "cstr option \<Rightarrow> cstr" where
  "store_text t = (case t of None \<Rightarrow> [] | Some x \<Rightarrow> x)"

definition gm_store_command :: "cstr \<Rightarrow> 'a gm_tcp_scheme \<Rightarrow> 'a gm_tcp_scheme option" where
  "gm_store_command args s =
     (case gm_word args of (op, args) \<Rightarrow>
      if op = None \<or> gm_streq op (Some (asc ''status'')) then Some (gm_store_status s)
      else if gm_streq op (Some (asc ''connect'')) then Some (report (gm_store_connect s))
      else if gm_streq op (Some (asc ''ping'')) then Some (report (gm_store_ping s))
      else if gm_streq op (Some (asc ''ls'')) then map_option report (gm_store_list s)
      else (case gm_word args of (path, args) \<Rightarrow>
        if path = None then Some (gm_write (Some (asc ''usage: store stat|cat|write|append|rm PATH'' @ [10])) s)
        else if gm_streq op (Some (asc ''stat'')) then Some (report (gm_store_stat path s))
        else if gm_streq op (Some (asc ''cat'')) then
          map_option (\<lambda>(ok, s1). if \<not> ok then gm_write (Some (asc ''error'' @ [10])) s1 else s1) (gm_store_cat path s)
        else if gm_streq op (Some (asc ''rm'')) then Some (report (gm_store_delete path s))
        else
          let t = store_text (gm_rest args) in
          if gm_streq op (Some (asc ''write'')) then
            Some (report (gm_store_write path (Some t) (of_nat (gm_strlen (Some t))) False s))
          else if gm_streq op (Some (asc ''append'')) then
            Some (report (gm_store_write path (Some t) (of_nat (gm_strlen (Some t))) True s))
          else Some (gm_write (Some (asc ''unknown store command'' @ [10])) s)))"

text \<open>
  \<^verbatim>\<open>gm_shutdown\<close> writes to the power port and then halts with interrupts off for good, so that it has no way back.
\<close>

definition gm_shutdown :: "'a gm_machine_scheme \<Rightarrow> 'a gm_machine_scheme ran" where
  "gm_shutdown s = Shut (gm_write (Some (asc ''shutdown'' @ [10])) s)"

definition ping_command :: "cstr \<Rightarrow> 'a gm_tcp_scheme \<Rightarrow> 'a gm_tcp_scheme" where
  "ping_command args s =
     (case gm_word args of (v, _) \<Rightarrow>
      case gm_parse_ipv4 v of
        None \<Rightarrow> gm_write (Some (asc ''usage: ping IP'' @ [10])) s
      | Some (ip, rest) \<Rightarrow>
          if cur rest \<noteq> 0 then gm_write (Some (asc ''usage: ping IP'' @ [10])) s else report (gm_ping ip 300 s))"

definition run_command :: "cstr \<Rightarrow> 'a gm_programs_scheme \<Rightarrow> 'a gm_programs_scheme" where
  "run_command args s =
     (case gm_word args of (v, args) \<Rightarrow>
      if v = None then gm_write (Some (asc ''usage: run NAME [ARGS]'' @ [10])) s
      else (case gm_program_run v (gm_rest args) s of (ok, s1) \<Rightarrow>
        if \<not> ok then gm_write (Some (asc ''run error'' @ [10])) s1 else s1))"

definition uptime_command :: "'a gm_machine_scheme \<Rightarrow> 'a gm_machine_scheme" where
  "uptime_command s = (case gm_ticks s of (now, s1) \<Rightarrow> gm_write (Some (asc '' ticks'' @ [10])) (gm_print_u64 now s1))"

definition mem_command :: "'a gm_programs_scheme \<Rightarrow> 'a gm_programs_scheme" where
  "mem_command s = gm_write (Some (asc '' KiB free'' @ [10])) (gm_print_u64 (gm_memory_free (gm_mem s) div 1024) s)"

definition shell_command :: "cstr \<Rightarrow> 'a gm_programs_scheme \<Rightarrow> 'a gm_programs_scheme ran option" where
  "shell_command line s =
     (case gm_word line of (cmd, args) \<Rightarrow>
      if cmd = None then Some (Ran s)
      else if gm_streq cmd (Some (asc ''help'')) then Some (Ran (gm_help s))
      else if gm_streq cmd (Some (asc ''version'')) then Some (Ran (gm_write (Some (asc ''gmker 3.2'' @ [10])) s))
      else if gm_streq cmd (Some (asc ''uptime'')) then Some (Ran (uptime_command s))
      else if gm_streq cmd (Some (asc ''mem'')) then Some (Ran (mem_command s))
      else if gm_streq cmd (Some (asc ''net'')) then Some (Ran (gm_net_status s))
      else if gm_streq cmd (Some (asc ''arp'')) then Some (Ran (gm_arp_status s))
      else if gm_streq cmd (Some (asc ''tcp'')) then Some (Ran (gm_tcp_status s))
      else if gm_streq cmd (Some (asc ''store'')) then map_option Ran (gm_store_command args s)
      else if gm_streq cmd (Some (asc ''programs'')) then map_option Ran (gm_programs_list s)
      else if gm_streq cmd (Some (asc ''apps'')) then Some (Ran (gm_programs_status s))
      else if gm_streq cmd (Some (asc ''resources'')) then Some (Ran (gm_resources_status s))
      else if gm_streq cmd (Some (asc ''periodics'')) then Some (Ran (gm_periodics_status s))
      else if gm_streq cmd (Some (asc ''every'')) then Some (Ran (gm_every_command args s))
      else if gm_streq cmd (Some (asc ''cancel'')) then Some (Ran (gm_cancel_command args s))
      else if gm_streq cmd (Some (asc ''run'')) then Some (Ran (run_command args s))
      else if gm_streq cmd (Some (asc ''ping'')) then Some (Ran (ping_command args s))
      else if gm_streq cmd (Some (asc ''shutdown'')) then Some (gm_shutdown s)
      else Some (Ran (gm_write (Some (asc ''unknown command'' @ [10])) s)))"


subsection \<open>The line editor\<close>

definition gm_serial_getc :: "u8 option list \<Rightarrow> u8 option \<times> u8 option list" where
  "gm_serial_getc ev = (case ev of [] \<Rightarrow> (None, []) | e # ev' \<Rightarrow> (map_option (\<lambda>c. if c = 13 then 10 else c) e, ev'))"

definition gm_shell_init :: "gm_shell \<Rightarrow> 'a gm_machine_scheme \<Rightarrow> gm_shell \<times> 'a gm_machine_scheme" where
  "gm_shell_init sh s = (sh\<lparr>gm_line_len := 0\<rparr>, gm_write (Some (asc ''type help'' @ [10] @ asc ''> '')) s)"

text \<open>One key other than the newline, and the newline.\<close>

definition shell_key :: "u8 \<Rightarrow> gm_shell \<Rightarrow> 'a gm_machine_scheme \<Rightarrow> gm_shell \<times> 'a gm_machine_scheme" where
  "shell_key c sh s =
     (if c = 8 \<or> c = 127 then
        if gm_line_len sh \<noteq> 0 then (sh\<lparr>gm_line_len := gm_line_len sh - 1\<rparr>, gm_write (Some [8, 32, 8]) s) else (sh, s)
      else if c \<ge> 32 \<and> c \<le> 126 \<and> gm_line_len sh + 1 < 512 then
        (sh\<lparr>gm_line := (gm_line sh)[gm_line_len sh := c], gm_line_len := gm_line_len sh + 1\<rparr>, gm_putc c s)
      else (sh, s))"

definition shell_enter :: "gm_shell \<Rightarrow> 'a gm_programs_scheme \<Rightarrow> (gm_shell \<times> 'a gm_programs_scheme) ran option" where
  "shell_enter sh s =
     (let s1 = gm_putc 10 s; sh1 = sh\<lparr>gm_line := (gm_line sh)[gm_line_len sh := 0]\<rparr> in
      case shell_command (until_nul (gm_line sh1)) s1 of
        None \<Rightarrow> None
      | Some (Shut s2) \<Rightarrow> Some (Shut (sh1, s2))
      | Some (Ran s2) \<Rightarrow> Some (Ran (sh1\<lparr>gm_line_len := 0\<rparr>, gm_say ''> '' s2)))"

function shell_loop :: "u8 option list \<Rightarrow> gm_shell \<Rightarrow> 'a gm_programs_scheme \<Rightarrow> (gm_shell \<times> 'a gm_programs_scheme) ran option" where
  "shell_loop ev sh s =
     (case gm_serial_getc ev of (key, ev') \<Rightarrow>
      case key of
        None \<Rightarrow> Some (Ran (sh\<lparr>env_serial := ev'\<rparr>, s))
      | Some c \<Rightarrow>
          if c = 10 then
            (case shell_enter sh s of
               None \<Rightarrow> None
             | Some (Shut r) \<Rightarrow> Some (Shut r)
             | Some (Ran (sh1, s1)) \<Rightarrow> shell_loop ev' sh1 s1)
          else (case shell_key c sh s of (sh1, s1) \<Rightarrow> shell_loop ev' sh1 s1))"
  by pat_completeness auto
termination
  by (relation "measure (\<lambda>(ev, sh, s). length ev)") (auto simp: gm_serial_getc_def split: list.splits)

declare shell_loop.simps [simp del]

definition gm_shell_poll :: "gm_shell \<Rightarrow> 'a gm_programs_scheme \<Rightarrow> (gm_shell \<times> 'a gm_programs_scheme) ran option" where
  "gm_shell_poll sh s = shell_loop (env_serial sh) sh s"


subsection \<open>What the shell keeps\<close>

definition system_ok :: "'a gm_programs_scheme \<Rightarrow> bool" where
  "system_ok s \<longleftrightarrow> kernel_ok s \<and> per_ok s"

lemma system_ok_same: "prog_same s t \<Longrightarrow> system_ok s \<Longrightarrow> system_ok t"
  using kernel_ok_same [of s t] per_ok_same [OF prog_same_sel(4), of s t] by (simp add: system_ok_def)

lemma prog_same_putc [simp]: "prog_same s (gm_putc c s)" "prog_same s (put_bytes cs s)" "prog_same s (gm_print_ip ip s)"
  by (simp_all add: prog_same_def prog_view_def confined_def console_simps)

lemma prog_same_result [simp]: "prog_same s (gm_result ok s)"
  by (simp add: gm_result_def)

lemmas say_same = prog_same_trans [OF _ prog_same_console(1)] prog_same_trans [OF _ prog_same_console(2)]
  prog_same_trans [OF _ prog_same_console(3)] prog_same_trans [OF _ prog_same_putc(1)] prog_same_trans [OF _ prog_same_putc(2)]
  prog_same_trans [OF _ prog_same_putc(3)] prog_same_trans [OF _ prog_same_result]

lemma wait_line_same: "gm_store_wait_line cap timeout s = (r, t) \<Longrightarrow> prog_same s t"
  using prog_same_upper [OF above.wait_line [OF refl] stack.wait_line] by blast

lemma list_item_same: "prog_same s (list_item prefix l s)"
  by (auto simp: list_item_def intro!: say_same)

lemma list_loop_same: "list_loop prefix s = Some r \<Longrightarrow> prog_same s (snd r)"
proof (erule list_loop.raw_induct [where P = "\<lambda>_ s r. prog_same s (snd r)", rotated], goal_cases)
  case (1 loop prefix s r)
  obtain line s1 where w: "gm_store_wait_line 256 200 s = (line, s1)" by fastforce
  have p: "prog_same s s1" using wait_line_same [OF w] .
  have q: "prog_same s (list_item prefix l s1)" for l using prog_same_trans [OF p list_item_same] .
  show ?case using 1(2) p prog_same_trans [OF q 1(1)]
    by (auto simp: w split: option.splits if_splits)
qed

lemma cat_loop_same: "cat_loop path offset s = Some r \<Longrightarrow> prog_same s (snd r)"
proof (erule cat_loop.raw_induct [where P = "\<lambda>_ _ s r. prog_same s (snd r)", rotated], goal_cases)
  case (1 loop path offset s r)
  obtain ok out s1 where w: "gm_store_read path offset True 1024 True s = (ok, out, s1)" by (rule prod_cases3)
  have p: "prog_same s s1" using store_same(3) [OF w] .
  have q: "prog_same s (put_bytes out s1)" using prog_same_trans [OF p prog_same_putc(2)] .
  show ?case using 1(2) p q prog_same_trans [OF q 1(1)]
    by (auto simp: w Let_def split: if_splits)
qed

lemma list_prefix_same: "gm_store_list_prefix prefix s = Some r \<Longrightarrow> prog_same s (snd r)"
proof -
  assume a: "gm_store_list_prefix prefix s = Some r"
  obtain ok s1 where c: "gm_tcp_send (asc ''LIST'' @ [10]) 200 (gm_tcp_drop s) = (ok, s1)" by fastforce
  have "prog_same s s1"
    using prog_same_upper [OF above.send [OF above.flush [OF refl] c] stack.send [OF stack.flush c]] .
  then show ?thesis using a prog_same_trans [OF _ list_loop_same, of s s1]
    unfolding gm_store_list_prefix_def c prod.case by (cases ok) auto
qed

lemma programs_list_same: "gm_programs_list s = Some t \<Longrightarrow> prog_same s t"
proof -
  assume a: "gm_programs_list s = Some t"
  obtain up s1 where u: "store_up s = (up, s1)" by fastforce
  have p: "prog_same s s1" using store_up_same [OF u] .
  then show ?thesis using a prog_same_trans [OF p list_prefix_same]
    by (auto simp: gm_programs_list_def u intro!: say_same split: if_splits option.splits)
qed

lemma store_status_same: "prog_same s (gm_store_status s)"
  unfolding gm_store_status_def Let_def by (intro say_same prog_same_refl)

lemma more_store_same:
  "prog_same s (snd (gm_store_connect s))" "prog_same s (snd (gm_store_ping s))" "prog_same s (snd (gm_store_stat path s))"
  "prog_same s (snd (gm_store_delete path s))" "prog_same s (snd (gm_store_write path d len app s))"
proof -
  show "prog_same s (snd (gm_store_connect s))" using store_same(1) [of s] by (cases "gm_store_connect s") simp
  show "prog_same s (snd (gm_store_write path d len app s))" using store_same(4) by (cases "gm_store_write path d len app s") simp
  obtain b t where c: "gm_store_ping s = (b, t)" by fastforce
  show "prog_same s (snd (gm_store_ping s))" using prog_same_upper [OF above.ping_store [OF refl c] stack.ping_store [OF _ c]] c by simp
  obtain b t where d: "gm_store_delete path s = (b, t)" by fastforce
  show "prog_same s (snd (gm_store_delete path s))"
    using prog_same_upper [OF above.delete_store [OF refl d] stack.delete_store [OF _ d]] d by simp
  obtain n t where e: "gm_store_size path True s = (n, t)" by fastforce
  have p: "prog_same s t" using store_same(2) [OF e] .
  show "prog_same s (snd (gm_store_stat path s))"
    using p by (cases n) (auto simp: gm_store_stat_def e Let_def intro!: say_same)
qed

lemma store_command_same: "gm_store_command args s = Some t \<Longrightarrow> prog_same s t"
proof -
  assume a: "gm_store_command args s = Some t"
  obtain op rest where w: "gm_word args = (op, rest)" by fastforce
  obtain path rest2 where v: "gm_word rest = (path, rest2)" by fastforce
  have r: "prog_same s (snd r) \<Longrightarrow> prog_same s (report r)" for r using say_same(7) .
  have l: "prog_same s (report r)" if "gm_store_list s = Some r" for r
    using r [OF list_prefix_same [OF that [unfolded gm_store_list_def]]] .
  have c: "prog_same s u" if "gm_store_cat path s = Some (b, u)" for b u
    using cat_loop_same [of path 0 s "(b, u)"] that by (simp add: gm_store_cat_def split: if_splits)
  show ?thesis using a r [OF more_store_same(1)] r [OF more_store_same(2)] r [OF more_store_same(3)] r [OF more_store_same(4)]
      r [OF more_store_same(5)] store_status_same l c
    by (auto simp: gm_store_command_def w v Let_def intro: say_same split: if_splits)
qed

text \<open>The status commands only print.\<close>

lemma fold_same: "(\<And>x s. prog_same s (f x s)) \<Longrightarrow> prog_same s (fold f xs s)"
  by (induction xs arbitrary: s) (auto intro: prog_same_trans)

lemma arp_loop_same: "prog_same s (arp_status_loop es s)"
proof (induction es arbitrary: s)
  case (Cons e es)
  show ?case by (auto simp: Let_def intro!: prog_same_trans [OF _ Cons.IH] say_same)
qed simp

lemma apps_loop_same: "prog_same s (programs_status_loop i apps s)"
proof (induction apps arbitrary: i s)
  case (Cons e es)
  show ?case by (auto simp: Let_def intro!: prog_same_trans [OF _ Cons.IH] say_same)
qed simp

lemma periodics_loop_same: "prog_same s (snd (periodics_status_loop i ps now found s))"
proof (induction ps arbitrary: i found s)
  case (Cons p ps)
  show ?case by (auto simp: Let_def intro!: prog_same_trans [OF _ Cons.IH] say_same)
qed simp

lemma resource_status_same: "prog_same s (gm_resource_status k now s)"
  by (auto simp: gm_resource_status_def Let_def intro!: say_same split: option.splits)

lemma status_same:
  "prog_same s (gm_help s)" "prog_same s (uptime_command s)" "prog_same s (mem_command s)" "prog_same s (gm_net_status s)"
  "prog_same s (gm_arp_status s)" "prog_same s (gm_tcp_status s)" "prog_same s (gm_programs_status s)"
  "prog_same s (gm_resources_status s)" "prog_same s (gm_periodics_status s)"
proof -
  obtain now s1 where t: "gm_ticks s = (now, s1)" by fastforce
  note p = prog_same_ticks [OF t]
  show "prog_same s (gm_help s)" unfolding gm_help_def by (rule fold_same) simp
  show "prog_same s (uptime_command s)" by (simp add: uptime_command_def t p say_same)
  show "prog_same s (mem_command s)" by (auto simp: mem_command_def intro!: say_same)
  show "prog_same s (gm_net_status s)" by (auto simp: gm_net_status_def Let_def intro!: say_same)
  show "prog_same s (gm_arp_status s)" by (simp add: gm_arp_status_def arp_loop_same)
  show "prog_same s (gm_tcp_status s)" by (auto simp: gm_tcp_status_def Let_def intro!: say_same)
  show "prog_same s (gm_programs_status s)" by (simp add: gm_programs_status_def apps_loop_same)
  show "prog_same s (gm_resources_status s)"
    using prog_same_trans [OF prog_same_trans [OF p resource_status_same] resource_status_same] by (simp add: gm_resources_status_def t)
  obtain f s2 where l: "periodics_status_loop 0 (gm_periodics s1) now False s1 = (f, s2)" by fastforce
  have "prog_same s s2" using prog_same_trans [OF p] periodics_loop_same [of s1 0 "gm_periodics s1" now False] l by simp
  then show "prog_same s (gm_periodics_status s)" by (auto simp: gm_periodics_status_def t l intro: say_same)
qed

lemma ping_command_same: "prog_same s (ping_command args s)"
proof -
  have "prog_same s (report (gm_ping ip 300 s))" for ip
    using ping_same [of ip 300 s] by (cases "gm_ping ip 300 s") (auto intro: say_same)
  then show ?thesis by (auto simp: ping_command_def split: prod.splits option.splits)
qed

text \<open>The commands that start programs and change the table of periodic launches.\<close>

lemma system_ok_say: "system_ok s \<Longrightarrow> system_ok (gm_write p s)" "system_ok s \<Longrightarrow> system_ok (gm_print_u64 n s)" "system_ok s \<Longrightarrow> system_ok (gm_putc c s)"
  using system_ok_same prog_same_console prog_same_putc by blast+

lemma run_command_ok: "system_ok s \<Longrightarrow> system_ok (run_command args s)"
proof -
  assume a: "system_ok s"
  have "system_ok (snd (gm_program_start_path path opt 0 True s))" for path opt
  proof -
    obtain rc t where t: "gm_program_start_path path opt 0 True s = (rc, t)" by fastforce
    have k: "kernel_ok s" "per_ok s" using a by (simp_all add: system_ok_def)
    have "kernel_ok t" "gm_periodics t = gm_periodics s" using start_path_ok [OF k(1) t] by blast+
    then show ?thesis using per_ok_same [of t s] k(2) t by (simp add: system_ok_def)
  qed
  then have "system_ok t" if "gm_program_run v opt s = (ok, t)" for v opt ok t
    using a that by (auto simp: gm_program_run_def split: option.splits)
  then show ?thesis using a by (auto simp: run_command_def intro: system_ok_say split: prod.splits)
qed

lemma find_periodic_less: "find_periodic ps k = Some i \<Longrightarrow> i < k + length ps"
  by (induction ps k rule: find_periodic.induct) (auto split: if_splits)

lemma periodic_add_ok:
  assumes "system_ok s" "gm_periodic_add seconds count name args s = (ok, t)"
  shows "system_ok t"
proof -
  obtain now s1 where c: "gm_ticks s = (now, s1)" by fastforce
  have s1: "system_ok s1" using system_ok_same [OF prog_same_ticks [OF c] assms(1)] .
  have "system_ok (per_upd i (\<lambda>_. p) s1)" if "remaining p \<noteq> 0" for i p
    using s1 per_ok_upd [of s1 "\<lambda>_. p" i] that by (simp add: system_ok_def)
  then show ?thesis using assms s1
    by (auto simp: gm_periodic_add_def Let_def c intro!: system_ok_say split: if_splits option.splits)
qed

lemma periodic_cancel_ok: "system_ok s \<Longrightarrow> gm_periodic_cancel i s = (ok, t) \<Longrightarrow> system_ok t"
  using per_ok_upd [of s "\<lambda>p. p\<lparr>periodic_active := False\<rparr>" i]
  by (auto simp: gm_periodic_cancel_def Let_def system_ok_def split: if_splits)

lemma every_command_ok: "system_ok s \<Longrightarrow> system_ok (gm_every_command args s)"
  by (auto simp: gm_every_command_def intro: system_ok_say dest: periodic_add_ok split: prod.splits option.splits)

lemma cancel_command_ok: "system_ok s \<Longrightarrow> system_ok (gm_cancel_command args s)"
  by (auto simp: gm_cancel_command_def intro: system_ok_say dest: periodic_cancel_ok split: prod.splits option.splits)

fun ran_state :: "'s ran \<Rightarrow> 's" where
  "ran_state (Ran s) = s"
| "ran_state (Shut s) = s"

lemma shell_command_ok:
  assumes "system_ok s" "shell_command line s = Some r"
  shows "system_ok (ran_state r)"
proof -
  obtain cmd args where w: "gm_word line = (cmd, args)" by fastforce
  have k: "system_ok t" if "prog_same s t" for t using system_ok_same [OF that assms(1)] .
  have o: "system_ok t" if "gm_store_command args s = Some t \<or> gm_programs_list s = Some t" for t
    using k that store_command_same programs_list_same by blast
  have "r \<in> Ran ` {gm_help s, uptime_command s, mem_command s, gm_net_status s, gm_arp_status s, gm_tcp_status s,
      gm_programs_status s, gm_resources_status s, gm_periodics_status s, gm_every_command args s, gm_cancel_command args s,
      run_command args s, ping_command args s} \<or> (\<exists>p. r = Ran (gm_write p s) \<or> r = Shut (gm_write p s)) \<or>
      (\<exists>t. r = Ran t \<and> (gm_store_command args s = Some t \<or> gm_programs_list s = Some t)) \<or> r = Ran s"
    using assms(2) unfolding shell_command_def w prod.case gm_shutdown_def
    by (simp only: split: if_split_asm) auto
  then show ?thesis using assms(1) o k [OF ping_command_same] k [OF status_same(1)] k [OF status_same(2)] k [OF status_same(3)]
      k [OF status_same(4)] k [OF status_same(5)] k [OF status_same(6)] k [OF status_same(7)] k [OF status_same(8)] k [OF status_same(9)]
      every_command_ok cancel_command_ok run_command_ok system_ok_say(1)
    by (elim disjE) auto
qed

text \<open>The line buffer: printable bytes, and room for the NUL.\<close>

definition line_ok :: "gm_shell \<Rightarrow> bool" where
  "line_ok sh \<longleftrightarrow> length (gm_line sh) = 512 \<and> gm_line_len sh < 512 \<and> (\<forall>i < gm_line_len sh. 32 \<le> gm_line sh ! i \<and> gm_line sh ! i \<le> 126)"

definition typed :: "gm_shell \<Rightarrow> bytes" where
  "typed sh = take (gm_line_len sh) (gm_line sh)"

text \<open>What the editor is meant to do: the line as a list.\<close>

definition edit :: "u8 \<Rightarrow> bytes \<Rightarrow> bytes" where
  "edit c l = (if c = 8 \<or> c = 127 then butlast l else if 32 \<le> c \<and> c \<le> 126 \<and> length l < 511 then l @ [c] else l)"

lemma shell_key_line:
  assumes "line_ok sh" "shell_key c sh s = (sh1, s1)"
  shows "line_ok sh1 \<and> typed sh1 = edit c (typed sh) \<and> env_serial sh1 = env_serial sh"
proof -
  have len: "length (gm_line sh) = 512" "gm_line_len sh < 512" using assms(1) by (simp_all add: line_ok_def)
  consider "c = 8 \<or> c = 127" | "\<not> (c = 8 \<or> c = 127)" "32 \<le> c \<and> c \<le> 126 \<and> gm_line_len sh + 1 < 512"
    | "\<not> (c = 8 \<or> c = 127)" "\<not> (32 \<le> c \<and> c \<le> 126 \<and> gm_line_len sh + 1 < 512)" by blast
  then show ?thesis
  proof cases
    case 1
    then show ?thesis using assms len by (auto simp: shell_key_def edit_def typed_def line_ok_def butlast_take split: if_splits)
  next
    case 2
    then show ?thesis using assms len
      by (auto simp: shell_key_def edit_def typed_def line_ok_def take_Suc_conv_app_nth nth_list_update less_Suc_eq)
  next
    case 3
    then show ?thesis using assms len by (auto simp: shell_key_def edit_def typed_def)
  qed
qed

lemma shell_key_same: "shell_key c sh s = (sh1, s1) \<Longrightarrow> prog_same s s1"
  by (auto simp: shell_key_def split: if_splits)

lemma enter_line:
  assumes "line_ok sh"
  shows "until_nul ((gm_line sh)[gm_line_len sh := 0]) = typed sh"
proof -
  let ?n = "gm_line_len sh"
  have n: "?n < length (gm_line sh)" using assms by (simp add: line_ok_def)
  have "c \<noteq> 0" if "c \<in> set (take ?n (gm_line sh))" for c
    using that assms n by (auto simp: line_ok_def in_set_conv_nth)
  then show ?thesis using n unfolding upd_conv_take_nth_drop [OF n] until_nul_def typed_def
    by (subst takeWhile_append2) auto
qed

lemma shell_enter_ok:
  assumes "line_ok sh" "system_ok s" "shell_enter sh s = Some r"
  shows "line_ok (fst (ran_state r)) \<and> system_ok (snd (ran_state r))"
proof -
  let ?sh = "sh\<lparr>gm_line := (gm_line sh)[gm_line_len sh := 0]\<rparr>"
  obtain q where q: "shell_command (typed sh) (gm_putc 10 s) = Some q"
    using assms(3) enter_line [OF assms(1)] by (auto simp: shell_enter_def Let_def split: option.splits)
  have "system_ok (ran_state q)" using shell_command_ok [OF system_ok_say(3) [OF assms(2)] q] .
  then show ?thesis using assms q enter_line [OF assms(1)]
    by (cases q) (auto simp: shell_enter_def Let_def line_ok_def intro: system_ok_say)
qed

lemma shell_loop_ok:
  "line_ok sh \<Longrightarrow> system_ok s \<Longrightarrow> shell_loop ev sh s = Some r \<Longrightarrow> line_ok (fst (ran_state r)) \<and> system_ok (snd (ran_state r))"
proof (induction ev sh s arbitrary: r rule: shell_loop.induct)
  case (1 ev sh s)
  obtain key ev' where g: "gm_serial_getc ev = (key, ev')" by fastforce
  show ?case
  proof (cases key)
    case None
    then show ?thesis using 1(3-5) g by (subst (asm) shell_loop.simps) (auto simp: line_ok_def)
  next
    case (Some c)
    show ?thesis
    proof (cases "c = 10")
      case True
      have E: "(case shell_enter sh s of None \<Rightarrow> None | Some (Ran (sh1, s1)) \<Rightarrow> shell_loop ev' sh1 s1 | Some (Shut r) \<Rightarrow> Some (Shut r)) = Some r"
        using 1(5) g Some True by (subst (asm) shell_loop.simps) simp
      then obtain q where q: "shell_enter sh s = Some q" by (auto split: option.splits)
      note ok = shell_enter_ok [OF 1(3,4) q]
      show ?thesis
      proof (cases q)
        case (Ran p)
        obtain sh1 s1 where p: "p = (sh1, s1)" by fastforce
        have "shell_loop ev' sh1 s1 = Some r" using E q Ran p by simp
        then show ?thesis using 1(1) [OF g [symmetric] Some True q Ran p [symmetric]] ok Ran p by simp
      next
        case (Shut p)
        then show ?thesis using E q ok by auto
      qed
    next
      case False
      obtain sh1 s1 where k: "shell_key c sh s = (sh1, s1)" by fastforce
      have "shell_loop ev' sh1 s1 = Some r" using 1(5) g Some False k by (subst (asm) shell_loop.simps) simp
      then show ?thesis
        using 1(2) [OF g [symmetric] Some False k [symmetric]] shell_key_line [OF 1(3) k] system_ok_same [OF shell_key_same [OF k] 1(4)] by blast
    qed
  qed
qed

lemma shell_poll_ok:
  "line_ok sh \<Longrightarrow> system_ok s \<Longrightarrow> gm_shell_poll sh s = Some r \<Longrightarrow> line_ok (fst (ran_state r)) \<and> system_ok (snd (ran_state r))"
  unfolding gm_shell_poll_def by (rule shell_loop_ok)

text \<open>Keys that are not a newline only edit the line.\<close>

fun press :: "bytes \<Rightarrow> gm_shell \<Rightarrow> 'a gm_machine_scheme \<Rightarrow> gm_shell \<times> 'a gm_machine_scheme" where
  "press [] sh s = (sh, s)"
| "press (c # cs) sh s = (case shell_key c sh s of (sh1, s1) \<Rightarrow> press cs sh1 s1)"

lemma press_line: "line_ok sh \<Longrightarrow> press cs sh s = (sh1, s1) \<Longrightarrow> line_ok sh1 \<and> typed sh1 = fold edit cs (typed sh)"
proof (induction cs arbitrary: sh s)
  case (Cons c cs)
  obtain sh2 s2 where k: "shell_key c sh s = (sh2, s2)" by fastforce
  have "press cs sh2 s2 = (sh1, s1)" using Cons.prems(2) k by simp
  then show ?case using Cons.IH [of sh2 s2] shell_key_line [OF Cons.prems(1) k] by simp
qed simp

lemma shell_loop_press:
  assumes "10 \<notin> set cs" "13 \<notin> set cs"
  shows "shell_loop (map Some cs @ ev) sh s = (case press cs sh s of (sh1, s1) \<Rightarrow> shell_loop ev sh1 s1)"
  using assms
proof (induction cs arbitrary: sh s)
  case (Cons c cs)
  obtain sh2 s2 where k: "shell_key c sh s = (sh2, s2)" by fastforce
  have "shell_loop (map Some (c # cs) @ ev) sh s = shell_loop (map Some cs @ ev) sh2 s2"
    using Cons.prems k by (subst shell_loop.simps) (auto simp: gm_serial_getc_def)
  then show ?case using Cons k by simp
qed simp

text \<open>C20: The line editor and the command line. Whatever keys are typed before a return, printable ones, backspaces
  and others, the shell echoes and runs exactly the line they spell: the keys with each backspace taking back one
  byte and with everything past 511 bytes ignored. After a command that returns, the editor starts again
  with an empty line, and the buffer of 512 bytes always has room for the NUL.\<close>

theorem shell_runs_line:
  assumes "line_ok sh" "gm_line_len sh = 0" "10 \<notin> set keys" "13 \<notin> set keys" "env_serial sh = map Some keys @ Some 13 # ev"
  shows "\<exists>sh1 sh2. line_ok sh1 \<and> line_ok sh2 \<and> gm_line_len sh2 = 0 \<and>
    gm_shell_poll sh s = (case shell_command (fold edit keys []) (gm_putc 10 (snd (press keys sh s))) of
        None \<Rightarrow> None
      | Some (Shut s2) \<Rightarrow> Some (Shut (sh1, s2))
      | Some (Ran s2) \<Rightarrow> shell_loop ev sh2 (gm_say ''> '' s2))"
proof -
  obtain sh1 s1 where p: "press keys sh s = (sh1, s1)" by fastforce
  have line: "line_ok sh1" "typed sh1 = fold edit keys []" using press_line [OF assms(1) p] assms(2) by (simp_all add: typed_def)
  let ?sh = "sh1\<lparr>gm_line := (gm_line sh1)[gm_line_len sh1 := 0]\<rparr>"
  have e: "shell_enter sh1 s1 = (case shell_command (fold edit keys []) (gm_putc 10 s1) of None \<Rightarrow> None
      | Some (Shut s2) \<Rightarrow> Some (Shut (?sh, s2)) | Some (Ran s2) \<Rightarrow> Some (Ran (?sh\<lparr>gm_line_len := 0\<rparr>, gm_say ''> '' s2)))"
    using enter_line [OF line(1)] line(2) by (simp add: shell_enter_def Let_def)
  have "gm_shell_poll sh s = shell_loop (Some 13 # ev) sh1 s1"
    unfolding gm_shell_poll_def assms(5) using shell_loop_press [OF assms(3,4), of "Some 13 # ev" sh s] p by simp
  also have "\<dots> = (case shell_command (fold edit keys []) (gm_putc 10 s1) of None \<Rightarrow> None
      | Some (Shut s2) \<Rightarrow> Some (Shut (?sh, s2)) | Some (Ran s2) \<Rightarrow> shell_loop ev (?sh\<lparr>gm_line_len := 0\<rparr>) (gm_say ''> '' s2))"
    by (subst shell_loop.simps) (auto simp: gm_serial_getc_def e split: option.splits ran.splits)
  finally have "gm_shell_poll sh s = \<dots>" .
  moreover have "line_ok ?sh" "line_ok (?sh\<lparr>gm_line_len := 0\<rparr>)" using line(1) by (simp_all add: line_ok_def)
  ultimately show ?thesis using p by (intro exI [of _ ?sh] exI [of _ "?sh\<lparr>gm_line_len := 0\<rparr>"]) simp
qed

definition shell_example :: gm_shell where
  "shell_example = \<lparr>gm_line = replicate 512 0, gm_line_len = 0, env_serial = map Some (asc ''versionx'' @ [8]) @ [Some 13]\<rparr>"

lemma line_ok_example: "line_ok shell_example"
  by (simp add: line_ok_def shell_example_def)

lemma version_command: "shell_command (asc ''version'') s = Some (Ran (gm_write (Some (asc ''gmker 3.2'' @ [10])) s))"
  by (simp add: shell_command_def gm_word_def is_blank_def in_word_def Let_def)

theorem shell_runs_line_witness:
  "\<exists>sh2 t out. line_ok sh2 \<and> gm_shell_poll shell_example programs_example = Some (Ran (sh2, t)) \<and>
     gm_console t = out @ asc ''gmker 3.2'' @ [13, 10, 62, 32]"
proof -
  let ?keys = "asc ''versionx'' @ [8]"
  have e: "fold edit ?keys [] = asc ''version''" by (simp add: edit_def)
  have k: "gm_line_len shell_example = 0" "10 \<notin> set ?keys" "13 \<notin> set ?keys" "env_serial shell_example = map Some ?keys @ Some 13 # []"
    by (simp_all add: shell_example_def)
  from shell_runs_line [OF line_ok_example k, of programs_example, unfolded e version_command] obtain sh2 where
    "line_ok sh2" "gm_shell_poll shell_example programs_example = shell_loop [] sh2 (gm_say ''> ''
       (gm_write (Some (asc ''gmker 3.2'' @ [10])) (gm_putc 10 (snd (press ?keys shell_example programs_example)))))" by auto
  then show ?thesis
    by (intro exI [of _ "sh2\<lparr>env_serial := []\<rparr>"]) (auto simp: shell_loop.simps gm_serial_getc_def line_ok_def gm_write_console)
qed

end
