(* ===== verification/Core_Paging.thy ===== *)
theory Core_Paging
  imports Programs_System
begin

unbundle bit_operations_syntax

section \<open>The address spaces of the programs\<close>

text \<open>
  What the page tables say after \<^verbatim>\<open>gm_programs_init\<close>. The allocator hands out consecutive pages, so the tables of the
  four address spaces lie in 100 pages from the first free page \<open>P\<close> on: page \<open>c\<close> is at \<open>pg P c\<close>, and \<open>tab P m c i\<close> is
  its entry \<open>i\<close>. The space of slot \<open>n\<close> has the 25 pages from \<open>b = 25 * n\<close> on: \<open>b\<close> is the top table, \<open>b + 2\<close> to
  \<open>b + 4\<close> are the lower ones and the others hold the program's 21 pages.
\<close>

definition pg :: "u64 \<Rightarrow> nat \<Rightarrow> u64" where
  "pg P c = P + of_nat (4096 * c)"

definition tab :: "u64 \<Rightarrow> gm_memory \<Rightarrow> nat \<Rightarrow> nat \<Rightarrow> u64" where
  "tab P m c i = phys_mem m (P + of_nat (4096 * c + 8 * i))"

text \<open>Addresses a table entry can hold: multiples of the page size below \<open>2 ^ 52\<close>.\<close>

definition paged :: "u64 \<Rightarrow> bool" where
  "paged x \<longleftrightarrow> x AND addr_mask = x"

lemma paged_entry: "paged x \<Longrightarrow> (x OR 7) AND addr_mask = x"
proof -
  assume a: "paged x"
  have "(x OR 7) AND addr_mask = (x AND addr_mask) OR (7 AND addr_mask)" by (rule bit.conj_disj_distrib2)
  also have "7 AND addr_mask = 0" by simp
  finally show ?thesis using a by (simp add: paged_def)
qed

lemma paged_iff: "paged x \<longleftrightarrow> 4096 dvd unat x \<and> unat x < 2 ^ 52"
proof -
  have m: "bit addr_mask n \<longleftrightarrow> 12 \<le> n \<and> n < 52" for n
  proof -
    have e: "addr_mask = mask 52 AND NOT (mask 12)" by (simp add: mask_eq_exp_minus_1)
    show ?thesis unfolding e by (auto simp: bit_and_iff bit_not_iff bit_mask_iff)
  qed
  have "paged x \<longleftrightarrow> (\<forall>n. bit (x AND addr_mask) n = bit x n)" unfolding paged_def by (metis bit_eqI)
  also have "\<dots> \<longleftrightarrow> (\<forall>n. bit (unat x) n \<longrightarrow> 12 \<le> n) \<and> (\<forall>n. bit (unat x) n \<longrightarrow> n < 52)"
    unfolding bit_and_iff m bit_unsigned_iff by (auto dest: bit_imp_le_length)
  also have "(\<forall>n. bit (unat x) n \<longrightarrow> n < 52) \<longleftrightarrow> take_bit 52 (unat x) = unat x"
    unfolding bit_eq_iff by (auto simp: bit_take_bit_iff)
  also have "\<dots> \<longleftrightarrow> unat x < 2 ^ 52" by (simp add: take_bit_nat_eq_self_iff)
  also have "(\<forall>n. bit (unat x) n \<longrightarrow> 12 \<le> n) \<longleftrightarrow> take_bit 12 (unat x) = 0"
    unfolding bit_eq_iff [of "take_bit 12 (unat x)"] by (auto simp: bit_take_bit_iff) (meson not_less)
  also have "\<dots> \<longleftrightarrow> 4096 dvd unat x" by (simp add: take_bit_eq_mod dvd_eq_mod_eq_0)
  finally show ?thesis by blast
qed

lemma pg_unat: "unat P + 4096 * c < 2 ^ 64 \<Longrightarrow> unat (pg P c) = unat P + 4096 * c"
  by (simp add: pg_def unat_word_ariths unat_of_nat)

lemma paged_pg: "paged P \<Longrightarrow> unat P + 4096 * c < 2 ^ 52 \<Longrightarrow> paged (pg P c)"
  using pg_unat [of P c] by (simp add: paged_iff)

lemma slot_inj:
  assumes "c < 128" "i < 512" "d < 128" "j < 512"
  shows "(P :: u64) + of_nat (4096 * c + 8 * i) = P + of_nat (4096 * d + 8 * j) \<longleftrightarrow> c = d \<and> i = j"
proof -
  have "(of_nat (4096 * c + 8 * i) :: u64) = of_nat (4096 * d + 8 * j) \<longleftrightarrow> 4096 * c + 8 * i = 4096 * d + 8 * j"
    using assms by (simp only: word_unat_eq_iff unat_of_nat) simp
  also have "\<dots> \<longleftrightarrow> c = d \<and> i = j" using assms by (cases c d rule: linorder_cases) auto
  finally show ?thesis by simp
qed

lemma slot_page:
  assumes "c < 128" "i < 512" "d < 128"
  shows "(P :: u64) + of_nat (4096 * c + 8 * i) - pg P d < 4096 \<longleftrightarrow> c = d"
proof -
  have e: "P + of_nat (4096 * c + 8 * i) - pg P d = of_nat (4096 * c + 8 * i) - of_nat (4096 * d)" by (simp add: pg_def)
  have u: "unat (of_nat (4096 * c + 8 * i) :: u64) = 4096 * c + 8 * i" "unat (of_nat (4096 * d) :: u64) = 4096 * d"
    unfolding unat_of_nat using assms by simp_all
  show ?thesis unfolding e word_less_nat_alt unat_sub_if' u using assms by (auto simp: word_size)
qed

subsection \<open>Single steps on the tables\<close>

definition set_tab :: "u64 \<Rightarrow> nat \<Rightarrow> nat \<Rightarrow> u64 \<Rightarrow> gm_memory \<Rightarrow> gm_memory" where
  "set_tab P c i v m = m\<lparr>phys_mem := (phys_mem m)(P + of_nat (4096 * c + 8 * i) := v)\<rparr>"

definition fresh :: "u64 \<Rightarrow> nat \<Rightarrow> gm_memory \<Rightarrow> gm_memory" where
  "fresh P c m = m\<lparr>gm_page_next := pg P (c + 1), phys_mem := (\<lambda>a. if a - pg P c < 4096 then 0 else phys_mem m a)\<rparr>"

lemma tab_set_tab: "c < 128 \<Longrightarrow> i < 512 \<Longrightarrow> d < 128 \<Longrightarrow> j < 512 \<Longrightarrow> tab P (set_tab P c i v m) d j = (if c = d \<and> i = j then v else tab P m d j)"
  using slot_inj [of d j c i P] by (auto simp: tab_def set_tab_def)

lemma tab_fresh: "c < 128 \<Longrightarrow> d < 128 \<Longrightarrow> j < 512 \<Longrightarrow> tab P (fresh P c m) d j = (if c = d then 0 else tab P m d j)"
  using slot_page [of d j c P] by (auto simp: tab_def fresh_def)

lemma step_sel [simp]:
  "gm_page_next (set_tab P c i v m) = gm_page_next m" "gm_page_next (fresh P c m) = pg P (c + 1)"
  "gm_page_end (set_tab P c i v m) = gm_page_end m" "gm_page_end (fresh P c m) = gm_page_end m"
  "cpu_cr3 (set_tab P c i v m) = cpu_cr3 m" "cpu_cr3 (fresh P c m) = cpu_cr3 m"
  "gm_hhdm (set_tab P c i v m) = gm_hhdm m" "gm_hhdm (fresh P c m) = gm_hhdm m"
  by (simp_all add: set_tab_def fresh_def)

text \<open>There is room for the 100 pages, below the width of a physical address.\<close>

definition pool :: "u64 \<Rightarrow> gm_memory \<Rightarrow> bool" where
  "pool P m \<longleftrightarrow> paged P \<and> unat P + 4096 * 100 \<le> unat (gm_page_end m) \<and> unat (gm_page_end m) < 2 ^ 52"

lemma pool_step [simp]: "pool P (set_tab Q c i v m) = pool P m" "pool P (fresh Q c m) = pool P m"
  by (simp_all add: pool_def)

lemma pool_paged: "pool P m \<Longrightarrow> c < 100 \<Longrightarrow> paged (pg P c)"
  by (rule paged_pg) (auto simp: pool_def)

lemma page_alloc_fresh:
  assumes "pool P m" "c < 100" "gm_page_next m = pg P c"
  shows "gm_page_alloc m = Ok (pg P c, fresh P c m)"
proof -
  have s: "pg P c + 4096 = pg P (c + 1)" by (simp add: pg_def algebra_simps)
  have "unat (pg P (c + 1)) = unat P + 4096 * (c + 1)" using assms(1,2) by (intro pg_unat) (simp add: pool_def)
  then have "\<not> pg P (c + 1) > gm_page_end m" using assms(1,2) by (simp add: pool_def word_less_nat_alt)
  then show ?thesis using assms(3) s by (simp add: gm_page_alloc_def Let_def mem_clear_def gm_phys_def fresh_def cong: if_cong)
qed

lemma table_get:
  assumes "e AND addr_mask = pg P c"
  shows "gm_hhdm n = gm_hhdm m \<Longrightarrow> mem_get (gm_table e m + 8 * of_nat i) n = tab P n c i"
    and "gm_hhdm n = gm_hhdm m \<Longrightarrow> mem_put (gm_table e m + 8 * of_nat i) v n = set_tab P c i v n"
  using assms by (auto simp: mem_get_def mem_put_def gm_table_def gm_phys_def tab_def set_tab_def pg_def algebra_simps)

text \<open>A lower table that exists already, and one that does not.\<close>

lemma next_table_present:
  assumes "e AND addr_mask = pg P c" "tab P m c i = pg P d OR 7" "paged (pg P d)" "c < 128" "i < 512"
  shows "gm_next_table (gm_table e m) (of_nat i) 4 m = Ok (gm_table (pg P d OR 7) m, set_tab P c i (pg P d OR 7) m)"
proof -
  have "(pg P d OR 7) AND 1 \<noteq> 0" by (simp add: bit.conj_disj_distrib2)
  moreover have "(pg P d OR 7) OR 4 = pg P d OR 7" by (simp add: or.assoc)
  moreover have "tab P (set_tab P c i (pg P d OR 7) m) c i = pg P d OR 7" using assms(4,5) by (simp add: tab_set_tab)
  ultimately show ?thesis using assms(2) table_get [OF assms(1), of _ m]
    by (simp add: gm_next_table_def Let_def gm_table_def gm_phys_def)
qed

lemma next_table_new:
  assumes "pool P m" "e AND addr_mask = pg P c" "tab P m c i = 0" "gm_page_next m = pg P d" "c \<noteq> d" "c < 100" "d < 100" "i < 512"
  shows "gm_next_table (gm_table e m) (of_nat i) 4 m =
    Ok (gm_table (pg P d OR 7) m, set_tab P c i (pg P d OR 7) (fresh P d m))"
proof -
  have "pg P d OR 1 OR 2 OR 4 = pg P d OR 7" by simp
  moreover have "tab P (set_tab P c i (pg P d OR 7) (fresh P d m)) c i = pg P d OR 7" using assms(6-8) by (simp add: tab_set_tab)
  ultimately show ?thesis using assms(3) table_get [OF assms(2), of _ m] page_alloc_fresh [OF assms(1,7,4)]
    by (simp add: gm_next_table_def Let_def gm_table_def gm_phys_def)
qed

subsection \<open>Filling one address space\<close>

definition dpage :: "nat \<Rightarrow> nat \<Rightarrow> nat" where
  "dpage b i = (if i = 0 then b + 1 else if i < 17 then b + 4 + i else b + 3 + i)"

definition top :: "u64 \<Rightarrow> nat \<Rightarrow> u64 \<Rightarrow> gm_memory \<Rightarrow> bool" where
  "top P b e m \<longleftrightarrow> (\<forall>i < 256. tab P m b i = (if i = 0 then e else 0)) \<and> (\<forall>i. 256 \<le> i \<and> i < 512 \<longrightarrow> tab P m b i AND 4 = 0)"

definition space :: "u64 \<Rightarrow> nat \<Rightarrow> nat \<Rightarrow> gm_memory \<Rightarrow> bool" where
  "space P b k m \<longleftrightarrow> top P b (pg P (b + 2) OR 7) m \<and>
     (\<forall>i < 512. tab P m (b + 2) i = (if i = 1 then pg P (b + 3) OR 7 else 0)) \<and>
     (\<forall>i < 512. tab P m (b + 3) i = (if i = 0 then pg P (b + 4) OR 7 else 0)) \<and>
     (\<forall>i < 512. tab P m (b + 4) i = (if i < k \<and> i \<noteq> 17 then pg P (dpage b i) OR 7 else 0))"

definition below :: "u64 \<Rightarrow> nat \<Rightarrow> gm_memory \<Rightarrow> gm_memory \<Rightarrow> bool" where
  "below P b m n \<longleftrightarrow> (\<forall>c < b. \<forall>i < 512. tab P n c i = tab P m c i) \<and> cpu_cr3 n = cpu_cr3 m \<and> gm_hhdm n = gm_hhdm m \<and> gm_page_end n = gm_page_end m"

lemma below_refl [simp]: "below P b m m"
  by (simp add: below_def)

lemma below_trans: "below P b m n \<Longrightarrow> below P b n l \<Longrightarrow> below P b m l"
  by (simp add: below_def)

lemma below_pool: "below P b m n \<Longrightarrow> pool P n = pool P m"
  by (simp add: below_def pool_def)

lemma gm_table_step [simp]: "gm_table e (set_tab P c i v m) = gm_table e m" "gm_table e (fresh P c m) = gm_table e m"
  by (simp_all add: gm_table_def gm_phys_def)

abbreviation user_page :: "nat \<Rightarrow> u64" where
  "user_page k \<equiv> program_base + of_nat (4096 * k)"

lemma user_page_index:
  "k < 22 \<Longrightarrow> drop_bit 39 (user_page k) AND 0x1ff = 0 \<and> drop_bit 30 (user_page k) AND 0x1ff = 1 \<and>
     drop_bit 21 (user_page k) AND 0x1ff = 0 \<and> drop_bit 12 (user_page k) AND 0x1ff = of_nat k \<and> user_page k AND 0xfff = 0"
proof -
  assume "k < 22"
  then have "k \<in> set [0..<22]" by simp
  moreover have "list_all (\<lambda>k. drop_bit 39 (user_page k) AND 0x1ff = 0 \<and> drop_bit 30 (user_page k) AND 0x1ff = 1 \<and>
     drop_bit 21 (user_page k) AND 0x1ff = 0 \<and> drop_bit 12 (user_page k) AND 0x1ff = of_nat k \<and> user_page k AND 0xfff = 0) [0..<22]"
    by (simp add: upt_conv_Cons)
  ultimately show ?thesis unfolding list_all_iff by blast
qed

lemma paged_low: "paged x \<Longrightarrow> x AND 0xfff = 0"
proof -
  assume "paged x"
  then have "x AND 0xfff = (x AND addr_mask) AND 0xfff" by (simp add: paged_def)
  then show ?thesis by (simp add: and.assoc)
qed

text \<open>The last step of a mapping, once the three lower tables are known.\<close>

lemma map_flags:
  assumes "k < 22" "paged phys" "paged (pg P (b + 4))" "cr3 AND addr_mask = pg P b"
    and "gm_next_table (gm_table cr3 m) 0 4 m = Ok (t1, m1)"
    and "gm_next_table t1 1 4 m1 = Ok (t2, m2)"
    and "gm_next_table t2 0 4 m2 = Ok (gm_table (pg P (b + 4) OR 7) m, m3)"
    and "tab P m3 (b + 4) k = 0" "gm_hhdm m3 = gm_hhdm m"
  shows "gm_map_user_page_in cr3 (user_page k) phys 2 m = Ok (True, set_tab P (b + 4) k (phys OR 7) m3)"
proof -
  have i: "drop_bit 39 (user_page k) AND 0x1ff = 0" "drop_bit 30 (user_page k) AND 0x1ff = 1"
     "drop_bit 21 (user_page k) AND 0x1ff = 0" "drop_bit 12 (user_page k) AND 0x1ff = of_nat k" "user_page k AND 0xfff = 0"
    using user_page_index [OF assms(1)] by blast+
  have f: "(2 :: u64) OR 4 = 6" "(6 :: u64) AND 4 = 4" by simp_all
  have e: "(pg P (b + 4) OR 7) AND addr_mask = pg P (b + 4)" using paged_entry [OF assms(3)] .
  have g: "mem_get (gm_table (pg P (b + 4) OR 7) m + 8 * of_nat k) m3 = 0"
    using table_get(1) [OF e assms(9)] assms(8) by simp
  have p: "mem_put (gm_table (pg P (b + 4) OR 7) m + 8 * of_nat k) (phys AND addr_mask OR 7) m3 = set_tab P (b + 4) k (phys OR 7) m3"
    using assms(2) by (simp only: table_get(2) [OF e assms(9)] paged_def)
  show ?thesis unfolding gm_map_user_page_in_def gm_map_page_flags_def Let_def f i paged_low [OF assms(2)] assms(5)
    by (simp add: assms(6,7) g p del: of_nat_mult)
qed

lemma map_first:
  assumes "pool P m" "top P b 0 m" "b + 25 \<le> 100" "gm_page_next m = pg P (b + 2)"
  shows "\<exists>n. gm_map_user_page_in (pg P b) (user_page 0) (pg P (b + 1)) 2 m = Ok (True, n) \<and>
    space P b 1 n \<and> gm_page_next n = pg P (b + 5) \<and> below P b m n"
proof -
  have pd: "paged (pg P (b + c))" if "c < 25" for c using pool_paged [OF assms(1), of "b + c"] that assms(3) by simp
  have e: "(pg P (b + c) OR 7) AND addr_mask = pg P (b + c)" if "c < 25" for c using paged_entry [OF pd [OF that]] .
  have e0: "pg P b AND addr_mask = pg P b" using pd [of 0] by (simp add: paged_def)
  let ?m1 = "set_tab P b 0 (pg P (b + 2) OR 7) (fresh P (b + 2) m)"
  let ?m2 = "set_tab P (b + 2) 1 (pg P (b + 3) OR 7) (fresh P (b + 3) ?m1)"
  let ?m3 = "set_tab P (b + 3) 0 (pg P (b + 4) OR 7) (fresh P (b + 4) ?m2)"
  have n1: "gm_next_table (gm_table (pg P b) m) 0 4 m = Ok (gm_table (pg P (b + 2) OR 7) m, ?m1)"
    using next_table_new [OF assms(1) e0 _ assms(4), of 0] assms(2,3) by (simp add: top_def)
  have n2: "gm_next_table (gm_table (pg P (b + 2) OR 7) m) 1 4 ?m1 = Ok (gm_table (pg P (b + 3) OR 7) m, ?m2)"
    using next_table_new [of P ?m1 "pg P (b + 2) OR 7" "b + 2" 1 "b + 3"] assms(1,3) e [of 2] by (simp add: tab_set_tab tab_fresh add.commute [of 3] del: add_2_eq_Suc')
  have n3: "gm_next_table (gm_table (pg P (b + 3) OR 7) m) 0 4 ?m2 = Ok (gm_table (pg P (b + 4) OR 7) m, ?m3)"
    using next_table_new [of P ?m2 "pg P (b + 3) OR 7" "b + 3" 0 "b + 4"] assms(1,3) e [of 3] by (simp add: tab_set_tab tab_fresh add.commute [of 4])
  have t: "tab P ?m3 (b + 4) 0 = 0" using assms(3) by (simp add: tab_set_tab tab_fresh)
  let ?n = "set_tab P (b + 4) 0 (pg P (b + 1) OR 7) ?m3"
  have "gm_map_user_page_in (pg P b) (user_page 0) (pg P (b + 1)) 2 m = Ok (True, ?n)"
    using map_flags [OF _ _ _ e0 n1 n2 n3 t] pd [of 1] pd [of 4] by simp
  moreover have "space P b 1 ?n" using assms(2,3) by (auto simp: space_def top_def tab_set_tab tab_fresh dpage_def)
  moreover have "below P b m ?n" using assms(3) by (auto simp: below_def tab_set_tab tab_fresh)
  ultimately show ?thesis by (intro exI [of _ ?n]) (simp add: numeral_eq_Suc)
qed

lemma map_more:
  assumes "pool P m" "space P b k m" "b + 25 \<le> 100" "1 \<le> k" "k < 22" "k \<noteq> 17" "dpage b k < 100"
  shows "\<exists>n. gm_map_user_page_in (pg P b) (user_page k) (pg P (dpage b k)) 2 m = Ok (True, n) \<and>
    space P b (k + 1) n \<and> gm_page_next n = gm_page_next m \<and> below P b m n"
proof -
  have pd: "paged (pg P (b + c))" if "c < 25" for c using pool_paged [OF assms(1), of "b + c"] that assms(3) by simp
  have e: "(pg P (b + c) OR 7) AND addr_mask = pg P (b + c)" if "c < 25" for c using paged_entry [OF pd [OF that]] .
  have e0: "pg P b AND addr_mask = pg P b" using pd [of 0] by (simp add: paged_def)
  let ?m1 = "set_tab P b 0 (pg P (b + 2) OR 7) m"
  let ?m2 = "set_tab P (b + 2) 1 (pg P (b + 3) OR 7) ?m1"
  let ?m3 = "set_tab P (b + 3) 0 (pg P (b + 4) OR 7) ?m2"
  have n1: "gm_next_table (gm_table (pg P b) m) 0 4 m = Ok (gm_table (pg P (b + 2) OR 7) m, ?m1)"
    using next_table_present [OF e0 _ pd, of m 0 2] assms(2,3) by (simp add: space_def top_def)
  have n2: "gm_next_table (gm_table (pg P (b + 2) OR 7) m) 1 4 ?m1 = Ok (gm_table (pg P (b + 3) OR 7) m, ?m2)"
    using next_table_present [OF e [of 2] _ pd, of ?m1 1 3] assms(2,3) by (simp add: space_def tab_set_tab)
  have n3: "gm_next_table (gm_table (pg P (b + 3) OR 7) m) 0 4 ?m2 = Ok (gm_table (pg P (b + 4) OR 7) m, ?m3)"
    using next_table_present [OF e [of 3] _ pd, of ?m2 0 4] assms(2,3) by (simp add: space_def tab_set_tab)
  have t: "tab P ?m3 (b + 4) k = 0" using assms(2,3,5) by (simp add: space_def tab_set_tab)
  let ?n = "set_tab P (b + 4) k (pg P (dpage b k) OR 7) ?m3"
  have "gm_map_user_page_in (pg P b) (user_page k) (pg P (dpage b k)) 2 m = Ok (True, ?n)"
    using map_flags [OF assms(5) pool_paged [OF assms(1,7)] _ e0 n1 n2 n3 t] pd [of 4] by simp
  moreover have "space P b (k + 1) ?n" using assms(2,3,5,6) by (auto simp: space_def top_def tab_set_tab less_Suc_eq)
  moreover have "below P b m ?n" using assms(3,5) by (auto simp: below_def tab_set_tab)
  ultimately show ?thesis by (intro exI [of _ ?n]) simp
qed

lemma space_fresh: "space P b k m \<Longrightarrow> b + 25 \<le> 100 \<Longrightarrow> b + 4 < d \<Longrightarrow> d < 128 \<Longrightarrow> space P b k (fresh P d m)"
  by (auto simp: space_def top_def tab_fresh)

lemma below_fresh: "b \<le> d \<Longrightarrow> d < 128 \<Longrightarrow> below P b m (fresh P d m)"
  by (auto simp: below_def tab_fresh)

lemma user_page_end: "k \<le> 22 \<Longrightarrow> user_page k < program_end \<longleftrightarrow> k < 22" "k \<le> 22 \<Longrightarrow> user_page k = program_guard \<longleftrightarrow> k = 17"
proof -
  assume k: "k \<le> 22"
  have u: "unat (user_page k) = 1073741824 + 4096 * k" using k by (simp add: unat_word_ariths unat_of_nat)
  show "user_page k < program_end \<longleftrightarrow> k < 22" unfolding word_less_nat_alt u by auto
  show "user_page k = program_guard \<longleftrightarrow> k = 17" unfolding word_unat_eq_iff u by auto
qed

text \<open>The loop over the pages of the user range.\<close>

definition next_page :: "nat \<Rightarrow> nat \<Rightarrow> nat" where
  "next_page b k = (if k < 18 then b + 4 + k else b + 3 + k)"

lemma map_pages_from:
  assumes "pool P m" "space P b k m" "b + 25 \<le> 100" "1 \<le> k" "k \<le> 22" "gm_page_next m = pg P (next_page b k)"
  shows "\<exists>n. map_program_pages (pg P b) (user_page k) m = Ok n \<and> space P b 22 n \<and> gm_page_next n = pg P (b + 25) \<and> below P b m n"
  using assms
proof (induction "22 - k" arbitrary: k m)
  case 0
  then have "k = 22" by simp
  then show ?case using 0 user_page_end(1) [of 22] by (subst map_program_pages.simps) (simp add: next_page_def add.commute [of 25])
next
  case (Suc d)
  have k: "k < 22" using Suc.hyps(2) by simp
  have lt: "user_page k < program_end" using user_page_end(1) [of k] k by simp
  have su: "user_page k + 4096 = user_page (k + 1)" by (simp add: algebra_simps)
  show ?case
  proof (cases "k = 17")
    case True
    have eq: "map_program_pages (pg P b) (user_page k) m = map_program_pages (pg P b) (user_page (k + 1)) m"
      using lt user_page_end(2) [of k] True su by (subst map_program_pages.simps) simp
    have sp: "space P b (k + 1) m" using Suc.prems(2) True by (auto simp: space_def less_Suc_eq)
    have np: "next_page b (k + 1) = next_page b k" using True by (simp add: next_page_def)
    show ?thesis unfolding eq by (rule Suc.hyps(1)) (use Suc.hyps(2) Suc.prems sp np k in auto)
  next
    case False
    let ?d = "dpage b k"
    have d: "?d = next_page b k" "?d < 100" "b + 4 < ?d" using False k Suc.prems(3,4) by (auto simp: dpage_def next_page_def)
    let ?m1 = "fresh P ?d m"
    have al: "gm_page_alloc m = Ok (pg P ?d, ?m1)" using page_alloc_fresh [OF Suc.prems(1) d(2)] Suc.prems(6) d(1) by simp
    have s1: "space P b k ?m1" using space_fresh [OF Suc.prems(2,3) d(3)] d(2) by simp
    obtain n where n: "gm_map_user_page_in (pg P b) (user_page k) (pg P ?d) 2 ?m1 = Ok (True, n)" "space P b (k + 1) n"
        "gm_page_next n = gm_page_next ?m1" "below P b ?m1 n"
      using map_more [OF _ s1 Suc.prems(3,4) k False d(2)] Suc.prems(1) by auto
    have bm: "below P b m n" using below_trans [OF below_fresh n(4)] d by simp
    have eq: "map_program_pages (pg P b) (user_page k) m = map_program_pages (pg P b) (user_page (k + 1)) n"
      using lt user_page_end(2) [of k] False k su al n(1) by (subst map_program_pages.simps) simp
    have "\<exists>l. map_program_pages (pg P b) (user_page (k + 1)) n = Ok l \<and> space P b 22 l \<and> gm_page_next l = pg P (b + 25) \<and> below P b n l"
    proof (rule Suc.hyps(1))
      show "gm_page_next n = pg P (next_page b (k + 1))" using n(3) d(1) False k by (auto simp: next_page_def)
    qed (use Suc.hyps(2) Suc.prems n(2) k below_pool [OF bm] in auto)
    then show ?thesis unfolding eq using below_trans [OF bm] by blast
  qed
qed

lemma map_pages_all:
  assumes "pool P m" "top P b 0 m" "b + 25 \<le> 100" "gm_page_next m = pg P (b + 1)"
  shows "\<exists>n. map_program_pages (pg P b) program_base m = Ok n \<and> space P b 22 n \<and> gm_page_next n = pg P (b + 25) \<and> below P b m n"
proof -
  let ?m1 = "fresh P (b + 1) m"
  have al: "gm_page_alloc m = Ok (pg P (b + 1), ?m1)" using page_alloc_fresh [OF assms(1) _ assms(4)] assms(3) by simp
  have t1: "top P b 0 ?m1" using assms(2,3) by (auto simp: top_def tab_fresh)
  obtain n where n: "gm_map_user_page_in (pg P b) (user_page 0) (pg P (b + 1)) 2 ?m1 = Ok (True, n)" "space P b 1 n"
      "gm_page_next n = pg P (b + 5)" "below P b ?m1 n"
    using map_first [OF _ t1 assms(3)] assms(1) by auto
  have bm: "below P b m n" using below_trans [OF below_fresh n(4)] assms(3) by simp
  have "map_program_pages (pg P b) program_base m = map_program_pages (pg P b) (user_page 1) n"
    using al n(1) by (subst map_program_pages.simps) simp
  moreover obtain l where "map_program_pages (pg P b) (user_page 1) n = Ok l" "space P b 22 l" "gm_page_next l = pg P (b + 25)" "below P b n l"
    using map_pages_from [of P n b 1] below_pool [OF bm] assms(1,3) n(2,3) by (auto simp: next_page_def add.commute [of 5])
  ultimately show ?thesis using below_trans [OF bm] by auto
qed

text \<open>The upper half of a new top table is the kernel's, without access for user mode.\<close>

lemma copy_half:
  assumes "c < 128" "h + k \<le> 512" "256 \<le> h" "\<forall>j. 256 \<le> j \<and> j < h \<longrightarrow> tab P m c j AND 4 = 0"
  shows "let n = copy_kernel_half source (pg P c + gm_hhdm m) h k m in
    (\<forall>d j. d < 128 \<and> j < 512 \<and> (d \<noteq> c \<or> j < 256) \<longrightarrow> tab P n d j = tab P m d j) \<and> (\<forall>j. 256 \<le> j \<and> j < h + k \<longrightarrow> tab P n c j AND 4 = 0) \<and>
    cpu_cr3 n = cpu_cr3 m \<and> gm_hhdm n = gm_hhdm m \<and> gm_page_end n = gm_page_end m \<and> gm_page_next n = gm_page_next m"
  using assms(2-4)
proof (induction k arbitrary: h m)
  case (Suc k)
  let ?v = "mem_get (source + 8 * of_nat h) m AND NOT 4"
  let ?m = "set_tab P c h ?v m"
  have put: "mem_put (pg P c + gm_hhdm m + 8 * of_nat h) ?v m = ?m"
    by (simp add: mem_put_def set_tab_def pg_def algebra_simps)
  have v: "?v AND 4 = 0" by (simp add: and.assoc)
  have t: "tab P ?m d j = (if d = c \<and> j = h then ?v else tab P m d j)" if "d < 128" "j < 512" for d j
    using tab_set_tab [OF assms(1) _ that, of h] Suc.prems(1) by auto
  have pre: "\<forall>j. 256 \<le> j \<and> j < h + 1 \<longrightarrow> tab P ?m c j AND 4 = 0"
    using Suc.prems v t [OF assms(1)] by (auto simp: less_Suc_eq)
  have "copy_kernel_half source (pg P c + gm_hhdm m) h (Suc k) m = copy_kernel_half source (pg P c + gm_hhdm ?m) (h + 1) k ?m"
    by (simp only: copy_kernel_half.simps put step_sel)
  then show ?case using Suc.IH [of "h + 1" ?m] pre Suc.prems t by (auto simp: Let_def)
qed (simp add: Let_def)

lemma space_create:
  assumes "pool P m" "b + 25 \<le> 100" "gm_page_next m = pg P b"
  shows "\<exists>n. gm_address_space_create m = Ok (pg P b, n) \<and> top P b 0 n \<and> gm_page_next n = pg P (b + 1) \<and> below P b m n"
proof -
  let ?m = "fresh P b m"
  let ?n = "copy_kernel_half (gm_table (cpu_cr3 m) ?m) (pg P b + gm_hhdm ?m) 256 256 ?m"
  have al: "gm_page_alloc m = Ok (pg P b, ?m)" using page_alloc_fresh [OF assms(1) _ assms(3)] assms(2) by simp
  have C: "let n = ?n in (\<forall>d j. d < 128 \<and> j < 512 \<and> (d \<noteq> b \<or> j < 256) \<longrightarrow> tab P n d j = tab P ?m d j) \<and>
      (\<forall>j. 256 \<le> j \<and> j < 256 + 256 \<longrightarrow> tab P n b j AND 4 = 0) \<and>
      cpu_cr3 n = cpu_cr3 ?m \<and> gm_hhdm n = gm_hhdm ?m \<and> gm_page_end n = gm_page_end ?m \<and> gm_page_next n = gm_page_next ?m"
    by (rule copy_half) (use assms(2) in auto)
  have "top P b 0 ?n" using C assms(2) tab_fresh [of b b _ P m] by (auto simp: top_def Let_def)
  moreover have "below P b m ?n" using C assms(2) by (auto simp: below_def Let_def tab_fresh)
  moreover have "gm_address_space_create m = Ok (pg P b, ?n)" by (simp add: gm_address_space_create_def Let_def al gm_phys_def)
  moreover have "gm_page_next ?n = pg P (b + 1)" using C by (simp add: Let_def)
  ultimately show ?thesis by blast
qed


subsection \<open>The four slots\<close>

text \<open>Switching address spaces and writing user memory leave the rest of the state alone.\<close>

definition moved :: "'a gm_programs_scheme \<Rightarrow> 'a gm_programs_scheme \<Rightarrow> bool" where
  "moved s t \<longleftrightarrow> (\<exists>u c n. t = s\<lparr>gm_mem := (gm_mem s)\<lparr>cpu_cr3 := c\<rparr>, gm_program_current := n, user_mem := u\<rparr>)"

lemma moved_refl [simp]: "moved s s"
  unfolding moved_def by (intro exI [of _ "user_mem s"] exI [of _ "cpu_cr3 (gm_mem s)"] exI [of _ "gm_program_current s"]) simp

lemma moved_trans: "moved s t \<Longrightarrow> moved t u \<Longrightarrow> moved s u"
  unfolding moved_def by (elim exE) (simp, blast)

lemma moved_steps [simp]:
  "moved s (gm_program_activate i s)" "moved s (gm_program_kernel s)" "moved s (user_put a bs s)" "moved s (s\<lparr>gm_program_current := n\<rparr>)"
proof -
  show "moved s (gm_program_activate i s)" unfolding moved_def gm_program_activate_def gm_address_space_switch_def
    by (intro exI [of _ "user_mem s"] exI [of _ "app_cr3 (gm_apps s ! i)"] exI [of _ i]) simp
  show "moved s (gm_program_kernel s)" unfolding moved_def gm_program_kernel_def gm_address_space_switch_def
    by (intro exI [of _ "user_mem s"] exI [of _ "gm_program_kernel_cr3 s"] exI [of _ "gm_program_current s"]) simp
  show "moved s (user_put a bs s)" unfolding moved_def user_put_def Let_def
    by (intro exI [of _ "user_mem (user_put a bs s)"] exI [of _ "cpu_cr3 (gm_mem s)"] exI [of _ "gm_program_current s"])
      (simp add: user_put_def Let_def)
  show "moved s (s\<lparr>gm_program_current := n\<rparr>)" unfolding moved_def
    by (intro exI [of _ "user_mem s"] exI [of _ "cpu_cr3 (gm_mem s)"] exI [of _ n]) simp
qed

lemma moved_clear [simp]: "moved s (gm_program_clear s)"
  unfolding gm_program_clear_def Let_def by (intro moved_trans [OF _ moved_steps(3)] moved_refl)

lemma moved_sel:
  assumes "moved s t"
  shows "gm_apps t = gm_apps s" "gm_resources t = gm_resources s" "gm_resource_epochs t = gm_resource_epochs s"
    "gm_periodics t = gm_periodics s" "gm_program_kernel_cr3 t = gm_program_kernel_cr3 s" "gm_program_next t = gm_program_next s"
    "net_ok t = net_ok s" "gm_mem t = (gm_mem s)\<lparr>cpu_cr3 := cpu_cr3 (gm_mem t)\<rparr>"
  using assms by (auto simp: moved_def)

text \<open>What a program sees at its user addresses in a given address space.\<close>

definition blank_space :: "u64 \<Rightarrow> 'a gm_programs_scheme \<Rightarrow> bool" where
  "blank_space c s \<longleftrightarrow> (\<forall>x. user_addr x \<longrightarrow> user_mem s c x = 0)"

lemma user_put_other: "c \<noteq> cpu_cr3 (gm_mem s) \<Longrightarrow> user_mem (user_put a bs s) c = user_mem s c"
  by (simp add: user_put_def Let_def)

lemma put_mem [simp]: "gm_mem (user_put a bs s) = gm_mem s" "gm_apps (user_put a bs s) = gm_apps s"
  by (simp_all add: user_put_def Let_def)

lemma clear_other: "c \<noteq> cpu_cr3 (gm_mem s) \<Longrightarrow> user_mem (gm_program_clear s) c = user_mem s c"
  by (simp add: gm_program_clear_def Let_def user_put_other)

lemma clear_mem [simp]: "gm_mem (gm_program_clear s) = gm_mem s"
  by (simp add: gm_program_clear_def Let_def)

lemma clear_blank: "app_layout (gm_apps s ! gm_program_current s) \<Longrightarrow> blank_space (cpu_cr3 (gm_mem s)) (gm_program_clear s)"
  using clear_zero [of s] by (simp add: blank_space_def user_get_def)

lemma activate_sel [simp]: "cpu_cr3 (gm_mem (gm_program_activate i s)) = app_cr3 (gm_apps s ! i)"
  "user_mem (gm_program_activate i s) = user_mem s" "gm_program_current (gm_program_activate i s) = i" "gm_apps (gm_program_activate i s) = gm_apps s"
  by (simp_all add: gm_program_activate_def gm_address_space_switch_def)

text \<open>The probe of \<^verbatim>\<open>gm_program_isolation_check\<close>.\<close>

definition probe :: "(u64 \<Rightarrow> u8) \<Rightarrow> u64" where
  "probe f = foldr (\<lambda>b w. ucast b OR push_bit 8 w) (map (\<lambda>i. f (program_base + of_nat i)) [0..<8]) 0"

lemma user_word_probe: "user_word program_base s = probe (user_mem s (cpu_cr3 (gm_mem s)))"
  by (simp add: user_word_def probe_def user_bytes_def user_get_def)

lemma probe_blank: "blank_space c s \<Longrightarrow> probe (user_mem s c) = 0"
  by (simp add: probe_def blank_space_def user_addr_def upt_conv_Cons)

lemma probe_put:
  "probe (user_mem (user_put program_base (le64 0x1122334455667788) s) (cpu_cr3 (gm_mem s))) = 0x1122334455667788"
  "probe (user_mem (user_put program_base (le64 0x8877665544332211) s) (cpu_cr3 (gm_mem s))) = 0x8877665544332211"
  by (simp_all add: probe_def user_put_def Let_def le64_def upt_conv_Cons)

lemma isolation_check_ok:
  assumes "app_layout (gm_apps s ! 0)" "app_layout (gm_apps s ! 1)" "app_cr3 (gm_apps s ! 0) \<noteq> app_cr3 (gm_apps s ! 1)"
    and "blank_space (app_cr3 (gm_apps s ! 1)) s"
  shows "\<exists>t. gm_program_isolation_check s = Ok t \<and> moved s t \<and> cpu_cr3 (gm_mem t) = gm_program_kernel_cr3 s \<and> gm_program_current t = 0"
proof -
  let ?c0 = "app_cr3 (gm_apps s ! 0)" and ?c1 = "app_cr3 (gm_apps s ! 1)"
  let ?s1 = "user_put program_base (le64 0x1122334455667788) (gm_program_activate 0 s)"
  let ?s2 = "gm_program_activate 1 ?s1"
  let ?s3 = "user_put program_base (le64 0x8877665544332211) ?s2"
  let ?s4 = "gm_program_activate 0 ?s3"
  let ?s5 = "gm_program_activate 1 ?s4"
  have a: "gm_apps ?s5 = gm_apps s" "gm_apps ?s4 = gm_apps s" "gm_apps ?s3 = gm_apps s" "gm_apps ?s2 = gm_apps s" by simp_all
  have m1: "user_mem ?s1 ?c1 = user_mem s ?c1" using assms(3) user_put_other [of ?c1 "gm_program_activate 0 s"] by simp
  have w2: "user_word program_base ?s2 = 0" using probe_blank [OF assms(4)] m1 by (simp add: user_word_probe)
  have m3: "user_mem ?s3 ?c0 = user_mem ?s1 ?c0" using assms(3) user_put_other [of ?c0 ?s2] by simp
  have w4: "user_word program_base ?s4 = 0x1122334455667788"
    using m3 probe_put(1) [of "gm_program_activate 0 s"] by (simp add: user_word_probe)
  have w5: "user_word program_base ?s5 = 0x8877665544332211"
    using probe_put(2) [of ?s2] by (simp add: user_word_probe)
  let ?t = "(gm_program_kernel (gm_program_clear (gm_program_activate 0 (gm_program_clear ?s5))))\<lparr>gm_program_current := 0\<rparr>"
  have "gm_program_isolation_check s = Ok ?t"
    unfolding gm_program_isolation_check_def Let_def w2 w4 w5 by simp
  moreover have mv: "moved s (gm_program_clear (gm_program_activate 0 (gm_program_clear ?s5)))"
    by (intro moved_trans [OF _ moved_steps(1)] moved_trans [OF _ moved_steps(2)] moved_trans [OF _ moved_steps(3)]
        moved_trans [OF _ moved_steps(4)] moved_trans [OF _ moved_clear] moved_refl)
  then have "moved s ?t" by (intro moved_trans [OF _ moved_steps(4)] moved_trans [OF _ moved_steps(2)])
  moreover have "cpu_cr3 (gm_mem ?t) = gm_program_kernel_cr3 s" using moved_sel(5) [OF mv] by simp
  ultimately show ?thesis by (intro exI [of _ ?t]) simp
qed

text \<open>A slot as \<^verbatim>\<open>gm_programs_init\<close> leaves it, and what the loop over the slots has done after \<open>k\<close> of them.\<close>

definition blank_slot :: "u64 \<Rightarrow> gm_app_slot" where
  "blank_slot c = app_zero\<lparr>app_cr3 := c, app_image := program_base, app_arg := program_arg, app_stack := program_stack\<rparr>"

definition slots_done :: "u64 \<Rightarrow> nat \<Rightarrow> 'a gm_programs_scheme \<Rightarrow> bool" where
  "slots_done P k s \<longleftrightarrow> pool P (gm_mem s) \<and> gm_page_next (gm_mem s) = pg P (25 * k) \<and> cpu_cr3 (gm_mem s) = gm_program_kernel_cr3 s \<and>
     gm_apps s = map (\<lambda>j. blank_slot (pg P (25 * j))) [0..<k] @ replicate (4 - k) app_zero \<and>
     (\<forall>j < k. space P (25 * j) 22 (gm_mem s) \<and> blank_space (pg P (25 * j)) s)"

definition boot_same :: "'a gm_programs_scheme \<Rightarrow> 'a gm_programs_scheme \<Rightarrow> bool" where
  "boot_same s t \<longleftrightarrow> gm_resources t = gm_resources s \<and> gm_resource_epochs t = gm_resource_epochs s \<and> gm_periodics t = gm_periodics s \<and>
     gm_program_kernel_cr3 t = gm_program_kernel_cr3 s \<and> net_ok t = net_ok s"

lemma space_below: "below P b m n \<Longrightarrow> a + 25 \<le> b \<Longrightarrow> b \<le> 100 \<Longrightarrow> space P a k m \<Longrightarrow> space P a k n"
  by (auto simp: below_def space_def top_def)

lemma space_cr3 [simp]: "space P b k (m\<lparr>cpu_cr3 := c\<rparr>) = space P b k m" "pool P (m\<lparr>cpu_cr3 := c\<rparr>) = pool P m"
  by (simp_all add: space_def top_def tab_def pool_def)

lemma pg_eq: "pool P m \<Longrightarrow> c < 100 \<Longrightarrow> d < 100 \<Longrightarrow> pg P c = pg P d \<longleftrightarrow> c = d"
  using pg_unat [of P c] pg_unat [of P d] by (auto simp: pool_def word_unat_eq_iff)

lemma init_slot_ok:
  assumes "slots_done P k s" "k < 4"
  shows "\<exists>t. init_slot k s = Ok t \<and> slots_done P (k + 1) t \<and> boot_same s t"
proof -
  let ?m = "gm_mem s" and ?c = "pg P (25 * k)"
  have A: "pool P ?m" "gm_page_next ?m = ?c" "cpu_cr3 ?m = gm_program_kernel_cr3 s"
      "gm_apps s = map (\<lambda>j. blank_slot (pg P (25 * j))) [0..<k] @ replicate (4 - k) app_zero"
      "\<forall>j < k. space P (25 * j) 22 ?m \<and> blank_space (pg P (25 * j)) s"
    using assms(1) by (auto simp: slots_done_def)
  have b: "25 * k + 25 \<le> 100" using assms(2) by simp
  obtain m1 where m1: "gm_address_space_create ?m = Ok (?c, m1)" "top P (25 * k) 0 m1" "gm_page_next m1 = pg P (25 * k + 1)" "below P (25 * k) ?m m1"
    using space_create [OF A(1) b A(2)] by blast
  obtain m2 where m2: "map_program_pages ?c program_base m1 = Ok m2" "space P (25 * k) 22 m2" "gm_page_next m2 = pg P (25 * k + 25)" "below P (25 * k) m1 m2"
    using map_pages_all [OF _ m1(2) b m1(3)] below_pool [OF m1(4)] A(1) by auto
  have bm: "below P (25 * k) ?m m2" using below_trans [OF m1(4) m2(4)] .
  have len: "length (gm_apps s) = 4" and zero: "gm_apps s ! k = app_zero" using A(4) assms(2) by (auto simp: nth_append)
  let ?f = "\<lambda>a. a\<lparr>app_cr3 := ?c, app_image := program_base, app_arg := program_arg, app_stack := program_stack\<rparr>"
  let ?g = "\<lambda>a. a\<lparr>app_state := APP_FREE, app_result := 0, runtime_ticks := 0, resume_rsp := 0, owned_resource := 0,
             waiting_resource := 0, periodic_id := 0, app_context := frame_zero\<rparr>"
  let ?s1 = "app_upd k ?f (s\<lparr>gm_mem := m2\<rparr>)"
  let ?s2 = "gm_program_clear (gm_program_activate k ?s1)"
  let ?t = "gm_program_kernel (app_upd k ?g ?s2)"
  have t: "init_slot k s = Ok ?t" by (simp add: init_slot_def m1(1) m2(1) Let_def)
  have mv: "moved ?s1 ?s2" by (rule moved_trans [OF moved_steps(1) moved_clear])
  have a1: "gm_apps ?s1 = (gm_apps s)[k := blank_slot ?c]" using zero by (simp add: blank_slot_def)
  have a2: "gm_apps ?t = (gm_apps s)[k := blank_slot ?c]" using moved_sel(1) [OF mv] a1 len assms(2)
    by (simp add: blank_slot_def app_zero_def)
  have apps: "gm_apps ?t = map (\<lambda>j. blank_slot (pg P (25 * j))) [0..<k + 1] @ replicate (4 - (k + 1)) app_zero"
  proof -
    have "replicate (4 - k) app_zero = app_zero # replicate (4 - (k + 1)) app_zero" using assms(2)
      by (metis Suc_diff_Suc Suc_eq_plus1 replicate_Suc)
    then show ?thesis unfolding a2 A(4) by (simp add: list_update_append)
  qed
  have mem: "gm_mem ?t = m2\<lparr>cpu_cr3 := gm_program_kernel_cr3 s\<rparr>"
    using moved_sel(5,8) [OF mv] by (simp add: gm_program_kernel_def gm_address_space_switch_def app_upd_def)
  have um: "user_mem ?t = user_mem ?s2" by simp
  have act: "cpu_cr3 (gm_mem (gm_program_activate k ?s1)) = ?c" using a1 len assms(2) by (simp add: blank_slot_def)
  have "blank_space ?c ?s2" using clear_blank [of "gm_program_activate k ?s1"] act a1 len assms(2)
    by (simp add: app_layout_def blank_slot_def)
  moreover have "blank_space (pg P (25 * j)) ?s2" if "j < k" for j
  proof -
    have "pg P (25 * j) \<noteq> ?c" using pg_eq [OF A(1)] that assms(2) by simp
    then have "user_mem ?s2 (pg P (25 * j)) = user_mem s (pg P (25 * j))" using act clear_other [of "pg P (25 * j)" "gm_program_activate k ?s1"]
      by (simp add: app_upd_def)
    then show ?thesis using A(5) that by (simp add: blank_space_def)
  qed
  ultimately have bl: "blank_space (pg P (25 * j)) ?t" if "j < k + 1" for j
    using that um by (auto simp: blank_space_def less_Suc_eq)
  have sp: "space P (25 * j) 22 m2" if "j < k + 1" for j
    using that m2(2) A(5) space_below [OF bm, of "25 * j" 22] assms(2) by (cases "j = k") auto
  have "slots_done P (k + 1) ?t" using apps mem bl sp A(1) below_pool [OF bm] m2(3) moved_sel(5) [OF mv]
    by (simp add: slots_done_def app_upd_def add.commute [of 25])
  moreover have "boot_same s ?t" using moved_sel [OF mv] by (simp add: boot_same_def app_upd_def gm_program_kernel_def)
  ultimately show ?thesis using t by blast
qed

lemma init_slots_ok:
  "slots_done P k s \<Longrightarrow> k + n = 4 \<Longrightarrow> \<exists>t. init_slots k n s = Ok t \<and> slots_done P 4 t \<and> boot_same s t"
proof (induction n arbitrary: k s)
  case 0
  then show ?case by (simp add: boot_same_def)
next
  case (Suc n)
  obtain t where t: "init_slot k s = Ok t" "slots_done P (k + 1) t" "boot_same s t"
    using init_slot_ok [OF Suc.prems(1)] Suc.prems(2) by auto
  obtain u where "init_slots (k + 1) n t = Ok u" "slots_done P 4 u" "boot_same t u"
    using Suc.IH [OF t(2)] Suc.prems(2) by auto
  then show ?case using t by (auto simp: boot_same_def)
qed

lemma upt_4: "[0..<4] = [0, 1, 2, 3]"
  by (simp add: upt_conv_Cons)

lemma programs_init_ok:
  assumes "pool P (gm_mem s)" "gm_page_next (gm_mem s) = P" "net_ok s" "\<forall>c < 100. cpu_cr3 (gm_mem s) \<noteq> pg P c"
  shows "\<exists>t. gm_programs_init s = Ok t \<and> kernel_ok t \<and> per_ok t \<and>
    (\<forall>j < 4. space P (25 * j) 22 (gm_mem t) \<and> app_cr3 (gm_apps t ! j) = pg P (25 * j)) \<and> pool P (gm_mem t)"
proof -
  let ?s = "s\<lparr>gm_program_kernel_cr3 := gm_address_space_current (gm_mem s), gm_apps := replicate 4 app_zero,
     gm_resources := replicate 2 resource_zero, gm_periodics := replicate 4 periodic_zero, gm_resource_epochs := replicate 60 0\<rparr>"
  have "slots_done P 0 ?s" using assms(1,2) by (simp add: slots_done_def pg_def gm_address_space_current_def)
  from init_slots_ok [OF this, of 4] obtain t where t: "init_slots 0 4 ?s = Ok t" "slots_done P 4 t" "boot_same ?s t" by auto
  let ?t = "t\<lparr>gm_program_current := 0, gm_program_next := 0\<rparr>"
  have apps: "gm_apps t = map (\<lambda>j. blank_slot (pg P (25 * j))) [0, 1, 2, 3]"
    and sp: "\<forall>j < 4. space P (25 * j) 22 (gm_mem t) \<and> blank_space (pg P (25 * j)) t" and po: "pool P (gm_mem t)"
    using t(2) upt_4 by (simp_all add: slots_done_def)
  have ne: "pg P 0 \<noteq> pg P 25" "pg P 0 \<noteq> pg P 50" "pg P 0 \<noteq> pg P 75" "pg P 25 \<noteq> pg P 50" "pg P 25 \<noteq> pg P 75" "pg P 50 \<noteq> pg P 75"
    using pg_eq [OF po] by simp_all
  have bl: "blank_space (pg P 25) ?t" using sp [rule_format, of 1] by (simp add: blank_space_def)
  obtain u where u: "gm_program_isolation_check ?t = Ok u" "moved ?t u" "cpu_cr3 (gm_mem u) = gm_program_kernel_cr3 ?t" "gm_program_current u = 0"
    using isolation_check_ok [of ?t] apps ne bl by (auto simp: blank_slot_def app_layout_def)
  note M = moved_sel [OF u(2)]
  have same: "gm_resources u = replicate 2 resource_zero" "gm_resource_epochs u = replicate 60 0" "gm_periodics u = replicate 4 periodic_zero"
      "gm_program_kernel_cr3 u = cpu_cr3 (gm_mem s)" "net_ok u = net_ok s"
    using M t(3) by (simp_all add: boot_same_def gm_address_space_current_def net_ok_def driver_ok_def virtio_ok_def tcp_ok_def ring_ok_def)
  have mem: "gm_mem u = (gm_mem t)\<lparr>cpu_cr3 := cpu_cr3 (gm_mem u)\<rparr>" using M(8) by simp
  have au: "gm_apps u = map (\<lambda>j. blank_slot (pg P (25 * j))) [0, 1, 2, 3]" using M(1) apps by simp
  have r: "res_ok u" using same au
    by (simp add: res_ok_def lock_view_def lock_ok_def numeral_2_eq_2 res_view_def app_view_def resource_zero_def blank_slot_def app_zero_def
        wait_queue_def res_shape_def all_less_4 less_Suc_eq nth_Cons')
  have "\<forall>c \<in> {0, 25, 50, 75}. cpu_cr3 (gm_mem s) \<noteq> pg P c" using assms(4) by simp
  then have sh: "prog_shape u" using same au ne u(4) M(6)
    by (simp add: prog_shape_def app_layout_def blank_slot_def)
  have "kernel_ok u" using r sh same(4,5) assms(3) au u(3) M(5)
    by (simp add: kernel_ok_def prog_ok_def all_less_4 blank_slot_def app_zero_def)
  moreover have "per_ok u" using same(3) by (simp add: per_ok_def periodic_zero_def list_all_length)
  moreover have "space P (25 * j) 22 (gm_mem u) \<and> app_cr3 (gm_apps u ! j) = pg P (25 * j)" if "j < 4" for j
  proof -
    have "j \<in> {0, 1, 2, 3}" using that by auto
    then have "app_cr3 (gm_apps u ! j) = pg P (25 * j)" using au by (auto simp: blank_slot_def)
    moreover have "space P (25 * j) 22 (gm_mem u)" using sp that by (subst mem) simp
    ultimately show ?thesis by simp
  qed
  moreover have "pool P (gm_mem u)" using po by (subst mem) simp
  moreover have "gm_programs_init s = Ok u" unfolding gm_programs_init_def Let_def using t(1) u(1) by simp
  ultimately show ?thesis by blast
qed


subsection \<open>What user mode can reach\<close>

text \<open>
  The translation of a virtual address that the processor makes for an access in user mode: four levels, every
  entry present and open to user mode, with the large pages of the two middle levels. \<open>page_walk\<close> follows the
  architecture, not code of the repository.
\<close>

definition entry :: "gm_memory \<Rightarrow> u64 \<Rightarrow> u64 \<Rightarrow> u64" where
  "entry m e i = phys_mem m ((e AND addr_mask) + 8 * i)"

definition page_walk :: "gm_memory \<Rightarrow> u64 \<Rightarrow> u64 \<Rightarrow> u64 option" where
  "page_walk m cr3 va =
     (let e4 = entry m cr3 (drop_bit 39 va AND 0x1ff) in
      if e4 AND 5 \<noteq> 5 then None
      else let e3 = entry m e4 (drop_bit 30 va AND 0x1ff) in
        if e3 AND 5 \<noteq> 5 then None
        else if e3 AND 0x80 \<noteq> 0 then Some ((e3 AND addr_mask AND NOT 0x3fffffff) + (va AND 0x3fffffff))
        else let e2 = entry m e3 (drop_bit 21 va AND 0x1ff) in
          if e2 AND 5 \<noteq> 5 then None
          else if e2 AND 0x80 \<noteq> 0 then Some ((e2 AND addr_mask AND NOT 0x1fffff) + (va AND 0x1fffff))
          else let e1 = entry m e2 (drop_bit 12 va AND 0x1ff) in
            if e1 AND 5 \<noteq> 5 then None else Some ((e1 AND addr_mask) + (va AND 0xfff)))"

definition canonical :: "u64 \<Rightarrow> bool" where
  "canonical va \<longleftrightarrow> unat va < 2 ^ 47 \<or> unat va \<ge> 2 ^ 64 - 2 ^ 47"

definition level :: "nat \<Rightarrow> u64 \<Rightarrow> nat" where
  "level k va = unat va div 2 ^ k mod 512"

lemma level_word: "drop_bit k va AND 0x1ff = of_nat (level k va)" for va :: u64
proof -
  have "drop_bit k va AND 0x1ff = take_bit 9 (drop_bit k va)" by (simp add: take_bit_eq_mask mask_eq_exp_minus_1)
  also have "\<dots> = of_nat (unat (take_bit 9 (drop_bit k va)))" by simp
  also have "unat (take_bit 9 (drop_bit k va)) = level k va"
    using unat_bounds(4) [of va]
    by (simp only: level_def unsigned_take_bit_eq unsigned_drop_bit_eq) (simp add: take_bit_nat_def drop_bit_nat_def)
  finally show ?thesis .
qed

lemma level_less [simp]: "level k va < 512"
  by (simp add: level_def)

lemma entry_tab: "e AND addr_mask = pg P c \<Longrightarrow> entry m e (of_nat i) = tab P m c i"
  by (simp add: entry_def tab_def pg_def algebra_simps)

lemma entry_flags: "paged x \<Longrightarrow> (x OR 7) AND 5 = 5" "paged x \<Longrightarrow> (x OR 7) AND 0x80 = 0"
proof -
  assume "paged x"
  then have x: "x AND addr_mask = x" by (simp add: paged_def)
  show "(x OR 7) AND 5 = 5"
  proof -
    have "x AND 5 = (x AND addr_mask) AND 5" using x by simp
    then have "x AND 5 = 0" by (simp add: and.assoc)
    then show ?thesis by (simp add: bit.conj_disj_distrib2)
  qed
  show "(x OR 7) AND 0x80 = 0"
  proof -
    have "x AND 0x80 = (x AND addr_mask) AND 0x80" using x by simp
    then have "x AND 0x80 = 0" by (simp add: and.assoc)
    then show ?thesis by (simp add: bit.conj_disj_distrib2)
  qed
qed

lemma walk_space:
  assumes "space P b 22 m" "pool P m" "b + 25 \<le> 100"
  shows "page_walk m (pg P b) va =
    (if level 39 va = 0 \<and> level 30 va = 1 \<and> level 21 va = 0 \<and> level 12 va < 22 \<and> level 12 va \<noteq> 17
     then Some (pg P (dpage b (level 12 va)) + (va AND 0xfff)) else None)"
proof -
  have pd: "paged (pg P (b + c))" if "c < 25" for c using pool_paged [OF assms(2), of "b + c"] that assms(3) by simp
  note e = paged_entry [OF pd] note f = entry_flags [OF pd]
  have e0: "pg P b AND addr_mask = pg P b" using pd [of 0] by (simp add: paged_def)
  have top: "tab P m b i = (if i = 0 then pg P (b + 2) OR 7 else 0)" if "i < 256" for i using assms(1) that by (simp add: space_def top_def)
  have half: "tab P m b i AND 4 = 0" if "256 \<le> i" "i < 512" for i using assms(1) that by (simp add: space_def top_def)
  have no: "tab P m b i AND 5 \<noteq> 5" if "i \<noteq> 0" "i < 512" for i
  proof (cases "i < 256")
    case False
    then have z: "tab P m b i AND 4 = 0" using half that(2) by simp
    show ?thesis
    proof
      assume "tab P m b i AND 5 = 5"
      then have "(tab P m b i AND 5) AND 4 = 4" by simp
      then show False using z by (simp add: and.assoc)
    qed
  qed (use top that in simp)
  have e4: "entry m (pg P b) (of_nat (level 39 va)) = tab P m b (level 39 va)" by (rule entry_tab [OF e0])
  have e3: "entry m (pg P (b + 2) OR 7) (of_nat (level 30 va)) = (if level 30 va = 1 then pg P (b + 3) OR 7 else 0)"
    using entry_tab [OF e [of 2], of m "level 30 va"] assms(1) by (simp add: space_def)
  have e2: "entry m (pg P (b + 3) OR 7) (of_nat (level 21 va)) = (if level 21 va = 0 then pg P (b + 4) OR 7 else 0)"
    using entry_tab [OF e [of 3], of m "level 21 va"] assms(1) by (simp add: space_def)
  have e1: "entry m (pg P (b + 4) OR 7) (of_nat (level 12 va)) =
      (if level 12 va < 22 \<and> level 12 va \<noteq> 17 then pg P (dpage b (level 12 va)) OR 7 else 0)"
    using entry_tab [OF e [of 4], of m "level 12 va"] assms(1) by (simp add: space_def)
  have d: "\<exists>c < 25. dpage b i = b + c" if "i < 22" "i \<noteq> 17" for i
    using that by (intro exI [of _ "dpage 0 i"]) (auto simp: dpage_def)
  have g: "((pg P (dpage b i) OR 7) AND 5 = 5) \<and> ((pg P (dpage b i) OR 7) AND addr_mask = pg P (dpage b i))" if "i < 22" "i \<noteq> 17" for i
    using d [OF that] e f by auto
  have n4: "tab P m b (level 39 va) AND 5 \<noteq> 5" if "level 39 va \<noteq> 0" using no that by simp
  have y4: "tab P m b (level 39 va) = pg P (b + 2) OR 7" if "level 39 va = 0" using top [of 0] that by simp
  show ?thesis
  proof (cases "level 39 va = 0 \<and> level 30 va = 1 \<and> level 21 va = 0 \<and> level 12 va < 22 \<and> level 12 va \<noteq> 17")
    case True
    have E: "entry m (pg P b) (of_nat (level 39 va)) = pg P (b + 2) OR 7" "entry m (pg P (b + 2) OR 7) (of_nat (level 30 va)) = pg P (b + 3) OR 7"
        "entry m (pg P (b + 3) OR 7) (of_nat (level 21 va)) = pg P (b + 4) OR 7"
        "entry m (pg P (b + 4) OR 7) (of_nat (level 12 va)) = pg P (dpage b (level 12 va)) OR 7"
      using True e4 y4 e3 e2 e1 by simp_all
    show ?thesis unfolding page_walk_def Let_def level_word E using True f [of 2] f [of 3] f [of 4] g [of "level 12 va"] by simp
  next
    case False
    then consider "level 39 va \<noteq> 0" | "level 39 va = 0" "level 30 va \<noteq> 1" | "level 39 va = 0" "level 30 va = 1" "level 21 va \<noteq> 0"
      | "level 39 va = 0" "level 30 va = 1" "level 21 va = 0" "\<not> (level 12 va < 22 \<and> level 12 va \<noteq> 17)"
      by (cases "level 39 va = 0"; cases "level 30 va = 1"; cases "level 21 va = 0") auto
    then show ?thesis
    proof cases
      case 1
      then show ?thesis unfolding page_walk_def Let_def level_word e4 using n4 by simp
    next
      case 2
      then have E: "entry m (pg P b) (of_nat (level 39 va)) = pg P (b + 2) OR 7" "entry m (pg P (b + 2) OR 7) (of_nat (level 30 va)) = 0"
        using e4 y4 e3 by simp_all
      show ?thesis unfolding page_walk_def Let_def level_word E using 2 by simp
    next
      case 3
      then have E: "entry m (pg P b) (of_nat (level 39 va)) = pg P (b + 2) OR 7" "entry m (pg P (b + 2) OR 7) (of_nat (level 30 va)) = pg P (b + 3) OR 7"
          "entry m (pg P (b + 3) OR 7) (of_nat (level 21 va)) = 0"
        using e4 y4 e3 e2 by simp_all
      show ?thesis unfolding page_walk_def Let_def level_word E using 3 f [of 3] by simp
    next
      case 4
      then have E: "entry m (pg P b) (of_nat (level 39 va)) = pg P (b + 2) OR 7" "entry m (pg P (b + 2) OR 7) (of_nat (level 30 va)) = pg P (b + 3) OR 7"
          "entry m (pg P (b + 3) OR 7) (of_nat (level 21 va)) = pg P (b + 4) OR 7" "entry m (pg P (b + 4) OR 7) (of_nat (level 12 va)) = 0"
        using e4 y4 e3 e2 by (auto simp: e1)
      show ?thesis unfolding page_walk_def Let_def level_word E using 4 f [of 3] f [of 4] by simp
    qed
  qed
qed

text \<open>The user range, by its pages.\<close>

lemma level_sum: "unat va = unat va mod 4096 + 4096 * (level 12 va + 512 * (level 21 va + 512 * (level 30 va + 512 * (level 39 va + 512 * (unat va div 2 ^ 48)))))"
proof -
  have s: "n div 2 ^ k = n div 2 ^ k mod 512 + 512 * (n div 2 ^ (k + 9))" for n k :: nat
    using div_mod_decomp [of "n div 2 ^ k" 512] by (simp add: div_mult2_eq [symmetric] power_add mult.commute)
  have e: "unat va div 2 ^ 12 = level 12 va + 512 * (unat va div 2 ^ 21)" "unat va div 2 ^ 21 = level 21 va + 512 * (unat va div 2 ^ 30)"
      "unat va div 2 ^ 30 = level 30 va + 512 * (unat va div 2 ^ 39)" "unat va div 2 ^ 39 = level 39 va + 512 * (unat va div 2 ^ 48)"
    using s [of "unat va" 12] s [of "unat va" 21] s [of "unat va" 30] s [of "unat va" 39] unfolding level_def by simp_all
  have "unat va = unat va mod 4096 + 4096 * (unat va div 2 ^ 12)" by simp
  then show ?thesis unfolding e .
qed

lemma user_addr_level:
  assumes "canonical va"
  shows "level 39 va = 0 \<and> level 30 va = 1 \<and> level 21 va = 0 \<and> level 12 va < 22 \<and> level 12 va \<noteq> 17 \<longleftrightarrow> user_addr va"
    and "user_addr va \<Longrightarrow> unat va = 1073741824 + 4096 * level 12 va + unat va mod 4096"
proof -
  define n r a b c d q where v: "n = unat va" "r = n mod 4096" "a = level 12 va" "b = level 21 va" "c = level 30 va" "d = level 39 va" "q = n div 2 ^ 48"
  have "n = r + 4096 * (a + 512 * (b + 512 * (c + 512 * (d + 512 * q))))" using level_sum [of va] unfolding v .
  then have n: "n = r + 4096 * a + 2097152 * b + 1073741824 * c + 549755813888 * d + 281474976710656 * q" by simp
  have r: "r < 4096" "a < 512" "b < 512" "c < 512" "d < 512" unfolding v by simp_all
  have "n < 2 ^ 64" unfolding v using unat_bounds(4) [of va] by simp
  then have can: "n < 140737488355328 \<or> 18446603336221196288 \<le> n" "n < 18446744073709551616" using assms unfolding canonical_def v by simp_all
  have u: "user_addr va \<longleftrightarrow> 1073741824 \<le> n \<and> n < 1073811456 \<or> 1073815552 \<le> n \<and> n < 1073831936"
    unfolding user_addr_def word_le_nat_alt word_less_nat_alt v by simp
  have low: "d = 0 \<and> c = 1 \<and> b = 0 \<and> q = 0" if "1073741824 \<le> n" "n < 1075838976"
  proof -
    have "q = 0" using n that by linarith
    moreover have "d = 0" using n that by linarith
    ultimately have z: "q = 0" "d = 0" by simp_all
    then have c: "c = 1" using n r that by linarith
    then have "b = 0" using n that z by linarith
    then show ?thesis using z c by simp
  qed
  have zero: "q = 0" if d: "d = 0" "c = 1"
  proof (cases "n < 140737488355328")
    case True
    then show ?thesis using n by linarith
  next
    case False
    then have "18446603336221196288 \<le> n" using can by simp
    moreover have "q < 65536" using n can by linarith
    ultimately show ?thesis using n r d by linarith
  qed
  show "level 39 va = 0 \<and> level 30 va = 1 \<and> level 21 va = 0 \<and> level 12 va < 22 \<and> level 12 va \<noteq> 17 \<longleftrightarrow> user_addr va"
    unfolding u v(3-6) [symmetric]
  proof
    assume "d = 0 \<and> c = 1 \<and> b = 0 \<and> a < 22 \<and> a \<noteq> 17"
    then show "1073741824 \<le> n \<and> n < 1073811456 \<or> 1073815552 \<le> n \<and> n < 1073831936" using n r zero by auto
  next
    assume h: "1073741824 \<le> n \<and> n < 1073811456 \<or> 1073815552 \<le> n \<and> n < 1073831936"
    then have "d = 0 \<and> c = 1 \<and> b = 0 \<and> q = 0" using low by auto
    then show "d = 0 \<and> c = 1 \<and> b = 0 \<and> a < 22 \<and> a \<noteq> 17" using n r h by auto
  qed
  assume "user_addr va"
  then have "d = 0 \<and> c = 1 \<and> b = 0 \<and> q = 0" using low u by auto
  then show "unat va = 1073741824 + 4096 * level 12 va + unat va mod 4096" using n unfolding v by simp
qed

text \<open>An access in user mode reaches a byte exactly at the user addresses.\<close>

lemma walk_user:
  assumes "space P b 22 m" "pool P m" "b + 25 \<le> 100" "canonical va"
  shows "page_walk m (pg P b) va = (if user_addr va then Some (pg P (dpage b (level 12 va)) + (va AND 0xfff)) else None)"
  unfolding walk_space [OF assms(1-3)] user_addr_level(1) [OF assms(4)] ..

lemma low_bits: "unat (va AND 0xfff :: u64) = unat va mod 4096"
proof -
  have "va AND 0xfff = take_bit 12 va" by (simp add: take_bit_eq_mask mask_eq_exp_minus_1)
  then show ?thesis by (simp add: unsigned_take_bit_eq take_bit_nat_def)
qed

lemma dpage_range: "k < 22 \<Longrightarrow> k \<noteq> 17 \<Longrightarrow> b < dpage b k \<and> dpage b k < b + 25 \<and> dpage b k \<notin> {b + 2, b + 3, b + 4}"
  by (auto simp: dpage_def)

lemma dpage_inj: "k < 22 \<Longrightarrow> k \<noteq> 17 \<Longrightarrow> l < 22 \<Longrightarrow> l \<noteq> 17 \<Longrightarrow> dpage b k = dpage b l \<Longrightarrow> k = l"
  by (auto simp: dpage_def split: if_splits)

lemma byte_at:
  assumes "pool P m" "c < 100" "x < 4096"
  shows "unat (pg P c + of_nat x) = unat P + 4096 * c + x"
proof -
  have "unat (pg P c) = unat P + 4096 * c" using pg_unat assms(1,2) by (simp add: pool_def)
  moreover have "unat (of_nat x :: u64) = x" using assms(3) by (simp add: unat_of_nat)
  ultimately show ?thesis using assms unat_add_le [of "pg P c" "of_nat x"] by (simp add: pool_def)
qed

lemma page_split: "4096 * a + r = 4096 * b + q \<Longrightarrow> r < 4096 \<Longrightarrow> q < 4096 \<Longrightarrow> a = b \<and> r = q" for a :: nat
  by (cases a b rule: linorder_cases) auto

lemma walk_byte:
  assumes "space P b 22 m" "pool P m" "b + 25 \<le> 100" "canonical va" "page_walk m (pg P b) va = Some pa"
  shows "\<exists>k r. k < 22 \<and> k \<noteq> 17 \<and> r < 4096 \<and> unat pa = unat P + 4096 * dpage b k + r \<and> unat va = 1073741824 + 4096 * k + r"
proof -
  let ?k = "level 12 va"
  have u: "user_addr va" and pa: "pa = pg P (dpage b ?k) + (va AND 0xfff)"
    using assms(5) walk_user [OF assms(1-4)] by (auto split: if_splits)
  have k: "?k < 22" "?k \<noteq> 17" using u user_addr_level(1) [OF assms(4)] by auto
  have "va AND 0xfff = of_nat (unat va mod 4096)" 
  proof -
    have "va AND 0xfff = of_nat (unat (va AND 0xfff))" by simp
    then show ?thesis unfolding low_bits .
  qed
  then have "unat pa = unat P + 4096 * dpage b ?k + unat va mod 4096"
    using byte_at [OF assms(2), of "dpage b ?k" "unat va mod 4096"] dpage_range [OF k, of b] assms(3) pa by simp
  moreover have "unat va mod 4096 < 4096" by simp
  ultimately show ?thesis using k user_addr_level(2) [OF assms(4) u] by blast
qed

text \<open>C3: Setting up the programs gives every slot an address space of its own. With 100 free pages
  \<^verbatim>\<open>gm_programs_init\<close> does not panic, and the state it leaves satisfies the invariant of the kernel. In the page tables
  it has built, an access in user mode reaches a byte exactly at the user addresses of the program, so that the guard
  page and the whole kernel are out of reach. Two accesses reach the same physical byte only when they are made by
  the same slot at the same address, and no page table is in reach.\<close>

theorem programs_init_isolates:
  assumes "pool P (gm_mem s)" "gm_page_next (gm_mem s) = P" "net_ok s" "\<forall>c < 100. cpu_cr3 (gm_mem s) \<noteq> pg P c"
  shows "\<exists>t. gm_programs_init s = Ok t \<and> kernel_ok t \<and> per_ok t \<and>
    (\<forall>i va. i < 4 \<and> canonical va \<longrightarrow> (page_walk (gm_mem t) (app_cr3 (gm_apps t ! i)) va \<noteq> None) = user_addr va) \<and>
    (\<forall>i j va wa pa. i < 4 \<and> j < 4 \<and> canonical va \<and> canonical wa \<and> page_walk (gm_mem t) (app_cr3 (gm_apps t ! i)) va = Some pa \<and>
       page_walk (gm_mem t) (app_cr3 (gm_apps t ! j)) wa = Some pa \<longrightarrow> i = j \<and> va = wa) \<and>
    (\<forall>i j c va pa. i < 4 \<and> j < 4 \<and> c \<in> {0, 2, 3, 4} \<and> canonical va \<and> page_walk (gm_mem t) (app_cr3 (gm_apps t ! i)) va = Some pa \<longrightarrow>
       \<not> (unat (pg P (25 * j + c)) \<le> unat pa \<and> unat pa < unat (pg P (25 * j + c)) + 4096))"
proof -
  obtain t where t: "gm_programs_init s = Ok t" "kernel_ok t" "per_ok t" "pool P (gm_mem t)"
      "\<forall>j < 4. space P (25 * j) 22 (gm_mem t) \<and> app_cr3 (gm_apps t ! j) = pg P (25 * j)"
    using programs_init_ok [OF assms] by blast
  have W: "\<exists>k r. k < 22 \<and> k \<noteq> 17 \<and> r < 4096 \<and> unat pa = unat P + 4096 * dpage (25 * i) k + r \<and> unat va = 1073741824 + 4096 * k + r"
    if "i < 4" "canonical va" "page_walk (gm_mem t) (app_cr3 (gm_apps t ! i)) va = Some pa" for i va pa
    using walk_byte [of P "25 * i" "gm_mem t" va pa] t(4,5) that by auto
  have one: "(page_walk (gm_mem t) (app_cr3 (gm_apps t ! i)) va \<noteq> None) = user_addr va" if "i < 4" "canonical va" for i va
    using walk_user [of P "25 * i" "gm_mem t" va] t(4,5) that by auto
  have two: "i = j \<and> va = wa" if h: "i < 4" "j < 4" "canonical va" "canonical wa" "page_walk (gm_mem t) (app_cr3 (gm_apps t ! i)) va = Some pa"
      "page_walk (gm_mem t) (app_cr3 (gm_apps t ! j)) wa = Some pa" for i j va wa pa
  proof -
    obtain k r l q where k: "k < 22" "k \<noteq> 17" "r < 4096" "unat pa = unat P + 4096 * dpage (25 * i) k + r" "unat va = 1073741824 + 4096 * k + r"
      and l: "l < 22" "l \<noteq> 17" "q < 4096" "unat pa = unat P + 4096 * dpage (25 * j) l + q" "unat wa = 1073741824 + 4096 * l + q"
      using W [OF h(1,3,5)] W [OF h(2,4,6)] by blast
    have "4096 * dpage (25 * i) k + r = 4096 * dpage (25 * j) l + q" using k(4) l(4) by simp
    then have d: "dpage (25 * i) k = dpage (25 * j) l" "r = q" using page_split [OF _ k(3) l(3)] by blast+
    have ij: "i = j" using d(1) dpage_range [OF k(1,2), of "25 * i"] dpage_range [OF l(1,2), of "25 * j"] by (cases i j rule: linorder_cases) auto
    then have "k = l" using dpage_inj k(1,2) l(1,2) d(1) by blast
    then show ?thesis using ij d(2) k(5) l(5) by (simp add: word_unat_eq_iff)
  qed
  have three: "\<not> (unat (pg P (25 * j + c)) \<le> unat pa \<and> unat pa < unat (pg P (25 * j + c)) + 4096)"
    if h: "i < 4" "j < 4" "c \<in> {0, 2, 3, 4}" "canonical va" "page_walk (gm_mem t) (app_cr3 (gm_apps t ! i)) va = Some pa" for i j c va pa
  proof -
    obtain k r where k: "k < 22" "k \<noteq> 17" "unat pa = unat P + 4096 * dpage (25 * i) k + r" "r < 4096" using W [OF h(1,4,5)] by blast
    have p: "unat (pg P (25 * j + c)) = unat P + 4096 * (25 * j + c)" using pg_unat [of P "25 * j + c"] t(4) h(2,3) by (auto simp: pool_def)
    have "dpage (25 * i) k \<noteq> 25 * j + c"
    proof (cases "i = j")
      case True
      then show ?thesis using dpage_range [OF k(1,2), of "25 * i"] h(3) by auto
    next
      case False
      then show ?thesis using dpage_range [OF k(1,2), of "25 * i"] h(3) by auto
    qed
    then show ?thesis unfolding p k(3) using k(4) by auto
  qed
  show ?thesis
  proof (intro exI [of _ t] conjI t(1-3))
    show "\<forall>i va. i < 4 \<and> canonical va \<longrightarrow> (page_walk (gm_mem t) (app_cr3 (gm_apps t ! i)) va \<noteq> None) = user_addr va"
      using one by simp
  qed (intro allI impI, elim conjE, rule two three, assumption+)+
qed

definition boot_example :: gm_programs where
  "boot_example = programs_example\<lparr>gm_mem := mem_example\<rparr>"

theorem programs_init_isolates_witness:
  "\<exists>t. gm_programs_init boot_example = Ok t \<and> kernel_ok t \<and> page_walk (gm_mem t) (app_cr3 (gm_apps t ! 2)) program_guard = None"
proof -
  have p: "pool 0x2000000 (gm_mem boot_example)" by (simp add: pool_def paged_def boot_example_def mem_example_def)
  have n: "net_ok boot_example" using kernel_ok_example(1) by (simp add: boot_example_def kernel_ok_def prog_ok_def)
  have c: "\<forall>c < 100. cpu_cr3 (gm_mem boot_example) \<noteq> pg 0x2000000 c"
  proof (intro allI impI)
    fix c :: nat
    assume "c < 100"
    then have "unat (pg 0x2000000 c) = 0x2000000 + 4096 * c" using pg_unat [of "0x2000000" c] by simp
    then show "cpu_cr3 (gm_mem boot_example) \<noteq> pg 0x2000000 c" by (auto simp: boot_example_def mem_example_def)
  qed
  have "gm_page_next (gm_mem boot_example) = 0x2000000" by (simp add: boot_example_def mem_example_def)
  from programs_init_isolates [OF p this n c] obtain t where t: "gm_programs_init boot_example = Ok t" "kernel_ok t"
    "\<forall>i va. i < 4 \<and> canonical va \<longrightarrow> (page_walk (gm_mem t) (app_cr3 (gm_apps t ! i)) va \<noteq> None) = user_addr va" by blast
  have g: "(2 :: nat) < 4 \<and> canonical program_guard" "\<not> user_addr program_guard" by (simp_all add: canonical_def user_addr_def)
  have "page_walk (gm_mem t) (app_cr3 (gm_apps t ! 2)) program_guard = None" using mp [OF spec [OF spec [OF t(3)]] g(1)] g(2) by blast
  then show ?thesis using t(1,2) by blast
qed

end
