(* ===== verification/Core_Irq.thy ===== *)
theory Core_Irq
  imports Gm_Machine
begin

unbundle bit_operations_syntax

section \<open>Descriptor tables, interrupt controllers and timer (\<^verbatim>\<open>core.c\<close>)\<close>

text \<open>
  What \<^verbatim>\<open>gm_serial_init\<close>, \<^verbatim>\<open>gm_irq_init\<close> and \<^verbatim>\<open>gm_timer_init\<close> write: the segment descriptors, the task state segment, the
  interrupt gates and the bytes sent to the device ports, in their order. The addresses that the linker chooses (the
  entry points of \<^verbatim>\<open>isr.asm\<close> and the places of the tables and stacks) are arguments.
\<close>

record gm_idt_entry =
  idt_lo :: u16
  idt_selector :: u16
  idt_ist :: u8
  idt_flags :: u8
  idt_mid :: u16
  idt_hi :: u32
  idt_zero :: u32

record gm_tss =
  tss_rsp0 :: u64
  tss_ist1 :: u64
  tss_iopb :: u16

text \<open>The addresses of the image, and the state: both tables, what the processor was told of them, and the ports.\<close>

record gm_image =
  gm_isr :: "nat \<Rightarrow> u64"
  addr_gdt :: u64
  addr_idt :: u64
  addr_tss :: u64
  addr_ring0_stack :: u64
  addr_df_stack :: u64

record gm_tables =
  gm_gdt :: "u64 list"
  gm_tss_seg :: gm_tss
  gm_idt :: "gm_idt_entry list"
  cpu_gdtr :: "u16 \<times> u64"
  cpu_idtr :: "u16 \<times> u64"
  port_log :: "(u16 \<times> u8) list"

definition gm_outb :: "u16 \<Rightarrow> u8 \<Rightarrow> gm_tables \<Rightarrow> gm_tables" where
  "gm_outb port v t = t\<lparr>port_log := port_log t @ [(port, v)]\<rparr>"

definition outs :: "(u16 \<times> u8) list \<Rightarrow> gm_tables \<Rightarrow> gm_tables" where
  "outs ps t = fold (\<lambda>(p, v). gm_outb p v) ps t"

definition gm_serial_init :: "gm_tables \<Rightarrow> gm_tables" where
  "gm_serial_init t = outs [(0x3f8 + 1, 0x00), (0x3f8 + 3, 0x80), (0x3f8 + 0, 0x01), (0x3f8 + 1, 0x00), (0x3f8 + 3, 0x03),
     (0x3f8 + 2, 0xc7), (0x3f8 + 4, 0x0b)] t"

definition tss_size :: nat where
  "tss_size = 4 + 3 * 8 + 8 + 7 * 8 + 8 + 2 + 2"

definition tss_descriptor :: "u64 \<Rightarrow> u64 \<Rightarrow> u64" where
  "tss_descriptor base limit =
     (limit AND 0xffff) OR push_bit 16 (base AND 0xffffff) OR push_bit 40 0x89 OR
     push_bit 48 (drop_bit 16 limit AND 0x0f) OR push_bit 56 (drop_bit 24 base AND 0xff)"

definition gm_gdt_init :: "gm_image \<Rightarrow> gm_tables \<Rightarrow> gm_tables" where
  "gm_gdt_init im t =
     (let gdt = replicate 7 0;
          tss = \<lparr>tss_rsp0 = addr_ring0_stack im + 16384, tss_ist1 = addr_df_stack im + 8192, tss_iopb = of_nat tss_size\<rparr>;
          gdt = gdt[1 := 0x00af9a000000ffff, 2 := 0x00cf92000000ffff, 3 := 0x00cff2000000ffff, 4 := 0x00affa000000ffff];
          base = addr_tss im; limit = of_nat tss_size - 1;
          gdt = gdt[5 := tss_descriptor base limit, 6 := drop_bit 32 base] in
      t\<lparr>gm_gdt := gdt, gm_tss_seg := tss, cpu_gdtr := (7 * 8 - 1, addr_gdt im)\<rparr>)"

definition idt_zero_entry :: gm_idt_entry where
  "idt_zero_entry = \<lparr>idt_lo = 0, idt_selector = 0, idt_ist = 0, idt_flags = 0, idt_mid = 0, idt_hi = 0, idt_zero = 0\<rparr>"

definition gm_idt_gate :: "nat \<Rightarrow> u64 \<Rightarrow> u8 \<Rightarrow> u8 \<Rightarrow> gm_tables \<Rightarrow> gm_tables" where
  "gm_idt_gate vector addr flags ist t =
     t\<lparr>gm_idt := (gm_idt t)[vector := \<lparr>idt_lo = ucast addr, idt_selector = 0x08, idt_ist = ist, idt_flags = flags,
         idt_mid = ucast (drop_bit 16 addr), idt_hi = ucast (drop_bit 32 addr), idt_zero = 0\<rparr>]\<rparr>"

text \<open>The calls of \<^verbatim>\<open>gm_idt_gate\<close> in their order: vector, flags and stack index.\<close>

definition gate_list :: "(nat \<times> u8 \<times> u8) list" where
  "gate_list = [(0, 0x8e, 0), (1, 0x8e, 0), (3, 0xef, 0), (4, 0xef, 0), (5, 0x8e, 0), (6, 0x8e, 0), (7, 0x8e, 0), (8, 0x8e, 1),
     (10, 0x8e, 0), (11, 0x8e, 0), (12, 0x8e, 0), (13, 0x8e, 0), (14, 0x8e, 0), (16, 0x8e, 0), (17, 0x8e, 0), (19, 0x8e, 0),
     (32, 0x8e, 0), (0x80, 0xef, 0)]"

definition gm_irq_init :: "gm_image \<Rightarrow> gm_tables \<Rightarrow> gm_tables" where
  "gm_irq_init im t =
     (let t = gm_gdt_init im t;
          t = t\<lparr>gm_idt := replicate 256 idt_zero_entry\<rparr>;
          t = fold (\<lambda>(v, flags, ist). gm_idt_gate v (gm_isr im v) flags ist) gate_list t;
          t = t\<lparr>cpu_idtr := (256 * 16 - 1, addr_idt im)\<rparr> in
      outs [(0x20, 0x11), (0xa0, 0x11), (0x21, 0x20), (0xa1, 0x28), (0x21, 0x04), (0xa1, 0x02), (0x21, 0x01), (0xa1, 0x01),
        (0x21, 0xfe), (0xa1, 0xff)] t)"

definition gm_timer_init :: "gm_tables \<Rightarrow> 'a gm_machine_scheme \<Rightarrow> gm_tables \<times> 'a gm_machine_scheme" where
  "gm_timer_init t s =
     (let divisor = (1193182 :: u32) div 100; s = s\<lparr>gm_tick_count := 0\<rparr> in
      (outs [(0x43, 0x36), (0x40, ucast divisor), (0x40, ucast (drop_bit 8 divisor))] t, s))"


subsection \<open>What the processor makes of the tables\<close>

text \<open>The entry point and the privilege of a gate, the selector of a descriptor, and the last byte sent to a port.\<close>

definition gate_target :: "gm_idt_entry \<Rightarrow> u64" where
  "gate_target e = ucast (idt_lo e) OR push_bit 16 (ucast (idt_mid e)) OR push_bit 32 (ucast (idt_hi e))"

definition gate_present :: "gm_idt_entry \<Rightarrow> bool" where
  "gate_present e \<longleftrightarrow> idt_flags e AND 0x80 \<noteq> 0"

definition gate_dpl :: "gm_idt_entry \<Rightarrow> u8" where
  "gate_dpl e = drop_bit 5 (idt_flags e) AND 3"

definition seg_dpl :: "u64 \<Rightarrow> u64" where
  "seg_dpl d = drop_bit 45 d AND 3"

definition seg_base :: "u64 \<Rightarrow> u64 \<Rightarrow> u64" where
  "seg_base lo hi = (drop_bit 16 lo AND 0xffffff) OR push_bit 24 (drop_bit 56 lo AND 0xff) OR push_bit 32 hi"

definition last_out :: "u16 \<Rightarrow> gm_tables \<Rightarrow> u8 option" where
  "last_out p t = (case filter (\<lambda>(q, v). q = p) (rev (port_log t)) of [] \<Rightarrow> None | (q, v) # _ \<Rightarrow> Some v)"

lemma gate_target_split: "gate_target \<lparr>idt_lo = ucast a, idt_selector = sel, idt_ist = ist, idt_flags = fl,
    idt_mid = ucast (drop_bit 16 a), idt_hi = ucast (drop_bit 32 a), idt_zero = z\<rparr> = (a :: u64)"
proof (rule bit_word_eqI)
  fix n
  assume "n < LENGTH(64)"
  then consider "n < 16" | "16 \<le> n \<and> n < 32" | "32 \<le> n \<and> n < 64" by fastforce
  then show "bit (gate_target \<lparr>idt_lo = ucast a, idt_selector = sel, idt_ist = ist, idt_flags = fl,
    idt_mid = ucast (drop_bit 16 a), idt_hi = ucast (drop_bit 32 a), idt_zero = z\<rparr>) n = bit a n"
    by cases (auto simp: gate_target_def bit_simps)
qed

lemma outs_log: "outs ps t = t\<lparr>port_log := port_log t @ ps\<rparr>"
proof -
  have "fold (\<lambda>(p, v). gm_outb p v) ps t = t\<lparr>port_log := port_log t @ ps\<rparr>"
    by (induction ps arbitrary: t) (auto simp: gm_outb_def)
  then show ?thesis by (simp add: outs_def)
qed

text \<open>A list of gates with different vectors: each ends up at its place, the others stay.\<close>

lemma gates_frame:
  "length (gm_idt (fold (\<lambda>(v, flags, ist). gm_idt_gate v (h v) flags ist) gs t)) = length (gm_idt t)"
  "v \<notin> fst ` set gs \<Longrightarrow> gm_idt (fold (\<lambda>(v, flags, ist). gm_idt_gate v (h v) flags ist) gs t) ! v = gm_idt t ! v"
  by (induction gs arbitrary: t) (auto simp: gm_idt_gate_def nth_list_update)

lemma gates_at:
  assumes "(v, flags, ist) \<in> set gs" "distinct (map fst gs)" "v < length (gm_idt t)"
  shows "gm_idt (fold (\<lambda>(v, flags, ist). gm_idt_gate v (h v) flags ist) gs t) ! v =
    \<lparr>idt_lo = ucast (h v), idt_selector = 0x08, idt_ist = ist, idt_flags = flags,
     idt_mid = ucast (drop_bit 16 (h v)), idt_hi = ucast (drop_bit 32 (h v)), idt_zero = 0\<rparr>"
  using assms
proof (induction gs arbitrary: t)
  case (Cons g gs)
  obtain w fl st where g: "g = (w, fl, st)" by (cases g)
  let ?t = "gm_idt_gate w (h w) fl st t"
  have len: "v < length (gm_idt ?t)" using Cons.prems(3) by (simp add: gm_idt_gate_def)
  show ?case
  proof (cases "(v, flags, ist) \<in> set gs")
    case True
    then show ?thesis using Cons.IH [OF True _ len] Cons.prems(2) g by simp
  next
    case False
    then have e: "w = v" "fl = flags" "st = ist" using Cons.prems(1) g by auto
    then have "v \<notin> fst ` set gs" using Cons.prems(2) g by simp
    then show ?thesis using gates_frame(2) [of v gs h ?t] Cons.prems(3) e g by simp (simp add: gm_idt_gate_def)
  qed
qed simp

lemma irq_init_idt:
  "length (gm_idt (gm_irq_init im t)) = 256"
  "(v, flags, ist) \<in> set gate_list \<Longrightarrow> gm_idt (gm_irq_init im t) ! v =
    \<lparr>idt_lo = ucast (gm_isr im v), idt_selector = 0x08, idt_ist = ist, idt_flags = flags,
     idt_mid = ucast (drop_bit 16 (gm_isr im v)), idt_hi = ucast (drop_bit 32 (gm_isr im v)), idt_zero = 0\<rparr>"
  "v < 256 \<Longrightarrow> v \<notin> fst ` set gate_list \<Longrightarrow> gm_idt (gm_irq_init im t) ! v = idt_zero_entry"
proof -
  let ?t = "(gm_gdt_init im t)\<lparr>gm_idt := replicate 256 idt_zero_entry\<rparr>"
  have e: "gm_idt (gm_irq_init im t) = gm_idt (fold (\<lambda>(v, flags, ist). gm_idt_gate v (gm_isr im v) flags ist) gate_list ?t)"
    by (simp add: gm_irq_init_def Let_def outs_log)
  show "length (gm_idt (gm_irq_init im t)) = 256" unfolding e gates_frame(1) by simp
  show "gm_idt (gm_irq_init im t) ! v = idt_zero_entry" if "v < 256" "v \<notin> fst ` set gate_list"
    unfolding e gates_frame(2) [OF that(2)] using that(1) by simp
  assume g: "(v, flags, ist) \<in> set gate_list"
  have "distinct (map fst gate_list)" "v < length (gm_idt ?t)" using g by (auto simp: gate_list_def)
  then show "gm_idt (gm_irq_init im t) ! v =
    \<lparr>idt_lo = ucast (gm_isr im v), idt_selector = 0x08, idt_ist = ist, idt_flags = flags,
     idt_mid = ucast (drop_bit 16 (gm_isr im v)), idt_hi = ucast (drop_bit 32 (gm_isr im v)), idt_zero = 0\<rparr>"
    unfolding e by (rule gates_at [OF g])
qed

lemma tss_base_bits:
  "(drop_bit 16 ((l AND mask 16) OR push_bit 16 (b AND mask 24) OR push_bit 40 (t AND mask 8) OR push_bit 48 (u AND mask 4) OR
      push_bit 56 (drop_bit 24 b AND mask 8)) AND mask 24) OR
   push_bit 24 (drop_bit 56 ((l AND mask 16) OR push_bit 16 (b AND mask 24) OR push_bit 40 (t AND mask 8) OR push_bit 48 (u AND mask 4) OR
      push_bit 56 (drop_bit 24 b AND mask 8)) AND mask 8) OR push_bit 32 (drop_bit 32 b) = (b :: u64)"
proof (rule bit_word_eqI)
  fix n
  assume "n < LENGTH(64)"
  then consider "n < 24" | "24 \<le> n \<and> n < 32" | "32 \<le> n \<and> n < 64" by fastforce
  then show "bit ((drop_bit 16 ((l AND mask 16) OR push_bit 16 (b AND mask 24) OR push_bit 40 (t AND mask 8) OR push_bit 48 (u AND mask 4) OR
      push_bit 56 (drop_bit 24 b AND mask 8)) AND mask 24) OR
   push_bit 24 (drop_bit 56 ((l AND mask 16) OR push_bit 16 (b AND mask 24) OR push_bit 40 (t AND mask 8) OR push_bit 48 (u AND mask 4) OR
      push_bit 56 (drop_bit 24 b AND mask 8)) AND mask 8) OR push_bit 32 (drop_bit 32 b)) n = bit b n"
    by cases (auto simp: bit_or_iff bit_and_iff bit_push_bit_iff bit_drop_bit_eq bit_mask_iff)
qed

lemma tss_base: "seg_base (tss_descriptor base limit) (drop_bit 32 base) = (base :: u64)"
proof -
  have m: "(0xffffff :: u64) = mask 24" "(0xffff :: u64) = mask 16" "(0xff :: u64) = mask 8" "(0x0f :: u64) = mask 4"
      "(0x89 :: u64) = 0x89 AND mask 8"
    by (simp_all add: mask_eq_exp_minus_1)
  show ?thesis unfolding seg_base_def tss_descriptor_def m(1-4) by (subst (1 2) m(5)) (rule tss_base_bits)
qed

text \<open>Every vector: one with a gate and one without.\<close>

definition gate_vectors :: "nat set" where
  "gate_vectors = {0, 1, 3, 4, 5, 6, 7, 8, 10, 11, 12, 13, 14, 16, 17, 19, 32, 0x80}"

lemma gate_vectors_list: "gate_vectors = fst ` set gate_list"
  by (simp add: gate_vectors_def gate_list_def)

lemma irq_gate:
  fixes im :: gm_image and t :: gm_tables
  assumes "v \<in> gate_vectors"
  defines "e \<equiv> gm_idt (gm_irq_init im t) ! v"
  shows "gate_target e = gm_isr im v" "idt_selector e = 0x08" "v < 256" "gate_present e" "gate_dpl e = 3 \<longleftrightarrow> v \<in> {3, 4, 0x80}"
    "idt_ist e \<noteq> 0 \<longleftrightarrow> v = 8"
proof -
  obtain flags ist where g: "(v, flags, ist) \<in> set gate_list" using assms(1) gate_vectors_list by force
  then have f: "flags AND 0x80 \<noteq> 0 \<and> v < 256 \<and> (drop_bit 5 flags AND 3 = 3) = (v \<in> {3, 4, 0x80}) \<and> (ist \<noteq> 0) = (v = 8)"
    by (auto simp: gate_list_def)
  note e = irq_init_idt(2) [OF g, of im t, folded e_def]
  show "gate_target e = gm_isr im v" unfolding e gate_target_split ..
  show "idt_selector e = 0x08" "v < 256" "gate_present e" "gate_dpl e = 3 \<longleftrightarrow> v \<in> {3, 4, 0x80}" "idt_ist e \<noteq> 0 \<longleftrightarrow> v = 8"
    using f unfolding e gate_present_def gate_dpl_def by simp_all
qed

lemma irq_no_gate:
  assumes "v \<notin> gate_vectors" "v < 256"
  shows "\<not> gate_present (gm_idt (gm_irq_init im t) ! v)" "idt_ist (gm_idt (gm_irq_init im t) ! v) = 0"
  using irq_init_idt(3) [OF assms(2), of im t] assms(1) by (simp_all add: gate_vectors_list gate_present_def idt_zero_entry_def)

lemma irq_init_gdt:
  "gm_gdt (gm_irq_init im t) = [0, 0x00af9a000000ffff, 0x00cf92000000ffff, 0x00cff2000000ffff, 0x00affa000000ffff,
      tss_descriptor (addr_tss im) (of_nat tss_size - 1), drop_bit 32 (addr_tss im)]"
proof -
  have f: "gm_gdt (fold (\<lambda>(v, flags, ist). gm_idt_gate v (h v) flags ist) gs x) = gm_gdt x" for h gs x
    by (induction gs arbitrary: x) (auto simp: gm_idt_gate_def)
  show ?thesis by (simp add: gm_irq_init_def Let_def outs_log f gm_gdt_init_def numeral_eq_Suc)
qed

lemma irq_init_ports: "last_out 0x21 (gm_irq_init im t) = Some 0xfe" "last_out 0xa1 (gm_irq_init im t) = Some 0xff"
  by (simp_all add: gm_irq_init_def Let_def outs_log last_out_def)

text \<open>C19: The interrupt set-up lets user mode in through exactly the gates it should. Every vector with a gate enters the handler
  that belongs to it, with the kernel's code segment and interrupt stack, and all other vectors are absent. Of the gates
  only the breakpoint, the overflow and the service call can be raised by a program itself, the double fault has a stack of its own,
  the program segments are the only ones with user privilege, and of the two interrupt controllers only the timer line is open.\<close>

theorem interrupts_set_up:
  "let u = gm_irq_init im t in
    length (gm_idt u) = 256 \<and> {v. v < 256 \<and> gate_present (gm_idt u ! v)} = gate_vectors \<and>
    {v \<in> gate_vectors. gate_target (gm_idt u ! v) = gm_isr im v \<and> idt_selector (gm_idt u ! v) = 0x08} = gate_vectors \<and>
    {v. v < 256 \<and> gate_present (gm_idt u ! v) \<and> gate_dpl (gm_idt u ! v) = 3} = {3, 4, 0x80} \<and>
    {v. v < 256 \<and> idt_ist (gm_idt u ! v) \<noteq> 0} = {8} \<and>
    {i. i < 5 \<and> seg_dpl (gm_gdt u ! i) = 3} = {3, 4} \<and> seg_base (gm_gdt u ! 5) (gm_gdt u ! 6) = addr_tss im \<and>
    last_out 0x21 u = Some 0xfe \<and> last_out 0xa1 u = Some 0xff"
proof -
  let ?u = "gm_irq_init im t"
  have sub: "v \<in> gate_vectors" if "v \<in> {3, 4, 0x80, 8}" for v using that by (auto simp: gate_vectors_def)
  have "v < 256 \<and> gate_present (gm_idt ?u ! v) \<longleftrightarrow> v \<in> gate_vectors" for v
    using irq_gate(3) [of v] irq_gate(4) [of v im t] irq_no_gate(1) [of v im t] by (cases "v \<in> gate_vectors") simp_all
  then have 1: "{v. v < 256 \<and> gate_present (gm_idt ?u ! v)} = gate_vectors" by simp
  have 2: "{v \<in> gate_vectors. gate_target (gm_idt ?u ! v) = gm_isr im v \<and> idt_selector (gm_idt ?u ! v) = 0x08} = gate_vectors"
    using irq_gate(1,2) by auto
  have "v < 256 \<and> gate_present (gm_idt ?u ! v) \<and> gate_dpl (gm_idt ?u ! v) = 3 \<longleftrightarrow> v \<in> {3, 4, 0x80}" for v
    using irq_gate(3) [of v] irq_gate(4,5) [of v im t] irq_no_gate(1) [of v im t] sub [of v] by (cases "v \<in> gate_vectors") auto
  then have 3: "{v. v < 256 \<and> gate_present (gm_idt ?u ! v) \<and> gate_dpl (gm_idt ?u ! v) = 3} = {3, 4, 0x80}" by blast
  have "v < 256 \<and> idt_ist (gm_idt ?u ! v) \<noteq> 0 \<longleftrightarrow> v = 8" for v
    using irq_gate(3) [of v] irq_gate(6) [of v im t] irq_no_gate(2) [of v im t] sub [of v] by (cases "v \<in> gate_vectors") auto
  then have 4: "{v. v < 256 \<and> idt_ist (gm_idt ?u ! v) \<noteq> 0} = {8}" by blast
  have "i < 5 \<and> seg_dpl (gm_gdt ?u ! i) = 3 \<longleftrightarrow> i \<in> {3, 4}" for i
  proof (cases "i < 5")
    case True
    then consider "i = 0" | "i = 1" | "i = 2" | "i = 3" | "i = 4" by linarith
    then show ?thesis by cases (simp_all add: irq_init_gdt seg_dpl_def)
  qed auto
  then have 5: "{i. i < 5 \<and> seg_dpl (gm_gdt ?u ! i) = 3} = {3, 4}" by blast
  show ?thesis unfolding Let_def using 1 2 3 4 5 irq_init_idt(1) irq_init_ports by (simp add: irq_init_gdt tss_base)
qed

end
