(* ===== verification/Virtio_Init.thy ===== *)
theory Virtio_Init
  imports Virtio_Net Core_Memory
begin

unbundle bit_operations_syntax

section \<open>Finding and starting the network device (\<^verbatim>\<open>virtio.c\<close>, first part)\<close>

text \<open>
  PCI discovery, the capability list, feature negotiation and the set-up of the two queues.

  The hardware is an environment. \<open>pci_answer\<close> gives the value of a read of the configuration space: it may depend on all
  writes made before, but a read has no effect of its own, so that two reads with no write between them agree. This is
  the one thing assumed of the hardware. \<open>env_mmio\<close> lists what the successive reads of the device's registers return (zero
  once the list is used up), and \<open>mmio_log\<close> collects the writes to the registers, which are named by the fields of
  \<^verbatim>\<open>struct gm_virtio_common\<close>. Memory barriers have no counterpart, since reads and writes happen in the order of the source.

  The descriptor tables and the flags of the available rings are fields of their own here (\<open>vrx_desc\<close>, \<open>vtx_desc\<close>, \<open>vrx_flags\<close>,
  \<open>vtx_flags\<close>); the length of a transmit descriptor, which changes with each frame, is \<open>vtx_desc_len\<close> of the data path.
\<close>

datatype vcommon_reg = device_feature_select | device_feature | driver_feature_select | driver_feature | msix_config | num_queues
  | device_status | config_generation | queue_select | queue_size | queue_msix_vector | queue_enable | queue_notify_off
  | queue_desc | queue_driver | queue_device

record gm_virtq_desc =
  d_addr :: u64
  d_len :: u32
  d_flags :: u16
  d_next :: u16

record gm_virtq =
  q_desc :: u64
  q_avail :: u64
  q_used :: u64
  q_notify :: u64

record gm_virtio_cap =
  cap_bar :: u8
  cap_offset :: u32
  cap_length :: u32
  cap_multiplier :: u32
  cap_found :: bool

record virtio_hw =
  pci_answer :: "(u32 \<times> u32) list \<Rightarrow> u32 \<Rightarrow> u32"
  pci_writes :: "(u32 \<times> u32) list"
  env_mmio :: "u64 list"
  mmio_log :: "(vcommon_reg \<times> u64) list"
  gm_vrx_queue :: gm_virtq
  gm_vtx_queue :: gm_virtq
  vrx_desc :: "gm_virtq_desc list"
  vtx_desc :: "gm_virtq_desc list"
  vrx_flags :: u16
  vtx_flags :: u16

subsection \<open>The configuration space\<close>

definition pci_address :: "u8 \<Rightarrow> u8 \<Rightarrow> u8 \<Rightarrow> u8 \<Rightarrow> u32" where
  "pci_address bus dev fn off =
     push_bit 31 1 OR push_bit 16 (ucast bus) OR push_bit 11 (ucast dev) OR push_bit 8 (ucast fn) OR (ucast off AND 0xfc)"

definition gm_pci_read32 :: "u8 \<Rightarrow> u8 \<Rightarrow> u8 \<Rightarrow> u8 \<Rightarrow> virtio_hw \<Rightarrow> u32" where
  "gm_pci_read32 bus dev fn off hw = pci_answer hw (pci_writes hw) (pci_address bus dev fn off)"

definition gm_pci_read16 :: "u8 \<Rightarrow> u8 \<Rightarrow> u8 \<Rightarrow> u8 \<Rightarrow> virtio_hw \<Rightarrow> u16" where
  "gm_pci_read16 bus dev fn off hw = ucast (drop_bit (unat (off AND 2) * 8) (gm_pci_read32 bus dev fn off hw) AND 0xffff)"

definition gm_pci_read8 :: "u8 \<Rightarrow> u8 \<Rightarrow> u8 \<Rightarrow> u8 \<Rightarrow> virtio_hw \<Rightarrow> u8" where
  "gm_pci_read8 bus dev fn off hw = ucast (drop_bit (unat (off AND 3) * 8) (gm_pci_read32 bus dev fn off hw))"

definition gm_pci_write32 :: "u8 \<Rightarrow> u8 \<Rightarrow> u8 \<Rightarrow> u8 \<Rightarrow> u32 \<Rightarrow> virtio_hw \<Rightarrow> virtio_hw" where
  "gm_pci_write32 bus dev fn off v hw = hw\<lparr>pci_writes := pci_writes hw @ [(pci_address bus dev fn off, v)]\<rparr>"

definition gm_pci_write16 :: "u8 \<Rightarrow> u8 \<Rightarrow> u8 \<Rightarrow> u8 \<Rightarrow> u16 \<Rightarrow> virtio_hw \<Rightarrow> virtio_hw" where
  "gm_pci_write16 bus dev fn off v hw =
     (let old = gm_pci_read32 bus dev fn off hw; shift = unat (off AND 2) * 8; m = push_bit shift 0xffff in
      gm_pci_write32 bus dev fn off ((old AND NOT m) OR push_bit shift (ucast v)) hw)"

text \<open>The search over the functions of a device, and over the devices of bus 0.\<close>

fun find_function :: "u8 \<Rightarrow> u8 \<Rightarrow> nat \<Rightarrow> virtio_hw \<Rightarrow> u8 option" where
  "find_function d f 0 hw = None"
| "find_function d f (Suc n) hw =
     (let vendor = gm_pci_read16 0 d f 0 hw in
      if vendor = 0xffff then find_function d (f + 1) n hw
      else
        let device = gm_pci_read16 0 d f 2 hw in
        if vendor = 0x1af4 \<and> device = 0x1041 then Some f else find_function d (f + 1) n hw)"

fun find_device :: "u8 \<Rightarrow> nat \<Rightarrow> virtio_hw \<Rightarrow> (u8 \<times> u8 \<times> u8) option" where
  "find_device d 0 hw = None"
| "find_device d (Suc n) hw =
     (let vendor = gm_pci_read16 0 d 0 0 hw in
      if vendor = 0xffff then find_device (d + 1) n hw
      else
        let header = gm_pci_read8 0 d 0 0x0e hw; maxfn = (if header AND 0x80 \<noteq> 0 then 8 else 1) in
        case find_function d 0 maxfn hw of Some f \<Rightarrow> Some (0, d, f) | None \<Rightarrow> find_device (d + 1) n hw)"

definition gm_virtio_find :: "virtio_hw \<Rightarrow> (u8 \<times> u8 \<times> u8) option" where
  "gm_virtio_find hw = find_device 0 32 hw"

definition gm_pci_bar :: "u8 \<Rightarrow> u8 \<Rightarrow> u8 \<Rightarrow> u8 \<Rightarrow> virtio_hw \<Rightarrow> u64" where
  "gm_pci_bar bus dev fn index hw =
     (if index \<ge> 6 then 0
      else
        let low = gm_pci_read32 bus dev fn (0x10 + index * 4) hw in
        if low = 0 \<or> low = 0xffffffff \<or> low AND 1 \<noteq> 0 then 0
        else
          let type = drop_bit 1 low AND 3 in
          if type = 0 then ucast (low AND NOT 0x0f)
          else if type \<noteq> 2 \<or> index \<ge> 5 then 0
          else
            let high = gm_pci_read32 bus dev fn (0x14 + index * 4) hw in
            push_bit 32 (ucast high) OR ucast (low AND NOT 0x0f))"

subsection \<open>The capability list\<close>

definition cap_zero :: gm_virtio_cap where
  "cap_zero = \<lparr>cap_bar = 0, cap_offset = 0, cap_length = 0, cap_multiplier = 0, cap_found = False\<rparr>"

definition cap_fill :: "u8 \<Rightarrow> u8 \<Rightarrow> u8 \<Rightarrow> u8 \<Rightarrow> u8 \<Rightarrow> u8 \<Rightarrow> virtio_hw \<Rightarrow> gm_virtio_cap \<Rightarrow> gm_virtio_cap" where
  "cap_fill bus dev fn pos type bar hw cap =
     (if cap_found cap then cap
      else \<lparr>cap_bar = bar, cap_offset = gm_pci_read32 bus dev fn (pos + 8) hw, cap_length = gm_pci_read32 bus dev fn (pos + 12) hw,
        cap_multiplier = (if type = 2 then gm_pci_read32 bus dev fn (pos + 16) hw else 0), cap_found = True\<rparr>)"

text \<open>The walk along the list: at most 48 entries, so that a list with a cycle ends too.\<close>

type_synonym cap_triple = "gm_virtio_cap \<times> gm_virtio_cap \<times> gm_virtio_cap"

definition caps_entry :: "u8 \<Rightarrow> u8 \<Rightarrow> u8 \<Rightarrow> u8 \<Rightarrow> virtio_hw \<Rightarrow> cap_triple \<Rightarrow> cap_triple" where
  "caps_entry bus dev fn pos hw caps =
     (let i = gm_pci_read8 bus dev fn pos hw; len = gm_pci_read8 bus dev fn (pos + 2) hw;
          type = gm_pci_read8 bus dev fn (pos + 3) hw; bar = gm_pci_read8 bus dev fn (pos + 4) hw in
      case caps of (common, notify, device) \<Rightarrow>
        if i = 9 \<and> len \<ge> 16 then
          if type = 1 then (cap_fill bus dev fn pos type bar hw common, notify, device)
          else if type = 2 \<and> len \<ge> 20 then (common, cap_fill bus dev fn pos type bar hw notify, device)
          else if type = 4 then (common, notify, cap_fill bus dev fn pos type bar hw device)
          else caps
        else caps)"

fun caps_loop :: "u8 \<Rightarrow> u8 \<Rightarrow> u8 \<Rightarrow> u8 \<Rightarrow> nat \<Rightarrow> virtio_hw \<Rightarrow> cap_triple \<Rightarrow> cap_triple" where
  "caps_loop bus dev fn pos 0 hw caps = caps"
| "caps_loop bus dev fn pos (Suc n) hw caps =
     (if pos \<ge> 0x40 then
        let nxt = gm_pci_read8 bus dev fn (pos + 1) hw AND 0xfc; caps = caps_entry bus dev fn pos hw caps in
        if nxt = 0 \<or> nxt = pos then caps else caps_loop bus dev fn nxt n hw caps
      else caps)"

definition gm_virtio_caps :: "u8 \<Rightarrow> u8 \<Rightarrow> u8 \<Rightarrow> virtio_hw \<Rightarrow> bool \<times> cap_triple" where
  "gm_virtio_caps bus dev fn hw =
     (let caps = (cap_zero, cap_zero, cap_zero) in
      if gm_pci_read16 bus dev fn 0x06 hw AND 0x10 = 0 then (False, caps)
      else
        let pos = gm_pci_read8 bus dev fn 0x34 hw AND 0xfc in
        case caps_loop bus dev fn pos 48 hw caps of (common, notify, device) \<Rightarrow>
          (cap_found common \<and> cap_found notify \<and> cap_found device, (common, notify, device)))"

text \<open>
  Mapping a capability: the loop over its pages. Offset and span are below \<open>2 ^ 17\<close> and are natural numbers here.
\<close>

function map_cap_loop :: "u64 \<Rightarrow> u64 \<Rightarrow> nat \<Rightarrow> nat \<Rightarrow> gm_memory \<Rightarrow> (bool \<times> gm_memory) outcome" where
  "map_cap_loop virt page off span m =
     (if off < span then
        and_then (gm_map_page (virt + of_nat off) (page + of_nat off) 0x012 m) (\<lambda>(ok, m1).
          if \<not> ok then Ok (False, m1) else map_cap_loop virt page (off + 4096) span m1)
      else Ok (True, m))"
  by pat_completeness auto
termination
  by (relation "measure (\<lambda>(virt, page, off, span, m). span - off)") auto

declare map_cap_loop.simps [simp del]

definition gm_virtio_map_cap :: "u8 \<Rightarrow> u8 \<Rightarrow> u8 \<Rightarrow> gm_virtio_cap \<Rightarrow> u64 \<Rightarrow> u32 \<Rightarrow> virtio_hw \<Rightarrow> gm_memory \<Rightarrow> (u64 option \<times> gm_memory) outcome" where
  "gm_virtio_map_cap bus dev fn cap virt minimum hw m =
     (if \<not> cap_found cap \<or> cap_bar cap \<ge> 6 \<or> cap_length cap < minimum \<or> (ucast (cap_length cap) :: u64) > 0x10000 then Ok (None, m)
      else
        let bar = gm_pci_bar bus dev fn (cap_bar cap) hw in
        if bar = 0 then Ok (None, m)
        else
          let phys = bar + ucast (cap_offset cap) in
          if phys < bar \<or> phys + ucast (cap_length cap) < phys then Ok (None, m)
          else
            let page = phys AND NOT 4095; delta = phys - page; span = delta + ucast (cap_length cap) in
            if span > 0x10000 then Ok (None, m)
            else and_then (map_cap_loop virt page 0 (unat span) m) (\<lambda>(ok, m1).
              Ok (if ok then Some (virt + delta) else None, m1)))"


subsection \<open>Registers, reset and negotiation\<close>

definition mmio_read :: "virtio_hw \<Rightarrow> u64 \<times> virtio_hw" where
  "mmio_read hw = (case env_mmio hw of [] \<Rightarrow> (0, hw) | v # vs \<Rightarrow> (v, hw\<lparr>env_mmio := vs\<rparr>))"

definition reg_read8 :: "vcommon_reg \<Rightarrow> virtio_hw \<Rightarrow> u8 \<times> virtio_hw" where
  "reg_read8 r hw = (case mmio_read hw of (v, hw1) \<Rightarrow> (ucast v, hw1))"

definition reg_read16 :: "vcommon_reg \<Rightarrow> virtio_hw \<Rightarrow> u16 \<times> virtio_hw" where
  "reg_read16 r hw = (case mmio_read hw of (v, hw1) \<Rightarrow> (ucast v, hw1))"

definition reg_read32 :: "vcommon_reg \<Rightarrow> virtio_hw \<Rightarrow> u32 \<times> virtio_hw" where
  "reg_read32 r hw = (case mmio_read hw of (v, hw1) \<Rightarrow> (ucast v, hw1))"

definition reg_write :: "vcommon_reg \<Rightarrow> u64 \<Rightarrow> virtio_hw \<Rightarrow> virtio_hw" where
  "reg_write r v hw = hw\<lparr>mmio_log := mmio_log hw @ [(r, v)]\<rparr>"

text \<open>\<^verbatim>\<open>gm_vcommon->device_status|=bits\<close>.\<close>

definition status_or :: "u8 \<Rightarrow> virtio_hw \<Rightarrow> virtio_hw" where
  "status_or bits hw = (case reg_read8 device_status hw of (v, hw1) \<Rightarrow> reg_write device_status (ucast (v OR bits)) hw1)"

fun reset_loop :: "nat \<Rightarrow> virtio_hw \<Rightarrow> bool \<times> virtio_hw" where
  "reset_loop 0 hw = (False, hw)"
| "reset_loop (Suc n) hw = (case reg_read8 device_status hw of (v, hw1) \<Rightarrow> if v = 0 then (True, hw1) else reset_loop n hw1)"

definition gm_virtio_reset :: "virtio_hw \<Rightarrow> bool \<times> virtio_hw" where
  "gm_virtio_reset hw = reset_loop 100000 (reg_write device_status 0 hw)"

definition gm_virtio_features :: "virtio_hw \<Rightarrow> bool \<times> virtio_hw" where
  "gm_virtio_features hw =
     (let hw = reg_write device_status 1 hw; hw = status_or 2 hw; hw = reg_write device_feature_select 0 hw in
      case reg_read32 device_feature hw of (low, hw) \<Rightarrow>
      case reg_read32 device_feature (reg_write device_feature_select 1 hw) of (high, hw) \<Rightarrow>
        if low AND 32 = 0 \<or> high AND 1 = 0 then (False, hw)
        else
          let hw = reg_write driver_feature_select 0 hw; hw = reg_write driver_feature 32 hw;
              hw = reg_write driver_feature_select 1 hw; hw = reg_write driver_feature 1 hw in
          case reg_read8 device_status hw of (status, hw) \<Rightarrow>
          case reg_read8 device_status (reg_write device_status (ucast (status OR 8)) hw) of (status, hw) \<Rightarrow>
            (status AND 8 \<noteq> 0, hw))"


subsection \<open>The queues\<close>

definition last_used_reset :: "u16 \<Rightarrow> 'a gm_virtio_scheme \<Rightarrow> 'a gm_virtio_scheme" where
  "last_used_reset index s = (if index = 0 then s\<lparr>vrx_last_used := 0\<rparr> else s\<lparr>vtx_last_used := 0\<rparr>)"

definition gm_virtq_init :: "u16 \<Rightarrow> u64 \<Rightarrow> u32 \<Rightarrow> u32 \<Rightarrow> gm_virtq \<Rightarrow> virtio_hw \<Rightarrow> gm_memory \<Rightarrow> 'a gm_virtio_scheme \<Rightarrow>
    (bool \<times> gm_virtq \<times> virtio_hw \<times> gm_memory \<times> 'a gm_virtio_scheme) outcome" where
  "gm_virtq_init index notify_base notify_len multiplier queue hw m s =
     (case reg_read16 queue_enable (reg_write queue_select (ucast index) hw) of (enabled, hw) \<Rightarrow>
      if enabled \<noteq> 0 then Ok (False, queue, hw, m, s)
      else case reg_read16 queue_size hw of (n, hw) \<Rightarrow>
        if n < 8 then Ok (False, queue, hw, m, s)
        else and_then (gm_page_alloc m) (\<lambda>(phys, m1).
          let ptr = gm_phys phys m1;
              queue = queue\<lparr>q_desc := ptr, q_avail := ptr + 128, q_used := ptr + 160\<rparr>;
              s = last_used_reset index s;
              hw = reg_write queue_size 8 hw; hw = reg_write queue_msix_vector 0xffff hw;
              hw = reg_write queue_desc phys hw; hw = reg_write queue_driver (phys + 128) hw;
              hw = reg_write queue_device (phys + 160) hw in
          case reg_read16 queue_notify_off hw of (off, hw) \<Rightarrow>
            let notify_off = ucast off * ucast multiplier in
            if notify_off + 2 > ucast notify_len then Ok (False, queue, hw, m1, s)
            else
              let queue = queue\<lparr>q_notify := notify_base + notify_off\<rparr>; hw = reg_write queue_enable 1 hw in
              case reg_read16 queue_enable hw of (enabled, hw) \<Rightarrow> Ok (enabled \<noteq> 0, queue, hw, m1, s)))"

text \<open>The buffers: two of them to a page, receive and transmit pages taken in turn.\<close>

fun buffer_loop :: "nat \<Rightarrow> nat \<Rightarrow> u64 \<Rightarrow> u64 \<Rightarrow> gm_virtq_desc list \<Rightarrow> gm_virtq_desc list \<Rightarrow> gm_memory \<Rightarrow>
    (gm_virtq_desc list \<times> gm_virtq_desc list \<times> gm_memory) outcome" where
  "buffer_loop i 0 rx_page tx_page rx tx m = Ok (rx, tx, m)"
| "buffer_loop i (Suc n) rx_page tx_page rx tx m =
     and_then
       (if i mod 2 = 0 then
          and_then (gm_page_alloc m) (\<lambda>(rx_page, m1). and_then (gm_page_alloc m1) (\<lambda>(tx_page, m2). Ok (rx_page, tx_page, m2)))
        else Ok (rx_page, tx_page, m))
       (\<lambda>(rx_page, tx_page, m1).
          buffer_loop (i + 1) n rx_page tx_page
            (rx @ [\<lparr>d_addr = rx_page + of_nat (i mod 2) * 2048, d_len = 2048, d_flags = 2, d_next = 0\<rparr>])
            (tx @ [\<lparr>d_addr = tx_page + of_nat (i mod 2) * 2048, d_len = 0, d_flags = 0, d_next = 0\<rparr>]) m1)"

text \<open>
  The driver's side of the queues after the loop. The buffers and the transmit ring lie in pages just allocated and
  hence are zero.
\<close>

definition virtio_queues_fill :: "'a gm_virtio_scheme \<Rightarrow> 'a gm_virtio_scheme" where
  "virtio_queues_fill s =
     s\<lparr>vrx_avail_ring := map of_nat [0..<8], gm_tx_buf := replicate 8 (replicate 2048 0), vtx_desc_len := replicate 8 0,
       gm_tx_free := replicate 8 True, vtx_avail_ring := replicate 8 0, vrx_avail_idx := 8, vtx_avail_idx := 0, gm_tx_next := 0\<rparr>"

fun mac_bytes :: "nat \<Rightarrow> virtio_hw \<Rightarrow> bytes \<times> virtio_hw" where
  "mac_bytes 0 hw = ([], hw)"
| "mac_bytes (Suc n) hw = (case mmio_read hw of (v, hw1) \<Rightarrow> case mac_bytes n hw1 of (bs, hw2) \<Rightarrow> (ucast v # bs, hw2))"

fun mac_loop :: "nat \<Rightarrow> bytes \<Rightarrow> virtio_hw \<Rightarrow> bool \<times> bytes \<times> virtio_hw" where
  "mac_loop 0 mac hw = (False, mac, hw)"
| "mac_loop (Suc n) mac hw =
     (case reg_read8 config_generation hw of (generation, hw) \<Rightarrow>
      case mac_bytes 6 hw of (mac, hw) \<Rightarrow>
      case reg_read8 config_generation hw of (check, hw) \<Rightarrow>
        if generation = check then (True, mac, hw) else mac_loop n mac hw)"


subsection \<open>Initialisation\<close>

text \<open>The fail label: the device is told, and the driver stays unused.\<close>

type_synonym 's init_result = "(bool \<times> bytes \<times> virtio_hw \<times> gm_memory \<times> 's) outcome"

definition init_fail :: "bytes \<Rightarrow> virtio_hw \<Rightarrow> gm_memory \<Rightarrow> 's \<Rightarrow> 's init_result" where
  "init_fail mac hw m s = Ok (False, mac, status_or 128 hw, m, s)"

text \<open>From the filled queues to the running device.\<close>

definition init_finish :: "bytes \<Rightarrow> virtio_hw \<Rightarrow> gm_memory \<Rightarrow> 'a gm_virtio_scheme \<Rightarrow> 'a gm_virtio_scheme init_result" where
  "init_finish mac hw m s =
     (case mac_loop 8 mac hw of (ok, mac, hw) \<Rightarrow>
      if \<not> ok \<or> (\<forall>b \<in> set mac. b = 0) then init_fail mac hw m s
      else
        let hw = status_or 4 hw in
        case reg_read8 device_status hw of (status, hw) \<Rightarrow>
          if status AND 4 = 0 then init_fail mac hw m s
          else Ok (True, mac, hw, m, gm_virtq_notify 0 (s\<lparr>gm_virtio_ready := True\<rparr>)))"

definition init_queues :: "u64 \<Rightarrow> gm_virtio_cap \<Rightarrow> bytes \<Rightarrow> virtio_hw \<Rightarrow> gm_memory \<Rightarrow> 'a gm_virtio_scheme \<Rightarrow> 'a gm_virtio_scheme init_result" where
  "init_queues notify_base notify mac hw m s =
     and_then (gm_virtq_init 0 notify_base (cap_length notify) (cap_multiplier notify) (gm_vrx_queue hw) hw m s) (\<lambda>(ok, rxq, hw, m, s).
       let hw = hw\<lparr>gm_vrx_queue := rxq\<rparr> in
       if \<not> ok then init_fail mac hw m s
       else and_then (gm_virtq_init 1 notify_base (cap_length notify) (cap_multiplier notify) (gm_vtx_queue hw) hw m s) (\<lambda>(ok, txq, hw, m, s).
         let hw = hw\<lparr>gm_vtx_queue := txq\<rparr> in
         if \<not> ok then init_fail mac hw m s
         else and_then (buffer_loop 0 8 0 0 [] [] m) (\<lambda>(rx, tx, m).
           init_finish mac (hw\<lparr>vrx_desc := rx, vtx_desc := tx, vrx_flags := 1, vtx_flags := 1\<rparr>) m (virtio_queues_fill s))))"

definition init_device :: "u64 \<Rightarrow> gm_virtio_cap \<Rightarrow> bytes \<Rightarrow> virtio_hw \<Rightarrow> gm_memory \<Rightarrow> 'a gm_virtio_scheme \<Rightarrow> 'a gm_virtio_scheme init_result" where
  "init_device notify_base notify mac hw m s =
     (case gm_virtio_reset hw of (ok, hw) \<Rightarrow>
      if \<not> ok then init_fail mac hw m s
      else case gm_virtio_features hw of (ok, hw) \<Rightarrow>
        if \<not> ok then init_fail mac hw m s
        else case reg_read16 num_queues hw of (n, hw) \<Rightarrow>
          if n < 2 then init_fail mac hw m s else init_queues notify_base notify mac hw m s)"

definition gm_virtio_net_init :: "bytes \<Rightarrow> virtio_hw \<Rightarrow> gm_memory \<Rightarrow> 'a gm_virtio_scheme \<Rightarrow> 'a gm_virtio_scheme init_result" where
  "gm_virtio_net_init mac hw m s =
     (let s = s\<lparr>gm_virtio_ready := False\<rparr> in
      case gm_virtio_find hw of
        None \<Rightarrow> Ok (False, mac, hw, m, s)
      | Some (bus, dev, fn) \<Rightarrow>
          let command = gm_pci_read16 bus dev fn 4 hw; hw = gm_pci_write16 bus dev fn 4 (command OR 6) hw in
          case gm_virtio_caps bus dev fn hw of (ok, common, notify, device) \<Rightarrow>
            if \<not> ok then Ok (False, mac, hw, m, s)
            else
              and_then (gm_virtio_map_cap bus dev fn common 0xffff900000100000 56 hw m) (\<lambda>(vcommon, m).
              and_then (gm_virtio_map_cap bus dev fn notify 0xffff900000110000 2 hw m) (\<lambda>(notify_base, m).
              and_then (gm_virtio_map_cap bus dev fn device 0xffff900000120000 6 hw m) (\<lambda>(vdevice, m).
                case (vcommon, notify_base, vdevice) of
                  (Some _, Some nb, Some _) \<Rightarrow> init_device nb notify mac hw m s
                | _ \<Rightarrow> Ok (False, mac, hw, m, s)))))"


subsection \<open>Taking pages\<close>

text \<open>\<open>fits n m\<close>: the allocator has \<open>n\<close> pages left; \<open>grows n m m'\<close>: from \<open>m\<close> to \<open>m'\<close> at most \<open>n\<close> pages were taken.\<close>

definition fits :: "nat \<Rightarrow> gm_memory \<Rightarrow> bool" where
  "fits n m \<longleftrightarrow> unat (gm_page_next m) + 4096 * n \<le> unat (gm_page_end m)"

definition grows :: "nat \<Rightarrow> gm_memory \<Rightarrow> gm_memory \<Rightarrow> bool" where
  "grows n m m' \<longleftrightarrow> gm_page_end m' = gm_page_end m \<and> cpu_cr3 m' = cpu_cr3 m \<and> gm_hhdm m' = gm_hhdm m \<and>
     (\<exists>k\<le>n. unat (gm_page_next m') = unat (gm_page_next m) + 4096 * k)"

lemma grows_refl [simp]: "grows n m m"
  by (auto simp: grows_def)

lemma grows_trans:
  assumes "grows a m m1" "grows b m1 m2" "a + b \<le> n"
  shows "grows n m m2"
proof -
  obtain k l where "k \<le> a" "l \<le> b" "unat (gm_page_next m1) = unat (gm_page_next m) + 4096 * k" "unat (gm_page_next m2) = unat (gm_page_next m1) + 4096 * l"
    using assms by (auto simp: grows_def)
  then show ?thesis using assms by (auto simp: grows_def intro!: exI [of _ "k + l"])
qed

lemma grows_mono: "grows a m m1 \<Longrightarrow> a \<le> n \<Longrightarrow> grows n m m1"
  by (rule grows_trans [of a m m1 0]) simp_all

lemma fits_grows: "fits n m \<Longrightarrow> grows a m m1 \<Longrightarrow> a + b \<le> n \<Longrightarrow> fits b m1"
  by (auto simp: fits_def grows_def)

lemma fits_mono: "fits n m \<Longrightarrow> b \<le> n \<Longrightarrow> fits b m"
  by (rule fits_grows [of n m 0 m]) simp_all

lemma grows_put [simp]: "grows n m (mem_put p v m1) = grows n m m1"
  by (simp add: grows_def mem_put_def)

lemma alloc_fits:
  assumes "fits n m" "0 < n"
  obtains m1 where "gm_page_alloc m = Ok (gm_page_next m, m1)" "grows 1 m m1" "unat (gm_page_next m1) = unat (gm_page_next m) + 4096"
proof -
  have le: "unat (gm_page_next m) + 4096 \<le> unat (gm_page_end m)" using assms by (simp add: fits_def)
  have lt: "unat (gm_page_end m) < 2 ^ LENGTH(64)" by (rule unsigned_less)
  have "unat (gm_page_next m + 4096) = unat (gm_page_next m) + unat (4096 :: u64)"
    by (rule unat_add_lem [THEN iffD1]) (use le lt in simp)
  then have n: "unat (gm_page_next m + 4096) = unat (gm_page_next m) + 4096" by simp
  then have "\<not> gm_page_next m + 4096 > gm_page_end m" using le by (simp add: word_less_nat_alt)
  then show ?thesis
    by (intro that [of "mem_clear (gm_phys (gm_page_next m) m) (m\<lparr>gm_page_next := gm_page_next m + 4096\<rparr>)"])
      (auto simp: gm_page_alloc_def grows_def mem_clear_def gm_phys_def n Let_def intro: exI [of _ 1])
qed

lemma next_table_fits:
  assumes "fits n m" "0 < n"
  obtains t m1 where "gm_next_table tb i f m = Ok (t, m1)" "grows 1 m m1"
proof (cases "mem_get (tb + 8 * i) m AND 1 = 0")
  case True
  obtain m1 where "gm_page_alloc m = Ok (gm_page_next m, m1)" "grows 1 m m1" by (rule alloc_fits [OF assms])
  then show ?thesis using that True by (simp add: gm_next_table_def Let_def)
next
  case False
  then show ?thesis using that by (simp add: gm_next_table_def Let_def)
qed

lemma map_page_fits:
  assumes "fits n m" "3 \<le> n"
  obtains ok m1 where "gm_map_page v p f m = Ok (ok, m1)" "grows 3 m m1"
proof (cases "v AND 0xfff \<noteq> 0 \<or> p AND 0xfff \<noteq> 0")
  case True
  then show ?thesis by (intro that [of False m]) (auto simp: gm_map_page_def gm_map_page_flags_def)
next
  case False
  obtain t1 m1 where 1: "gm_next_table (gm_table (cpu_cr3 m) m) (drop_bit 39 v AND 0x1ff) (f AND 4) m = Ok (t1, m1)" "grows 1 m m1"
    by (rule next_table_fits [OF assms(1)]) (use assms(2) in auto)
  have f1: "fits 2 m1" by (rule fits_grows [OF assms(1) 1(2)]) (use assms in simp)
  obtain t2 m2 where 2: "gm_next_table t1 (drop_bit 30 v AND 0x1ff) (f AND 4) m1 = Ok (t2, m2)" "grows 1 m1 m2"
    by (rule next_table_fits [OF f1]) auto
  have f2: "fits 1 m2" by (rule fits_grows [OF f1 2(2)]) simp
  obtain t3 m3 where 3: "gm_next_table t2 (drop_bit 21 v AND 0x1ff) (f AND 4) m2 = Ok (t3, m3)" "grows 1 m2 m3"
    by (rule next_table_fits [OF f2]) auto
  have "grows 3 m m3" by (rule grows_trans [OF grows_trans [OF 1(2) 2(2), of 2] 3(2)]) simp_all
  then show ?thesis using that [of False m3] that [of True "mem_put (t3 + 8 * (drop_bit 12 v AND 511)) (p AND addr_mask OR f OR 1) m3"] False 1(1) 2(1) 3(1)
    by (cases "mem_get (t3 + 8 * (drop_bit 12 v AND 511)) m3 AND 1 = 0") (simp_all add: gm_map_page_def gm_map_page_flags_def Let_def)
qed

lemma map_cap_loop_fits:
  "fits (3 * n) m \<Longrightarrow> span \<le> off + 4096 * n \<Longrightarrow> \<exists>ok m1. map_cap_loop v p off span m = Ok (ok, m1) \<and> grows (3 * n) m m1"
proof (induction n arbitrary: off m)
  case 0
  then show ?case by (intro exI [of _ True] exI [of _ m]) (simp add: map_cap_loop.simps [of v p off])
next
  case (Suc n)
  obtain ok m1 where 1: "gm_map_page (v + of_nat off) (p + of_nat off) 0x012 m = Ok (ok, m1)" "grows 3 m m1"
    by (rule map_page_fits [OF Suc.prems(1)]) simp_all
  have "fits (3 * n) m1" by (rule fits_grows [OF Suc.prems(1) 1(2)]) simp
  then obtain ok2 m2 where 2: "map_cap_loop v p (off + 4096) span m1 = Ok (ok2, m2)" "grows (3 * n) m1 m2"
    using Suc.IH [of m1 "off + 4096"] Suc.prems(2) by auto
  have "grows (3 * Suc n) m m1" "grows (3 * Suc n) m m2"
    by (rule grows_mono [OF 1(2)]; simp) (rule grows_trans [OF 1(2) 2(2)]; simp)
  moreover have "map_cap_loop v p off span m = Ok (if off < span then if ok then (ok2, m2) else (False, m1) else (True, m))"
    using 1(1) 2(1) by (simp add: map_cap_loop.simps [of v p off])
  ultimately show ?case by (auto split: if_split)
qed

lemma map_cap_fits:
  assumes "fits n m" "48 \<le> n"
  obtains r m1 where "gm_virtio_map_cap bus dev fn cap v minimum hw m = Ok (r, m1)" "grows 48 m m1"
proof -
  have f: "fits (3 * 16) m" by (rule fits_mono [OF assms(1)]) (use assms in simp)
  have "\<exists>r m1. gm_virtio_map_cap bus dev fn cap v minimum hw m = Ok (r, m1) \<and> grows 48 m m1"
  proof -
    have br: "\<exists>r m1. (if c then Ok (None, m) else e) = Ok (r :: u64 option, m1) \<and> grows 48 m m1"
      if "\<not> c \<Longrightarrow> \<exists>r m1. e = Ok (r, m1) \<and> grows 48 m m1" for c e
      using that by (cases c) simp_all
    have step: "\<exists>r m1. and_then (map_cap_loop v p 0 (unat span) m) (\<lambda>(ok, m1). Ok (if ok then Some d else None, m1)) = Ok (r, m1) \<and> grows 48 m m1"
      if "\<not> span > 0x10000" for p d and span :: u64
    proof -
      have "unat span \<le> 0 + 4096 * 16" using that by (simp add: word_less_nat_alt)
      then obtain ok m1 where "map_cap_loop v p 0 (unat span) m = Ok (ok, m1)" "grows 48 m m1"
        using map_cap_loop_fits [OF f, of "unat span" 0 v p] by auto
      then show ?thesis by simp
    qed
    show ?thesis
      unfolding gm_virtio_map_cap_def Let_def
      by (rule br, rule br, rule br, rule br, rule step)
  qed
  then show ?thesis by (elim exE conjE) (rule that)
qed


subsection \<open>The registers of the device\<close>

text \<open>
  What the device knows after the writes of the log: the selected queue and, for each queue, the registers written for it.
  A zero written to the status resets the device and forgets them all.
\<close>

type_synonym queue_regs = "u64 \<times> vcommon_reg \<Rightarrow> u64 option"

definition queue_register :: "vcommon_reg \<Rightarrow> bool" where
  "queue_register r \<longleftrightarrow> r \<in> {queue_size, queue_msix_vector, queue_enable, queue_desc, queue_driver, queue_device}"

fun dev_write :: "vcommon_reg \<times> u64 \<Rightarrow> u64 \<times> queue_regs \<Rightarrow> u64 \<times> queue_regs" where
  "dev_write (r, v) (sel, regs) =
     (if r = device_status \<and> v = 0 then (0, Map.empty)
      else if r = queue_select then (v, regs)
      else if queue_register r then (sel, regs((sel, r) \<mapsto> v))
      else (sel, regs))"

definition device_view :: "virtio_hw \<Rightarrow> u64 \<times> queue_regs" where
  "device_view hw = fold dev_write (mmio_log hw) (0, Map.empty)"

lemma view_write: "device_view (reg_write r v hw) = dev_write (r, v) (device_view hw)"
  by (simp add: device_view_def reg_write_def)

lemma view_read [simp]:
  "device_view (snd (mmio_read hw)) = device_view hw" "device_view (snd (reg_read8 r hw)) = device_view hw"
  "device_view (snd (reg_read16 r hw)) = device_view hw" "device_view (snd (reg_read32 r hw)) = device_view hw"
  by (simp_all add: device_view_def mmio_read_def reg_read8_def reg_read16_def reg_read32_def case_prod_beta split: list.splits)

lemma view_queues [simp]: "device_view (hw\<lparr>gm_vrx_queue := q\<rparr>) = device_view hw" "device_view (hw\<lparr>gm_vtx_queue := q\<rparr>) = device_view hw"
    "device_view (hw\<lparr>vrx_desc := d\<rparr>) = device_view hw" "device_view (hw\<lparr>vtx_desc := d\<rparr>) = device_view hw"
    "device_view (hw\<lparr>vrx_flags := f\<rparr>) = device_view hw" "device_view (hw\<lparr>vtx_flags := f\<rparr>) = device_view hw"
  by (simp_all add: device_view_def)

lemma dev_write_other: "r \<noteq> queue_select \<Longrightarrow> \<not> queue_register r \<Longrightarrow> r \<noteq> device_status \<or> v \<noteq> 0 \<Longrightarrow> dev_write (r, v) x = x"
  by (cases x) auto

lemma status_bits: "b \<noteq> 0 \<Longrightarrow> (ucast (a OR b :: u8) :: u64) \<noteq> 0"
proof
  assume b: "b \<noteq> 0" and z: "(ucast (a OR b) :: u64) = 0"
  have "unat (a OR b) = 0" using arg_cong [OF z, of unat] by (simp add: unsigned_ucast_eq unsigned_take_bit_eq take_bit_nat_eq_self unat_bounds)
  then have "a OR b = 0" by (simp add: unat_eq_zero)
  then show False using b by (simp add: or_eq_0_iff)
qed

lemma view_status [simp]: "b \<noteq> 0 \<Longrightarrow> device_view (status_or b hw) = device_view hw"
  by (simp add: status_or_def case_prod_beta view_write dev_write_other queue_register_def status_bits)

lemma view_reset: "gm_virtio_reset hw = (ok, hw1) \<Longrightarrow> device_view hw1 = (0, Map.empty)"
proof -
  have "reset_loop n h = (ok, hw1) \<Longrightarrow> device_view hw1 = device_view h" for n h
    by (induction n arbitrary: h) (auto simp: case_prod_beta split: if_splits)
  moreover have "device_view (reg_write device_status 0 hw) = (0, Map.empty)" by (cases "device_view hw") (simp add: view_write)
  ultimately show "gm_virtio_reset hw = (ok, hw1) \<Longrightarrow> device_view hw1 = (0, Map.empty)" by (auto simp: gm_virtio_reset_def)
qed

lemma view_features: "device_view (snd (gm_virtio_features hw)) = device_view hw"
  by (simp add: gm_virtio_features_def Let_def case_prod_beta view_write dev_write_other queue_register_def status_bits)


subsection \<open>What a step keeps of the queues\<close>

definition hw_keeps :: "virtio_hw \<Rightarrow> virtio_hw \<Rightarrow> bool" where
  "hw_keeps hw hw' \<longleftrightarrow> gm_vrx_queue hw' = gm_vrx_queue hw \<and>
     gm_vtx_queue hw' = gm_vtx_queue hw \<and> vrx_desc hw' = vrx_desc hw \<and> vtx_desc hw' = vtx_desc hw"

lemma hw_keeps_refl [simp]: "hw_keeps hw hw"
  by (simp add: hw_keeps_def)

lemma hw_keeps_trans: "hw_keeps a b \<Longrightarrow> hw_keeps b c \<Longrightarrow> hw_keeps a c"
  by (auto simp: hw_keeps_def)

lemma hw_keeps_read [simp]: "hw_keeps a (snd (mmio_read hw)) = hw_keeps a hw"
  by (simp add: hw_keeps_def mmio_read_def split: list.splits)

lemma hw_keeps_reg [simp]:
  "hw_keeps a (snd (reg_read8 r hw)) = hw_keeps a hw" "hw_keeps a (snd (reg_read16 r hw)) = hw_keeps a hw"
  by (simp_all add: reg_read8_def reg_read16_def case_prod_beta)

lemma hw_keeps_write: "hw_keeps a hw \<Longrightarrow> hw_keeps a (reg_write r v hw)"
  by (auto simp: hw_keeps_def reg_write_def)

lemma hw_keeps_status: "hw_keeps a hw \<Longrightarrow> hw_keeps a (status_or b hw)"
  by (simp add: status_or_def case_prod_beta hw_keeps_write)

lemma hw_keeps_mac_bytes: "hw_keeps a hw \<Longrightarrow> hw_keeps a (snd (mac_bytes n hw))" "device_view (snd (mac_bytes n hw)) = device_view hw"
  by (induction n arbitrary: hw) (simp_all add: case_prod_beta)

lemma mac_bytes_length: "length (fst (mac_bytes n hw)) = n"
  by (induction n arbitrary: hw) (simp_all add: case_prod_beta)

lemma mac_loop_keeps: "mac_loop n mac hw = (ok, mac', hw') \<Longrightarrow> hw_keeps hw hw' \<and> device_view hw' = device_view hw \<and> (ok \<longrightarrow> length mac' = 6)"
proof (induction n arbitrary: mac hw)
  case 0
  then show ?case by simp
next
  case (Suc n)
  let ?h = "snd (reg_read8 config_generation (snd (mac_bytes 6 (snd (reg_read8 config_generation hw)))))"
  have "hw_keeps hw ?h" "device_view ?h = device_view hw" by (simp_all add: hw_keeps_mac_bytes)
  then show ?case using Suc by (fastforce simp: case_prod_beta mac_bytes_length split: if_splits dest: hw_keeps_trans)
qed

text \<open>
  The set-up of a queue takes at most one page; when it succeeds, the three parts of the queue lie in that page, and the
  registers of this queue, and of no other, hold their addresses.
\<close>

definition told :: "u64 \<Rightarrow> u64 \<Rightarrow> queue_regs \<Rightarrow> queue_regs" where
  "told i a regs = regs((i, queue_size) \<mapsto> 8, (i, queue_msix_vector) \<mapsto> 0xffff, (i, queue_desc) \<mapsto> a, (i, queue_driver) \<mapsto> a + 128,
     (i, queue_device) \<mapsto> a + 160, (i, queue_enable) \<mapsto> 1)"

lemma virtq_init_fits:
  assumes "fits n m" "0 < n"
  obtains ok q hw1 m1 s1 where "gm_virtq_init i nb len mult queue hw m s = Ok (ok, q, hw1, m1, s1)" "grows 1 m m1" "hw_keeps hw hw1"
    "s1 = s \<or> s1 = last_used_reset i s"
    "ok \<Longrightarrow> s1 = last_used_reset i s \<and> q_desc q = gm_page_next m + gm_hhdm m \<and> q_avail q = gm_page_next m + gm_hhdm m + 128 \<and>
       q_used q = gm_page_next m + gm_hhdm m + 160 \<and> snd (device_view hw1) = told (ucast i) (gm_page_next m) (snd (device_view hw)) \<and>
       unat (gm_page_next m1) = unat (gm_page_next m) + 4096"
proof -
  obtain m1 where m1: "gm_page_alloc m = Ok (gm_page_next m, m1)" "grows 1 m m1" "unat (gm_page_next m1) = unat (gm_page_next m) + 4096"
    by (rule alloc_fits [OF assms])
  have p: "gm_phys x m1 = x + gm_hhdm m" for x using m1(2) by (simp add: gm_phys_def grows_def)
  let ?h1 = "snd (reg_read16 queue_enable (reg_write queue_select (ucast i) hw))"
  let ?h2 = "snd (reg_read16 queue_size ?h1)"
  let ?h3 = "reg_write queue_device (gm_page_next m + 160) (reg_write queue_driver (gm_page_next m + 128)
    (reg_write queue_desc (gm_page_next m) (reg_write queue_msix_vector 0xffff (reg_write queue_size 8 ?h2))))"
  let ?h4 = "snd (reg_read16 queue_notify_off ?h3)"
  let ?h5 = "snd (reg_read16 queue_enable (reg_write queue_enable 1 ?h4))"
  have k: "hw_keeps hw ?h1" "hw_keeps hw ?h2" "hw_keeps hw ?h4" "hw_keeps hw ?h5"
    by (simp_all add: hw_keeps_write)
  have v: "snd (device_view ?h5) = told (ucast i) (gm_page_next m) (snd (device_view hw))"
    by (cases "device_view hw") (simp add: view_write queue_register_def told_def)
  note u = gm_virtq_init_def case_prod_beta Let_def
  consider (a) "fst (reg_read16 queue_enable (reg_write queue_select (ucast i) hw)) \<noteq> 0"
    | (b) "fst (reg_read16 queue_enable (reg_write queue_select (ucast i) hw)) = 0" "fst (reg_read16 queue_size ?h1) < 8"
    | (c) "fst (reg_read16 queue_enable (reg_write queue_select (ucast i) hw)) = 0" "\<not> fst (reg_read16 queue_size ?h1) < 8"
    by blast
  then show ?thesis
  proof cases
    case a
    show ?thesis by (rule that [of False queue ?h1 m s]) (use a k in \<open>simp_all add: u\<close>)
  next
    case b
    show ?thesis by (rule that [of False queue ?h2 m s]) (use b k in \<open>simp_all add: u\<close>)
  next
    case c
    let ?off = "ucast (fst (reg_read16 queue_notify_off ?h3)) * ucast mult :: u64"
    let ?q = "queue\<lparr>q_desc := gm_page_next m + gm_hhdm m, q_avail := gm_page_next m + gm_hhdm m + 128, q_used := gm_page_next m + gm_hhdm m + 160\<rparr>"
    show ?thesis
    proof (cases "?off + 2 > ucast len")
      case True
      show ?thesis by (rule that [of False ?q ?h4 m1 "last_used_reset i s"]) (use c True k m1 in \<open>simp_all add: u p\<close>)
    next
      case False
      show ?thesis
        by (rule that [of "fst (reg_read16 queue_enable (reg_write queue_enable 1 ?h4)) \<noteq> 0" "?q\<lparr>q_notify := nb + ?off\<rparr>" ?h5 m1 "last_used_reset i s"])
          (use c False k m1 v in \<open>simp_all add: u p\<close>)
    qed
  qed
qed

text \<open>The buffers: the eight pages that follow, receive and transmit in turn, two buffers to a page.\<close>

definition buffer_at :: "u64 \<Rightarrow> nat \<Rightarrow> u64" where
  "buffer_at b i = b + of_nat (i div 2) * 8192 + of_nat (i mod 2) * 2048"

abbreviation rx_descriptor :: "u64 \<Rightarrow> gm_virtq_desc" where
  "rx_descriptor a \<equiv> \<lparr>d_addr = a, d_len = 2048, d_flags = 2, d_next = 0\<rparr>"

abbreviation tx_descriptor :: "u64 \<Rightarrow> gm_virtq_desc" where
  "tx_descriptor a \<equiv> \<lparr>d_addr = a, d_len = 0, d_flags = 0, d_next = 0\<rparr>"

lemma alloc_next: "gm_page_alloc m = Ok (x, m1) \<Longrightarrow> gm_page_next m1 = gm_page_next m + 4096"
  by (auto simp: gm_page_alloc_def Let_def mem_clear_def split: if_splits)

lemma buffer_pair:
  assumes "fits (j + 2) m" "even i"
  obtains m1 where "buffer_loop i (Suc (Suc n)) rp tp rx tx m = buffer_loop (i + 2) n (gm_page_next m) (gm_page_next m + 4096)
      (rx @ map rx_descriptor [gm_page_next m, gm_page_next m + 2048]) (tx @ map tx_descriptor [gm_page_next m + 4096, gm_page_next m + 4096 + 2048]) m1"
    "grows 2 m m1" "fits j m1" "gm_page_next m1 = gm_page_next m + 8192" "unat (gm_page_next m1) = unat (gm_page_next m) + 8192"
proof -
  obtain a where a: "gm_page_alloc m = Ok (gm_page_next m, a)" "grows 1 m a" "unat (gm_page_next a) = unat (gm_page_next m) + 4096"
    by (rule alloc_fits [OF assms(1)]) auto
  have fa: "fits (j + 1) a" by (rule fits_grows [OF assms(1) a(2)]) simp
  obtain b where b: "gm_page_alloc a = Ok (gm_page_next a, b)" "grows 1 a b" "unat (gm_page_next b) = unat (gm_page_next a) + 4096"
    by (rule alloc_fits [OF fa]) auto
  have fb: "fits j b" by (rule fits_grows [OF fa b(2)]) simp
  have g: "grows 2 m b" by (rule grows_trans [OF a(2) b(2)]) simp
  have i: "i mod 2 = 0" "Suc i mod 2 = 1" using assms(2) by presburger+
  show ?thesis
    by (rule that [of b]) (use a(1,3) b(1,3) fb g i alloc_next [OF a(1)] alloc_next [OF b(1)] in \<open>simp_all add: add.assoc\<close>)
qed

lemma buffer_at_shift: "buffer_at b (Suc (Suc i)) = buffer_at (b + 8192) i"
  by (simp add: buffer_at_def algebra_simps)

lemma upt_shift: "map f [0..<2 * Suc k] = f 0 # f 1 # map (\<lambda>i. f (Suc (Suc i))) [0..<2 * k]"
  by (simp add: map_upt_Suc del: upt_Suc)

lemma buffer_pairs:
  "fits (2 * k) m \<Longrightarrow> even i \<Longrightarrow> \<exists>m1. buffer_loop i (2 * k) rp tp rx tx m =
      Ok (rx @ map (\<lambda>i. rx_descriptor (buffer_at (gm_page_next m) i)) [0..<2 * k],
          tx @ map (\<lambda>i. tx_descriptor (buffer_at (gm_page_next m + 4096) i)) [0..<2 * k], m1) \<and>
      grows (2 * k) m m1 \<and> unat (gm_page_next m1) = unat (gm_page_next m) + 8192 * k"
proof (induction k arbitrary: i rp tp rx tx m)
  case 0
  then show ?case by simp
next
  case (Suc k)
  have f: "fits (2 * k + 2) m" using Suc.prems(1) by simp
  obtain a where a: "buffer_loop i (Suc (Suc (2 * k))) rp tp rx tx m = buffer_loop (i + 2) (2 * k) (gm_page_next m) (gm_page_next m + 4096)
      (rx @ map rx_descriptor [gm_page_next m, gm_page_next m + 2048]) (tx @ map tx_descriptor [gm_page_next m + 4096, gm_page_next m + 4096 + 2048]) a"
    "grows 2 m a" "fits (2 * k) a" "gm_page_next a = gm_page_next m + 8192" "unat (gm_page_next a) = unat (gm_page_next m) + 8192"
    by (rule buffer_pair [OF f Suc.prems(2)])
  obtain b where b: "buffer_loop (i + 2) (2 * k) (gm_page_next m) (gm_page_next m + 4096)
        (rx @ map rx_descriptor [gm_page_next m, gm_page_next m + 2048]) (tx @ map tx_descriptor [gm_page_next m + 4096, gm_page_next m + 4096 + 2048]) a =
      Ok ((rx @ map rx_descriptor [gm_page_next m, gm_page_next m + 2048]) @ map (\<lambda>i. rx_descriptor (buffer_at (gm_page_next a) i)) [0..<2 * k],
          (tx @ map tx_descriptor [gm_page_next m + 4096, gm_page_next m + 4096 + 2048]) @ map (\<lambda>i. tx_descriptor (buffer_at (gm_page_next a + 4096) i)) [0..<2 * k], b)"
    "grows (2 * k) a b" "unat (gm_page_next b) = unat (gm_page_next a) + 8192 * k"
    using Suc.IH [OF a(3), of "i + 2"] Suc.prems(2) by (metis even_add even_numeral)
  have g: "grows (2 * Suc k) m b" by (rule grows_trans [OF a(2) b(2)]) simp
  have s: "buffer_loop i (2 * Suc k) rp tp rx tx m = buffer_loop i (Suc (Suc (2 * k))) rp tp rx tx m" by simp
  show ?case
    by (rule exI [of _ b], unfold s a(1) b(1) upt_shift)
      (use g a(4,5) b(3) in \<open>simp add: buffer_at_shift add.commute add.left_commute buffer_at_def [of _ 0] buffer_at_def [of _ 1] buffer_at_def [of _ "Suc 0"]\<close>)
qed


subsection \<open>The memory the device is given\<close>

text \<open>
  The areas the device reads and writes, as its registers and its descriptors give them: for each of the two queues the
  table of eight descriptors, the available ring and the used ring, and the sixteen buffers. \<open>dma_ok\<close>: both queues have
  eight entries and are enabled, no other queue has an address, the driver uses the addresses the device has; the areas lie in
  the last ten pages that were taken between \<open>m\<close> and \<open>m'\<close>, after every page table, and no two of them overlap; and of the buffers the
  device may write those for receiving, 2048 bytes each, and only these.
\<close>

definition queue_areas :: "virtio_hw \<Rightarrow> u64 \<Rightarrow> (u64 \<times> nat) list" where
  "queue_areas hw i = (let regs = snd (device_view hw) in
     [(the (regs (i, queue_desc)), 8 * 16), (the (regs (i, queue_driver)), 6 + 8 * 2), (the (regs (i, queue_device)), 6 + 8 * 8)])"

definition dma_areas :: "virtio_hw \<Rightarrow> (u64 \<times> nat) list" where
  "dma_areas hw = queue_areas hw 0 @ queue_areas hw 1 @ map (\<lambda>d. (d_addr d, 2048)) (vrx_desc hw @ vtx_desc hw)"

definition apart :: "(nat \<times> nat) list \<Rightarrow> bool" where
  "apart as \<longleftrightarrow> (\<forall>i < length as. \<forall>j < length as. i \<noteq> j \<longrightarrow>
     fst (as ! i) + snd (as ! i) \<le> fst (as ! j) \<or> fst (as ! j) + snd (as ! j) \<le> fst (as ! i))"

definition within :: "nat \<Rightarrow> nat \<Rightarrow> (nat \<times> nat) list \<Rightarrow> bool" where
  "within lo hi as \<longleftrightarrow> (\<forall>(a, n) \<in> set as. lo \<le> a \<and> a + n \<le> hi)"

definition queue_told :: "u64 \<Rightarrow> u64 \<Rightarrow> gm_virtq \<Rightarrow> virtio_hw \<Rightarrow> bool" where
  "queue_told hhdm i q hw \<longleftrightarrow> (let regs = snd (device_view hw) in
     regs (i, queue_size) = Some 8 \<and> regs (i, queue_enable) = Some 1 \<and> regs (i, queue_desc) = Some (q_desc q - hhdm) \<and>
     regs (i, queue_driver) = Some (q_avail q - hhdm) \<and> regs (i, queue_device) = Some (q_used q - hhdm))"

definition dma_ok :: "gm_memory \<Rightarrow> virtio_hw \<Rightarrow> gm_memory \<Rightarrow> bool" where
  "dma_ok m hw m' \<longleftrightarrow>
     (let as = map (\<lambda>(a, n). (unat a, n)) (dma_areas hw); hi = unat (gm_page_next m') in
      length as = 22 \<and> apart as \<and> unat (gm_page_next m) + 10 * 4096 \<le> hi \<and> within (hi - 10 * 4096) hi as) \<and>
     queue_told (gm_hhdm m) 0 (gm_vrx_queue hw) hw \<and> queue_told (gm_hhdm m) 1 (gm_vtx_queue hw) hw \<and>
     (\<forall>i r. snd (device_view hw) (i, r) \<noteq> None \<longrightarrow> i = 0 \<or> i = 1) \<and>
     length (vrx_desc hw) = 8 \<and> (\<forall>d \<in> set (vrx_desc hw). d_len d = 2048 \<and> d_flags d = 2) \<and>
     length (vtx_desc hw) = 8 \<and> (\<forall>d \<in> set (vtx_desc hw). d_flags d = 0)"

definition dma_offsets :: "(nat \<times> nat) list" where
  "dma_offsets = [(0, 128), (128, 22), (160, 70), (4096, 128), (4224, 22), (4256, 70)] @
     map (\<lambda>i. (8192 + i div 2 * 8192 + i mod 2 * 2048, 2048)) [0..<8] @
     map (\<lambda>i. (12288 + i div 2 * 8192 + i mod 2 * 2048, 2048)) [0..<8]"

lemma dma_offsets_eq: "dma_offsets =
   [(0, 128), (128, 22), (160, 70), (4096, 128), (4224, 22), (4256, 70), (8192, 2048), (10240, 2048), (16384, 2048), (18432, 2048),
    (24576, 2048), (26624, 2048), (32768, 2048), (34816, 2048),
    (12288, 2048), (14336, 2048), (20480, 2048), (22528, 2048), (28672, 2048), (30720, 2048), (36864, 2048), (38912, 2048)]"
  by (simp add: dma_offsets_def upt_conv_Cons)

fun apart_list :: "(nat \<times> nat) list \<Rightarrow> bool" where
  "apart_list [] = True"
| "apart_list ((a, n) # as) = ((\<forall>(b, k) \<in> set as. a + n \<le> b \<or> b + k \<le> a) \<and> apart_list as)"

lemma apart_Cons: "apart_list as \<Longrightarrow> apart as"
proof (induction as rule: apart_list.induct)
  case 1
  show ?case by (simp add: apart_def)
next
  case (2 a n as)
  have h: "a + n \<le> fst (as ! j) \<or> fst (as ! j) + snd (as ! j) \<le> a" if "j < length as" for j
    using 2(2) nth_mem [OF that] by (auto split: prod.splits)
  show ?case
    using 2 h unfolding apart_def by (auto simp: nth_Cons split: nat.splits)
qed

lemma apart_offsets: "apart (map (\<lambda>(k, n). (b + k, n)) dma_offsets)"
  by (rule apart_Cons) (simp add: dma_offsets_eq)

lemma within_offsets: "within b (b + 40960) (map (\<lambda>(k, n). (b + k, n)) dma_offsets)"
  by (simp add: dma_offsets_eq within_def)

lemma unat_offset: "unat (b :: u64) + k < 2 ^ 64 \<Longrightarrow> unat (b + of_nat k) = unat b + k"
  by (simp add: unat_word_ariths unat_of_nat)

lemma at_offset: "unat (y :: u64) = unat x + k \<Longrightarrow> y = x + of_nat k"
  by (metis of_nat_add of_nat_unat ucast_id)

lemma dma_ok_pages:
  assumes q: "q_desc (gm_vrx_queue hw) - gm_hhdm m = b" "q_avail (gm_vrx_queue hw) - gm_hhdm m = b + 128" "q_used (gm_vrx_queue hw) - gm_hhdm m = b + 160"
      "q_desc (gm_vtx_queue hw) - gm_hhdm m = b + 4096" "q_avail (gm_vtx_queue hw) - gm_hhdm m = b + 4096 + 128" "q_used (gm_vtx_queue hw) - gm_hhdm m = b + 4096 + 160"
    and l: "snd (device_view hw) = told 1 (b + 4096) (told 0 b Map.empty)"
    and d: "vrx_desc hw = map (\<lambda>i. rx_descriptor (buffer_at (b + 8192) i)) [0..<8]"
      "vtx_desc hw = map (\<lambda>i. tx_descriptor (buffer_at (b + 8192 + 4096) i)) [0..<8]"
    and b: "unat (gm_page_next m) \<le> unat b" "unat b + 40960 = unat (gm_page_next m')"
  shows "dma_ok m hw m'"
proof -
  have lt: "unat (gm_page_next m') < 2 ^ LENGTH(64)" by (rule unsigned_less)
  have "dma_areas hw = map (\<lambda>(k, n). (b + of_nat k, n)) dma_offsets"
    by (simp add: dma_areas_def queue_areas_def l told_def dma_offsets_eq d buffer_at_def upt_conv_Cons)
  moreover have "unat (b + of_nat k) = unat b + k" if "(k, n) \<in> set dma_offsets" for k n
  proof (rule unat_offset)
    have "k + n \<le> 40960" using that by (auto simp: dma_offsets_eq)
    then show "unat b + k < 2 ^ 64" using b lt by simp
  qed
  ultimately have as: "map (\<lambda>(a, n). (unat a, n)) (dma_areas hw) = map (\<lambda>(k, n). (unat b + k, n)) dma_offsets"
    by auto
  have hi: "unat (gm_page_next m') - 10 * 4096 = unat b" "unat b + 40960 = unat (gm_page_next m')" using b by simp_all
  have w: "within (unat (gm_page_next m') - 10 * 4096) (unat (gm_page_next m')) (map (\<lambda>(k, n). (unat b + k, n)) dma_offsets)"
    unfolding hi(1) using within_offsets [of "unat b"] unfolding hi(2) .
  have t: "queue_told (gm_hhdm m) 0 (gm_vrx_queue hw) hw" "queue_told (gm_hhdm m) 1 (gm_vtx_queue hw) hw"
    unfolding queue_told_def l Let_def q by (simp_all add: told_def)
  have o: "snd (device_view hw) (i, r) \<noteq> None \<Longrightarrow> i = 0 \<or> i = 1" for i r
    unfolding l by (auto simp: told_def split: if_splits)
  have n: "length (map (\<lambda>(k, n). (unat b + k, n)) dma_offsets) = 22" by (simp add: dma_offsets_eq)
  show ?thesis
    unfolding dma_ok_def as Let_def using apart_offsets w t o n b by (simp add: d)
qed

lemma dma_ok_earlier: "dma_ok m1 hw m' \<Longrightarrow> grows n m m1 \<Longrightarrow> dma_ok m hw m'"
  unfolding dma_ok_def Let_def grows_def by fastforce

definition init_idle :: "'a gm_virtio_scheme \<Rightarrow> bool" where
  "init_idle s \<longleftrightarrow> \<not> gm_virtio_ready s"

definition init_sound :: "nat \<Rightarrow> gm_memory \<Rightarrow> 'a gm_virtio_scheme \<Rightarrow> 'a gm_virtio_scheme init_result \<Rightarrow> bool" where
  "init_sound n m s r \<longleftrightarrow>
     (\<exists>ok mac hw' m' s'. r = Ok (ok, mac, hw', m', s') \<and> grows n m m' \<and> outside s' = outside s \<and> gm_virtio_ready s' = ok \<and>
       (ok \<longrightarrow> virtio_ok s' \<and> length mac = 6 \<and> (\<exists>b \<in> set mac. b \<noteq> 0) \<and> dma_ok m hw' m'))"

lemma init_sound_later:
  assumes "init_sound n m1 s1 r" "grows a m m1" "outside s1 = outside s" "a + n \<le> N"
  shows "init_sound N m s r"
proof -
  obtain ok mac hw' m' s' where r: "r = Ok (ok, mac, hw', m', s')" "grows n m1 m'" "outside s' = outside s1" "gm_virtio_ready s' = ok"
    "ok \<longrightarrow> virtio_ok s' \<and> length mac = 6 \<and> (\<exists>b \<in> set mac. b \<noteq> 0) \<and> dma_ok m1 hw' m'"
    using assms(1) unfolding init_sound_def by blast
  have "grows N m m'" by (rule grows_trans [OF assms(2) r(2) assms(4)])
  then show ?thesis unfolding init_sound_def using r assms(3) dma_ok_earlier [OF _ assms(2)] by simp
qed

lemma init_fail_sound: "init_idle s \<Longrightarrow> init_sound n m s (init_fail mac hw m s)"
  by (auto simp: init_sound_def init_fail_def init_idle_def)

lemma init_stop_sound: "init_idle s \<Longrightarrow> init_sound n m s (Ok (False, mac, hw, m, s))"
  by (auto simp: init_sound_def init_idle_def)

lemma init_idle_reset: "init_idle s \<Longrightarrow> init_idle (last_used_reset i s)"
  by (auto simp: init_idle_def last_used_reset_def)

lemma outside_reset [simp]: "outside (last_used_reset i s) = outside s"
  by (simp add: last_used_reset_def outside_def)

lemma virtio_queues_fill_init:
  "vrx_last_used s = 0 \<Longrightarrow> vtx_last_used s = 0 \<Longrightarrow> gm_virtq_notify 0 ((virtio_queues_fill s)\<lparr>gm_virtio_ready := True\<rparr>) = virtio_queues_init s"
  by (cases s) (simp add: virtio_queues_fill_def virtio_queues_init_def)

lemma fill_idle: "\<not> gm_virtio_ready s \<Longrightarrow> init_idle (virtio_queues_fill s)"
  by (simp add: init_idle_def virtio_queues_fill_def)

lemma outside_fill [simp]: "outside (virtio_queues_fill s) = outside s" "outside (virtio_queues_init s) = outside s"
  by (simp_all add: virtio_queues_fill_def virtio_queues_init_def gm_virtq_notify_def outside_def)

lemma queues_init_ready [simp]: "gm_virtio_ready (virtio_queues_init s)"
  by (simp add: virtio_queues_init_def gm_virtq_notify_def)

lemma dma_ok_keeps:
  assumes "dma_ok m hw m'" "hw_keeps hw hw1" "device_view hw1 = device_view hw"
  shows "dma_ok m hw1 m'"
proof -
  have k: "gm_vrx_queue hw1 = gm_vrx_queue hw" "gm_vtx_queue hw1 = gm_vtx_queue hw" "vrx_desc hw1 = vrx_desc hw" "vtx_desc hw1 = vtx_desc hw"
    using assms(2) by (simp_all add: hw_keeps_def)
  have e: "dma_areas hw1 = dma_areas hw" "queue_told h i q hw1 = queue_told h i q hw" for h i q
    by (simp_all add: dma_areas_def queue_areas_def queue_told_def k assms(3))
  show ?thesis using assms(1) unfolding dma_ok_def k assms(3) e .
qed

text \<open>
  The end of the initialisation. \<open>s\<close> is the driver before its side of the queues is filled, with both positions reset.
\<close>

lemma init_finish_sound:
  assumes s: "\<not> gm_virtio_ready s" "vrx_last_used s = 0" "vtx_last_used s = 0" and d: "dma_ok m hw m1" and g: "grows n m m1"
  shows "init_sound n m s (init_finish mac hw m1 (virtio_queues_fill s))"
proof -
  obtain ok mac1 hw1 where l: "mac_loop 8 mac hw = (ok, mac1, hw1)" by (metis prod_cases3)
  note k = mac_loop_keeps [OF l]
  have fail: "init_sound n m s (init_fail mac1 h m1 (virtio_queues_fill s))" for h
    by (rule init_sound_later [OF init_fail_sound g, where n = 0]) (use s fill_idle in auto)
  let ?h = "snd (reg_read8 device_status (status_or 4 hw1))"
  have "dma_ok m ?h m1"
    by (rule dma_ok_keeps [OF d]) (use k in \<open>simp_all add: hw_keeps_status\<close>)
  then have good: "init_sound n m s (Ok (True, mac1, ?h, m1, virtio_queues_init s))" if "ok" "\<exists>b \<in> set mac1. b \<noteq> 0"
    unfolding init_sound_def using that k g by (intro exI [of _ True]) (simp add: virtio_ok_init)
  show ?thesis
    using fail good by (simp add: init_finish_def l case_prod_beta Let_def virtio_queues_fill_init [OF s(2,3)])
qed

lemma init_queues_sound:
  assumes f: "fits n m" "10 \<le> n" and s: "init_idle s" and v: "snd (device_view hw) = Map.empty"
  shows "init_sound 10 m s (init_queues nb notify mac hw m s)"
proof -
  obtain ok1 q1 hw1 m1 s1 where 1: "gm_virtq_init 0 nb (cap_length notify) (cap_multiplier notify) (gm_vrx_queue hw) hw m s = Ok (ok1, q1, hw1, m1, s1)"
      "grows 1 m m1" "hw_keeps hw hw1" "s1 = s \<or> s1 = last_used_reset 0 s"
      "ok1 \<Longrightarrow> s1 = last_used_reset 0 s \<and> q_desc q1 = gm_page_next m + gm_hhdm m \<and> q_avail q1 = gm_page_next m + gm_hhdm m + 128 \<and>
         q_used q1 = gm_page_next m + gm_hhdm m + 160 \<and> snd (device_view hw1) = told (ucast (0 :: u16)) (gm_page_next m) (snd (device_view hw)) \<and>
         unat (gm_page_next m1) = unat (gm_page_next m) + 4096"
    by (rule virtq_init_fits [OF f(1), of 0 nb "cap_length notify" "cap_multiplier notify" "gm_vrx_queue hw" hw s]) (use f in auto)
  have f1: "fits 9 m1" by (rule fits_grows [OF f(1) 1(2)]) (use f in simp)
  let ?hw1 = "hw1\<lparr>gm_vrx_queue := q1\<rparr>"
  obtain ok2 q2 hw2 m2 s2 where 2: "gm_virtq_init 1 nb (cap_length notify) (cap_multiplier notify) (gm_vtx_queue ?hw1) ?hw1 m1 s1 = Ok (ok2, q2, hw2, m2, s2)"
      "grows 1 m1 m2" "hw_keeps ?hw1 hw2" "s2 = s1 \<or> s2 = last_used_reset 1 s1"
      "ok2 \<Longrightarrow> s2 = last_used_reset 1 s1 \<and> q_desc q2 = gm_page_next m1 + gm_hhdm m1 \<and> q_avail q2 = gm_page_next m1 + gm_hhdm m1 + 128 \<and>
         q_used q2 = gm_page_next m1 + gm_hhdm m1 + 160 \<and> snd (device_view hw2) = told (ucast (1 :: u16)) (gm_page_next m1) (snd (device_view ?hw1)) \<and>
         unat (gm_page_next m2) = unat (gm_page_next m1) + 4096"
    by (rule virtq_init_fits [OF f1, of 1 nb "cap_length notify" "cap_multiplier notify" "gm_vtx_queue ?hw1" ?hw1 s1]) auto
  have f2: "fits (2 * 4) m2" by (rule fits_grows [OF f1 2(2)]) simp
  obtain rx tx m3 where 3: "buffer_loop 0 8 0 0 [] [] m2 = Ok (rx, tx, m3)" "grows 8 m2 m3" "unat (gm_page_next m3) = unat (gm_page_next m2) + 32768"
      "rx = map (\<lambda>i. rx_descriptor (buffer_at (gm_page_next m2) i)) [0..<8]"
      "tx = map (\<lambda>i. tx_descriptor (buffer_at (gm_page_next m2 + 4096) i)) [0..<8]"
    using buffer_pairs [OF f2, of 0 0 0 "[]" "[]"] by auto
  have i: "init_idle s1" "init_idle s2" "outside s1 = outside s" "outside s2 = outside s"
    using s 1(4) 2(4) init_idle_reset by auto
  have g2: "grows 2 m m2" by (rule grows_trans [OF 1(2) 2(2)]) simp
  have g3: "grows 10 m m3" by (rule grows_trans [OF g2 3(2)]) simp
  let ?hw3 = "hw2\<lparr>gm_vtx_queue := q2, vrx_desc := rx, vtx_desc := tx, vrx_flags := 1, vtx_flags := 1\<rparr>"
  have last: "init_sound 10 m s (init_finish mac ?hw3 m3 (virtio_queues_fill s2))" if o: ok1 ok2
  proof -
    note a = 1(5) [OF o(1)] and b = 2(5) [OF o(2)]
    have n1: "gm_page_next m1 = gm_page_next m + 4096" "gm_page_next m2 = gm_page_next m + 8192"
      using a b at_offset [of "gm_page_next m1" "gm_page_next m" 4096] at_offset [of "gm_page_next m2" "gm_page_next m" 8192] by simp_all
    have "dma_ok m ?hw3 m3"
      by (rule dma_ok_pages [where b = "gm_page_next m"])
        (use a b n1 1(2) 2(3) 3 v in \<open>auto simp: hw_keeps_def grows_def\<close>)
    then have "init_sound 10 m s2 (init_finish mac ?hw3 m3 (virtio_queues_fill s2))"
      using a b i g3 by (intro init_finish_sound) (auto simp: init_idle_def last_used_reset_def)
    then show ?thesis using i by (simp add: init_sound_def)
  qed
  have fail1: "init_sound 10 m s (init_fail mac h m1 s1)" for h
    by (rule init_sound_later [OF init_fail_sound 1(2), where n = 0]) (use i in auto)
  have fail2: "init_sound 10 m s (init_fail mac h m2 s2)" for h
    by (rule init_sound_later [OF init_fail_sound g2, where n = 0]) (use i in auto)
  show ?thesis using last fail1 fail2 by (simp add: init_queues_def 1(1) 2(1) [simplified] 3(1) Let_def)
qed

lemma init_device_sound: "fits n m \<Longrightarrow> 10 \<le> n \<Longrightarrow> init_idle s \<Longrightarrow> init_sound 10 m s (init_device nb notify mac hw m s)"
  using init_fail_sound [of s 10 m] init_queues_sound [of n m s] view_reset [of hw "fst (gm_virtio_reset hw)" "snd (gm_virtio_reset hw)"]
  by (simp add: init_device_def case_prod_beta Let_def view_features)

lemma net_init_sound:
  assumes f: "fits 154 m"
  shows "init_sound 154 m s (gm_virtio_net_init mac hw m s)"
proof -
  let ?s = "s\<lparr>gm_virtio_ready := False\<rparr>"
  have i: "init_idle ?s" by (simp add: init_idle_def)
  have o: "outside ?s = outside s" by (simp add: outside_def)
  have stop: "init_sound 154 m s (Ok (False, mac, h, m', ?s))" if "grows 144 m m'" for h m'
    by (rule init_sound_later [OF init_stop_sound that, where n = 0]) (use i o in auto)
  show ?thesis
  proof (cases "gm_virtio_find hw")
    case None
    then show ?thesis using stop by (simp add: gm_virtio_net_init_def)
  next
    case (Some b)
    obtain bus dev fn where b: "b = (bus, dev, fn)" by (metis prod_cases3)
    let ?h = "gm_pci_write16 bus dev fn 4 (gm_pci_read16 bus dev fn 4 hw OR 6) hw"
    obtain ok c nt d where cp: "gm_virtio_caps bus dev fn ?h = (ok, c, nt, d)" by (metis prod_cases4)
    obtain r1 m1 where 1: "gm_virtio_map_cap bus dev fn c 0xffff900000100000 56 ?h m = Ok (r1, m1)" "grows 48 m m1"
      by (rule map_cap_fits [OF f]) auto
    have f1: "fits 106 m1" by (rule fits_grows [OF f 1(2)]) simp
    obtain r2 m2 where 2: "gm_virtio_map_cap bus dev fn nt 0xffff900000110000 2 ?h m1 = Ok (r2, m2)" "grows 48 m1 m2"
      by (rule map_cap_fits [OF f1]) auto
    have f2: "fits 58 m2" by (rule fits_grows [OF f1 2(2)]) simp
    obtain r3 m3 where 3: "gm_virtio_map_cap bus dev fn d 0xffff900000120000 6 ?h m2 = Ok (r3, m3)" "grows 48 m2 m3"
      by (rule map_cap_fits [OF f2]) auto
    have f3: "fits 10 m3" by (rule fits_grows [OF f2 3(2)]) simp
    have g: "grows 144 m m3" by (rule grows_trans [OF grows_trans [OF 1(2) 2(2), of 96] 3(2)]) simp_all
    have "init_sound 154 m s (init_device nb nt mac ?h m3 ?s)" for nb
      by (rule init_sound_later [OF init_device_sound [OF f3 _ i] g]) (use o in auto)
    then show ?thesis
      using stop [OF g] stop by (simp add: gm_virtio_net_init_def Some b cp 1(1) 2(1) 3(1) Let_def split: option.split)
  qed
qed


subsection \<open>The network device is started safely\<close>

text \<open>C11: Starting the network device is safe whatever is on the bus. With 154 pages left (three mappings of at most 16 pages with
  at most three new tables each, two queues, eight pages of buffers) \<^verbatim>\<open>gm_virtio_net_init\<close> never panics, takes at most
  these pages and changes nothing outside the driver; the driver is ready exactly when the call succeeds. When it does, the
  driver's invariant holds, the hardware address has six bytes and is not zero, the registers of
  the device hold the addresses of the descriptor table, the available ring and the used ring of exactly two queues, the same
  addresses that the driver uses; these six areas and the sixteen buffers lie in the last ten pages taken by this call,
  no two of them overlap, and of the buffers the device may write the 2048 bytes of each receive buffer and no others.
\<close>

theorem virtio_init_safe:
  assumes "fits 154 m"
  shows "\<exists>ok mac' hw' m' s'. gm_virtio_net_init mac hw m s = Ok (ok, mac', hw', m', s') \<and> grows 154 m m' \<and> outside s' = outside s \<and>
    gm_virtio_ready s' = ok \<and> (ok \<longrightarrow> virtio_ok s' \<and> length mac' = 6 \<and> (\<exists>b \<in> set mac'. b \<noteq> 0) \<and> dma_ok m hw' m')"
  using net_init_sound [OF assms, of s mac hw] unfolding init_sound_def .

text \<open>
  A machine with a device in slot 3 that answers as a modern network device, and a register environment in which every
  step of the negotiation succeeds.
\<close>

definition pci_example :: "u32 \<Rightarrow> u32" where
  "pci_example a =
     (case map_of [(0x1800, 0x10411af4), (0x1804, 0x00100000), (0x180c, 0), (0x1834, 0x40), (0x1810, 0xfe000000),
         (0x1840, 0x01105009), (0x1844, 0), (0x1848, 0), (0x184c, 0x1000),
         (0x1850, 0x02146809), (0x1854, 0), (0x1858, 0x3000), (0x185c, 0x1000), (0x1860, 4),
         (0x1868, 0x04100009), (0x186c, 0), (0x1870, 0x2000), (0x1874, 0x1000)] (a AND 0x7fffffff) of
        None \<Rightarrow> 0xffffffff | Some v \<Rightarrow> v)"

definition hw_example :: virtio_hw where
  "hw_example = \<lparr>pci_answer = (\<lambda>_. pci_example), pci_writes = [],
     env_mmio = [0, 1, 32, 1, 3, 11, 2, 0, 8, 0, 1, 0, 8, 1, 1, 7, 0x52, 0x54, 0, 0x12, 0x34, 0x56, 7, 11, 15], mmio_log = [],
     gm_vrx_queue = \<lparr>q_desc = 0, q_avail = 0, q_used = 0, q_notify = 0\<rparr>, gm_vtx_queue = \<lparr>q_desc = 0, q_avail = 0, q_used = 0, q_notify = 0\<rparr>,
     vrx_desc = [], vtx_desc = [], vrx_flags = 0, vtx_flags = 0\<rparr>"

definition memory_example :: gm_memory where
  "memory_example = \<lparr>gm_hhdm = 0xffff800000000000, gm_page_next = 0x1000000, gm_page_end = 0x2000000, cpu_cr3 = 0x100000, phys_mem = (\<lambda>_. 0)\<rparr>"

definition started :: "'s init_result \<Rightarrow> bool" where
  "started r = (case r of Ok (ok, _) \<Rightarrow> ok | Panic _ \<Rightarrow> False)"

lemma reset_at_once: "env_mmio hw = 0 # vs \<Longrightarrow> gm_virtio_reset hw = (True, (reg_write device_status 0 hw)\<lparr>env_mmio := vs\<rparr>)"
  using reset_loop.simps(2) [of 99999] by (simp add: gm_virtio_reset_def reg_read8_def mmio_read_def reg_write_def)

definition hw_enabled :: virtio_hw where
  "hw_enabled = gm_pci_write16 0 3 0 4 (gm_pci_read16 0 3 0 4 hw_example OR 6) hw_example"

lemma example_find: "gm_virtio_find hw_example = Some (0, 3, 0)"
  by code_simp

lemma example_reset: "gm_virtio_reset hw_enabled = (True, (reg_write device_status 0 hw_enabled)\<lparr>env_mmio := tl (env_mmio hw_enabled)\<rparr>)"
  by (rule reset_at_once) (simp add: hw_enabled_def hw_example_def gm_pci_write16_def gm_pci_write32_def Let_def)

lemma example_started: "started (gm_virtio_net_init [] hw_example memory_example virtio_blank)"
  unfolding gm_virtio_net_init_def example_find option.case prod.case Let_def hw_enabled_def [symmetric] init_device_def example_reset
  by code_simp

theorem virtio_init_safe_witness:
  "fits 154 memory_example \<and>
   (\<exists>mac' hw' m' s'. gm_virtio_net_init [] hw_example memory_example virtio_blank = Ok (True, mac', hw', m', s') \<and>
      gm_virtio_ready s' \<and> virtio_ok s' \<and> length mac' = 6 \<and> dma_ok memory_example hw' m')"
proof -
  have h: "fits 154 memory_example" by (simp add: fits_def memory_example_def)
  then show ?thesis
    using virtio_init_safe [OF h, of "[]" hw_example virtio_blank] example_started by (auto simp: started_def)
qed

end
