(* ===== verification/Kernel_Main.thy ===== *)
theory Kernel_Main
  imports Shell Core_Paging Core_Irq Virtio_Init
begin

unbundle bit_operations_syntax

section \<open>Start-up and the main loop (\<^verbatim>\<open>kernel.c\<close>)\<close>

text \<open>
  \<^verbatim>\<open>kernel_main\<close> puts the components together: it starts them in order and then polls the network, the periodic launches
  and the serial line for ever, running a program whenever one is ready. The loop is a step relation with three modes:
  in the kernel, in a program, and switched off. A step in a program is anything a program can do: write its own memory,
  call a service, be interrupted by the timer, or fault. \<^verbatim>\<open>gm_net_init\<close> of \<^verbatim>\<open>net.c\<close> is here too, since it starts the device.
\<close>

subsection \<open>Starting the network\<close>

definition arp_zero :: gm_arp_entry where
  "arp_zero = \<lparr>arp_used = False, arp_ip = (0, 0, 0, 0), arp_mac = replicate 6 0\<rparr>"

definition net_zero :: "'a gm_net_scheme \<Rightarrow> 'a gm_net_scheme" where
  "net_zero s = s\<lparr>gm_arp := replicate 8 arp_zero, gm_ip_id := 0, gm_ping_seq := 0, gm_ping_reply := 0, gm_udp_local_port := 0,
      gm_udp_remote_port := 0, gm_udp_next_port := 49152, gm_udp_reply_len := 0, gm_udp_active := False,
      gm_udp_peer := (0, 0, 0, 0), gm_udp_reply := replicate 1024 0, gm_rx_packets := 0, gm_tx_packets := 0, gm_net_online := False\<rparr>"

definition gm_net_init :: "virtio_hw \<Rightarrow> gm_memory \<Rightarrow> 'a gm_net_scheme \<Rightarrow> (virtio_hw \<times> gm_memory \<times> 'a gm_net_scheme) outcome" where
  "gm_net_init hw m s =
     (let s = net_zero s in
      and_then (gm_virtio_net_init (gm_mac s) hw m s) (\<lambda>(ok, mac, hw, m, s).
        let s = s\<lparr>gm_mac := mac\<rparr> in
        if ok then
          let s = s\<lparr>gm_net_online := True\<rparr>; s = gm_say ''net virtio '' s; s = gm_print_ip (cfg_ip (gm_config s)) s in
          Ok (hw, m, gm_write (Some [10]) s)
        else Ok (hw, m, gm_write (Some (asc ''net offline'' @ [10])) s)))"


subsection \<open>Start-up\<close>

text \<open>What the boot loader answers to the requests of the kernel.\<close>

record boot_info =
  base_revision_supported :: bool
  memmap_response :: "memmap_entry list option"
  hhdm_response :: "u64 option"
  cmdline_response :: "cstr option"

definition kernel_boot :: "gm_image \<Rightarrow> boot_info \<Rightarrow> virtio_hw \<Rightarrow> gm_tables \<Rightarrow> gm_shell \<Rightarrow> 'a gm_programs_scheme \<Rightarrow>
    (virtio_hw \<times> gm_tables \<times> gm_shell \<times> 'a gm_programs_scheme) outcome" where
  "kernel_boot im bi hw tb sh s =
     (let tb = gm_serial_init tb; s = gm_write (Some ([10] @ asc ''GMKER 3.2'' @ [10])) s in
      if \<not> base_revision_supported bi then Panic ''unsupported Limine base revision''
      else case memmap_response bi of
        None \<Rightarrow> Panic ''no memory map''
      | Some entries \<Rightarrow>
          (case hhdm_response bi of
             None \<Rightarrow> Panic ''no HHDM''
           | Some offset \<Rightarrow>
               let s = s\<lparr>gm_config := gm_load_config (cmdline_response bi) (gm_config s)\<rparr> in
               and_then (gm_memory_init entries offset (gm_mem s) s) (\<lambda>(m, s).
                 let tb = gm_irq_init im tb in
                 case gm_timer_init tb s of (tb, s) \<Rightarrow>
                 and_then (gm_net_init hw m s) (\<lambda>(hw, m, s).
                   let s = gm_tcp_init (s\<lparr>gm_mem := m\<rparr>) in
                   and_then (gm_programs_init s) (\<lambda>s.
                     case gm_shell_init sh s of (sh, s) \<Rightarrow> Ok (hw, tb, sh, s))))))"


subsection \<open>The main loop\<close>

datatype cpu_mode = In_Kernel | In_Program | Switched_Off

type_synonym 's config = "cpu_mode \<times> gm_shell \<times> 's"

text \<open>One round of the loop, up to the point where a program runs or the processor waits; \<open>None\<close> if a command never returns.\<close>

definition kernel_round :: "gm_shell \<Rightarrow> 'a gm_programs_scheme \<Rightarrow> 'a gm_programs_scheme config option" where
  "kernel_round sh s =
     (let s = gm_net_poll s; s = gm_tcp_poll s; s = gm_periodic_poll s in
      case gm_shell_poll sh s of
        None \<Rightarrow> None
      | Some (Shut (sh, s)) \<Rightarrow> Some (Switched_Off, sh, s)
      | Some (Ran (sh, s)) \<Rightarrow>
          (case gm_program_schedule s of
             (None, s) \<Rightarrow> Some (In_Kernel, sh, cpu_hlt s)
           | (Some slot, s) \<Rightarrow> Some (In_Program, sh, s)))"

text \<open>The trap handlers of \<^verbatim>\<open>isr.asm\<close>: a nonzero answer goes back to the loop, any other one resumes the program.\<close>

definition back_to :: "bool \<Rightarrow> cpu_mode" where
  "back_to back = (if back then In_Kernel else In_Program)"

definition service_trap :: "service_frame \<Rightarrow> gm_shell \<Rightarrow> 'a gm_programs_scheme \<Rightarrow> 'a gm_programs_scheme config outcome" where
  "service_trap frame sh s = and_then (gm_program_service frame s) (\<lambda>(back, f, t). Ok (back_to back, sh, t))"

definition timer_trap :: "service_frame \<Rightarrow> gm_shell \<Rightarrow> 'a gm_programs_scheme \<Rightarrow> 'a gm_programs_scheme config outcome" where
  "timer_trap frame sh s = and_then (gm_program_preempt frame (gm_timer_irq s)) (\<lambda>(back, t). Ok (back_to back, sh, t))"

definition fault_trap :: "u64 \<Rightarrow> u64 \<Rightarrow> u64 \<Rightarrow> gm_shell \<Rightarrow> 'a gm_programs_scheme \<Rightarrow> 'a gm_programs_scheme config outcome" where
  "fault_trap vector code cs sh s = and_then (gm_fault_dispatch vector code cs s) (\<lambda>t. Ok (In_Kernel, sh, t))"

text \<open>
  The step relation. \<open>deliver\<close> lets the outside world deliver anything: later clock readings, device contents and keys.
  The result is an outcome, so that a panic would be a step too.
\<close>

inductive system_step :: "'a gm_programs_scheme config \<Rightarrow> 'a gm_programs_scheme config outcome \<Rightarrow> bool" where
  round: "kernel_round sh s = Some c \<Longrightarrow> system_step (In_Kernel, sh, s) (Ok c)"
| deliver: "system_step (mode, sh, s) (Ok (mode, sh\<lparr>env_serial := ks\<rparr>, s\<lparr>env_ticks := ts, env_dev := ds\<rparr>))"
| store: "user_addr x \<Longrightarrow> system_step (In_Program, sh, s) (Ok (In_Program, sh, user_put x [v] s))"
| service: "f_cs frame AND 3 = 3 \<Longrightarrow> system_step (In_Program, sh, s) (service_trap frame sh s)"
| timer: "f_cs frame AND 3 = 3 \<Longrightarrow> system_step (In_Program, sh, s) (timer_trap frame sh s)"
| fault: "cs AND 3 = 3 \<Longrightarrow> system_step (In_Program, sh, s) (fault_trap vector code cs sh s)"

inductive system_reach :: "'a gm_programs_scheme config \<Rightarrow> 'a gm_programs_scheme config \<Rightarrow> bool" for c0 where
  start: "system_reach c0 c0"
| more_steps: "system_reach c0 c \<Longrightarrow> system_step c (Ok c') \<Longrightarrow> system_reach c0 c'"

inductive_cases system_stepE: "system_step c r"

text \<open>The invariant of the whole system.\<close>

fun config_ok :: "'a gm_programs_scheme config \<Rightarrow> bool" where
  "config_ok (mode, sh, s) \<longleftrightarrow> line_ok sh \<and> per_ok s \<and> (if mode = In_Program then user_ok s else kernel_ok s)"


subsection \<open>Every step keeps the invariant\<close>

lemma poll_same: "prog_same s (gm_tcp_poll (gm_net_poll s))"
proof (rule prog_same_upper)
  have "poll_view (gm_net_poll s) = poll_view s"
    by (rule poll_view_still) (simp add: gm_net_poll_def net_poll_loop_still)
  then show "upper (gm_tcp_poll (gm_net_poll s)) = upper s" using tcp_poll_frame upper_view by metis
  show "net_ok s \<Longrightarrow> net_ok (gm_tcp_poll (gm_net_poll s))" by (intro tcp_poll_net_ok net_poll_ok)
qed

lemma hlt_same: "prog_same s (cpu_hlt s)"
  by (rule prog_same_upper, rule upper_view, rule poll_view_clock(2)) (simp only: net_ok_clock)

lemma deliver_same: "prog_same s (s\<lparr>env_ticks := ts, env_dev := ds\<rparr>)"
  by (simp add: prog_same_def prog_view_def confined_def net_ok_def driver_ok_def virtio_ok_def tcp_ok_def ring_ok_def)

lemma timer_irq_same: "prog_same s (gm_timer_irq s)"
  by (simp add: prog_same_def prog_view_def confined_def gm_timer_irq_def)

lemma store_same_user: "user_addr x \<Longrightarrow> prog_same s (user_put x [v] s)"
  by (auto simp: prog_same_def prog_view_def confined_def user_put_def Let_def unat_eq_0 split: if_splits)

lemma schedule_periodics: "gm_program_schedule s = (r, t) \<Longrightarrow> gm_periodics t = gm_periodics s"
  by (auto simp: gm_program_schedule_def gm_program_activate_def split: option.splits)

lemma round_ok:
  assumes "line_ok sh" "system_ok s" "kernel_round sh s = Some c"
  shows "config_ok c"
proof -
  let ?s = "gm_periodic_poll (gm_tcp_poll (gm_net_poll s))"
  have "system_ok (gm_tcp_poll (gm_net_poll s))" using system_ok_same [OF poll_same assms(2)] .
  then have s: "system_ok ?s" using periodic_poll_ok [of "gm_tcp_poll (gm_net_poll s)"] by (simp add: system_ok_def)
  obtain r where r: "gm_shell_poll sh ?s = Some r" using assms(3) by (cases "gm_shell_poll sh ?s") (simp_all add: kernel_round_def)
  note o = shell_poll_ok [OF assms(1) s r]
  obtain sh1 s1 where sh: "ran_state r = (sh1, s1)" by fastforce
  show ?thesis
  proof (cases r)
    case (Shut x)
    then show ?thesis using assms(3) r o sh by (auto simp: kernel_round_def system_ok_def)
  next
    case (Ran x)
    obtain sl s2 where g: "gm_program_schedule s1 = (sl, s2)" by fastforce
    have k: "kernel_ok s1" "per_ok s1" "line_ok sh1" using o sh by (simp_all add: system_ok_def)
    have p: "per_ok s2" using per_ok_same [OF schedule_periodics [OF g]] k(2) by simp
    show ?thesis
    proof (cases sl)
      case None
      then have "s2 = s1" using g by (auto simp: gm_program_schedule_def split: option.splits)
      moreover have "system_ok (cpu_hlt s1)" using system_ok_same [OF hlt_same, of s1] k by (simp add: system_ok_def)
      ultimately show ?thesis using assms(3) r Ran sh g None k by (auto simp: kernel_round_def system_ok_def)
    next
      case (Some i)
      then have "user_ok s2" using schedule_user_ok [OF k(1)] g by blast
      then show ?thesis using assms(3) r Ran sh g Some k p by (auto simp: kernel_round_def)
    qed
  qed
qed

text \<open>A trap of a running program: no panic, back in the kernel, and only the program's own memory changed.\<close>

definition trap_ok :: "'a gm_programs_scheme \<Rightarrow> gm_shell \<Rightarrow> 'a gm_programs_scheme config outcome \<Rightarrow> bool" where
  "trap_ok s sh r \<longleftrightarrow> (\<exists>t. r = Ok (In_Kernel, sh, t) \<and> kernel_ok t \<and> confined s t \<and> gm_periodics t = gm_periodics s)"

lemma confined_mem: "user_mem t = user_mem s \<Longrightarrow> confined s t"
  by (simp add: confined_def)

lemma traps_ok:
  assumes "user_ok s"
  shows "f_cs frame AND 3 = 3 \<Longrightarrow> trap_ok s sh (service_trap frame sh s)"
    "f_cs frame AND 3 = 3 \<Longrightarrow> trap_ok s sh (timer_trap frame sh s)"
    "cs AND 3 = 3 \<Longrightarrow> trap_ok s sh (fault_trap vector code cs sh s)"
proof -
  have u: "user_ok (gm_timer_irq s)" "user_mem (gm_timer_irq s) = user_mem s" "gm_periodics (gm_timer_irq s) = gm_periodics s"
    using user_ok_same [OF timer_irq_same assms] by (simp_all add: gm_timer_irq_def)
  show "f_cs frame AND 3 = 3 \<Longrightarrow> trap_ok s sh (service_trap frame sh s)"
    using service_handled [OF assms, of frame] by (auto simp: trap_ok_def service_trap_def back_to_def)
  show "f_cs frame AND 3 = 3 \<Longrightarrow> trap_ok s sh (timer_trap frame sh s)"
    using preempt_handled [OF u(1), of frame] u(2,3) by (auto simp: trap_ok_def timer_trap_def back_to_def intro: confined_mem)
  show "cs AND 3 = 3 \<Longrightarrow> trap_ok s sh (fault_trap vector code cs sh s)"
    using fault_handled [OF assms, of cs vector code] by (auto simp: trap_ok_def fault_trap_def gm_fault_dispatch_def intro: confined_mem)
qed

lemma trap_ok_config: "trap_ok s sh r \<Longrightarrow> line_ok sh \<Longrightarrow> per_ok s \<Longrightarrow> \<exists>c'. r = Ok c' \<and> config_ok c' \<and> confined s (snd (snd c'))"
  by (auto simp: trap_ok_def dest: per_ok_same)

lemma same_config: "prog_same s t \<Longrightarrow> config_ok (mode, sh, s) \<Longrightarrow> line_ok sh' \<Longrightarrow> config_ok (mode, sh', t)"
  using user_ok_same [of s t] kernel_ok_same [of s t] per_ok_same [OF prog_same_sel(4), of s t] by auto

lemma step_ok:
  assumes "config_ok c" "system_step c r"
  shows "\<exists>c'. r = Ok c' \<and> config_ok c' \<and> (fst c = In_Program \<longrightarrow> confined (snd (snd c)) (snd (snd c')))"
  using assms(2)
proof cases
  case (round sh s c')
  then show ?thesis using round_ok [of sh s c'] assms(1) by (simp add: system_ok_def)
next
  case (deliver mode sh s ks ds ts)
  let ?t = "s\<lparr>env_ticks := ts, env_dev := ds\<rparr>"
  have "config_ok (mode, sh\<lparr>env_serial := ks\<rparr>, ?t)"
    by (rule same_config [OF deliver_same]) (use assms(1) deliver in \<open>auto simp: line_ok_def\<close>)
  moreover have "confined s ?t" by (simp add: confined_def)
  ultimately show ?thesis using deliver by simp
next
  case (store x sh s v)
  note same = store_same_user [OF store(3), of s v]
  have "config_ok (In_Program, sh, user_put x [v] s)" by (rule same_config [OF same]) (use assms(1) store in auto)
  then show ?thesis using same store by (simp add: prog_same_def)
next
  case (service frame sh s)
  then show ?thesis using trap_ok_config [OF traps_ok(1) [of s frame sh]] assms(1) by auto
next
  case (timer frame sh s)
  then show ?thesis using trap_ok_config [OF traps_ok(2) [of s frame sh]] assms(1) by auto
next
  case (fault cs sh s vector code)
  then show ?thesis using trap_ok_config [OF traps_ok(3) [of s cs sh vector code]] assms(1) by auto
qed

lemma reach_ok: "system_reach c0 c \<Longrightarrow> config_ok c0 \<Longrightarrow> config_ok c"
  by (induction rule: system_reach.induct) (auto dest: step_ok)


subsection \<open>The choice of the memory\<close>

definition usable :: "memmap_entry \<Rightarrow> bool" where
  "usable e \<longleftrightarrow> mm_type e = 0"

definition entry_end :: "memmap_entry \<Rightarrow> nat" where
  "entry_end e = unat (mm_base e) + unat (mm_length e)"

definition entry_low :: "memmap_entry \<Rightarrow> nat" where
  "entry_low e = max (unat (mm_base e)) 0x1000000"

text \<open>The best region so far: none, or whole pages inside a usable entry and above the first 16 MiB.\<close>

definition region_ok :: "memmap_entry list \<Rightarrow> u64 \<times> u64 \<Rightarrow> bool" where
  "region_ok es b \<longleftrightarrow> b = (0, 0) \<or> (\<exists>e \<in> set es. usable e \<and> 4096 dvd unat (fst b) \<and> 4096 dvd unat (snd b) \<and>
     entry_low e \<le> unat (fst b) \<and> unat (fst b) \<le> unat (snd b) \<and> unat (snd b) \<le> entry_end e)"

definition room :: "u64 \<times> u64 \<Rightarrow> nat" where
  "room b = unat (snd b) - unat (fst b)"

lemma unat_page_down: "unat ((x :: u64) AND NOT 4095) = 4096 * (unat x div 4096)"
proof -
  have m: "(4095 :: u64) = mask 12" by (simp add: mask_eq_exp_minus_1)
  have "x AND NOT 4095 = push_bit 12 (drop_bit 12 x)" unfolding m
    by (rule bit_word_eqI) (auto simp: bit_simps)
  also have "\<dots> = x - take_bit 12 x" using bits_ident [of 12 x] by (simp add: algebra_simps)
  finally have e: "x AND NOT 4095 = x - take_bit 12 x" .
  have t: "unat (take_bit 12 x) = unat x mod 4096" by (simp add: take_bit_eq_mod unat_mod)
  then have "take_bit 12 x \<le> x" by (simp add: word_le_nat_alt)
  then have "unat (x - take_bit 12 x) = unat x - unat x mod 4096" using t unat_sub by metis
  then show ?thesis using e by (simp add: minus_mod_eq_mult_div)
qed

lemma unat_page_up: "unat (v :: u64) < 2 ^ 53 \<Longrightarrow> unat (gm_align_up v 4096) = 4096 * ((unat v + 4095) div 4096)"
proof -
  assume "unat v < 2 ^ 53"
  then have "unat (v + 4095) = unat v + 4095" using unat_offset [of v 4095] by simp
  then show ?thesis using unat_page_down [of "v + 4095"] by (simp add: gm_align_up_def add.commute)
qed

lemma memory_step_ok:
  assumes "region_ok es b" "e \<in> set es" "usable e \<Longrightarrow> entry_end e < 2 ^ 52"
  shows "region_ok es (memory_step e b) \<and> room b \<le> room (memory_step e b) \<and>
    (usable e \<longrightarrow> entry_end e < entry_low e + room (memory_step e b) + 8192)"
proof (cases "usable e")
  case False
  then show ?thesis using assms(1) by (simp add: memory_step_def usable_def)
next
  case True
  let ?w = "mm_base e + mm_length e" and ?v = "if mm_base e < 0x1000000 then 0x1000000 else mm_base e"
  let ?a = "gm_align_up ?v 4096"
  have E: "entry_end e < 2 ^ 52" using assms(3) True by simp
  have w: "unat ?w = entry_end e" using E by (simp add: entry_end_def unat_word_ariths)
  have v: "unat ?v = entry_low e" by (auto simp: entry_low_def word_less_nat_alt max_def)
  have lo: "entry_low e < 2 ^ 53" using E by (simp add: entry_low_def entry_end_def)
  define l where "l = (entry_low e + 4095) div 4096"
  have a: "unat ?a = 4096 * l" using unat_page_up [of ?v] lo v by (simp add: l_def)
  have l: "entry_low e \<le> 4096 * l" "4096 * l < entry_low e + 4096" unfolding l_def by linarith+
  have ft: "fst b \<le> snd b" and rb: "room b mod 4096 = 0" and z: "fst b = 0 \<Longrightarrow> b = (0, 0)"
    using assms(1) by (auto simp: region_ok_def word_le_nat_alt room_def entry_low_def mod_eq_0_iff_dvd)
  have u: "unat (snd b - fst b) = room b" using ft by (simp add: room_def unat_sub)
  have s: "memory_step e b = (if ?w \<le> 0x1000000 then b else if ?w \<le> ?a then b
      else if fst b = 0 \<or> ?w - ?a > snd b - fst b then (?a, ?w AND NOT 4095) else b)"
    using True by (simp add: memory_step_def usable_def Let_def)
  consider (low) "?w \<le> 0x1000000" | (small) "\<not> ?w \<le> 0x1000000" "?w \<le> ?a"
    | (take) "\<not> ?w \<le> 0x1000000" "\<not> ?w \<le> ?a" "fst b = 0 \<or> ?w - ?a > snd b - fst b"
    | (keep) "\<not> ?w \<le> 0x1000000" "\<not> ?w \<le> ?a" "\<not> (fst b = 0 \<or> ?w - ?a > snd b - fst b)" by blast
  then show ?thesis
  proof cases
    case low
    then have "entry_end e \<le> 0x1000000" using w by (simp add: word_le_nat_alt)
    then have "entry_end e \<le> entry_low e" by (simp add: entry_low_def le_max_iff_disj)
    then show ?thesis using low s assms(1) by simp
  next
    case small
    then have "entry_end e \<le> 4096 * l" using w a by (simp add: word_le_nat_alt)
    then show ?thesis using small s assms(1) l by simp
  next
    case take
    have lt: "4096 * l < entry_end e" using take(2) w a by (simp add: word_le_nat_alt)
    have d: "unat (?w - ?a) = entry_end e - 4096 * l" using take(2) w a by (simp add: unat_sub)
    define h where "h = entry_end e div 4096"
    have h: "4096 * h \<le> entry_end e" "entry_end e < 4096 * h + 4096" unfolding h_def by linarith+
    have wh: "unat (?w AND NOT 4095) = 4096 * h" using unat_page_down [of ?w] w by (simp add: h_def)
    have lh: "l \<le> h" using lt h by linarith
    have r: "room (?a, ?w AND NOT 4095) = 4096 * h - 4096 * l" using wh a by (simp add: room_def)
    have "room b < entry_end e - 4096 * l \<or> room b = 0"
      using take(3) z u d by (auto simp: word_less_nat_alt room_def)
    moreover obtain k where k: "room b = 4096 * k" using rb by (auto simp: mod_eq_0_iff_dvd elim!: dvdE)
    ultimately have "k + l \<le> h" using h lh by linarith
    then have "room b \<le> 4096 * h - 4096 * l" using k by linarith
    moreover have "region_ok es (?a, ?w AND NOT 4095)"
      unfolding region_ok_def using assms(2) True a wh l lh h by auto
    moreover have "entry_end e < entry_low e + (4096 * h - 4096 * l) + 8192" using h l lh by linarith
    ultimately show ?thesis using s take r by (simp del: bit_0_eq)
  next
    case keep
    have d: "unat (?w - ?a) = entry_end e - 4096 * l" using keep(2) w a by (simp add: unat_sub)
    then have "entry_end e - 4096 * l \<le> room b" using keep(3) u by (simp add: word_less_nat_alt)
    then have "entry_end e < entry_low e + room b + 8192" using l by linarith
    then show ?thesis using keep s assms(1) by simp
  qed
qed

lemma memory_scan_ok:
  assumes "\<forall>e \<in> set es. usable e \<longrightarrow> entry_end e < 2 ^ 52"
  shows "set fs \<subseteq> set es \<Longrightarrow> region_ok es b \<Longrightarrow> region_ok es (memory_scan fs b) \<and> room b \<le> room (memory_scan fs b) \<and>
    (\<forall>e \<in> set fs. usable e \<longrightarrow> entry_end e < entry_low e + room (memory_scan fs b) + 8192)"
proof (induction fs arbitrary: b)
  case (Cons f fs)
  have s: "region_ok es (memory_step f b)" "room b \<le> room (memory_step f b)"
      "usable f \<Longrightarrow> entry_end f < entry_low f + room (memory_step f b) + 8192"
    using memory_step_ok [of es b f] Cons.prems assms by auto
  have "set fs \<subseteq> set es" using Cons.prems(1) by simp
  from Cons.IH [OF this s(1)] show ?case using s(2,3) by fastforce
qed simp

text \<open>
  What start-up relies on. The boot loader: it supports the protocol, describes memory below \<open>2 ^ 52\<close>, leaves 256 pages in
  one usable entry above 16 MiB, and keeps the active page tables out of usable memory. The image: its static arrays of the
  line editor and of the connection have their sizes. Nothing is asked of the network driver, which has no queues yet.
\<close>

definition boot_ok :: "boot_info \<Rightarrow> gm_memory \<Rightarrow> bool" where
  "boot_ok bi m \<longleftrightarrow> base_revision_supported bi \<and> hhdm_response bi \<noteq> None \<and>
     (case memmap_response bi of None \<Rightarrow> False | Some es \<Rightarrow>
        (\<forall>e \<in> set es. usable e \<longrightarrow> entry_end e < 2 ^ 52 \<and> \<not> (unat (mm_base e) \<le> unat (cpu_cr3 m) \<and> unat (cpu_cr3 m) < entry_end e)) \<and>
        (\<exists>e \<in> set es. usable e \<and> entry_low e + 4096 * 256 \<le> entry_end e))"

definition static_ok :: "gm_shell \<Rightarrow> 'a gm_tcp_scheme \<Rightarrow> bool" where
  "static_ok sh s \<longleftrightarrow> length (gm_line sh) = 512 \<and> length (gm_tcp_rx s) = 4096 \<and> length (gm_tcp_unacked s) = 1280"

lemma memory_init_ok:
  assumes "boot_ok bi m" "memmap_response bi = Some es" "hhdm_response bi = Some h"
  obtains m1 s1 where "gm_memory_init es h m s = Ok (m1, s1)" "s1 = s\<lparr>gm_console := gm_console s1\<rparr>" "fits 254 m1" "cpu_cr3 m1 = cpu_cr3 m"
    "paged (gm_page_next m1)" "unat (gm_page_end m1) < 2 ^ 52" "\<not> (unat (gm_page_next m1) \<le> unat (cpu_cr3 m) \<and> unat (cpu_cr3 m) < unat (gm_page_end m1))"
proof -
  let ?b = "memory_scan es (0, 0)"
  have es: "\<forall>e \<in> set es. usable e \<longrightarrow> entry_end e < 2 ^ 52 \<and> \<not> (unat (mm_base e) \<le> unat (cpu_cr3 m) \<and> unat (cpu_cr3 m) < entry_end e)"
    using assms by (simp add: boot_ok_def)
  obtain e where e: "e \<in> set es" "usable e" "entry_low e + 4096 * 256 \<le> entry_end e" using assms by (auto simp: boot_ok_def)
  have "region_ok es (0, 0)" by (simp add: region_ok_def)
  then have r: "region_ok es ?b" "entry_end e < entry_low e + room ?b + 8192"
    using memory_scan_ok [of es es "(0, 0)"] es e by auto
  then have "4096 * 254 < room ?b" using e(3) by simp
  then obtain f where f: "f \<in> set es" "usable f" "4096 dvd unat (fst ?b)" "entry_low f \<le> unat (fst ?b)" "unat (snd ?b) \<le> entry_end f"
      "unat (fst ?b) + 4096 * 254 \<le> unat (snd ?b)"
    using r(1) by (auto simp: region_ok_def room_def)
  have "fst ?b \<noteq> 0" "\<not> snd ?b \<le> fst ?b" using f(4,6) by (auto simp: entry_low_def word_le_nat_alt)
  then have ini: "gm_memory_init es h m s = Ok (m\<lparr>gm_hhdm := h, gm_page_next := fst ?b, gm_page_end := snd ?b\<rparr>,
      gm_write (Some (asc '' MiB'' @ [10])) (gm_print_u64 ((snd ?b - fst ?b) div 1024 div 1024) (gm_say ''memory '' s)))"
    by (simp add: gm_memory_init_def Let_def)
  have lt: "entry_end f < 2 ^ 52" and out: "\<not> (unat (mm_base f) \<le> unat (cpu_cr3 m) \<and> unat (cpu_cr3 m) < entry_end f)" using es f(1,2) by auto
  have "unat (mm_base f) \<le> unat (fst ?b)" using f(4) by (simp add: entry_low_def)
  then have "\<not> (unat (fst ?b) \<le> unat (cpu_cr3 m) \<and> unat (cpu_cr3 m) < unat (snd ?b))" using out f(5) by linarith
  then show ?thesis
    using that [OF ini] f lt by (simp add: fits_def paged_iff console_simps)
qed


subsection \<open>Start-up succeeds\<close>

lemma arp_zero_ok: "arp_ok (replicate 8 arp_zero)"
  by (simp add: arp_ok_def arp_zero_def)

lemma more_sel:
  fixes s t :: "'a gm_tcp_scheme"
  assumes "gm_virtio.more t = gm_virtio.more s"
  shows "gm_arp t = gm_arp s" "gm_udp_reply t = gm_udp_reply s" "gm_udp_reply_len t = gm_udp_reply_len s" "gm_tcp_rx t = gm_tcp_rx s"
    "gm_tcp_unacked t = gm_tcp_unacked s" "gm_tcp.more t = gm_tcp.more s"
  using assms by (cases s; cases t; simp)+

lemma net_start_ok:
  fixes s :: "'a gm_tcp_scheme"
  assumes "driver_ok s" "arp_ok (gm_arp s)" "length (gm_udp_reply s) = 1024" "gm_udp_reply_len s = 0" "length (gm_tcp_rx s) = 4096" "length (gm_tcp_unacked s) = 1280"
  shows "net_ok (gm_tcp_init s)"
proof -
  have "driver_ok (gm_tcp_init s)" using assms(1) unfolding driver_ok_def virtio_ok_def gm_tcp_init_def by simp
  then show ?thesis using assms(2-) by (simp add: net_ok_def tcp_ok_def ring_ok_def gm_tcp_init_def)
qed

lemma driver_ok_console: "driver_ok (gm_write p s) = driver_ok s" "driver_ok (gm_print_ip ip s) = driver_ok s"
  by (simp_all add: driver_ok_def virtio_ok_def console_simps)

lemma gm_net_init_ok:
  fixes s :: "'a gm_tcp_scheme"
  assumes f: "fits 154 m" and s: "static_ok sh s"
  obtains hw1 m1 s1 where "gm_net_init hw m s = Ok (hw1, m1, s1)" "grows 154 m m1" "net_ok (gm_tcp_init s1)" "gm_tcp.more s1 = gm_tcp.more s"
proof -
  let ?s = "net_zero s"
  obtain ok mac hw1 m1 t where t: "gm_virtio_net_init (gm_mac ?s) hw m ?s = Ok (ok, mac, hw1, m1, t)" "grows 154 m m1" "outside t = outside ?s" "driver_ok t"
    using net_init_sound [OF f, of ?s "gm_mac ?s" hw] by (auto simp: init_sound_def driver_ok_def)
  have more: "gm_virtio.more t = gm_virtio.more ?s" using t(3) by (simp add: outside_def)
  note M = more_sel [OF more]
  let ?t = "t\<lparr>gm_mac := mac\<rparr>"
  let ?t1 = "gm_write (Some [10]) (gm_print_ip (cfg_ip (gm_config ?t)) (gm_say ''net virtio '' (?t\<lparr>gm_net_online := True\<rparr>)))"
  let ?t2 = "gm_write (Some (asc ''net offline'' @ [10])) ?t"
  have i: "gm_net_init hw m s = Ok (hw1, m1, if ok then ?t1 else ?t2)"
    using t(1) by (simp add: gm_net_init_def Let_def console_simps)
  have vt: "driver_ok ?t1" "driver_ok ?t2" using t(4) by (simp_all only: driver_ok_console) (simp_all add: driver_ok_def virtio_ok_def)
  have st: "arp_ok (gm_arp ?s)" "length (gm_udp_reply ?s) = 1024" "gm_udp_reply_len ?s = 0" "length (gm_tcp_rx ?s) = 4096" "length (gm_tcp_unacked ?s) = 1280"
      "gm_tcp.more ?s = gm_tcp.more s"
    using s arp_zero_ok by (simp_all add: net_zero_def static_ok_def)
  have "net_ok (gm_tcp_init ?t1)" "net_ok (gm_tcp_init ?t2)"
    by (rule net_start_ok [OF vt(1)]; simp add: M st console_simps) (rule net_start_ok [OF vt(2)]; simp add: M st console_simps)
  moreover have "gm_tcp.more ?t1 = gm_tcp.more s" "gm_tcp.more ?t2 = gm_tcp.more s" using M(6) st(6) by (simp_all add: console_simps)
  ultimately show ?thesis using that [OF i t(2)] by (cases ok) simp_all
qed

lemma pool_grows:
  assumes f: "fits 254 m" and p: "paged (gm_page_next m)" "unat (gm_page_end m) < 2 ^ 52"
    and c: "\<not> (unat (gm_page_next m) \<le> unat (cpu_cr3 m) \<and> unat (cpu_cr3 m) < unat (gm_page_end m))" and g: "grows 154 m m1"
  shows "pool (gm_page_next m1) m1" "\<forall>c < 100. cpu_cr3 m1 \<noteq> pg (gm_page_next m1) c"
proof -
  have f1: "fits 100 m1" by (rule fits_grows [OF f g]) simp
  obtain k where k: "unat (gm_page_next m1) = unat (gm_page_next m) + 4096 * k" using g by (auto simp: grows_def)
  have e: "gm_page_end m1 = gm_page_end m" "cpu_cr3 m1 = cpu_cr3 m" using g by (simp_all add: grows_def)
  have le: "unat (gm_page_next m1) + 4096 * 100 \<le> unat (gm_page_end m1)" using f1 by (simp add: fits_def)
  have "paged (gm_page_next m1)" using p k le e by (simp add: paged_iff)
  then show "pool (gm_page_next m1) m1" using le e p(2) by (simp add: pool_def)
  show "\<forall>c < 100. cpu_cr3 m1 \<noteq> pg (gm_page_next m1) c"
  proof (intro allI impI)
    fix i :: nat
    assume i: "i < 100"
    have "unat (pg (gm_page_next m1) i) = unat (gm_page_next m1) + 4096 * i" using le e p(2) i by (intro pg_unat) simp
    then have "unat (pg (gm_page_next m1) i) < unat (gm_page_end m)" "unat (gm_page_next m) \<le> unat (pg (gm_page_next m1) i)"
      using le e k i by simp_all
    then show "cpu_cr3 m1 \<noteq> pg (gm_page_next m1) i" using c e by auto
  qed
qed

lemma boot_system_ok:
  fixes s :: "'a gm_programs_scheme"
  assumes b: "boot_ok bi (gm_mem s)" and st: "static_ok sh s"
  obtains hw1 tb1 sh1 s1 where "kernel_boot im bi hw tb sh s = Ok (hw1, tb1, sh1, s1)" "config_ok (In_Kernel, sh1, s1)"
    "tb1 = fst (gm_timer_init (gm_irq_init im (gm_serial_init tb)) s)"
proof -
  obtain es h where eh: "memmap_response bi = Some es" "hhdm_response bi = Some h" "base_revision_supported bi"
    using b by (auto simp: boot_ok_def split: option.splits)
  let ?s0 = "gm_write (Some ([10] @ asc ''GMKER 3.2'' @ [10])) s"
  let ?s = "?s0\<lparr>gm_config := gm_load_config (cmdline_response bi) (gm_config ?s0)\<rparr>"
  have m: "gm_mem ?s = gm_mem s" by (simp add: console_simps)
  obtain m1 s1 where 1: "gm_memory_init es h (gm_mem s) ?s = Ok (m1, s1)" "s1 = ?s\<lparr>gm_console := gm_console s1\<rparr>" "fits 254 m1" "cpu_cr3 m1 = cpu_cr3 (gm_mem s)"
      "paged (gm_page_next m1)" "unat (gm_page_end m1) < 2 ^ 52" "\<not> (unat (gm_page_next m1) \<le> unat (cpu_cr3 (gm_mem s)) \<and> unat (cpu_cr3 (gm_mem s)) < unat (gm_page_end m1))"
    by (rule memory_init_ok [OF b eh(1,2), of ?s])
  let ?s2 = "s1\<lparr>gm_tick_count := 0\<rparr>"
  have "static_ok sh ?s2 = static_ok sh s" by (subst 1(2)) (simp add: static_ok_def console_simps)
  then have s2: "static_ok sh ?s2" using st by simp
  have f1: "fits 154 m1" by (rule fits_mono [OF 1(3)]) simp
  obtain hw2 m2 s3 where 2: "gm_net_init hw m1 ?s2 = Ok (hw2, m2, s3)" "grows 154 m1 m2" "net_ok (gm_tcp_init s3)"
    by (rule gm_net_init_ok [OF f1 s2])
  let ?s4 = "gm_tcp_init (s3\<lparr>gm_mem := m2\<rparr>)"
  have n: "net_ok ?s4" using 2(3) by (simp add: net_ok_def driver_ok_def virtio_ok_def tcp_ok_def ring_ok_def gm_tcp_init_def)
  have mem: "gm_mem ?s4 = m2" by (simp add: gm_tcp_init_def)
  note P = pool_grows [OF 1(3,5,6) _ 2(2)]
  obtain s5 where 5: "gm_programs_init ?s4 = Ok s5" "kernel_ok s5" "per_ok s5"
    using programs_init_ok [of "gm_page_next m2" ?s4] P 1(4,7) n mem by auto
  let ?s6 = "gm_write (Some (asc ''type help'' @ [10] @ asc ''> '')) s5"
  have "system_ok ?s6" using 5(2,3) by (intro system_ok_say) (simp add: system_ok_def)
  moreover have "line_ok (sh\<lparr>gm_line_len := 0\<rparr>)" using st by (simp add: line_ok_def static_ok_def)
  ultimately have c: "config_ok (In_Kernel, sh\<lparr>gm_line_len := 0\<rparr>, ?s6)" by (simp add: system_ok_def)
  have t: "gm_timer_init tb' s1 = (fst (gm_timer_init tb' s), ?s2)" for tb' by (simp add: gm_timer_init_def Let_def)
  have "kernel_boot im bi hw tb sh s = Ok (hw2, fst (gm_timer_init (gm_irq_init im (gm_serial_init tb)) s), sh\<lparr>gm_line_len := 0\<rparr>, ?s6)"
    unfolding kernel_boot_def Let_def using eh 1(1) m 2(1) 5(1) t by (simp add: gm_shell_init_def)
  then show ?thesis using that c by blast
qed


subsection \<open>The system never panics\<close>

text \<open>C1: The kernel boots and never panics. When the boot loader keeps its promises (\<open>boot_ok\<close>) and the image has its static
  arrays, \<^verbatim>\<open>kernel_main\<close> reaches its main loop whatever devices are on the bus, with the interrupt tables loaded; and from
  then on, in every state that any sequence of rounds of the loop, deliveries from outside and actions of programs can
  reach, the invariant of the whole system holds, no further step panics, and a step of a program changes user memory
  only inside the program's own address range.\<close>

theorem system_never_panics:
  assumes "boot_ok bi (gm_mem s)" "static_ok sh s"
  shows "\<exists>hw1 tb1 sh1 s1. kernel_boot im bi hw tb sh s = Ok (hw1, tb1, sh1, s1) \<and>
    tb1 = fst (gm_timer_init (gm_irq_init im (gm_serial_init tb)) s) \<and>
    (\<forall>c. system_reach (In_Kernel, sh1, s1) c \<longrightarrow> config_ok c \<and>
       (\<forall>r. system_step c r \<longrightarrow> (\<exists>c'. r = Ok c' \<and> (fst c = In_Program \<longrightarrow> confined (snd (snd c)) (snd (snd c'))))))"
proof -
  obtain hw1 tb1 sh1 s1 where b: "kernel_boot im bi hw tb sh s = Ok (hw1, tb1, sh1, s1)" "config_ok (In_Kernel, sh1, s1)"
    "tb1 = fst (gm_timer_init (gm_irq_init im (gm_serial_init tb)) s)" by (rule boot_system_ok [OF assms])
  have "config_ok c \<and> (\<forall>r. system_step c r \<longrightarrow> (\<exists>c'. r = Ok c' \<and> (fst c = In_Program \<longrightarrow> confined (snd (snd c)) (snd (snd c')))))"
    if "system_reach (In_Kernel, sh1, s1) c" for c
    using reach_ok [OF that b(2)] step_ok by blast
  then show ?thesis using b by blast
qed

definition boot_example_info :: boot_info where
  "boot_example_info = \<lparr>base_revision_supported = True,
     memmap_response = Some [\<lparr>mm_base = 0, mm_length = 0x9f000, mm_type = 0\<rparr>, \<lparr>mm_base = 0x9f000, mm_length = 0x61000, mm_type = 1\<rparr>,
       \<lparr>mm_base = 0x100000, mm_length = 0x1f00000, mm_type = 0\<rparr>, \<lparr>mm_base = 0x2000000, mm_length = 0x100000, mm_type = 5\<rparr>],
     hhdm_response = Some 0xffff800000000000, cmdline_response = None\<rparr>"

definition boot_state :: gm_programs where
  "boot_state = programs_example\<lparr>gm_virtio_ready := False, gm_tx_free := replicate 8 False, gm_mem := mem_example\<lparr>cpu_cr3 := 0x2000000\<rparr>\<rparr>"

theorem system_never_panics_witness:
  "\<exists>hw1 tb1 sh1 s1. kernel_boot \<lparr>gm_isr = of_nat, addr_gdt = 0, addr_idt = 0, addr_tss = 0, addr_ring0_stack = 0, addr_df_stack = 0\<rparr>
      boot_example_info hw_example \<lparr>gm_gdt = [], gm_tss_seg = \<lparr>tss_rsp0 = 0, tss_ist1 = 0, tss_iopb = 0\<rparr>, gm_idt = [], cpu_gdtr = (0, 0),
        cpu_idtr = (0, 0), port_log = []\<rparr> shell_example boot_state = Ok (hw1, tb1, sh1, s1) \<and> config_ok (In_Kernel, sh1, s1)"
proof -
  have b: "boot_ok boot_example_info (gm_mem boot_state)"
    by (simp add: boot_ok_def boot_example_info_def usable_def entry_end_def entry_low_def boot_state_def mem_example_def)
  have n: "net_ok programs_example" using kernel_ok_example(1) by (simp add: kernel_ok_def prog_ok_def)
  have "static_ok shell_example programs_example" using n by (simp add: static_ok_def net_ok_def tcp_ok_def ring_ok_def shell_example_def)
  moreover have "static_ok shell_example boot_state = static_ok shell_example programs_example" by (simp add: static_ok_def boot_state_def)
  ultimately have st: "static_ok shell_example boot_state" by simp
  show ?thesis using system_never_panics [OF b st] system_reach.start by meson
qed

end
