(* ===== verification/Apps_Base.thy ===== *)
theory Apps_Base
  imports Core_Numbers
begin

unbundle bit_operations_syntax

section \<open>User programs (\<^verbatim>\<open>gmprog.h\<close>, \<^verbatim>\<open>gmapps\<close>)\<close>

text \<open>
  The programs see the kernel only through the service interrupt. A call is a value of \<open>svc\<close>; the world logs each call with
  the value the kernel returned. What the kernel answers is an environment about which nothing is assumed: \<open>env_reply\<close> lists,
  for each call, the value of \<^verbatim>\<open>rax\<close> and the contents that the caller's buffer has afterwards (zeros once the list is used up).
  \<^verbatim>\<open>gm_main\<close> gets the argument string as the list of its \<^verbatim>\<open>arg_len\<close> bytes, and its result is the number it returns.
\<close>

datatype svc = Svc_write bytes | Svc_print u64 | Svc_ticks | Svc_gateway | Svc_ping ip4 u64
  | Svc_store_read bytes u64 u16 | Svc_store_write bytes bytes | Svc_store_append bytes bytes
  | Svc_acquire u32 | Svc_release u32 | Svc_store_stat bytes | Svc_udp ip4 u16 bytes u16

record app_world =
  svc_log :: "(svc \<times> u64) list"
  env_reply :: "(u64 \<times> (nat \<Rightarrow> u8)) list"

definition gm_call :: "svc \<Rightarrow> app_world \<Rightarrow> u64 \<times> (nat \<Rightarrow> u8) \<times> app_world" where
  "gm_call c w =
     (case env_reply w of
        [] \<Rightarrow> (0, (\<lambda>_. 0), w\<lparr>svc_log := svc_log w @ [(c, 0)]\<rparr>)
      | (v, buf) # rs \<Rightarrow> (v, buf, w\<lparr>svc_log := svc_log w @ [(c, v)], env_reply := rs\<rparr>))"

text \<open>The wrappers of \<^verbatim>\<open>gmprog.h\<close>. A result converted to \<^verbatim>\<open>int\<close> is tested for zero on its low 32 bits.\<close>

definition call_int :: "svc \<Rightarrow> app_world \<Rightarrow> bool \<times> (nat \<Rightarrow> u8) \<times> app_world" where
  "call_int c w = (case gm_call c w of (v, buf, w1) \<Rightarrow> ((ucast v :: u32) \<noteq> 0, buf, w1))"

definition app_write :: "bytes \<Rightarrow> app_world \<Rightarrow> bool \<times> app_world" where
  "app_write t w = (case call_int (Svc_write t) w of (ok, _, w1) \<Rightarrow> (ok, w1))"

definition app_print_u64 :: "u64 \<Rightarrow> app_world \<Rightarrow> app_world" where
  "app_print_u64 v w = (case call_int (Svc_print v) w of (ok, _, w1) \<Rightarrow> w1)"

definition app_ticks :: "app_world \<Rightarrow> u64 \<times> app_world" where
  "app_ticks w = (case gm_call Svc_ticks w of (v, _, w1) \<Rightarrow> (v, w1))"

definition app_gateway :: "app_world \<Rightarrow> bool \<times> ip4 \<times> app_world" where
  "app_gateway w = (case call_int Svc_gateway w of (ok, buf, w1) \<Rightarrow> (ok, (buf 0, buf 1, buf 2, buf 3), w1))"

definition app_ping :: "ip4 \<Rightarrow> u64 \<Rightarrow> app_world \<Rightarrow> bool \<times> app_world" where
  "app_ping ip timeout w = (case call_int (Svc_ping ip timeout) w of (ok, _, w1) \<Rightarrow> (ok, w1))"

definition app_store_read :: "bytes \<Rightarrow> u64 \<Rightarrow> u16 \<Rightarrow> app_world \<Rightarrow> u16 \<times> (nat \<Rightarrow> u8) \<times> app_world" where
  "app_store_read path off len w = (case gm_call (Svc_store_read path off len) w of (v, buf, w1) \<Rightarrow> (ucast v, buf, w1))"

definition buffer_u64 :: "(nat \<Rightarrow> u8) \<Rightarrow> u64" where
  "buffer_u64 buf = fold (\<lambda>i v. v OR push_bit (8 * i) (ucast (buf i))) [0..<8] 0"

definition app_store_stat :: "bytes \<Rightarrow> app_world \<Rightarrow> bool \<times> u64 \<times> app_world" where
  "app_store_stat path w = (case call_int (Svc_store_stat path) w of (ok, buf, w1) \<Rightarrow> (ok, buffer_u64 buf, w1))"

definition app_store_write :: "bytes \<Rightarrow> bytes \<Rightarrow> app_world \<Rightarrow> bool \<times> app_world" where
  "app_store_write path data w = (case call_int (Svc_store_write path data) w of (ok, _, w1) \<Rightarrow> (ok, w1))"

definition app_store_append :: "bytes \<Rightarrow> bytes \<Rightarrow> app_world \<Rightarrow> bool \<times> app_world" where
  "app_store_append path data w = (case call_int (Svc_store_append path data) w of (ok, _, w1) \<Rightarrow> (ok, w1))"

definition app_udp_exchange :: "ip4 \<Rightarrow> u16 \<Rightarrow> bytes \<Rightarrow> u16 \<Rightarrow> app_world \<Rightarrow> u16 \<times> (nat \<Rightarrow> u8) \<times> app_world" where
  "app_udp_exchange ip port tx rx_max w = (case gm_call (Svc_udp ip port tx rx_max) w of (v, buf, w1) \<Rightarrow> (ucast v, buf, w1))"

definition app_acquire :: "u32 \<Rightarrow> app_world \<Rightarrow> bool \<times> app_world" where
  "app_acquire r w = (case call_int (Svc_acquire r) w of (ok, _, w1) \<Rightarrow> (ok, w1))"

definition app_release :: "u32 \<Rightarrow> app_world \<Rightarrow> bool \<times> app_world" where
  "app_release r w = (case call_int (Svc_release r) w of (ok, _, w1) \<Rightarrow> (ok, w1))"

text \<open>Calls whose result the program ignores.\<close>

abbreviation app_say :: "string \<Rightarrow> app_world \<Rightarrow> app_world" where
  "app_say t w \<equiv> snd (app_write (asc t) w)"

definition app_line :: "string \<Rightarrow> app_world \<Rightarrow> app_world" where
  "app_line t w = snd (app_write (asc t @ [10]) w)"


subsection \<open>\<^verbatim>\<open>primes100.c\<close>\<close>

lemma prime_loop_step:
  assumes "d \<le> n div d"
  shows "unat (d + 2) = unat (d :: u64) + 2"
proof -
  have "unat d \<le> unat n div unat d" using assms by (simp add: word_le_nat_alt unat_div)
  then have "unat d * unat d \<le> unat n" by (metis le_div_geq div_times_less_eq_dividend mult_le_mono1 order_trans)
  moreover have "unat n < 2 ^ 64" using unat_bounds(4) [of n] by simp
  ultimately have "unat d * unat d < 4294967296 * 4294967296" by simp
  then have "unat d < 4294967296" by (metis mult_le_mono not_less)
  then show ?thesis by (simp add: unat_word_ariths)
qed

function prime_loop :: "u64 \<Rightarrow> u64 \<Rightarrow> bool" where
  "prime_loop n d = (if d \<le> n div d then if n mod d = 0 then False else prime_loop n (d + 2) else True)"
  by pat_completeness auto
termination
proof (relation "measure (\<lambda>(n, d). 2 ^ 64 - unat d)")
  show "wf (measure (\<lambda>(n, d :: u64). 2 ^ 64 - unat d))" by simp
next
  fix n d :: u64
  assume a: "d \<le> n div d"
  have "unat d < 2 ^ 64" using unat_bounds(4) [of d] by simp
  then show "((n, d + 2), n, d) \<in> measure (\<lambda>(n, d). 2 ^ 64 - unat d)" using prime_loop_step [OF a] by simp
qed

declare prime_loop.simps [simp del]

definition is_prime :: "u64 \<Rightarrow> bool" where
  "is_prime n =
     (if n < 2 then False
      else if n = 2 then True
      else if n AND 1 = 0 then False
      else prime_loop n 3)"

text \<open>The main loop, with a bound on its rounds; \<open>None\<close> when the bound is used up. The last prime printed is 541.\<close>

fun primes_loop :: "nat \<Rightarrow> u64 \<Rightarrow> u64 \<Rightarrow> app_world \<Rightarrow> app_world option" where
  "primes_loop fuel n count w =
     (if count < 100 then
        case fuel of
          0 \<Rightarrow> None
        | Suc k \<Rightarrow>
            if \<not> is_prime n then primes_loop k (n + 1) count w
            else
              let w = app_print_u64 n w; count = count + 1; w = snd (app_write (if count < 100 then [32] else [10]) w) in
              primes_loop k (n + 1) count w
      else Some w)"

declare primes_loop.simps [simp del]

definition primes100_main :: "bytes \<Rightarrow> app_world \<Rightarrow> (int \<times> app_world) option" where
  "primes100_main args w = map_option (\<lambda>w. (0, w)) (primes_loop 540 2 0 w)"


subsection \<open>\<^verbatim>\<open>netping.c\<close>\<close>

text \<open>One part of an address: the digits up to the first other byte. A value above 255 is refused at once.\<close>

fun ip_digits :: "u64 \<Rightarrow> nat \<Rightarrow> bytes \<Rightarrow> (u64 \<times> nat \<times> bytes) option" where
  "ip_digits v digits [] = Some (v, digits, [])"
| "ip_digits v digits (c # s) =
     (if is_digit c then
        let v = v * 10 + ucast (c - 48) in
        if v > 255 then None else ip_digits v (digits + 1) s
      else Some (v, digits, c # s))"

fun ip_parts :: "nat \<Rightarrow> bytes \<Rightarrow> bytes \<Rightarrow> (bytes \<times> bytes) option" where
  "ip_parts 0 ip s = Some (ip, s)"
| "ip_parts (Suc n) ip s =
     (case ip_digits 0 0 s of
        None \<Rightarrow> None
      | Some (v, digits, s) \<Rightarrow>
          if digits = 0 then None
          else
            let ip = ip @ [ucast v] in
            if n > 0 then
              (case s of [] \<Rightarrow> None | c # s \<Rightarrow> if c \<noteq> 46 then None else ip_parts n ip s)
            else ip_parts n ip s)"

definition parse_ip :: "bytes \<Rightarrow> ip4 option" where
  "parse_ip s =
     (case ip_parts 4 [] s of
        None \<Rightarrow> None
      | Some (ip, rest) \<Rightarrow> if rest = [] then Some (ip ! 0, ip ! 1, ip ! 2, ip ! 3) else None)"

definition app_print_ip :: "ip4 \<Rightarrow> app_world \<Rightarrow> app_world" where
  "app_print_ip ip w =
     (case ip of (a, b, c, d) \<Rightarrow>
        let w = app_say ''.'' (app_print_u64 (ucast a) w); w = app_say ''.'' (app_print_u64 (ucast b) w);
            w = app_say ''.'' (app_print_u64 (ucast c) w) in
        app_print_u64 (ucast d) w)"

definition netping_main :: "bytes \<Rightarrow> app_world \<Rightarrow> int \<times> app_world" where
  "netping_main args w =
     (case parse_ip args of
        None \<Rightarrow> (1, app_line ''usage: run netping IPv4'' w)
      | Some ip \<Rightarrow>
          let w = app_say ''ping '' w; w = app_print_ip ip w; w = app_say '': '' w in
          case app_ping ip 300 w of (ok, w) \<Rightarrow>
            let w = app_line (if ok then ''ok'' else ''timeout'') w in
            (if ok then 0 else 2, w))"


subsection \<open>\<^verbatim>\<open>storecat.c\<close>\<close>

text \<open>The copying loop. \<open>gm_write\<close> gets the buffer as a C string: the bytes read, up to the first zero.\<close>

lemma storecat_step:
  fixes off sz :: u64
  assumes "off < sz" "want = (if sz - off > 1023 then 1023 else ucast (sz - off))"
  shows "unat (sz - (off + ucast (want :: u16))) < unat (sz - off)"
proof -
  let ?r = "sz - off"
  have r: "0 < unat ?r" using assms(1) by (simp add: unat_gt_0)
  have w: "unat (ucast want :: u64) = min (unat ?r) 1023"
  proof (cases "?r > 1023")
    case True
    then show ?thesis using assms(2) by (simp add: word_less_nat_alt min_def)
  next
    case False
    then have "unat ?r \<le> 1023" by (simp add: word_less_nat_alt)
    then show ?thesis using assms(2) False by (simp add: unsigned_ucast_eq unsigned_take_bit_eq take_bit_nat_def min_def)
  qed
  have e: "sz - (off + ucast want) = ?r - ucast want" by (simp add: algebra_simps)
  have "(ucast want :: u64) \<le> ?r" using w by (simp add: word_le_nat_alt)
  then have "unat (sz - (off + ucast want)) = unat ?r - unat (ucast want :: u64)" unfolding e by (rule unat_sub)
  then show ?thesis using w r by simp
qed

lemma storecat_steps:
  fixes off sz :: u64
  assumes "off < sz"
  shows "1023 < sz - off \<Longrightarrow> unat (sz - (off + 1023)) < unat (sz - off)"
    "\<not> 1023 < sz - off \<Longrightarrow> unat (sz - (off + ucast (ucast (sz - off) :: u16))) < unat (sz - off)"
  using storecat_step [OF assms refl] by simp_all

function storecat_loop :: "bytes \<Rightarrow> u64 \<Rightarrow> u64 \<Rightarrow> app_world \<Rightarrow> int \<times> app_world" where
  "storecat_loop path sz off w =
     (if off < sz then
        let remain = sz - off; want = (if remain > 1023 then 1023 else ucast remain) in
        case app_store_read path off want w of (got, buf, w) \<Rightarrow>
          if got \<noteq> want then (2, app_line ''storecat: read error'' (snd (app_release 1 w)))
          else
            case app_write (takeWhile (\<lambda>c. c \<noteq> 0) (map buf [0..<unat got])) w of (ok, w) \<Rightarrow>
              if \<not> ok then (3, snd (app_release 1 w))
              else storecat_loop path sz (off + ucast got) w
      else
        case app_release 1 w of (released, w) \<Rightarrow> (if \<not> released then 5 else 0, w))"
  by pat_completeness auto
termination
  by (relation "measure (\<lambda>(path, sz, off, w). unat (sz - off))") (auto intro: storecat_steps)

declare storecat_loop.simps [simp del]

definition storecat_main :: "bytes \<Rightarrow> app_world \<Rightarrow> int \<times> app_world" where
  "storecat_main args w =
     (if args = [] then (1, app_line ''usage: run storecat /path'' w)
      else case app_acquire 1 w of (ok, w) \<Rightarrow>
        if \<not> ok then (4, app_line ''storecat: tcp busy'' w)
        else case app_store_stat args w of (ok, sz, w) \<Rightarrow>
          if \<not> ok then (2, app_line ''storecat: stat error'' (snd (app_release 1 w)))
          else storecat_loop args sz 0 w)"


subsection \<open>\<^verbatim>\<open>diag.c\<close>\<close>

definition ok_error :: "bool \<Rightarrow> app_world \<Rightarrow> app_world" where
  "ok_error ok w = app_line (if ok then ''ok'' else ''error'') w"

text \<open>The part of the test that needs the store, with the resource already held.\<close>

definition diag_store :: "app_world \<Rightarrow> int \<times> app_world" where
  "diag_store w =
     (let path = asc ''/diag.txt'' in
      case app_store_write path (asc ''diag'') (app_say ''store write: '' w) of (ok, w) \<Rightarrow>
      let w = ok_error ok w in
      if \<not> ok then (3, snd (app_release 1 w))
      else case app_store_append path (asc ''-ok'') (app_say ''store append: '' w) of (ok, w) \<Rightarrow>
      let w = ok_error ok w in
      if \<not> ok then (4, snd (app_release 1 w))
      else case app_store_stat path (app_say ''store stat: '' w) of (ok, sz, w) \<Rightarrow>
      let ok = (ok \<and> sz = 7); w = ok_error ok w in
      if \<not> ok then (8, snd (app_release 1 w))
      else case app_store_read path 0 7 w of (got, data, w) \<Rightarrow>
      case app_release 1 w of (released, w) \<Rightarrow>
      let ok = (got = 7 \<and> map data [0..<7] = asc ''diag-ok'');
          w = ok_error ok (app_say ''store read: '' w);
          w = ok_error released (app_say ''tcp release: '' w) in
      if \<not> ok then (5, w)
      else if \<not> released then (7, w)
      else (0, app_line ''all tests passed'' w))"

definition diag_main :: "bytes \<Rightarrow> app_world \<Rightarrow> int \<times> app_world" where
  "diag_main args w =
     (let w = app_line ''GMKER application diagnostic'' w; w = app_say ''args: '' w;
          w = (if args \<noteq> [] then snd (app_write args w) else app_say ''(none)'' w); w = app_line '''' w in
      case app_ticks w of (now, w) \<Rightarrow>
      let w = app_say ''ticks: '' w; w = app_print_u64 now w; w = app_line '''' w in
      case app_gateway w of (ok, gateway, w) \<Rightarrow>
      let w = app_say ''gateway: '' w; w = (if ok then app_print_ip gateway w else app_say ''error'' w); w = app_line '''' w in
      if \<not> ok then (1, w)
      else case app_ping gateway 300 (app_say ''ping gateway: '' w) of (ok, w) \<Rightarrow>
      let w = ok_error ok w in
      if \<not> ok then (2, w)
      else case app_acquire 1 (app_say ''tcp acquire: '' w) of (ok, w) \<Rightarrow>
      let w = ok_error ok w in
      if \<not> ok then (6, w) else diag_store w)"


subsection \<open>The prime test is exact\<close>

definition prime_nat :: "nat \<Rightarrow> bool" where
  "prime_nat p \<longleftrightarrow> 2 \<le> p \<and> (\<forall>d. d dvd p \<longrightarrow> d = 1 \<or> d = p)"

lemma prime_small:
  assumes "2 \<le> p" "\<forall>e. 2 \<le> e \<and> e < d \<longrightarrow> \<not> e dvd p" "p < d * d"
  shows "prime_nat p"
proof -
  have one: "e = 1" if "e < d" "e dvd p" for e
  proof -
    have "e \<noteq> 0" using that(2) assms(1) by (cases "e = 0") auto
    moreover have "\<not> 2 \<le> e" using that assms(2) by blast
    ultimately show ?thesis by linarith
  qed
  have "e = 1 \<or> e = p" if dv: "e dvd p" for e
  proof -
    obtain k where k: "p = e * k" using dv by (auto simp: dvd_def)
    have "e < d \<or> k < d" using k assms(3) mult_le_mono [of d e d k] by linarith
    then show ?thesis using one [of e] one [of k] k by auto
  qed
  then show ?thesis using assms(1) by (simp add: prime_nat_def)
qed

lemma prime_loop_exact:
  "odd (unat n) \<Longrightarrow> odd (unat d) \<Longrightarrow> 3 \<le> unat d \<Longrightarrow> 2 \<le> unat n \<Longrightarrow> \<forall>e. 2 \<le> e \<and> e < unat d \<longrightarrow> \<not> e dvd unat n \<Longrightarrow>
   prime_loop n d \<longleftrightarrow> prime_nat (unat n)"
proof (induction n d rule: prime_loop.induct)
  case (1 n d)
  have le: "d \<le> n div d \<longleftrightarrow> unat d * unat d \<le> unat n"
    using 1(4) by (simp add: word_le_nat_alt unat_div less_eq_div_iff_mult_less_eq)
  show ?case
  proof (cases "d \<le> n div d")
    case False
    then have "prime_nat (unat n)" using prime_small [OF 1(5,6)] le by simp
    then show ?thesis using False by (subst prime_loop.simps) simp
  next
    case True
    have z: "n mod d = 0 \<longleftrightarrow> unat d dvd unat n" by (simp add: word_unat_eq_iff unat_mod dvd_eq_mod_eq_0)
    show ?thesis
    proof (cases "n mod d = 0")
      case False
      note st = prime_loop_step [OF True]
      have "\<not> e dvd unat n" if "2 \<le> e" "e < unat (d + 2)" for e
      proof (cases "e < unat d")
        case e: False
        then have "e = unat d \<or> e = unat d + 1" using that st by linarith
        then show ?thesis using z False 1(3,4) 1(2) dvd_trans [of 2 e "unat n"] by auto
      qed (use that 1(6) in blast)
      then have "prime_loop n (d + 2) \<longleftrightarrow> prime_nat (unat n)" using 1(1) [OF True False 1(2)] 1(3,4,5) st by simp
      then show ?thesis using True False by (subst prime_loop.simps) simp
    next
      case True': True
      have "unat d * 1 < unat d * unat d" using 1(4) by (intro mult_strict_left_mono) simp_all
      then have "unat d < unat n" using True le by linarith
      then have "\<not> prime_nat (unat n)" using True' z 1(4) by (auto simp: prime_nat_def)
      then show ?thesis using True True' by (subst prime_loop.simps) simp
    qed
  qed
qed

lemma is_prime_exact: "is_prime n \<longleftrightarrow> prime_nat (unat n)"
proof -
  have e: "n AND 1 = 0 \<longleftrightarrow> even (unat n)" by (simp add: and_one_eq even_iff_mod_2_eq_zero word_unat_eq_iff unat_mod)
  consider (small) "n < 2" | (two) "n = 2" | (ev) "\<not> n < 2" "n \<noteq> 2" "even (unat n)" | (od) "\<not> n < 2" "n \<noteq> 2" "odd (unat n)" by blast
  then show ?thesis
  proof cases
    case small
    then show ?thesis by (simp add: is_prime_def prime_nat_def word_less_nat_alt)
  next
    case two
    have "prime_nat 2" by (rule prime_small [of 2 2]) auto
    then show ?thesis using two by (simp add: is_prime_def)
  next
    case ev
    then have "\<not> prime_nat (unat n)" by (auto simp: prime_nat_def word_unat_eq_iff)
    then show ?thesis using ev e by (simp add: is_prime_def)
  next
    case od
    have n: "2 \<le> unat n" using od(1) by (simp add: word_less_nat_alt)
    have "\<not> f dvd unat n" if "2 \<le> f" "f < unat (3 :: u64)" for f
    proof -
      have "f = 2" using that by simp
      then show ?thesis using od(3) by simp
    qed
    then have "prime_loop n 3 \<longleftrightarrow> prime_nat (unat n)" using od(3) n by (intro prime_loop_exact) auto
    then show ?thesis using od e by (simp add: is_prime_def)
  qed
qed


subsection \<open>The first hundred primes\<close>

text \<open>What a list of primes looks like as calls: each is printed, followed by a blank, the hundredth by a newline.\<close>

fun prime_calls :: "nat \<Rightarrow> nat list \<Rightarrow> svc list" where
  "prime_calls count [] = []"
| "prime_calls count (p # ps) = Svc_print (of_nat p) # Svc_write (if count + 1 < 100 then [32] else [10]) # prime_calls (count + 1) ps"

abbreviation calls :: "app_world \<Rightarrow> svc list" where
  "calls w \<equiv> map fst (svc_log w)"

lemma calls_call [simp]: "calls (snd (snd (gm_call c w))) = calls w @ [c]"
  by (auto simp: gm_call_def split: list.splits)

lemma calls_simps [simp]:
  "calls (snd (snd (call_int c w))) = calls w @ [c]"
  "calls (snd (app_write t w)) = calls w @ [Svc_write t]"
  "calls (app_print_u64 v w) = calls w @ [Svc_print v]"
  by (simp_all add: call_int_def app_write_def app_print_u64_def case_prod_beta)

lemma primes_loop_calls:
  "unat count + length (filter prime_nat [unat n..<unat n + fuel]) = 100 \<Longrightarrow> unat n + fuel < 2 ^ 64 \<Longrightarrow>
   \<exists>w'. primes_loop fuel n count w = Some w' \<and>
     calls w' = calls w @ prime_calls (unat count) (filter prime_nat [unat n..<unat n + fuel])"
proof (induction fuel arbitrary: n count w)
  case 0
  then have "\<not> count < 100" by (simp add: word_less_nat_alt)
  then show ?case by (simp add: primes_loop.simps)
next
  case (Suc k)
  have n1: "unat (n + 1) = unat n + 1" using Suc.prems(2) by (simp add: unat_word_ariths)
  have up: "[unat n..<unat n + Suc k] = unat n # [unat (n + 1)..<unat (n + 1) + k]" using n1 by (simp add: upt_conv_Cons)
  have b: "unat (n + 1) + k < 2 ^ 64" using n1 Suc.prems(2) by simp
  define ps where "ps = filter prime_nat [unat (n + 1)..<unat (n + 1) + k]"
  have up: "filter prime_nat [unat n..<unat n + Suc k] = (if prime_nat (unat n) then unat n # ps else ps)"
    unfolding up ps_def by (simp only: filter.simps)
  note IH = Suc.IH [of _ "n + 1", folded ps_def, OF _ b]
  have c: "unat count + length (if prime_nat (unat n) then unat n # ps else ps) = 100" using Suc.prems(1) unfolding up .
  show ?case unfolding up
  proof (cases "count < 100")
    case False
    then have "100 \<le> unat count" by (simp add: word_less_nat_alt)
    then have "length (if prime_nat (unat n) then unat n # ps else ps) = 0" using c by linarith
    then have "(if prime_nat (unat n) then unat n # ps else ps) = []" by (simp only: length_0_conv)
    then show "\<exists>w'. primes_loop (Suc k) n count w = Some w' \<and> calls w' = calls w @ prime_calls (unat count) (if prime_nat (unat n) then unat n # ps else ps)"
      using False by (subst primes_loop.simps) simp
  next
    case True
    then have c1: "unat (count + 1) = unat count + 1" by (simp add: word_less_nat_alt unat_word_ariths)
    show "\<exists>w'. primes_loop (Suc k) n count w = Some w' \<and> calls w' = calls w @ prime_calls (unat count) (if prime_nat (unat n) then unat n # ps else ps)"
    proof (cases "prime_nat (unat n)")
      case p: True
      let ?w = "snd (app_write (if count + 1 < 100 then [32] else [10]) (app_print_u64 n w))"
      have "unat (count + 1) + length ps = 100" using c p c1 by simp
      from IH [OF this, of ?w] obtain w' where w': "primes_loop k (n + 1) (count + 1) ?w = Some w'"
          "calls w' = calls ?w @ prime_calls (unat (count + 1)) ps" by blast
      have "primes_loop (Suc k) n count w = Some w'"
        using True p w'(1) by (subst primes_loop.simps) (simp add: is_prime_exact Let_def)
      moreover have "count + 1 < 100 \<longleftrightarrow> unat count + 1 < 100" using c1 by (simp add: word_less_nat_alt)
      ultimately show ?thesis using w'(2) p c1 by simp
    next
      case p: False
      have "unat count + length ps = 100" using c p by simp
      from IH [OF this, of w] show ?thesis using True p by (subst primes_loop.simps) (simp add: is_prime_exact)
    qed
  qed
qed

lemma filter_is_prime: "k < 2 ^ 64 \<Longrightarrow> filter prime_nat [i..<k] = filter (\<lambda>n. is_prime (of_nat n)) [i..<k]"
  by (intro filter_cong refl) (simp add: is_prime_exact unat_of_nat)

text \<open>The count, in nine parts of sixty numbers.\<close>

definition prime_count :: "nat \<Rightarrow> nat \<Rightarrow> nat" where
  "prime_count a b = length (filter (\<lambda>n. is_prime (of_nat n)) [a..<b])"

lemma prime_count_split: "a \<le> b \<Longrightarrow> b \<le> c \<Longrightarrow> prime_count a c = prime_count a b + prime_count b c"
  by (metis filter_append le_Suc_ex length_append prime_count_def upt_add_eq_append)

lemma prime_count_parts:
  "prime_count 2 62 = 18"
  "prime_count 62 122 = 12"
  "prime_count 122 182 = 12"
  "prime_count 182 242 = 11"
  "prime_count 242 302 = 9"
  "prime_count 302 362 = 10"
  "prime_count 362 422 = 10"
  "prime_count 422 482 = 10"
  "prime_count 482 542 = 8"
  by (simp_all add: prime_count_def upt_conv_Cons is_prime_def prime_loop.simps) (simp_all add: word_le_nat_alt)

lemma prime_count_542: "prime_count 2 542 = 100"
  using prime_count_parts prime_count_split [of 2 62 542] prime_count_split [of 62 122 542] prime_count_split [of 122 182 542]
    prime_count_split [of 182 242 542] prime_count_split [of 242 302 542] prime_count_split [of 302 362 542]
    prime_count_split [of 362 422 542] prime_count_split [of 422 482 542] by simp

lemma primes_below_542: "length (filter prime_nat [2..<542]) = 100"
proof -
  have "(542 :: nat) < 2 ^ 64" by simp
  from filter_is_prime [OF this, of 2] show ?thesis using prime_count_542 by (simp only: prime_count_def)
qed


subsection \<open>Resources are held when needed and given back\<close>

text \<open>
  The resources a program holds after a list of calls with their answers; \<open>None\<close> when it used the store without the TCP
  resource (1), exchanged datagrams without the UDP resource (2), or released a resource it did not hold.
\<close>

fun monitor_step :: "svc \<times> u64 \<Rightarrow> u32 set \<Rightarrow> u32 set option" where
  "monitor_step (Svc_acquire r, v) h = Some (if (ucast v :: u32) \<noteq> 0 then insert r h else h)"
| "monitor_step (Svc_release r, v) h = (if r \<in> h then Some (h - {r}) else None)"
| "monitor_step (Svc_store_read p i n, v) h = (if 1 \<in> h then Some h else None)"
| "monitor_step (Svc_store_write p d, v) h = (if 1 \<in> h then Some h else None)"
| "monitor_step (Svc_store_append p d, v) h = (if 1 \<in> h then Some h else None)"
| "monitor_step (Svc_store_stat p, v) h = (if 1 \<in> h then Some h else None)"
| "monitor_step (Svc_udp ip p tx n, v) h = (if 2 \<in> h then Some h else None)"
| "monitor_step _ h = Some h"

fun monitor :: "(svc \<times> u64) list \<Rightarrow> u32 set \<Rightarrow> u32 set option" where
  "monitor [] h = Some h"
| "monitor (c # cs) h = Option.bind (monitor_step c h) (monitor cs)"

lemma monitor_append: "monitor (cs @ ds) h = Option.bind (monitor cs h) (monitor ds)"
proof (induction cs arbitrary: h)
  case (Cons c cs)
  then show ?case by (cases "monitor_step c h") simp_all
qed simp

text \<open>\<open>holds w0 h w\<close>: between \<open>w0\<close> and \<open>w\<close> the calls kept the rules, and the resources \<open>h\<close> are held now.\<close>

definition holds :: "app_world \<Rightarrow> u32 set \<Rightarrow> app_world \<Rightarrow> bool" where
  "holds w0 h w \<longleftrightarrow> (\<exists>cs. svc_log w = svc_log w0 @ cs \<and> monitor cs {} = Some h)"

lemma holds_start: "holds w {} w"
  by (simp add: holds_def)

lemma holds_call: "holds w0 h w \<Longrightarrow> monitor_step (c, fst (gm_call c w)) h = Some h' \<Longrightarrow> holds w0 h' (snd (snd (gm_call c w)))"
  by (auto simp: holds_def gm_call_def monitor_append split: list.splits)

lemma holds_neutral:
  assumes "holds w0 h w"
  shows "holds w0 h (snd (app_write t w))" "holds w0 h (app_line l w)" "holds w0 h (app_print_u64 v w)" "holds w0 h (snd (app_ticks w))"
    "holds w0 h (snd (snd (app_gateway w)))" "holds w0 h (snd (app_ping ip n w))"
  by (simp_all add: app_write_def app_line_def app_print_u64_def app_ticks_def app_gateway_def app_ping_def call_int_def case_prod_beta
      holds_call [OF assms])

lemma holds_print_ip: "holds w0 h w \<Longrightarrow> holds w0 h (app_print_ip ip w)"
  by (simp add: app_print_ip_def Let_def holds_neutral split: prod.split)

lemma holds_ok_error: "holds w0 h w \<Longrightarrow> holds w0 h (ok_error ok w)"
  by (simp add: ok_error_def holds_neutral)

lemma holds_store:
  assumes "holds w0 {1} w"
  shows "holds w0 {1} (snd (snd (app_store_read p off n w)))" "holds w0 {1} (snd (snd (app_store_stat p w)))"
    "holds w0 {1} (snd (app_store_write p d w))" "holds w0 {1} (snd (app_store_append p d w))"
  by (simp_all add: app_store_read_def app_store_stat_def app_store_write_def app_store_append_def call_int_def case_prod_beta
      holds_call [OF assms])

lemma holds_udp: "holds w0 {2} w \<Longrightarrow> holds w0 {2} (snd (snd (app_udp_exchange ip port tx n w)))"
  by (simp add: app_udp_exchange_def case_prod_beta holds_call)

lemma holds_acquire:
  assumes "holds w0 {} w"
  shows "fst (app_acquire r w) \<Longrightarrow> holds w0 {r} (snd (app_acquire r w))" "\<not> fst (app_acquire r w) \<Longrightarrow> holds w0 {} (snd (app_acquire r w))"
  by (simp_all add: app_acquire_def call_int_def case_prod_beta holds_call [OF assms])

lemma holds_release: "holds w0 {r} w \<Longrightarrow> holds w0 {} (snd (app_release r w))"
  by (simp add: app_release_def call_int_def case_prod_beta holds_call)

lemmas holds_rules = holds_start holds_neutral holds_print_ip holds_ok_error holds_store holds_udp holds_acquire holds_release

lemma storecat_loop_holds: "holds w0 {1} w \<Longrightarrow> holds w0 {} (snd (storecat_loop path sz off w))"
proof (induction path sz off w rule: storecat_loop.induct)
  case (1 path sz off w)
  show ?case
  proof (cases "off < sz")
    case False
    then show ?thesis using 1(2) by (subst storecat_loop.simps) (simp add: case_prod_beta holds_release)
  next
    case True
    define want where "want = (if sz - off > 1023 then 1023 else ucast (sz - off) :: u16)"
    obtain got buf w1 where r: "app_store_read path off want w = (got, buf, w1)" by (metis prod_cases3)
    obtain ok w2 where wr: "app_write (takeWhile (\<lambda>c. c \<noteq> 0) (map buf [0..<unat got])) w1 = (ok, w2)" by fastforce
    have h1: "holds w0 {1} w1" using holds_store(1) [OF 1(2), of path off want] r by simp
    then have h2: "holds w0 {1} w2" using holds_neutral(1) [OF h1, of "takeWhile (\<lambda>c. c \<noteq> 0) (map buf [0..<unat got])"] wr by simp
    have e: "storecat_loop path sz off w = (if got \<noteq> want then (2, app_line ''storecat: read error'' (snd (app_release 1 w1)))
        else if \<not> ok then (3, snd (app_release 1 w2)) else storecat_loop path sz (off + ucast got) w2)"
      using True r wr by (subst storecat_loop.simps) (cases "got = want"; simp add: want_def [symmetric] Let_def)
    have "holds w0 {} (snd (storecat_loop path sz (off + ucast got) w2))" if "got = want" ok
      using 1(1) [OF True refl want_def r [symmetric] refl _ wr [symmetric]] that h2 by simp
    then show ?thesis unfolding e using h1 h2 by (simp add: holds_rules)
  qed
qed

lemma storecat_holds: "holds w {} (snd (storecat_main args w))"
  by (simp add: storecat_main_def case_prod_beta holds_rules storecat_loop_holds)

lemma diag_store_holds: "holds w0 {1} w \<Longrightarrow> holds w0 {} (snd (diag_store w))"
  by (simp add: diag_store_def case_prod_beta Let_def holds_rules)

lemma diag_holds: "holds w {} (snd (diag_main args w))"
  by (simp add: diag_main_def case_prod_beta Let_def holds_rules diag_store_holds)

lemma netping_holds: "holds w {} (snd (netping_main args w))"
  by (simp add: netping_main_def case_prod_beta Let_def holds_rules split: option.split)


subsection \<open>The first hundred primes are printed\<close>

text \<open>C38: The program \<^verbatim>\<open>primes100\<close> is correct and ends: its test is true exactly of the primes, for every 64-bit number; it returns
  0 after at most 540 rounds; and whatever the kernel answers, it prints exactly the primes below 542 in their order,
  each followed by a blank and the last one by a newline. There are 100 of them, hence they are the first hundred.\<close>

theorem primes100_correct:
  "(is_prime n \<longleftrightarrow> prime_nat (unat n)) \<and> length (filter prime_nat [0..<542]) = 100 \<and>
   (\<exists>w'. primes100_main args w = Some (0, w') \<and> calls w' = calls w @ prime_calls 0 (filter prime_nat [0..<542]))"
proof -
  have "[0..<542] = [0, 1] @ [2..<542]" by (simp only: upt_conv_Cons) simp
  moreover have "\<not> prime_nat 0" "\<not> prime_nat 1" by (simp_all add: prime_nat_def)
  ultimately have f: "filter prime_nat [0..<542] = filter prime_nat [2..<542]" by simp
  have u: "unat (0 :: u64) = 0" "unat (2 :: u64) = 2" "(2 :: nat) + 540 = 542" by simp_all
  have "unat (0 :: u64) + length (filter prime_nat [unat (2 :: u64)..<unat (2 :: u64) + 540]) = 100"
    by (simp only: u primes_below_542)
  moreover have "unat (2 :: u64) + 540 < 2 ^ 64" by simp
  ultimately obtain w' where w': "primes_loop 540 2 0 w = Some w'" "calls w' = calls w @ prime_calls 0 (filter prime_nat [2..<542])"
    using primes_loop_calls [of 0 2 540 w] by (auto simp only: u)
  then have "primes100_main args w = Some (0, w')" by (simp only: primes100_main_def option.map)
  then show ?thesis using w'(2) primes_below_542 is_prime_exact unfolding f by blast
qed

end
