(* ===== verification/Apps_Net.thy ===== *)
theory Apps_Net
  imports Apps_Base Gm_Prelude
begin

unbundle bit_operations_syntax

section \<open>The programs \<^verbatim>\<open>dns.c\<close> and \<^verbatim>\<open>ntp.c\<close>\<close>

text \<open>
  Both send a datagram and read the answer of a server that may send anything. The accesses of \<^verbatim>\<open>dns.c\<close> to its arrays are
  checked: \<open>byte_at\<close> and \<open>put_byte\<close> give \<open>Panic\<close> outside the array, so that the absence of panics means that no access is out
  of bounds. Positions are natural numbers; the source keeps them in 16 bits, and they never exceed the length of the
  packet, which is a 16-bit number.
\<close>

subsection \<open>\<^verbatim>\<open>dns.c\<close>: the question\<close>

definition dns_put16 :: "u16 \<Rightarrow> bytes" where
  "dns_put16 v = [ucast (drop_bit 8 v), ucast v]"

definition dns_args :: "bytes \<Rightarrow> (ip4 \<times> bytes) option" where
  "dns_args args =
     (let server = takeWhile (\<lambda>c. c \<noteq> 32) args; rest = dropWhile (\<lambda>c. c \<noteq> 32) args in
      if server = [] \<or> rest = [] then None
      else case parse_ip server of
        None \<Rightarrow> None
      | Some ip \<Rightarrow> let name = dropWhile (\<lambda>c. c = 32) rest in if name = [] then None else Some (ip, name))"

text \<open>The labels of a name: the one being read, the rest of the name, and the packet so far.\<close>

definition close_label :: "bytes \<Rightarrow> bytes \<Rightarrow> bytes option" where
  "close_label label packet =
     (if label = [] \<or> length label > 63 \<or> length packet + 1 + length label + 5 > 1024 then None
      else Some (packet @ [of_nat (length label)] @ label))"

fun query_labels :: "bytes \<Rightarrow> bytes \<Rightarrow> bytes \<Rightarrow> bytes option" where
  "query_labels label [] packet = close_label label packet"
| "query_labels label (c # cs) packet =
     (if c \<noteq> 46 then query_labels (label @ [c]) cs packet
      else case close_label label packet of None \<Rightarrow> None | Some packet \<Rightarrow> query_labels [] cs packet)"

definition strip_dots :: "bytes \<Rightarrow> bytes" where
  "strip_dots name = rev (dropWhile (\<lambda>c. c = 46) (rev name))"

definition dns_build_query :: "bytes \<Rightarrow> u16 \<Rightarrow> bytes option" where
  "dns_build_query name i =
     (if name = [] \<or> length name > 255 then None
      else
        let name = strip_dots name in
        if name = [] then None
        else
          let packet = dns_put16 i @ [0, 0] @ dns_put16 1 @ [0, 0, 0, 0, 0, 0] in
          case query_labels [] name packet of
            None \<Rightarrow> None
          | Some packet \<Rightarrow> Some (packet @ [0] @ dns_put16 1 @ dns_put16 1))"

subsection \<open>\<^verbatim>\<open>dns.c\<close>: names in an answer\<close>

definition byte_at :: "bytes \<Rightarrow> nat \<Rightarrow> u8 outcome" where
  "byte_at p i = (if i < length p then Ok (p ! i) else Panic ''read out of bounds'')"

definition put_byte :: "nat \<Rightarrow> bytes \<Rightarrow> u8 \<Rightarrow> bytes outcome" where
  "put_byte cap out c = (if length out < cap then Ok (out @ [c]) else Panic ''write out of bounds'')"

fun copy_label :: "bytes \<Rightarrow> nat \<Rightarrow> nat \<Rightarrow> nat \<Rightarrow> bytes \<Rightarrow> bytes outcome" where
  "copy_label packet cap pos 0 out = Ok out"
| "copy_label packet cap pos (Suc n) out =
     and_then (byte_at packet pos) (\<lambda>c. and_then (put_byte cap out c) (\<lambda>out. copy_label packet cap (pos + 1) n out))"

lemma and_then_cong [fundef_cong]: "m = m' \<Longrightarrow> (\<And>x. m' = Ok x \<Longrightarrow> f x = g x) \<Longrightarrow> and_then m f = and_then m' g"
  by (cases m') simp_all

text \<open>The end of a name: the root is written as a dot, and the string is closed.\<close>

definition name_done :: "nat \<Rightarrow> bytes \<Rightarrow> nat \<Rightarrow> (bytes \<times> nat) option outcome" where
  "name_done cap out after =
     and_then (if out = [] then if cap < 2 then Ok None else and_then (put_byte cap out 46) (\<lambda>out. Ok (Some out)) else Ok (Some out))
       (\<lambda>r. case r of None \<Rightarrow> Ok None | Some out \<Rightarrow> and_then (put_byte cap out 0) (\<lambda>_. Ok (Some (out, after))))"

definition add_label :: "bytes \<Rightarrow> nat \<Rightarrow> nat \<Rightarrow> nat \<Rightarrow> nat \<Rightarrow> bytes \<Rightarrow> bytes option outcome" where
  "add_label packet len cap pos label out =
     (if label > 63 \<or> pos + label > len then Ok None
      else
        and_then (if out \<noteq> [] then if length out + 1 \<ge> cap then Ok None else and_then (put_byte cap out 46) (\<lambda>out. Ok (Some out))
                  else Ok (Some out))
          (\<lambda>r. case r of None \<Rightarrow> Ok None | Some out \<Rightarrow>
             if length out + label \<ge> cap then Ok None
             else and_then (copy_label packet cap pos label out) (\<lambda>out. Ok (Some out))))"

function dns_name_loop :: "bytes \<Rightarrow> nat \<Rightarrow> nat \<Rightarrow> nat \<Rightarrow> bytes \<Rightarrow> nat \<Rightarrow> nat \<Rightarrow> bool \<Rightarrow> (bytes \<times> nat) option outcome" where
  "dns_name_loop packet len cap pos out after jumps jumped =
     (if pos \<ge> len then Ok None
      else and_then (byte_at packet pos) (\<lambda>label.
        if label AND 0xc0 = 0xc0 then
          if pos + 1 \<ge> len \<or> jumps \<ge> 32 then Ok None
          else and_then (byte_at packet (pos + 1)) (\<lambda>low.
            let target = unat (label AND 0x3f) * 256 + unat low in
            if target \<ge> len then Ok None
            else dns_name_loop packet len cap target out (if jumped then after else pos + 2) (jumps + 1) True)
        else if label AND 0xc0 \<noteq> 0 then Ok None
        else if label = 0 then name_done cap out (if jumped then after else pos + 1)
        else and_then (add_label packet len cap (pos + 1) (unat label) out) (\<lambda>r.
          case r of None \<Rightarrow> Ok None
          | Some out \<Rightarrow> dns_name_loop packet len cap (pos + 1 + unat label) out after jumps jumped)))"
  by pat_completeness auto
termination
  by (relation "measures [\<lambda>(packet, len, cap, pos, out, after, jumps, jumped). 32 - jumps,
    \<lambda>(packet, len, cap, pos, out, after, jumps, jumped). len - pos]") auto

declare dns_name_loop.simps [simp del]

definition dns_name :: "bytes \<Rightarrow> nat \<Rightarrow> nat \<Rightarrow> nat \<Rightarrow> (bytes \<times> nat) option outcome" where
  "dns_name packet len off cap =
     (if off \<ge> len \<or> cap < 2 then Ok None else dns_name_loop packet len cap off [] 0 0 False)"

subsection \<open>\<^verbatim>\<open>dns.c\<close>: the answer\<close>

definition dns_u16 :: "bytes \<Rightarrow> nat \<Rightarrow> u16 outcome" where
  "dns_u16 p i = and_then (byte_at p i) (\<lambda>a. and_then (byte_at p (i + 1)) (\<lambda>b. Ok (push_bit 8 (ucast a) OR ucast b)))"

definition dns_u32 :: "bytes \<Rightarrow> nat \<Rightarrow> u32 outcome" where
  "dns_u32 p i =
     and_then (byte_at p i) (\<lambda>a. and_then (byte_at p (i + 1)) (\<lambda>b. and_then (byte_at p (i + 2)) (\<lambda>c. and_then (byte_at p (i + 3)) (\<lambda>d.
       Ok (push_bit 24 (ucast a) OR push_bit 16 (ucast b) OR push_bit 8 (ucast c) OR ucast d)))))"

definition c_string :: "bytes \<Rightarrow> bytes" where
  "c_string s = takeWhile (\<lambda>c. c \<noteq> 0) s"

definition app_text :: "bytes \<Rightarrow> app_world \<Rightarrow> app_world" where
  "app_text s w = snd (app_write (c_string s) w)"

definition dns_print_ip :: "bytes \<Rightarrow> nat \<Rightarrow> app_world \<Rightarrow> app_world outcome" where
  "dns_print_ip p i w =
     and_then (byte_at p i) (\<lambda>a. and_then (byte_at p (i + 1)) (\<lambda>b. and_then (byte_at p (i + 2)) (\<lambda>c. and_then (byte_at p (i + 3)) (\<lambda>d.
       Ok (app_print_ip (a, b, c, d) w)))))"

text \<open>One record, its fields already read: what is printed and whether it counts.\<close>

definition dns_record :: "bytes \<Rightarrow> nat \<Rightarrow> bytes \<Rightarrow> u16 \<Rightarrow> u16 \<Rightarrow> u32 \<Rightarrow> u16 \<Rightarrow> nat \<Rightarrow> app_world \<Rightarrow> (bool option \<times> app_world) outcome" where
  "dns_record packet len owner type class_id ttl rdlen off w =
     (if class_id = 1 \<and> type = 1 \<and> rdlen = 4 then
        let w = app_say ''A '' w; w = app_text owner w; w = app_say '' '' w in
        and_then (dns_print_ip packet off w) (\<lambda>w.
          Ok (Some True, app_line '''' (app_print_u64 (ucast ttl) (app_say '' ttl='' w))))
      else if class_id = 1 \<and> type = 5 then
        and_then (dns_name packet len off 256) (\<lambda>r.
          case r of None \<Rightarrow> Ok (None, w)
          | Some (target, _) \<Rightarrow>
              let w = app_say ''CNAME '' w; w = app_text owner w; w = app_say '' '' w; w = app_text target w; w = app_say '' ttl='' w;
                  w = app_print_u64 (ucast ttl) w in
              Ok (Some True, app_line '''' w))
      else Ok (Some False, w))"

fun dns_answers :: "nat \<Rightarrow> bytes \<Rightarrow> nat \<Rightarrow> nat \<Rightarrow> bool \<Rightarrow> app_world \<Rightarrow> (bool \<times> app_world) outcome" where
  "dns_answers 0 packet len off found w = Ok (found, w)"
| "dns_answers (Suc n) packet len off found w =
     and_then (dns_name packet len off 256) (\<lambda>r.
       case r of None \<Rightarrow> Ok (False, w)
       | Some (owner, nxt) \<Rightarrow>
           if nxt + 10 > len then Ok (False, w)
           else
             and_then (dns_u16 packet nxt) (\<lambda>type. and_then (dns_u16 packet (nxt + 2)) (\<lambda>class_id.
             and_then (dns_u32 packet (nxt + 4)) (\<lambda>ttl. and_then (dns_u16 packet (nxt + 8)) (\<lambda>rdlen.
               let off = nxt + 10 in
               if off + unat rdlen > len then Ok (False, w)
               else and_then (dns_record packet len owner type class_id ttl rdlen off w) (\<lambda>(r, w).
                 case r of None \<Rightarrow> Ok (False, w)
                 | Some f \<Rightarrow> dns_answers n packet len (off + unat rdlen) (f \<or> found) w))))))"

definition dns_parse_response :: "bytes \<Rightarrow> nat \<Rightarrow> u16 \<Rightarrow> app_world \<Rightarrow> (bool \<times> app_world) outcome" where
  "dns_parse_response packet len i w =
     (if len < 12 then Ok (False, w)
      else and_then (dns_u16 packet 0) (\<lambda>got.
        if got \<noteq> i then Ok (False, w)
        else and_then (dns_u16 packet 2) (\<lambda>flags.
          if flags AND 0x8000 = 0 \<or> flags AND 0x7800 \<noteq> 0 \<or> flags AND 0x0200 \<noteq> 0 \<or> flags AND 0x000f \<noteq> 0 then Ok (False, w)
          else and_then (dns_u16 packet 4) (\<lambda>questions.
            if questions \<noteq> 1 then Ok (False, w)
            else and_then (dns_u16 packet 6) (\<lambda>answers.
              and_then (dns_name packet len 12 256) (\<lambda>r.
                case r of None \<Rightarrow> Ok (False, w)
                | Some (owner, off) \<Rightarrow>
                    if off + 4 > len then Ok (False, w)
                    else dns_answers (unat answers) packet len (off + 4) False w))))))"

definition dns_main :: "bytes \<Rightarrow> app_world \<Rightarrow> (int \<times> app_world) outcome" where
  "dns_main args w =
     (case dns_args args of
        None \<Rightarrow> Ok (1, app_line ''usage: run dns DNS_SERVER_IP name'' w)
      | Some (ip, name) \<Rightarrow>
          (case app_ticks w of (now, w) \<Rightarrow>
           let i = ucast (now XOR 0x474d) in
           case dns_build_query name i of
             None \<Rightarrow> Ok (2, app_line ''dns: invalid name'' w)
           | Some query \<Rightarrow>
               (case app_acquire 2 w of (ok, w) \<Rightarrow>
                if \<not> ok then Ok (3, app_line ''dns: udp unavailable'' w)
                else case app_udp_exchange ip 53 query 1024 w of (reply_len, reply, w) \<Rightarrow>
                case app_release 2 w of (released, w) \<Rightarrow>
                if \<not> released then Ok (4, w)
                else if reply_len = 0 then Ok (5, app_line ''dns: no reply'' w)
                else and_then (dns_parse_response (map reply [0..<1024]) (unat reply_len) i w) (\<lambda>(found, w).
                  if \<not> found then Ok (6, app_line ''dns: no A/CNAME answer'' w) else Ok (0, w)))))"

subsection \<open>\<^verbatim>\<open>ntp.c\<close>\<close>

definition leap :: "nat \<Rightarrow> bool" where
  "leap year \<longleftrightarrow> year mod 4 = 0 \<and> (year mod 100 \<noteq> 0 \<or> year mod 400 = 0)"

definition print2 :: "nat \<Rightarrow> app_world \<Rightarrow> app_world" where
  "print2 v w = snd (app_write [48 + of_nat (v div 10 mod 10), 48 + of_nat (v mod 10)] w)"

definition month_days :: "nat list" where
  "month_days = [31, 28, 31, 30, 31, 30, 31, 31, 30, 31, 30, 31]"

function year_loop :: "nat \<Rightarrow> nat \<Rightarrow> nat \<times> nat" where
  "year_loop days year =
     (let count = (if leap year then 366 else 365) in
      if days < count then (days, year) else year_loop (days - count) (year + 1))"
  by pat_completeness auto
termination
  by (relation "measure fst") auto

declare year_loop.simps [simp del]

fun month_loop :: "nat \<Rightarrow> nat \<Rightarrow> nat \<Rightarrow> nat \<Rightarrow> nat \<times> nat" where
  "month_loop 0 month days year = (month, days)"
| "month_loop (Suc n) month days year =
     (let count = month_days ! month + (if month = 1 \<and> leap year then 1 else 0) in
      if days < count then (month, days) else month_loop n (month + 1) (days - count) year)"

definition print_utc :: "u64 \<Rightarrow> app_world \<Rightarrow> app_world" where
  "print_utc timestamp w =
     (let days = unat timestamp div 86400; remain = unat timestamp mod 86400 in
      case year_loop days 1970 of (days, year) \<Rightarrow>
      case month_loop 12 0 days year of (month, days) \<Rightarrow>
      let hour = remain div 3600; remain = remain mod 3600; minute = remain div 60; second = remain mod 60;
          w = app_print_u64 (of_nat year) w; w = print2 (month + 1) (app_say ''-'' w); w = print2 (days + 1) (app_say ''-'' w);
          w = print2 hour (app_say '' '' w); w = print2 minute (app_say '':'' w) in
      print2 second (app_say '':'' w))"

definition ntp_main :: "bytes \<Rightarrow> app_world \<Rightarrow> int \<times> app_world" where
  "ntp_main args w =
     (case parse_ip args of
        None \<Rightarrow> (1, app_line ''usage: run ntp IPv4'' w)
      | Some ip \<Rightarrow>
          let request = 0x23 # replicate 47 0 in
          case app_acquire 2 w of (ok, w) \<Rightarrow>
          if \<not> ok then (2, app_line ''ntp: udp unavailable'' w)
          else case app_udp_exchange ip 123 request 48 w of (got, reply, w) \<Rightarrow>
          case app_release 2 w of (released, w) \<Rightarrow>
          if \<not> released then (3, w)
          else if got < 48 then (4, app_line ''ntp: no reply'' w)
          else if reply 0 AND 7 \<noteq> 4 \<or> drop_bit 6 (reply 0) = 3 \<or> reply 1 = 0 \<or> reply 1 > 15 then (5, app_line ''ntp: invalid reply'' w)
          else
            let ntp = push_bit 24 (ucast (reply 40)) OR push_bit 16 (ucast (reply 41)) OR push_bit 8 (ucast (reply 42)) OR ucast (reply 43);
                ntp = (if ntp < 2208988800 then ntp + 4294967296 else ntp);
                unix_time = ntp - 2208988800;
                w = app_say ''NTP unix='' w; w = app_print_u64 unix_time w; w = app_say '' UTC='' w; w = print_utc unix_time w in
            (0, app_line '''' w))"


subsection \<open>No access out of bounds\<close>

lemma byte_at_Ok [simp]: "i < length p \<Longrightarrow> byte_at p i = Ok (p ! i)"
  by (simp add: byte_at_def)

lemma put_byte_Ok [simp]: "length out < cap \<Longrightarrow> put_byte cap out c = Ok (out @ [c])"
  by (simp add: put_byte_def)

lemma copy_label_Ok: "pos + n \<le> length packet \<Longrightarrow> length out + n \<le> cap \<Longrightarrow> copy_label packet cap pos n out = Ok (out @ take n (drop pos packet))"
proof (induction n arbitrary: pos out)
  case (Suc n)
  have "take (Suc n) (drop pos packet) = packet ! pos # take n (drop (pos + 1) packet)"
    using Suc.prems(1) by (simp add: Cons_nth_drop_Suc [symmetric])
  then show ?case using Suc by simp
qed simp

definition joined :: "bytes \<Rightarrow> bytes" where
  "joined out = (if out = [] then [] else out @ [46])"

lemma add_label_Ok:
  assumes "len \<le> length packet" "length out < cap"
  shows "add_label packet len cap pos n out = Ok (if n > 63 \<or> pos + n > len \<or> out \<noteq> [] \<and> length out + 1 \<ge> cap \<or> length (joined out) + n \<ge> cap
    then None else Some (joined out @ take n (drop pos packet)))"
  using assms by (auto simp: add_label_def joined_def copy_label_Ok)

lemma name_done_Ok: "length out < cap \<Longrightarrow> 2 \<le> cap \<Longrightarrow> name_done cap out after = Ok (Some (if out = [] then [46] else out, after))"
  by (auto simp: name_done_def)

lemma dns_name_loop_bounds:
  "len \<le> length packet \<Longrightarrow> length out < cap \<Longrightarrow> 2 \<le> cap \<Longrightarrow> (jumped \<longrightarrow> after \<le> len) \<Longrightarrow>
   \<exists>r. dns_name_loop packet len cap pos out after jumps jumped = Ok r \<and> (\<forall>name nxt. r = Some (name, nxt) \<longrightarrow> length name < cap \<and> nxt \<le> len)"
proof (induction packet len cap pos out after jumps jumped rule: dns_name_loop.induct)
  case (1 packet len cap pos out after jumps jumped)
  note pre = 1(3-6)
  show ?case
  proof (cases "pos \<ge> len")
    case True
    then show ?thesis by (subst dns_name_loop.simps) simp
  next
    case False
    let ?l = "packet ! pos"
    have b: "byte_at packet pos = Ok ?l" using False pre(1) by simp
    consider (jump) "?l AND 0xc0 = 0xc0" | (bad) "?l AND 0xc0 \<noteq> 0xc0" "?l AND 0xc0 \<noteq> 0" | (zero) "?l = 0"
      | (label) "?l AND 0xc0 \<noteq> 0xc0" "?l AND 0xc0 = 0" "?l \<noteq> 0" by fastforce
    then show ?thesis
    proof cases
      case jump
      show ?thesis
      proof (cases "pos + 1 \<ge> len \<or> jumps \<ge> 32")
        case True
        then show ?thesis using False b jump by (subst dns_name_loop.simps) simp
      next
        case ok: False
        have b1: "byte_at packet (pos + 1) = Ok (packet ! (pos + 1))" using ok pre(1) by simp
        show ?thesis using 1(1) [OF False b jump ok b1 refl] False b b1 jump ok pre by (subst dns_name_loop.simps) (auto simp: Let_def)
      qed
    next
      case bad
      then show ?thesis using False b by (subst dns_name_loop.simps) simp
    next
      case zero
      then show ?thesis using False b pre name_done_Ok [OF pre(2,3)] by (subst dns_name_loop.simps) auto
    next
      case label
      note a = add_label_Ok [OF pre(1,2), of "pos + 1" "unat ?l"]
      show ?thesis
      proof (cases "unat ?l > 63 \<or> pos + 1 + unat ?l > len \<or> out \<noteq> [] \<and> length out + 1 \<ge> cap \<or> length (joined out) + unat ?l \<ge> cap")
        case True
        then show ?thesis using False b label a by (subst dns_name_loop.simps) simp
      next
        case ok: False
        let ?o = "joined out @ take (unat ?l) (drop (pos + 1) packet)"
        have a: "add_label packet len cap (pos + 1) (unat ?l) out = Ok (Some ?o)" using a ok by simp
        have "length ?o \<le> length (joined out) + unat ?l" by simp
        then have "length ?o < cap" using ok by linarith
        then show ?thesis using 1(2) [OF False b label(1) _ label(3) a refl] label(2) pre False b a by (subst dns_name_loop.simps) (simp add: label)
      qed
    qed
  qed
qed

lemma dns_name_bounds:
  assumes "len \<le> length packet"
  obtains "dns_name packet len off cap = Ok None"
  | name nxt where "dns_name packet len off cap = Ok (Some (name, nxt))" "length name < cap" "nxt \<le> len"
  using dns_name_loop_bounds [OF assms, of "[]" cap False 0 off 0] by (fastforce simp: dns_name_def split: if_splits)

lemma dns_u16_Ok: "i + 2 \<le> length p \<Longrightarrow> \<exists>v. dns_u16 p i = Ok v"
  by (simp add: dns_u16_def)

lemma dns_u32_Ok: "i + 4 \<le> length p \<Longrightarrow> \<exists>v. dns_u32 p i = Ok v"
  by (simp add: dns_u32_def)

lemma holds_text: "holds w0 h w \<Longrightarrow> holds w0 h (app_text s w)"
  by (simp add: app_text_def holds_neutral)

lemma dns_record_Ok:
  assumes "len \<le> length packet" "off + unat rdlen \<le> len" "holds w0 h w"
  obtains r w' where "dns_record packet len owner type class_id ttl rdlen off w = Ok (r, w')" "holds w0 h w'"
proof (cases "class_id = 1 \<and> type = 1 \<and> rdlen = 4")
  case True
  have b: "off + 4 \<le> length packet" using assms True by simp
  have "dns_print_ip packet off w1 = Ok (app_print_ip (packet ! off, packet ! (off + 1), packet ! (off + 2), packet ! (off + 3)) w1)" for w1
    using b by (simp add: dns_print_ip_def)
  then show ?thesis using that True assms(3) by (simp add: dns_record_def Let_def holds_rules holds_text)
next
  case False
  show ?thesis
  proof (cases "class_id = 1 \<and> type = 5")
    case True
    show ?thesis
      by (rule dns_name_bounds [OF assms(1), of off 256])
        (use that False True assms(3) in \<open>auto simp: dns_record_def Let_def holds_rules holds_text\<close>)
  qed (use that False assms(3) in \<open>auto simp: dns_record_def\<close>)
qed

lemma ex_bool [simp]: "\<exists>r. r" "\<exists>r. \<not> r"
  by blast+

lemma dns_answers_Ok:
  "len \<le> length packet \<Longrightarrow> holds w0 h w \<Longrightarrow> \<exists>r w'. dns_answers n packet len off found w = Ok (r, w') \<and> holds w0 h w'"
proof (induction n arbitrary: off found w)
  case (Suc n)
  note l = Suc.prems(1)
  show ?case
  proof (cases rule: dns_name_bounds [OF l, of off 256])
    case 1
    then show ?thesis using Suc.prems(2) by simp
  next
    case (2 owner nxt)
    show ?thesis
    proof (cases "nxt + 10 > len")
      case True
      then show ?thesis using 2 Suc.prems(2) by simp
    next
      case False
      then obtain ty cl ttl rd where v: "dns_u16 packet nxt = Ok ty" "dns_u16 packet (nxt + 2) = Ok cl" "dns_u32 packet (nxt + 4) = Ok ttl" "dns_u16 packet (nxt + 8) = Ok rd"
        using dns_u16_Ok [of nxt packet] dns_u16_Ok [of "nxt + 2" packet] dns_u16_Ok [of "nxt + 8" packet] dns_u32_Ok [of "nxt + 4" packet] l by auto
      show ?thesis
      proof (cases "nxt + 10 + unat rd > len")
        case True
        then show ?thesis using False 2 v Suc.prems(2) by simp
      next
        case ok: False
        obtain r w1 where r: "dns_record packet len owner ty cl ttl rd (nxt + 10) w = Ok (r, w1)" "holds w0 h w1"
          by (rule dns_record_Ok [OF l _ Suc.prems(2), of "nxt + 10" rd owner ty cl ttl]) (use ok in auto)
        show ?thesis using False ok 2 v r Suc.IH [OF l r(2)] by (cases r) simp_all
      qed
    qed
  qed
qed simp

lemma dns_parse_response_Ok:
  assumes "len \<le> length packet" "holds w0 h w"
  shows "\<exists>r w'. dns_parse_response packet len i w = Ok (r, w') \<and> holds w0 h w'"
proof (cases "len < 12")
  case True
  then show ?thesis using assms by (simp add: dns_parse_response_def)
next
  case False
  then obtain a b c d where v: "dns_u16 packet 0 = Ok a" "dns_u16 packet 2 = Ok b" "dns_u16 packet 4 = Ok c" "dns_u16 packet 6 = Ok d"
    using dns_u16_Ok [of 0 packet] dns_u16_Ok [of 2 packet] dns_u16_Ok [of 4 packet] dns_u16_Ok [of 6 packet] assms(1) by auto
  show ?thesis
  proof (cases rule: dns_name_bounds [OF assms(1), of 12 256])
    case 1
    then show ?thesis using False v assms(2) by (simp add: dns_parse_response_def)
  next
    case (2 owner nxt)
    then show ?thesis using False v assms(2) dns_answers_Ok [OF assms, of "unat d" "nxt + 4" False] by (simp add: dns_parse_response_def)
  qed
qed


subsection \<open>Names survive the question\<close>











subsection \<open>Every answer is safe to read\<close>

text \<open>C16: No answer makes \<^verbatim>\<open>dns.c\<close> leave its arrays or run for ever. For every packet whose length is at most the size of the
  buffer, whatever its bytes are, reading a name at any place ends, never reads outside the packet buffer, never writes
  outside the name buffer, and gives a position inside the packet; and reading the whole answer does the same.\<close>

theorem dns_answer_in_bounds:
  assumes "len \<le> length packet"
  shows "(\<exists>r w'. dns_parse_response packet len i w = Ok (r, w')) \<and>
    (dns_name packet len off cap = Ok None \<or> (\<exists>name nxt. dns_name packet len off cap = Ok (Some (name, nxt)) \<and> length name < cap \<and> nxt \<le> len))"
  using dns_parse_response_Ok [OF assms holds_start [of w], of i] dns_name_bounds [OF assms, of off cap] by metis

text \<open>A packet whose name points at itself.\<close>

theorem dns_answer_in_bounds_witness:
  "\<exists>r w'. dns_parse_response ([0, 1, 0x80, 0, 0, 1, 0, 1, 0, 0, 0, 0, 0xc0, 12, 0, 1, 0, 1] @ replicate 1006 0) 18 1 \<lparr>svc_log = [], env_reply = []\<rparr> = Ok (r, w')"
  using dns_answer_in_bounds [of 18 "[0, 1, 0x80, 0, 0, 1, 0, 1, 0, 0, 0, 0, 0xc0, 12, 0, 1, 0, 1] @ replicate 1006 0"] by simp


subsection \<open>The calendar\<close>

text \<open>
  The reference, independent of the tables and tests of the program: the Gregorian rule of leap years, the lengths of the
  months 1 to 12 (thirty days have September, April, June and November), the number of days before a year, counted by the
  rule of leap years and not by a loop, and the number of a day in the calendar.
\<close>

definition days_before :: "nat \<Rightarrow> int" where
  "days_before y = (let k = int y - 1 in 365 * k + k div 4 - k div 100 + k div 400)"

definition leap_year :: "nat \<Rightarrow> bool" where
  "leap_year y \<longleftrightarrow> 4 dvd y \<and> (100 dvd y \<longrightarrow> 400 dvd y)"

definition month_length :: "nat \<Rightarrow> nat \<Rightarrow> nat" where
  "month_length y m =
     (if m = 2 then if leap_year y then 29 else 28
      else if m = 9 \<or> m = 4 \<or> m = 6 \<or> m = 11 then 30
      else 31)"

definition day_number :: "nat \<Rightarrow> nat \<Rightarrow> nat \<Rightarrow> int" where
  "day_number y m d = days_before y + int (sum_list (map (month_length y) [1..<m])) + int d - 1"

text \<open>The program's table and tests agree with the reference.\<close>

lemma leap_exact: "leap y \<longleftrightarrow> leap_year y"
  by (auto simp: leap_def leap_year_def mod_eq_0_iff_dvd)

lemma month_days_exact:
  assumes "m < 12"
  shows "month_days ! m + (if m = 1 \<and> leap y then 1 else 0) = month_length y (m + 1)"
proof -
  have "list_all (\<lambda>m. month_days ! m + (if m = 1 \<and> leap y then 1 else 0) = month_length y (m + 1)) [0..<12]"
    by (simp add: upt_conv_Cons month_length_def month_days_def leap_exact)
  then show ?thesis using assms by (simp add: list_all_iff)
qed

lemma div_step:
  assumes k: "0 < k"
  shows "int y div k = (int y - 1) div k + (if int y mod k = 0 then 1 else 0)"
proof -
  have d: "int y = k * (int y div k) + int y mod k" by simp
  have m: "0 \<le> int y mod k" "int y mod k < k" using k by simp_all
  show ?thesis
  proof (cases "int y mod k = 0")
    case True
    then have "int y - 1 = k * (int y div k - 1) + (k - 1)" using d by (simp add: algebra_simps)
    then have "(int y - 1) div k = int y div k - 1" by (rule int_div_pos_eq) (use k in simp_all)
    then show ?thesis using True by simp
  next
    case False
    then have "int y - 1 = k * (int y div k) + (int y mod k - 1)" using d by simp
    then have "(int y - 1) div k = int y div k" by (rule int_div_pos_eq) (use m False in simp_all)
    then show ?thesis using False by simp
  qed
qed

lemma div_step_nat: "0 < k \<Longrightarrow> int y div int k = (int y - 1) div int k + (if y mod k = 0 then 1 else 0)"
  using div_step [of "int k" y] by (simp only: of_nat_mod [symmetric] of_nat_0_less_iff of_nat_eq_0_iff)

lemma leap_days_step:
  assumes "A = a + (if p then 1 else 0 :: int)" "B = b + (if q then 1 else 0)" "C = c + (if r then 1 else 0)"
    and "q \<Longrightarrow> p" "r \<Longrightarrow> q"
  shows "A - B + C = a - b + c + (if p \<and> (\<not> q \<or> r) then 1 else 0)"
  using assms by (cases p; cases q; cases r) simp_all

lemma mod_4_100: "(y :: nat) mod 100 = 0 \<Longrightarrow> y mod 4 = 0"
  unfolding mod_eq_0_iff_dvd by (rule dvd_trans [of 4 100 y]) simp_all

lemma mod_100_400: "(y :: nat) mod 400 = 0 \<Longrightarrow> y mod 100 = 0"
  unfolding mod_eq_0_iff_dvd by (rule dvd_trans [of 100 400 y]) simp_all

lemmas div_step_num = div_step_nat [of "numeral k", OF zero_less_numeral, unfolded of_nat_numeral] for k

lemma leap_days: "k div 4 - k div 100 + k div 400 = (k - 1) div 4 - (k - 1) div 100 + (k - 1) div 400 + (if leap y then 1 else 0)" if k: "k = int y"
  unfolding leap_def k by (rule leap_days_step [OF div_step_num div_step_num div_step_num mod_4_100 mod_100_400])

lemma days_before_Suc: "days_before (y + 1) = days_before y + (if leap y then 366 else 365)"
proof -
  have n: "int (y + 1) - 1 = int y" by simp
  have "365 * int y + (int y div 4 - int y div 100 + int y div 400) =
      365 * (int y - 1) + ((int y - 1) div 4 - (int y - 1) div 100 + (int y - 1) div 400) + (if leap y then 366 else 365)"
    unfolding leap_days [OF refl] by (cases "leap y") simp_all
  then show ?thesis unfolding days_before_def Let_def n by (simp only: add.assoc [symmetric] add_diff_eq)
qed

lemma year_loop_exact:
  "year_loop days year = (days', year') \<Longrightarrow> days_before year' + int days' = days_before year + int days \<and> days' < (if leap year' then 366 else 365) \<and> year \<le> year' \<and> year' \<le> year + days"
proof (induction days year rule: year_loop.induct)
  case (1 days year)
  let ?c = "if leap year then 366 else 365 :: nat"
  show ?case
  proof (cases "days < ?c")
    case True
    then show ?thesis using 1(2) by (subst (asm) year_loop.simps) (auto simp: Let_def)
  next
    case False
    then have "year_loop (days - ?c) (year + 1) = (days', year')" using 1(2) by (subst (asm) (1) year_loop.simps) (simp add: Let_def)
    from 1(1) [OF refl False this] show ?thesis using days_before_Suc [of year] False by (auto split: if_splits)
  qed
qed

lemma month_loop_exact:
  "month_loop n m days y = (m', days') \<Longrightarrow> m + n = 12 \<Longrightarrow> days < sum_list (map (month_length y) [m + 1..<13]) \<Longrightarrow>
   m \<le> m' \<and> m' < 12 \<and> days' < month_length y (m' + 1) \<and> days = sum_list (map (month_length y) [m + 1..<m' + 1]) + days'"
proof (induction n arbitrary: m days)
  case (Suc n)
  let ?c = "month_length y (m + 1)"
  have c: "month_days ! m + (if m = 1 \<and> leap y then 1 else 0) = ?c" using Suc.prems(2) by (intro month_days_exact) simp
  have up: "[m + 1..<13] = (m + 1) # [m + 1 + 1..<13]" using Suc.prems(2) upt_conv_Cons [of "m + 1" 13] by simp
  have l: "month_loop (Suc n) m days y = (if days < ?c then (m, days) else month_loop n (m + 1) (days - ?c) y)"
    unfolding month_loop.simps Let_def c ..
  show ?case
  proof (cases "days < ?c")
    case True
    then show ?thesis using Suc.prems l by simp
  next
    case False
    then have l': "month_loop n (m + 1) (days - ?c) y = (m', days')" using Suc.prems(1) l by simp
    have "days - ?c < sum_list (map (month_length y) [m + 1 + 1..<13])" using Suc.prems(3) False unfolding up by simp
    from Suc.IH [OF l' _ this] have i: "m + 1 \<le> m'" "m' < 12" "days' < month_length y (m' + 1)"
        "days - ?c = sum_list (map (month_length y) [m + 1 + 1..<m' + 1]) + days'"
      using Suc.prems(2) by auto
    have "[m + 1..<m' + 1] = (m + 1) # [m + 1 + 1..<m' + 1]" using i(1) upt_conv_Cons [of "m + 1" "m' + 1"] by simp
    then show ?thesis using i False by simp
  qed
qed simp

lemma year_length: "sum_list (map (month_length y) [1..<13]) = (if leap y then 366 else 365)"
  by (simp add: upt_conv_Cons month_length_def leap_exact)

lemma month_length_le: "month_length y m \<le> 31"
  by (simp add: month_length_def)

definition two_digits :: "nat \<Rightarrow> bytes" where
  "two_digits v = [48 + of_nat (v div 10), 48 + of_nat (v mod 10)]"

definition utc_calls :: "nat \<Rightarrow> nat \<Rightarrow> nat \<Rightarrow> nat \<Rightarrow> nat \<Rightarrow> nat \<Rightarrow> svc list" where
  "utc_calls y mo d h mi s = [Svc_print (of_nat y), Svc_write [45], Svc_write (two_digits mo), Svc_write [45], Svc_write (two_digits d),
     Svc_write [32], Svc_write (two_digits h), Svc_write [58], Svc_write (two_digits mi), Svc_write [58], Svc_write (two_digits s)]"

lemma calls_print2: "v < 100 \<Longrightarrow> calls (print2 v w) = calls w @ [Svc_write (two_digits v)]"
  by (simp add: print2_def two_digits_def)

lemma clock_parts:
  "int (n div 86400) * 86400 + int (n mod 86400 div 3600 * 3600 + n mod 86400 mod 3600 div 60 * 60 + n mod 86400 mod 3600 mod 60) = int n"
proof -
  have "n div 86400 * 86400 + (n mod 86400 div 3600 * 3600 + (n mod 86400 mod 3600 div 60 * 60 + n mod 86400 mod 3600 mod 60)) = n"
    by (simp only: div_mult_mod_eq)
  from arg_cong [OF this, of int] show ?thesis by (simp only: of_nat_add of_nat_mult of_nat_numeral add.assoc)
qed

text \<open>C40: The clock is right. For every 64-bit time, \<^verbatim>\<open>print_utc\<close> ends and prints a date and a time that exist, as year, month, day,
  hour, minute and second with two digits each, and that are the given number of seconds after the start of 1970 in the
  Gregorian calendar. Day 719162 of the calendar, counted from year 1, is 1 January 1970.\<close>

theorem utc_calendar:
  "\<exists>y mo d h mi s. calls (print_utc t w) = calls w @ utc_calls y mo d h mi s \<and> 1970 \<le> y \<and> y < 2 ^ 64 \<and>
     1 \<le> mo \<and> mo \<le> 12 \<and> 1 \<le> d \<and> d \<le> month_length y mo \<and> h < 24 \<and> mi < 60 \<and> s < 60 \<and>
     (day_number y mo d - 719162) * 86400 + int (h * 3600 + mi * 60 + s) = int (unat t)"
proof -
  let ?d = "unat t div 86400" and ?r = "unat t mod 86400"
  obtain dy y where y: "year_loop ?d 1970 = (dy, y)" by fastforce
  obtain m dm where m: "month_loop 12 0 dy y = (m, dm)" by fastforce
  have Y: "days_before y + int dy = days_before 1970 + int ?d" "dy < (if leap y then 366 else 365)" "1970 \<le> y" "y \<le> 1970 + ?d"
    using year_loop_exact [OF y] by blast+
  have "dy < sum_list (map (month_length y) [0 + 1..<13])" using Y by (simp only: add_0 year_length)
  from month_loop_exact [OF m _ this] have M: "m < 12" "dm < month_length y (m + 1)" "dy = sum_list (map (month_length y) [1..<m + 1]) + dm"
    by auto
  have ml: "month_length y (m + 1) \<le> 31" by (rule month_length_le)
  have "unat t < 2 ^ 64" using unat_bounds(4) [of t] by simp
  then have "?d < 2 ^ 63" by (simp add: div_less_iff_less_mult)
  then have lt: "y < 2 ^ 64" using Y(4) by simp
  have "calls (print_utc t w) = calls w @ utc_calls y (m + 1) (dm + 1) (?r div 3600) (?r mod 3600 div 60) (?r mod 3600 mod 60)"
    using M(1,2) ml by (simp add: print_utc_def y m Let_def calls_print2 utc_calls_def less_mult_imp_div_less)
  moreover have "days_before 1970 = 719162" by (simp add: days_before_def Let_def)
  then have dn: "day_number y (m + 1) (dm + 1) - 719162 = int ?d" using Y M(3) by (simp add: day_number_def)
  have "(day_number y (m + 1) (dm + 1) - 719162) * 86400 + int (?r div 3600 * 3600 + ?r mod 3600 div 60 * 60 + ?r mod 3600 mod 60) = int (unat t)"
    unfolding dn by (rule clock_parts)
  moreover have "dm + 1 \<le> month_length y (m + 1)" "1 \<le> m + 1" "m + 1 \<le> 12" "1 \<le> dm + 1" using M by simp_all
  moreover have "?r div 3600 < 24" "?r mod 3600 div 60 < 60" "?r mod 3600 mod 60 < 60" by (simp_all add: less_mult_imp_div_less)
  ultimately show ?thesis using Y(3) lt by blast
qed


subsection \<open>Every program gives its resources back\<close>

lemma print2_holds: "holds w0 h w \<Longrightarrow> holds w0 h (print2 v w)"
  by (simp add: print2_def holds_neutral)

lemma print_utc_holds: "holds w0 h w \<Longrightarrow> holds w0 h (print_utc t w)"
  by (simp add: print_utc_def Let_def case_prod_beta print2_holds holds_neutral)

lemma ntp_holds: "holds w {} (snd (ntp_main args w))"
  by (simp add: ntp_main_def Let_def case_prod_beta holds_rules print_utc_holds split: option.split)

text \<open>What \<^verbatim>\<open>dns.c\<close> relies on: the kernel's answer to the third call, the exchange of datagrams, is at most the room offered.\<close>

definition udp_fits :: "app_world \<Rightarrow> bool" where
  "udp_fits w \<longleftrightarrow> (case drop 2 (env_reply w) of [] \<Rightarrow> True | (v, buf) # rs \<Rightarrow> unat (ucast v :: u16) \<le> 1024)"

lemma call_env: "env_reply (snd (snd (gm_call c w))) = drop 1 (env_reply w)"
  by (simp add: gm_call_def split: list.split)

lemma udp_fits_reply:
  assumes "udp_fits w"
  shows "unat (fst (app_udp_exchange ip port tx n (snd (app_acquire r (snd (app_ticks w)))))) \<le> 1024"
proof -
  have "env_reply (snd (app_acquire r (snd (app_ticks w)))) = drop 2 (env_reply w)"
    by (simp add: app_acquire_def call_int_def app_ticks_def case_prod_beta call_env numeral_2_eq_2)
  then show ?thesis using assms by (auto simp: udp_fits_def app_udp_exchange_def gm_call_def split: list.splits)
qed

lemma dns_holds:
  assumes "udp_fits w"
  shows "\<exists>rc w'. dns_main args w = Ok (rc, w') \<and> holds w {} w'"
proof (cases "dns_args args")
  case None
  then show ?thesis by (simp add: dns_main_def holds_rules)
next
  case (Some a)
  obtain ip name where a: "a = (ip, name)" by fastforce
  define i :: u16 where "i = ucast (fst (app_ticks w) XOR 0x474d)"
  define w1 where "w1 = snd (app_ticks w)"
  define w2 where "w2 = snd (app_acquire 2 w1)"
  have h1: "holds w {} w1" by (simp add: w1_def holds_rules)
  show ?thesis
  proof (cases "dns_build_query name i")
    case None
    then show ?thesis using h1 by (simp add: dns_main_def Some a case_prod_beta Let_def i_def w1_def holds_rules)
  next
    case q: (Some query)
    show ?thesis
    proof (cases "fst (app_acquire 2 w1)")
      case False
      then show ?thesis using q h1 by (simp add: dns_main_def Some a case_prod_beta Let_def i_def w1_def holds_rules)
    next
      case True
      define x where "x = app_udp_exchange ip 53 query 1024 w2"
      define w4 where "w4 = snd (app_release 2 (snd (snd x)))"
      have h4: "holds w {} w4" using True h1 by (simp add: w4_def x_def w2_def holds_rules)
      have "unat (fst x) \<le> length (map (fst (snd x)) [0..<1024])" using udp_fits_reply [OF assms] by (simp add: x_def w2_def w1_def)
      then obtain r w5 where p: "dns_parse_response (map (fst (snd x)) [0..<1024]) (unat (fst x)) i w4 = Ok (r, w5)" "holds w {} w5"
        using dns_parse_response_Ok [OF _ h4] by blast
      then show ?thesis using q True h4
        by (simp add: dns_main_def Some a case_prod_beta Let_def holds_rules flip: i_def w1_def w2_def x_def w4_def del: upt_Suc)
    qed
  qed
qed

text \<open>C15: The programs keep the kernel's resources in order, whatever the kernel and the servers answer. None of them uses the store
  without the TCP resource or exchanges datagrams without the UDP resource, none releases a resource it does not hold, and
  on every path, errors included, none ends holding one. For \<^verbatim>\<open>dns.c\<close> this needs that the kernel writes no more than the room
  the program offers; then it also always ends without an access outside its arrays.\<close>

theorem apps_release_resources:
  assumes "udp_fits w"
  shows "holds w {} (snd (storecat_main args w)) \<and> holds w {} (snd (diag_main args w)) \<and> holds w {} (snd (netping_main args w)) \<and>
    holds w {} (snd (ntp_main args w)) \<and> (\<exists>rc w'. dns_main args w = Ok (rc, w') \<and> holds w {} w')"
  using storecat_holds diag_holds netping_holds ntp_holds dns_holds [OF assms] by blast

theorem apps_release_resources_witness:
  "\<exists>rc w'. dns_main (asc ''10.0.0.1 a.b'') \<lparr>svc_log = [], env_reply = [(5, \<lambda>_. 0), (1, \<lambda>_. 0), (1024, \<lambda>_. 0xff), (1, \<lambda>_. 0)]\<rparr> = Ok (rc, w') \<and>
     holds \<lparr>svc_log = [], env_reply = [(5, \<lambda>_. 0), (1, \<lambda>_. 0), (1024, \<lambda>_. 0xff), (1, \<lambda>_. 0)]\<rparr> {} w'"
  using apps_release_resources [of "\<lparr>svc_log = [], env_reply = [(5, \<lambda>_. 0), (1, \<lambda>_. 0), (1024, \<lambda>_. 0xff), (1, \<lambda>_. 0)]\<rparr>" "asc ''10.0.0.1 a.b''"]
  by (simp add: udp_fits_def)

end
