(* ===== verification/Spec2Isabelle.thy ===== *)
theory Spec2Isabelle
  imports Gmpack Store_Protocol Server_Main Kernel_Main Apps_Net
begin

text \<open>
  Verification library of gmker: a small x86-64 kernel with a VirtIO network driver, an IPv4 stack with one TCP
  connection, a client of the GMSTORE file server, a loader and scheduler for user programs and a command shell; the
  GMSTORE server \<^verbatim>\<open>gmstored\<close>; the image packer \<^verbatim>\<open>gmpack\<close>; and the user programs under \<^verbatim>\<open>gmapps\<close>.

  \<^bold>\<open>How the parts interact.\<close> \<^verbatim>\<open>kernel_main\<close> starts the components in order and then polls for ever: received frames
  climb from the driver through Ethernet, IPv4 and TCP or UDP; the shell reads the serial line and runs commands; the
  loader fetches program images from the store server over the one TCP connection; ready programs run in address spaces
  of their own and enter the kernel only by the service interrupt, the timer and faults. The two shared resources, the TCP
  connection and UDP, are handed out by a lock manager. The packer writes the images that the loader checks; the server
  answers the requests that the client of the kernel writes.

  \<^bold>\<open>How code becomes definitions.\<close> Integers keep their widths as words; buffers are byte lists, C strings the bytes
  before the NUL, pointers that may be NULL options. A loop is a recursive function with a termination proof. An operation that can
  end in \<^verbatim>\<open>gm_panic\<close> has the type \<open>outcome\<close>. The static variables of the kernel are one chain of extensible records,
  \<open>gm_machine\<close>, \<open>gm_virtio\<close>, \<open>gm_net\<close>, \<open>gm_tcp\<close>, \<open>gm_programs\<close>, so that a function of a lower layer applies unchanged to the
  state of a higher one; the shell's variables are the record \<open>gm_shell\<close>. Whatever the code does not control is an
  environment field about which nothing is assumed: the arrival of timer interrupts (\<open>env_ticks\<close>), the memory that the
  network device writes (\<open>env_dev\<close>), the registers of the device and the PCI configuration space (\<open>virtio_hw\<close>), the serial line
  (\<open>env_serial\<close>), the results of the server's system calls (\<open>env_sys\<close>, \<open>env_recv\<close>, \<open>env_send\<close>, \<open>env_accept\<close>, \<open>start_sys\<close>), where a listing begins (\<open>env_scan\<close>)
  and, for the programs, the answers of the kernel (\<open>env_reply\<close>).

  \<^bold>\<open>Theories, in the order of the code.\<close>
  \<^item> \<open>Gm_Prelude\<close>: word widths, byte strings, \<open>outcome\<close>, collections of rewrite rules. \<open>Gm_Machine\<close>: tick counter, \<^verbatim>\<open>hlt\<close>, console
    (\<^verbatim>\<open>core.c\<close>); the measure by which every waiting loop ends.
  \<^item> \<open>Core_Runtime\<close>, \<open>Core_Numbers\<close>: \<^verbatim>\<open>gm_memcpy\<close> to \<^verbatim>\<open>gm_starts\<close>, the parsers and printers of \<^verbatim>\<open>core.c\<close>. Shown: each loop computes its
    list function; \<^verbatim>\<open>gm_parse_u64\<close> is exact, overflow included; printing and parsing are inverse.
  \<^item> \<open>Core_Memory\<close>, \<open>Core_Paging\<close>: the page allocator and the four-level tables of \<^verbatim>\<open>core.c\<close>, and what an access in user mode
    reaches in the tables that \<^verbatim>\<open>gm_programs_init\<close> builds. Shown: exactly the user range, disjoint between programs and
    from every table.
  \<^item> \<open>Core_Irq\<close>: descriptor tables, interrupt gates, interrupt controllers, timer and UART set-up as the bytes written.
    Shown: which gate leads where and what programs may raise.
  \<^item> \<open>Virtio_Init\<close>, \<open>Virtio_Net\<close>: \<^verbatim>\<open>virtio.c\<close>, from the search on the PCI bus to both queues. Shown: set-up never panics with
    154 free pages; the ring addresses in the registers of the device are the driver's, and all memory given to the device
    is fresh and disjoint; the queues stay consistent against every device. \<open>virtio_ok\<close> describes the queues of a device in
    service, \<open>driver_ok\<close> asks it only then: at boot there are no queues.
  \<^item> \<open>Net_Checksum\<close>, \<open>Net_Base\<close>, \<open>Net_Input\<close>, \<open>Net_Client\<close>: \<^verbatim>\<open>net.c\<close> and \<^verbatim>\<open>gm_pump\<close>. The ARP cache implements the locale \<open>lossy_cache\<close>;
    what every pumping loop keeps is the locale \<open>pump_invariant\<close>. Shown: checksums verify, packets survive sending and
    receiving, echo requests are answered, UDP exchanges stay in bounds and end, the pump keeps \<open>net_ok\<close>.
  \<^item> \<open>Tcp_Ring\<close>, \<open>Tcp_Conn\<close>, \<open>Tcp_Client\<close>, \<open>Store_Client\<close>: \<^verbatim>\<open>tcpstore.c\<close>. The receive ring implements \<open>bounded_queue\<close>; \<open>tcp_invariant\<close> and
    \<open>store_invariant\<close> extend \<open>pump_invariant\<close> to the waiting operations. Shown: the ring is a FIFO; the state machine changes
    only as listed; the bytes delivered are an initial part of what the peer sent; requests are one line without injection;
    reads respect the buffer.
  \<^item> \<open>Programs_State\<close>, \<open>Programs_Loader\<close>, \<open>Programs_Run\<close>, \<open>Programs_Init\<close>: the operations of \<^verbatim>\<open>programs.c\<close>. \<open>Programs_Resource\<close>: the
    resource manager refines a FIFO lock manager. \<open>Programs_Safety\<close>, \<open>Programs_System\<close>: every service, timer interrupt and
    fault keeps the invariants and changes user memory only of the caller; loaded images are checked; starting a program and
    a look at a periodic entry change exactly what they should; the scheduler is fair.
  \<^item> \<open>Kernel_Config\<close>, \<open>Shell\<close>, \<open>Kernel_Main\<close>: \<^verbatim>\<open>kernel.c\<close> and \<^verbatim>\<open>shell.c\<close>. The whole system is the step relation \<open>system_step\<close>; shown by rule
    induction on \<open>system_reach\<close>: it boots, never panics, and programs stay confined.
  \<^item> \<open>Gmpack\<close>: \<^verbatim>\<open>gmpack.c\<close>. Shown: what it packs, the kernel loads.
  \<^item> \<open>Server_Files\<close>, \<open>Store_Server\<close>, \<open>Server_Safety\<close>, \<open>Server_System\<close>, \<open>Server_Conns\<close>, \<open>Server_Main\<close>: \<^verbatim>\<open>gmstored.c\<close> on a file tree whose every
    system call may fail. Shown: the buffers of a client are never overrun, a request changes only the file it names, start-up is all or
    nothing unless \<^verbatim>\<open>realpath\<close> overruns its array, and every accepted socket is closed exactly once. The sockets accepted, refused and closed
    are logged in fields that the code does not have; descriptors of files opened for one request are not tracked.
    \<open>Store_Protocol\<close> joins the kernel's client to the server: what is written is read back.
  \<^item> \<open>Apps_Base\<close>, \<open>Apps_Net\<close>: \<^verbatim>\<open>gmprog.h\<close> and the six programs of \<^verbatim>\<open>gmapps\<close>. Shown: \<^verbatim>\<open>primes100\<close> prints the first hundred primes, DNS
    names survive the question and no answer leads out of bounds, the calendar of \<^verbatim>\<open>ntp\<close> is the Gregorian one, defined apart from the code, and every
    program gives its resources back.

  \<^bold>\<open>Bounds and fuel.\<close> Most loops are total by a measure. The explicit bounds are those of the source, with a proof that the bound is
    never what ends the loop: 61 rounds for the accounting of a resource (60 epochs of 1000 ticks and the partial one,
    \<open>accounting_terminates\<close>, for a clock more than a second below \<open>2 ^ 64\<close>), 540 rounds for \<^verbatim>\<open>primes100\<close> (the hundredth prime is 541), 8 descriptors of a queue, 4 slots of the scheduler.
    The jumps in a DNS name (32) and the entries of the PCI capability list (48) are limits that the code itself has.
    100 free pages are enough for the four address spaces of 25 pages each, 154 for the network device. Loops that the
    peer can keep alive for ever (\<^verbatim>\<open>store ls\<close>, \<^verbatim>\<open>store cat\<close>, \<^verbatim>\<open>programs\<close>) are partial functions with \<open>None\<close> for not returning. An environment list
    is finite: what is proved holds for every finite run.

  \<^bold>\<open>Not modelled.\<close> The single-instruction wrappers of \<^verbatim>\<open>gmker.h\<close> and \<^verbatim>\<open>core.c\<close> (port access, CR2, CR3, \<^verbatim>\<open>invlpg\<close>, barriers) and the
  register saving of \<^verbatim>\<open>isr.asm\<close>: their effect is an event, an argument or a frame of the definitions that use them. The TLB and
  the caches; the wait of \<^verbatim>\<open>gm_putc\<close> for the UART. The machine code of the programs: a running program is
  an arbitrary sequence of writes to its own memory, service calls and faults, and \<open>Apps_Base\<close> and \<open>Apps_Net\<close> treat the sources of the programs
  separately. \<^verbatim>\<open>perror\<close> and \<^verbatim>\<open>gm_usage\<close> of the server, which only print. \<^verbatim>\<open>limine.h\<close>, a vendored header of
  declarations, of whose contents the record \<open>boot_info\<close> holds what the kernel reads. The build files and the test script.
\<close>

end
